(* ===== verification/Prelude.thy ===== *)
theory Prelude
  imports Complex_Main "HOL-Library.Multiset"
begin

text \<open>
  Shared material of the development.

  \<^item> machine integers: a \<open>uint32_t\<close> is a \<open>nat\<close> kept below \<open>2 ^ 32\<close> by writing the
    wrap-around of every arithmetic operation out (\<open>u32_add\<close>, \<open>u32_sub\<close>, \<open>u32_mul\<close>);
  \<^item> the C++ failures a function can end in (\<open>fault\<close>), the left side of the result type
    \<open>'a res\<close>, with the monadic composition \<open>bind_res\<close>;
  \<^item> \<open>cells_loop\<close>, the loop \<open>for (i = 0; i < size; ++i)\<close> that rewrites the i-th element of
    an array and threads its local variables, with the rules the components use to reason
    about it;
  \<^item> generic lemmas on lists, and the named collections of the development.
\<close>

section \<open>Named collections\<close>

named_theorems u32_simps \<open>unfolds the 32-bit unsigned operations\<close>
named_theorems kv_simps \<open>unfolds the operations on cache cells\<close>
named_theorems wf_intros \<open>introduction rules for the well-formedness predicates\<close>

section \<open>Machine integers\<close>

type_synonym u32 = nat

definition u32_max :: nat where
  "u32_max = 2 ^ 32"

definition u32_add :: "u32 \<Rightarrow> u32 \<Rightarrow> u32" where
  "u32_add a b = (a + b) mod 2 ^ 32"

definition u32_sub :: "u32 \<Rightarrow> u32 \<Rightarrow> u32" where
  "u32_sub a b = (a + (2 ^ 32 - b mod 2 ^ 32)) mod 2 ^ 32"

definition u32_mul :: "u32 \<Rightarrow> u32 \<Rightarrow> u32" where
  "u32_mul a b = (a * b) mod 2 ^ 32"

lemma u32_add_small [simp]: "a + b < 2 ^ 32 \<Longrightarrow> u32_add a b = a + b"
  by (simp add: u32_add_def)

lemma u32_mul_small [simp]: "a * b < 2 ^ 32 \<Longrightarrow> u32_mul a b = a * b"
  by (simp add: u32_mul_def)

lemma u32_sub_small [simp]:
  assumes "b \<le> a" "a < 2 ^ 32"
  shows "u32_sub a b = a - b"
proof -
  have "a + (2 ^ 32 - b mod 2 ^ 32) = (a - b) + 2 ^ 32"
    using assms by simp
  then show ?thesis
    using assms unfolding u32_sub_def by (simp only: mod_add_self2) simp
qed

lemma u32_add_less: "u32_add a b < 2 ^ 32"
  by (simp add: u32_add_def)

text \<open>The largest value of a \<open>llama_pos\<close>, \<open>std::numeric_limits<int32_t>::max()\<close>.\<close>

definition int32_max :: int where
  "int32_max = 2147483647"

text \<open>The conversion of a value to \<open>uint32_t\<close>, as in \<open>(uint32_t) seq_id\<close>.\<close>

definition to_u32 :: "int \<Rightarrow> u32" where
  "to_u32 i = nat (i mod 2 ^ 32)"

lemma to_u32_nonneg [simp]: "0 \<le> i \<Longrightarrow> i < 2 ^ 32 \<Longrightarrow> to_u32 i = nat i"
  by (simp add: to_u32_def)

section \<open>Failures as values\<close>

text \<open>
  \<open>Assert_fail\<close> is \<open>GGML_ASSERT\<close> or \<open>GGML_ABORT\<close> ending the process, \<open>Throw\<close> an exception
  with its message, \<open>Out_of_range\<close> an access outside an array (undefined behaviour in C++).
\<close>

datatype fault =
    Assert_fail string
  | Throw string
  | Out_of_range

type_synonym 'a res = "fault + 'a"

definition bind_res :: "'a res \<Rightarrow> ('a \<Rightarrow> 'b res) \<Rightarrow> 'b res" where
  "bind_res r f = (case r of Inl e \<Rightarrow> Inl e | Inr a \<Rightarrow> f a)"

lemma bind_res_simps [simp]:
  "bind_res (Inl e) f = Inl e"
  "bind_res (Inr a) f = f a"
  by (simp_all add: bind_res_def)

lemma bind_res_eq_Inr:
  "bind_res r f = Inr b \<longleftrightarrow> (\<exists>a. r = Inr a \<and> f a = Inr b)"
  by (cases r) auto

definition ok :: "'a res \<Rightarrow> bool" where
  "ok r = (case r of Inl _ \<Rightarrow> False | Inr _ \<Rightarrow> True)"

lemma ok_simps [simp]: "\<not> ok (Inl e)" "ok (Inr a)"
  by (simp_all add: ok_def)

section \<open>Loops over an array\<close>

fun cells_loop ::
  "(nat \<Rightarrow> 'c \<Rightarrow> 's \<Rightarrow> 'c \<times> 's) \<Rightarrow> nat \<Rightarrow> 'c list \<Rightarrow> 's \<Rightarrow> 'c list \<times> 's" where
  "cells_loop f i [] s = ([], s)"
| "cells_loop f i (c # cs) s =
     (let r = f i c s; rest = cells_loop f (Suc i) cs (snd r)
      in (fst r # fst rest, snd rest))"

lemma length_cells_loop [simp]: "length (fst (cells_loop f i cs s)) = length cs"
  by (induction cs arbitrary: i s) (auto simp: Let_def)

text \<open>
  When the new value of a cell does not depend on the loop's variables, the loop maps a
  function over the array and folds another over it.
\<close>

lemma fst_cells_loop:
  assumes "\<And>i c s. fst (f i c s) = g c"
  shows "fst (cells_loop f i cs s) = map g cs"
  by (induction cs arbitrary: i s) (auto simp: Let_def assms)

lemma nth_cells_loop:
  assumes "\<And>i c s. fst (f i c s) = g i c" "k < length cs"
  shows "fst (cells_loop f i cs s) ! k = g (i + k) (cs ! k)"
  using assms(2)
proof (induction cs arbitrary: i s k)
  case (Cons c cs)
  then show ?case using Cons.IH [of "k - 1" "Suc i"] by (cases k) (auto simp: Let_def assms(1))
qed simp

lemma cells_loop_invariant:
  assumes "P i s"
    and "\<And>j c s. i \<le> j \<Longrightarrow> j < i + length cs \<Longrightarrow> c = cs ! (j - i) \<Longrightarrow> P j s
           \<Longrightarrow> P (Suc j) (snd (f j c s))"
  shows "P (i + length cs) (snd (cells_loop f i cs s))"
  using assms
proof (induction cs arbitrary: i s)
  case Nil
  then show ?case by simp
next
  case (Cons c cs)
  obtain c' s' where f: "f i c s = (c', s')" by fastforce
  have "P (Suc i) s'"
    using Cons.prems(2) [of i c s] Cons.prems(1) f by simp
  moreover have "P (Suc j) (snd (f j d t))"
    if "Suc i \<le> j" "j < Suc i + length cs" "d = cs ! (j - Suc i)" "P j t" for j d t
    using Cons.prems(2) [of j d t] that by (auto simp: Suc_diff_le nth_Cons' )
  ultimately have "P (Suc i + length cs) (snd (cells_loop f (Suc i) cs s'))"
    by (rule Cons.IH)
  then show ?case
    by (simp add: f Let_def)
qed

section \<open>Counting\<close>

definition count_if :: "('a \<Rightarrow> bool) \<Rightarrow> 'a list \<Rightarrow> nat" where
  "count_if P xs = length (filter P xs)"

lemma count_if_simps [simp]:
  "count_if P [] = 0"
  "count_if P (x # xs) = (if P x then Suc (count_if P xs) else count_if P xs)"
  "count_if P (xs @ ys) = count_if P xs + count_if P ys"
  by (simp_all add: count_if_def)

lemma count_if_le: "count_if P xs \<le> length xs"
  by (simp add: count_if_def)

lemma count_if_map: "count_if P (map f xs) = count_if (P \<circ> f) xs"
  by (simp add: count_if_def filter_map)

lemma count_if_cong:
  "(\<And>x. x \<in> set xs \<Longrightarrow> P x = Q x) \<Longrightarrow> count_if P xs = count_if Q xs"
  unfolding count_if_def by (metis filter_cong)

lemma count_if_mono:
  "(\<And>x. x \<in> set xs \<Longrightarrow> P x \<Longrightarrow> Q x) \<Longrightarrow> count_if P xs \<le> count_if Q xs"
  by (induction xs) auto

lemma count_if_eq_length: "(\<And>x. x \<in> set xs \<Longrightarrow> P x) \<Longrightarrow> count_if P xs = length xs"
  by (simp add: count_if_def)

lemma count_if_eq_0: "count_if P xs = 0 \<longleftrightarrow> (\<forall>x \<in> set xs. \<not> P x)"
  by (simp add: count_if_def filter_empty_conv)

lemma count_if_list_update:
  "i < length xs \<Longrightarrow>
   count_if P (xs[i := y]) + (if P (xs ! i) then 1 else 0)
     = count_if P xs + (if P y then 1 else 0)"
proof (induction xs arbitrary: i)
  case (Cons x xs)
  then show ?case by (cases i) auto
qed simp

lemma count_if_split: "count_if P xs = count_if P (take k xs) + count_if P (drop k xs)"
  by (metis append_take_drop_id count_if_simps(3))

text \<open>Counting after a scan that clears the flag \<open>P\<close> exactly at the freed elements.\<close>

lemma count_if_scan:
  assumes "length ys = length xs" "\<And>i. i < length xs \<Longrightarrow> P (ys ! i) \<longleftrightarrow> P (xs ! i) \<and> \<not> fr (xs ! i)"
    and "\<And>x. x \<in> set xs \<Longrightarrow> fr x \<Longrightarrow> P x"
  shows "count_if P ys = count_if P xs - count_if fr xs" "count_if fr xs \<le> count_if P xs"
proof -
  have "{i. i < length ys \<and> P (ys ! i)} = {i. i < length xs \<and> P (xs ! i) \<and> \<not> fr (xs ! i)}"
    using assms(1,2) by auto
  then have eq: "count_if P ys = count_if (\<lambda>x. P x \<and> \<not> fr x) xs"
    by (simp add: count_if_def length_filter_conv_card)
  have "count_if P xs = count_if (\<lambda>x. P x \<and> \<not> fr x) xs + count_if fr xs"
    using assms(3) by (induction xs) auto
  then show "count_if P ys = count_if P xs - count_if fr xs" "count_if fr xs \<le> count_if P xs"
    using eq by simp_all
qed

text \<open>
  Loop variables of a scan that frees cells: a counter decremented for every freed cell, and
  the first index at which something was freed (\<open>sz\<close> as long as there is none).
\<close>

lemma cells_loop_dec:
  assumes step: "\<And>i c s. u (snd (f i c s)) = (if fr c then u32_sub (u s) 1 else u s)"
    and "count_if fr cs \<le> u s" "u s < 2 ^ 32"
  shows "u (snd (cells_loop f i cs s)) = u s - count_if fr cs"
  using assms(2,3)
proof (induction cs arbitrary: i s)
  case (Cons c cs)
  then have u: "u (snd (f i c s)) = u s - (if fr c then 1 else 0)"
    by (auto simp: step split: if_splits)
  have "count_if fr cs \<le> u (snd (f i c s))" "u (snd (f i c s)) < 2 ^ 32"
    using Cons.prems u by (auto split: if_splits)
  then have "u (snd (cells_loop f (Suc i) cs (snd (f i c s)))) = u (snd (f i c s)) - count_if fr cs"
    by (rule Cons.IH)
  then show ?case
    using u by (auto simp: Let_def)
qed simp

lemma cells_loop_first:
  assumes step: "\<And>i c s. v (snd (f i c s)) = (if fr c \<and> v s = sz then i else v s)"
  shows "v (snd (cells_loop f i cs s)) = v s
         \<or> i \<le> v (snd (cells_loop f i cs s)) \<and> v (snd (cells_loop f i cs s)) < i + length cs"
proof (induction cs arbitrary: i s)
  case (Cons c cs)
  show ?case
    using Cons.IH [of "Suc i" "snd (f i c s)"] step [of i c s]
    by (auto simp: Let_def split: if_splits)
qed simp

section \<open>Arrays\<close>

text \<open>\<open>std::vector::resize\<close>: truncates, or appends the value-initialised element.\<close>

definition resize :: "'a \<Rightarrow> nat \<Rightarrow> 'a list \<Rightarrow> 'a list" where
  "resize z n xs = take n xs @ replicate (n - length xs) z"

lemma length_resize [simp]: "length (resize z n xs) = n"
  by (simp add: resize_def)

text \<open>
  \<open>write_at k ys xs\<close> is the loop \<open>for (i = 0; i < |ys|; ++i) xs[k + i] = ys[i]\<close> on an array
  large enough.
\<close>

fun write_at :: "nat \<Rightarrow> 'a list \<Rightarrow> 'a list \<Rightarrow> 'a list" where
  "write_at k [] xs = xs"
| "write_at k (y # ys) xs = write_at (Suc k) ys (xs[k := y])"

lemma length_write_at [simp]: "length (write_at k ys xs) = length xs"
  by (induction ys arbitrary: k xs) auto

lemma write_at_take:
  "k + length ys \<le> length xs \<Longrightarrow>
   take (k + length ys) (write_at k ys xs) = take k xs @ ys"
proof (induction ys arbitrary: k xs)
  case (Cons y ys)
  have "take (Suc k + length ys) (write_at (Suc k) ys (xs[k := y])) = take (Suc k) (xs[k := y]) @ ys"
    using Cons.IH [of "Suc k" "xs[k := y]"] Cons.prems by simp
  moreover have "take (Suc k) (xs[k := y]) = take k xs @ [y]"
    using Cons.prems by (simp add: take_Suc_conv_app_nth)
  ultimately show ?case by simp
qed simp

lemma nth_write_at:
  "k + length ys \<le> length xs \<Longrightarrow> i < length xs \<Longrightarrow>
   write_at k ys xs ! i = (if k \<le> i \<and> i < k + length ys then ys ! (i - k) else xs ! i)"
proof (induction ys arbitrary: k xs)
  case (Cons y ys)
  then show ?case
    by (cases "i = k") (auto simp: nth_Cons' nth_list_update)
qed auto

section \<open>Sorting\<close>

text \<open>
  \<open>std::sort\<close> with a comparison: an insertion sort. The order \<open>std::sort\<close> gives elements
  the comparison does not separate is unspecified; the development uses only that the result
  is a permutation sorted for the comparison (\<open>mset_std_sort\<close>, \<open>sorted_std_sort\<close>).
\<close>

fun std_insert :: "('a \<Rightarrow> 'a \<Rightarrow> bool) \<Rightarrow> 'a \<Rightarrow> 'a list \<Rightarrow> 'a list" where
  "std_insert lt x [] = [x]"
| "std_insert lt x (y # ys) = (if lt y x then y # std_insert lt x ys else x # y # ys)"

definition std_sort :: "('a \<Rightarrow> 'a \<Rightarrow> bool) \<Rightarrow> 'a list \<Rightarrow> 'a list" where
  "std_sort lt xs = foldr (std_insert lt) xs []"

lemma mset_std_insert [simp]: "mset (std_insert lt x xs) = add_mset x (mset xs)"
  by (induction xs) auto

lemma mset_std_sort [simp]: "mset (std_sort lt xs) = mset xs"
  unfolding std_sort_def by (induction xs) auto

lemma set_std_insert [simp]: "set (std_insert lt x xs) = insert x (set xs)"
  by (induction xs) auto

lemma set_std_sort [simp]: "set (std_sort lt xs) = set xs"
  by (metis mset_std_sort set_mset_mset)

lemma length_std_sort [simp]: "length (std_sort lt xs) = length xs"
  by (metis mset_std_sort size_mset)

lemma sorted_std_insert:
  assumes "sorted_wrt (\<lambda>a b. \<not> lt b a) xs"
    and tr: "\<And>a b c. \<not> lt b a \<Longrightarrow> \<not> lt c b \<Longrightarrow> \<not> lt c a"
    and asym: "\<And>a b. lt a b \<Longrightarrow> \<not> lt b a"
  shows "sorted_wrt (\<lambda>a b. \<not> lt b a) (std_insert lt x xs)"
  using assms(1)
proof (induction xs)
  case (Cons y ys)
  show ?case
  proof (cases "lt y x")
    case True
    then show ?thesis using Cons asym by auto
  next
    case False
    moreover have "\<not> lt z x" if "z \<in> set ys" for z
      using that Cons.prems False tr by auto
    ultimately show ?thesis using Cons.prems by simp
  qed
qed simp

lemma sorted_std_sort:
  assumes "\<And>a b c. \<not> lt b a \<Longrightarrow> \<not> lt c b \<Longrightarrow> \<not> lt c a"
    and "\<And>a b. lt a b \<Longrightarrow> \<not> lt b a"
  shows "sorted_wrt (\<lambda>a b. \<not> lt b a) (std_sort lt xs)"
  unfolding std_sort_def
proof (induction xs)
  case (Cons x xs)
  then show ?case
    using sorted_std_insert [OF Cons.IH assms, where x = x] by simp
qed simp

lemma mset_concat_map: "mset (concat (map f xs)) = (\<Sum>x \<in># mset xs. mset (f x))"
  by (induction xs) auto

lemma drop_prefix: "xs = ys @ zs \<Longrightarrow> length ys = n \<Longrightarrow> drop n xs = zs"
  by simp

lemma length_filter_all:
  assumes "length (filter P xs) = length xs"
  shows "\<forall>x \<in> set xs. P x"
proof (rule ballI, rule ccontr)
  fix x assume "x \<in> set xs" "\<not> P x"
  then show False using length_filter_less [of x xs P] assms by simp
qed

end
