(* ===== verification/Batch.thy ===== *)
theory Batch
  imports Prelude
begin

text \<open>
  Batches and their splitting, \<open>src/llama-batch.{h,cpp}\<close>: \<open>llama_batch_allocr\<close> completes a
  user's batch, \<open>llama_sbatch\<close> groups its tokens by sequence and cuts micro-batches
  (\<open>llama_ubatch\<close>) out of it with \<open>split_simple\<close>, \<open>split_equal\<close> and \<open>split_seq\<close>.

  A nullable pointer to an array is an \<open>option\<close> of a list; a pointer into the middle of an
  array (\<open>batch->pos + seq.offset\<close>) is the rest of the list. An embedding is a list of rows of
  \<open>n_embd\<close> floats. The counters are below \<open>2 ^ 31\<close> because \<open>llama_batch::n_tokens\<close> is an
  \<open>int32_t\<close>, so they are plain natural numbers.
\<close>

section \<open>Data\<close>

record llama_batch =
  b_n_tokens :: int
  b_token :: "int list option"
  b_embd :: "real list list option"
  b_pos :: "int list option"
  b_n_seq_id :: "int list option"
  b_seq_id :: "int list list option"
  b_logits :: "int list option"

record llama_ubatch =
  equal_seqs :: bool
  n_tokens :: nat
  n_seq_tokens :: nat
  n_seqs :: nat
  ub_token :: "int list option"
  ub_embd :: "real list list option"
  ub_pos :: "int list"
  ub_n_seq_id :: "int list"
  ub_seq_id :: "int list list"
  ub_output :: "int list"

text \<open>A sequence of an \<open>sbatch\<close>; \<open>sq_seq_id = None\<close> is the null pointer of a simple split.\<close>

record llama_sbatch_seq =
  sq_n_seq_id :: int
  sq_seq_id :: "int list option"
  sq_offset :: nat
  sq_length :: nat

record llama_sbatch =
  sb_n_tokens :: nat
  sb_n_embd :: nat
  logits_all :: bool
  sb_ids :: "nat list"
  out_ids :: "nat list"
  sb_seq :: "llama_sbatch_seq list"
  sb_batch :: "llama_batch option"
  ubatch_token :: "int list"
  ubatch_embd :: "real list list"
  ubatch_pos :: "int list"
  ubatch_n_seq_id :: "int list"
  ubatch_seq_id :: "int list list"
  ubatch_output :: "int list"

section \<open>Cutting micro-batches\<close>

text \<open>\<open>reserve_ubatch\<close>: drops the exhausted sequences at the end, sizes the buffers.\<close>

definition pop_empty_seqs :: "llama_sbatch_seq list \<Rightarrow> llama_sbatch_seq list" where
  "pop_empty_seqs sqs = rev (dropWhile (\<lambda>q. sq_length q = 0) (rev sqs))"

definition reserve_ubatch :: "nat \<Rightarrow> bool \<Rightarrow> llama_sbatch \<Rightarrow> llama_sbatch \<times> llama_ubatch" where
  "reserve_ubatch n_ubatch has_embd sb =
     (let sb1 = sb\<lparr>sb_seq := pop_empty_seqs (sb_seq sb),
                   ubatch_token := resize 0 (if \<not> has_embd then n_ubatch else 0) (ubatch_token sb),
                   ubatch_embd := resize [] (if has_embd then n_ubatch else 0) (ubatch_embd sb),
                   ubatch_pos := resize 0 n_ubatch (ubatch_pos sb),
                   ubatch_n_seq_id := resize 0 n_ubatch (ubatch_n_seq_id sb),
                   ubatch_seq_id := resize [] n_ubatch (ubatch_seq_id sb),
                   ubatch_output := resize 0 n_ubatch (ubatch_output sb)\<rparr>
      in (sb1, \<lparr>equal_seqs = True, n_tokens = 0, n_seq_tokens = 0, n_seqs = 0,
                ub_token = (if \<not> has_embd then Some (ubatch_token sb1) else None),
                ub_embd = (if has_embd then Some (ubatch_embd sb1) else None),
                ub_pos = ubatch_pos sb1,
                ub_n_seq_id = ubatch_n_seq_id sb1,
                ub_seq_id = ubatch_seq_id sb1,
                ub_output = ubatch_output sb1\<rparr>))"

text \<open>The entries of an array at the given indices, in order.\<close>

definition gather :: "'a list \<Rightarrow> nat list \<Rightarrow> 'a list" where
  "gather xs js = map (\<lambda>j. xs ! j) js"

text \<open>
  The assertions at the start of \<open>add_seq_to_ubatch\<close>. An index outside the arrays of the
  batch is an \<open>Out_of_range\<close> fault.
\<close>

definition add_seq_guard ::
  "llama_sbatch \<Rightarrow> llama_ubatch \<Rightarrow> llama_sbatch_seq \<Rightarrow> nat \<Rightarrow> llama_batch res" where
  "add_seq_guard sb ub sq len =
     (case sb_batch sb of
        None \<Rightarrow> Inl (Assert_fail ''batch != nullptr'')
      | Some b \<Rightarrow>
          if \<not> len \<le> sq_length sq then Inl (Assert_fail ''length <= seq.length'')
          else if \<not> (sq_n_seq_id sq = 0 \<or> n_seqs ub = 0 \<or> len = n_tokens ub div n_seqs ub)
            then Inl (Assert_fail ''length == ubatch.n_tokens / ubatch.n_seqs'')
          else if \<not> ((sq_n_seq_id sq \<noteq> 0) = equal_seqs ub)
            then Inl (Assert_fail ''(seq.n_seq_id != 0) == ubatch.equal_seqs'')
          else if \<not> (sq_offset sq + len \<le> length (sb_ids sb)
                      \<and> (\<forall>j \<in> set (sb_ids sb). int j < b_n_tokens b)
                      \<and> b_pos b \<noteq> None)
            then Inl Out_of_range
          else Inr b)"

text \<open>The outputs: which entries of the micro-batch produce logits, and their batch indices.\<close>

definition add_seq_output ::
  "llama_sbatch \<Rightarrow> llama_ubatch \<Rightarrow> llama_batch \<Rightarrow> llama_sbatch_seq \<Rightarrow> nat \<Rightarrow> int list \<times> nat list" where
  "add_seq_output sb ub b sq len =
     (let sel = take len (drop (sq_offset sq) (sb_ids sb)) in
      if logits_all sb then
        (write_at (n_tokens ub) (replicate len 1) (ub_output ub), out_ids sb @ sel)
      else case b_logits b of
        Some lg \<Rightarrow>
          if equal_seqs ub then
            (write_at (n_tokens ub) (gather lg sel) (ub_output ub),
             out_ids sb @ filter (\<lambda>j. lg ! j \<noteq> 0) sel)
          else
            (drop (sq_offset sq) lg,
             out_ids sb @ map (\<lambda>i. sq_offset sq + i)
               (filter (\<lambda>i. drop (sq_offset sq) lg ! i \<noteq> 0) [0..<len]))
      | None \<Rightarrow>
          (write_at (n_tokens ub)
             (map (\<lambda>j. if j = length (sb_ids sb) - 1 then 1 else 0) sel) (ub_output ub),
           out_ids sb @ filter (\<lambda>j. j = length (sb_ids sb) - 1) sel))"

definition add_seq_to_ubatch ::
  "llama_sbatch \<Rightarrow> llama_ubatch \<Rightarrow> llama_sbatch_seq \<Rightarrow> nat
     \<Rightarrow> (llama_sbatch \<times> llama_ubatch \<times> llama_sbatch_seq) res" where
  "add_seq_to_ubatch sb ub sq len =
     bind_res (add_seq_guard sb ub sq len) (\<lambda>b.
       let sel = take len (drop (sq_offset sq) (sb_ids sb));
           k = n_tokens ub;
           eq = equal_seqs ub;
           token' = (case b_token b of
               None \<Rightarrow> None
             | Some tk \<Rightarrow> if eq then map_option (write_at k (gather tk sel)) (ub_token ub)
                         else Some (drop (sq_offset sq) tk));
           embd' = (case b_embd b of
               None \<Rightarrow> None
             | Some em \<Rightarrow> if eq then map_option (write_at k (gather em sel)) (ub_embd ub)
                         else Some (drop (sq_offset sq) em));
           pos' = (case b_pos b of
               None \<Rightarrow> ub_pos ub
             | Some ps \<Rightarrow> if eq then write_at k (gather ps sel) (ub_pos ub)
                         else drop (sq_offset sq) ps);
           n_seq_id' = (if eq then (ub_n_seq_id ub)[n_seqs ub := sq_n_seq_id sq]
             else case b_n_seq_id b of
               Some ns \<Rightarrow> drop (sq_offset sq) ns
             | None \<Rightarrow> write_at (n_seqs ub) (replicate len 1) (ub_n_seq_id ub));
           seq_id' = (if eq then
               (case sq_seq_id sq of
                  Some qs \<Rightarrow> (ub_seq_id ub)[n_seqs ub := qs] | None \<Rightarrow> ub_seq_id ub)
             else case b_seq_id b of
               Some ss \<Rightarrow> drop (sq_offset sq) ss | None \<Rightarrow> ub_seq_id ub);
           (output', out_ids') = add_seq_output sb ub b sq len;
           ub' = ub\<lparr>ub_token := token', ub_embd := embd', ub_pos := pos',
                    ub_n_seq_id := n_seq_id', ub_seq_id := seq_id', ub_output := output',
                    n_seq_tokens := (if n_tokens ub = 0 \<and> n_seqs ub = 0
                                     then (if eq then len else 1) else n_seq_tokens ub),
                    n_tokens := n_tokens ub + len,
                    n_seqs := n_seqs ub + (if eq then 1 else len)\<rparr>;
           sq' = sq\<lparr>sq_offset := sq_offset sq + len, sq_length := sq_length sq - len\<rparr>;
           sb' = sb\<lparr>out_ids := out_ids', sb_n_tokens := sb_n_tokens sb - len,
             ubatch_token := (case token' of Some tk \<Rightarrow> if eq then tk else ubatch_token sb
                                             | None \<Rightarrow> ubatch_token sb),
             ubatch_embd := (case embd' of Some em \<Rightarrow> if eq then em else ubatch_embd sb
                                           | None \<Rightarrow> ubatch_embd sb),
             ubatch_pos := (if eq then pos' else ubatch_pos sb),
             ubatch_n_seq_id := (if eq \<or> b_n_seq_id b = None then n_seq_id' else ubatch_n_seq_id sb),
             ubatch_seq_id := (if eq then seq_id' else ubatch_seq_id sb),
             ubatch_output := (if eq \<or> logits_all sb \<or> b_logits b = None then output'
                               else ubatch_output sb)\<rparr>
       in if n_tokens ub' = n_seq_tokens ub' * n_seqs ub' then Inr (sb', ub', sq')
          else Inl (Assert_fail ''ubatch.n_tokens == ubatch.n_seq_tokens * ubatch.n_seqs''))"

text \<open>\<open>batch->embd != nullptr\<close>.\<close>

definition has_embd_batch :: "llama_sbatch \<Rightarrow> bool" where
  "has_embd_batch sb \<longleftrightarrow> (case sb_batch sb of None \<Rightarrow> False | Some b \<Rightarrow> b_embd b \<noteq> None)"

definition split_simple :: "nat \<Rightarrow> llama_sbatch \<Rightarrow> (llama_sbatch \<times> llama_ubatch) res" where
  "split_simple n_ubatch0 sb0 =
     (let n_ubatch = (if sb_n_tokens sb0 < n_ubatch0 then sb_n_tokens sb0 else n_ubatch0);
          (sb, ub0) = reserve_ubatch n_ubatch (has_embd_batch sb0) sb0;
          ub = ub0\<lparr>equal_seqs := False\<rparr>
      in case sb_seq sb of
           [] \<Rightarrow> Inr (sb, ub)
         | s # rest \<Rightarrow>
             let len = (if sq_length s < n_ubatch then sq_length s else n_ubatch) in
             if \<not> (rest = [] \<and> sq_n_seq_id s = 0)
             then Inl (Assert_fail ''seq.size() == 1 && s.n_seq_id == 0'')
             else bind_res (add_seq_to_ubatch sb ub s len)
                    (\<lambda>(sb', ub', s'). Inr (sb'\<lparr>sb_seq := [s']\<rparr>, ub')))"

text \<open>
  The loop of \<open>split_equal\<close> walks the sequences from the last to the first: the argument is the
  reversed list of those not visited yet, the result the reversed list of all of them.
\<close>

fun split_equal_loop ::
  "nat \<Rightarrow> llama_sbatch_seq list \<Rightarrow> nat \<Rightarrow> nat \<Rightarrow> llama_sbatch \<Rightarrow> llama_ubatch
     \<Rightarrow> (llama_sbatch \<times> llama_ubatch \<times> llama_sbatch_seq list) res" where
  "split_equal_loop n_ubatch [] len n_in sb ub = Inr (sb, ub, [])"
| "split_equal_loop n_ubatch (s # ss) len n_in sb ub =
     (if \<not> 0 < sq_length s then Inl (Assert_fail ''s.length > 0'')
      else
        let len' = (if len = 0 then (if sq_length s < n_ubatch then sq_length s else n_ubatch)
                    else len)
        in bind_res (add_seq_to_ubatch sb ub s len') (\<lambda>(sb', ub', s').
             if sq_n_seq_id s' > 1 then Inr (sb', ub', s' # ss)
             else if len' + (n_in + len') > n_ubatch then Inr (sb', ub', s' # ss)
             else bind_res (split_equal_loop n_ubatch ss len' (n_in + len') sb' ub')
                    (\<lambda>(sb'', ub'', ss'). Inr (sb'', ub'', s' # ss'))))"

definition split_equal :: "nat \<Rightarrow> llama_sbatch \<Rightarrow> (llama_sbatch \<times> llama_ubatch) res" where
  "split_equal n_ubatch0 sb0 =
     (let n_ubatch = (if sb_n_tokens sb0 < n_ubatch0 then sb_n_tokens sb0 else n_ubatch0);
          (sb, ub) = reserve_ubatch n_ubatch (has_embd_batch sb0) sb0
      in case sb_seq sb of
           [] \<Rightarrow> Inr (sb, ub)
         | s0 # rest \<Rightarrow>
             if \<not> 0 < sq_n_seq_id s0 then Inl (Assert_fail ''seq[0].n_seq_id > 0'')
             else bind_res (split_equal_loop n_ubatch (rev (s0 # rest)) 0 0 sb ub)
                    (\<lambda>(sb', ub', ss). Inr (sb'\<lparr>sb_seq := rev ss\<rparr>, ub')))"

definition split_seq :: "nat \<Rightarrow> llama_sbatch \<Rightarrow> (llama_sbatch \<times> llama_ubatch) res" where
  "split_seq n_ubatch0 sb0 =
     (let n_ubatch = (if sb_n_tokens sb0 < n_ubatch0 then sb_n_tokens sb0 else n_ubatch0);
          (sb, ub) = reserve_ubatch n_ubatch (has_embd_batch sb0) sb0
      in case sb_seq sb of
           [] \<Rightarrow> Inr (sb, ub)
         | s0 # rest \<Rightarrow>
             let s = last (s0 # rest);
                 len = (if sq_length s < n_ubatch then sq_length s else n_ubatch) in
             if \<not> 0 < sq_n_seq_id s then Inl (Assert_fail ''s.n_seq_id > 0'')
             else bind_res (add_seq_to_ubatch sb ub s len)
                    (\<lambda>(sb', ub', s'). Inr (sb'\<lparr>sb_seq := butlast (s0 # rest) @ [s']\<rparr>, ub')))"

section \<open>Building the sbatch\<close>

text \<open>The comparison of two token indices: shared prompts first, then sequence ids, then position.\<close>

fun seq_ids_less :: "int list \<Rightarrow> int list \<Rightarrow> bool option" where
  "seq_ids_less (a # as) (b # bs) = (if a \<noteq> b then Some (a < b) else seq_ids_less as bs)"
| "seq_ids_less _ _ = None"

definition ids_less :: "llama_batch \<Rightarrow> nat \<Rightarrow> nat \<Rightarrow> bool" where
  "ids_less b x y =
     (let nx = (case b_n_seq_id b of Some ns \<Rightarrow> ns ! x | None \<Rightarrow> 1);
          ny = (case b_n_seq_id b of Some ns \<Rightarrow> ns ! y | None \<Rightarrow> 1)
      in if nx = ny then
           (case (case b_seq_id b of
                    Some ss \<Rightarrow> seq_ids_less (take (nat nx) (ss ! x)) (take (nat nx) (ss ! y))
                  | None \<Rightarrow> None) of
              Some r \<Rightarrow> r
            | None \<Rightarrow> (case b_pos b of Some ps \<Rightarrow> ps ! x < ps ! y | None \<Rightarrow> x < y))
         else nx > ny)"

text \<open>The grouping of consecutive sorted indices with the same sequence ids.\<close>

fun group_seqs ::
  "llama_batch \<Rightarrow> nat list \<Rightarrow> nat \<Rightarrow> llama_sbatch_seq list \<Rightarrow> llama_sbatch_seq list" where
  "group_seqs b [] i acc = rev acc"
| "group_seqs b (bi # bis) i acc =
     (let ns = the (b_n_seq_id b) ! bi; qs = the (b_seq_id b) ! bi in
      case acc of
        [] \<Rightarrow> group_seqs b bis (Suc i) [\<lparr>sq_n_seq_id = ns, sq_seq_id = Some qs, sq_offset = i, sq_length = 1\<rparr>]
      | l # acc' \<Rightarrow>
          if ns = sq_n_seq_id l \<and> take (nat ns) qs = take (nat ns) (the (sq_seq_id l))
          then group_seqs b bis (Suc i) (l\<lparr>sq_length := sq_length l + 1\<rparr> # acc')
          else group_seqs b bis (Suc i)
                 (\<lparr>sq_n_seq_id = ns, sq_seq_id = Some qs, sq_offset = i, sq_length = 1\<rparr> # l # acc'))"

definition seq_less :: "llama_sbatch_seq \<Rightarrow> llama_sbatch_seq \<Rightarrow> bool" where
  "seq_less a b \<longleftrightarrow>
     (if sq_n_seq_id a = sq_n_seq_id b then sq_length a > sq_length b
      else sq_n_seq_id a < sq_n_seq_id b)"

definition sbatch_init :: "llama_batch \<Rightarrow> nat \<Rightarrow> bool \<Rightarrow> bool \<Rightarrow> llama_sbatch res" where
  "sbatch_init b n_embd simple_split lall =
     (if \<not> 0 \<le> b_n_tokens b then Inl (Assert_fail ''batch.n_tokens >= 0'')
      else
        let n = nat (b_n_tokens b);
            sb = \<lparr>sb_n_tokens = n, sb_n_embd = n_embd, logits_all = lall,
                  sb_ids = [0..<n], out_ids = [], sb_seq = [], sb_batch = Some b,
                  ubatch_token = [], ubatch_embd = [], ubatch_pos = [],
                  ubatch_n_seq_id = [], ubatch_seq_id = [], ubatch_output = []\<rparr>
        in if simple_split then
             Inr (sb\<lparr>sb_seq := [\<lparr>sq_n_seq_id = 0, sq_seq_id = None, sq_offset = 0, sq_length = n\<rparr>]\<rparr>)
           else if b_n_seq_id b = None \<or> b_seq_id b = None then Inl Out_of_range
           else
             let ids = std_sort (ids_less b) [0..<n];
                 sqs = std_sort seq_less (group_seqs b ids 0 [])
             in Inr (sb\<lparr>sb_ids := ids, sb_seq := sqs\<rparr>))"

section \<open>Completing a user's batch\<close>

definition batch_get_one :: "int list \<Rightarrow> int \<Rightarrow> llama_batch" where
  "batch_get_one tokens n =
     \<lparr>b_n_tokens = n, b_token = Some tokens, b_embd = None, b_pos = None,
      b_n_seq_id = None, b_seq_id = None, b_logits = None\<rparr>"

definition batch_allocr :: "llama_batch \<Rightarrow> int \<Rightarrow> llama_batch res" where
  "batch_allocr b p0 =
     (if \<not> 0 < b_n_tokens b then Inl (Assert_fail ''batch.n_tokens > 0'')
      else
        let n = nat (b_n_tokens b) in
        Inr (b\<lparr>b_pos := Some (case b_pos b of Some ps \<Rightarrow> ps | None \<Rightarrow> map (\<lambda>i. int i + p0) [0..<n]),
               b_n_seq_id := Some (case b_n_seq_id b of Some ns \<Rightarrow> ns | None \<Rightarrow> replicate n 1),
               b_seq_id := Some (case b_seq_id b of Some ss \<Rightarrow> ss | None \<Rightarrow> replicate n [0]),
               b_logits := Some (case b_logits b of Some lg \<Rightarrow> lg
                                  | None \<Rightarrow> (replicate n 0)[n - 1 := 1])\<rparr>))"

section \<open>Reading a micro-batch\<close>

text \<open>
  What the consumers of a micro-batch rely on: \<open>n_seqs\<close> groups of \<open>n_seq_tokens\<close> tokens, the
  arrays long enough, non-negative positions and at least one sequence for every group.
\<close>

definition ubatch_ok :: "llama_ubatch \<Rightarrow> bool" where
  "ubatch_ok ub \<longleftrightarrow>
     n_tokens ub = n_seqs ub * n_seq_tokens ub
     \<and> n_tokens ub \<le> length (ub_pos ub) \<and> (\<forall>p \<in> set (take (n_tokens ub) (ub_pos ub)). 0 \<le> p)
     \<and> n_seqs ub \<le> length (ub_n_seq_id ub) \<and> n_seqs ub \<le> length (ub_seq_id ub)
     \<and> (\<forall>q < n_seqs ub. 1 \<le> ub_n_seq_id ub ! q \<and> nat (ub_n_seq_id ub ! q) \<le> length (ub_seq_id ub ! q))"

text \<open>The sequences that token \<open>k\<close> of a micro-batch belongs to.\<close>

definition token_seqs :: "llama_ubatch \<Rightarrow> nat \<Rightarrow> int set" where
  "token_seqs ub k =
     (let q = k div n_seq_tokens ub in set (take (nat (ub_n_seq_id ub ! q)) (ub_seq_id ub ! q)))"

end
