(* ===== verification/KvUnified.thy ===== *)
theory KvUnified
  imports Batch "HOL-Library.Word"
begin

text \<open>
  The unified KV cache, \<open>llama_kv_cache_unified\<close> of \<open>src/llama-kv-cache.{h,cpp}\<close>: the
  bookkeeping of the cells (position, shift and owning sequences), the sequence operations of
  \<open>llama_memory_i\<close>, the search for a slot, the pending ranges with commit and restore.

  \<open>llama_pos\<close> and \<open>llama_seq_id\<close> are \<open>int\<close> (signed overflow is undefined behaviour in C++,
  so the model agrees with the code wherever the code has a meaning); \<open>uint32_t\<close> fields are
  \<open>u32\<close> with the wrap-around written out. The tensors of the cache (\<open>k_l\<close>, \<open>v_l\<close>, the
  backend buffers) are not part of this state.
\<close>

unbundle bit_operations_syntax

section \<open>State\<close>

record kv_cell =
  pos :: int
  delta :: int
  seq_id :: "int set"

definition has_seq_id :: "kv_cell \<Rightarrow> int \<Rightarrow> bool" where
  "has_seq_id c q \<longleftrightarrow> q \<in> seq_id c"

definition is_empty :: "kv_cell \<Rightarrow> bool" where
  "is_empty c \<longleftrightarrow> seq_id c = {}"

definition is_same_seq :: "kv_cell \<Rightarrow> kv_cell \<Rightarrow> bool" where
  "is_same_seq c other \<longleftrightarrow> seq_id c = seq_id other"

definition empty_cell :: kv_cell where
  "empty_cell = \<lparr>pos = -1, delta = 0, seq_id = {}\<rparr>"

record kv_cache =
  head :: u32
  kv_size :: u32
  used :: u32
  kv_n :: u32
  cells :: "kv_cell list"
  has_shift :: bool
  do_defrag :: bool
  can_shift :: bool
  padding :: u32
  ranges :: "(u32 \<times> u32) list"
  defrag_ids :: "u32 list"

definition get_padding :: "bool \<Rightarrow> u32" where
  "get_padding flash_attn = (if flash_attn then 256 else 32)"

text \<open>The constructor, without the allocation of the tensors.\<close>

definition kv_cache_init :: "u32 \<Rightarrow> u32 \<Rightarrow> kv_cache res" where
  "kv_cache_init sz padding0 =
     (if sz mod padding0 = 0
      then Inr \<lparr>head = 0, kv_size = sz, used = 0, kv_n = 0,
                cells = replicate sz empty_cell,
                has_shift = False, do_defrag = False, can_shift = True,
                padding = padding0, ranges = [], defrag_ids = []\<rparr>
      else Inl (Assert_fail ''kv_size must be a multiple of padding''))"

section \<open>Sequence operations\<close>

definition clear_cell :: "kv_cell \<Rightarrow> kv_cell" where
  "clear_cell c = c\<lparr>pos := -1, seq_id := {}\<rparr>"

definition clear :: "kv_cache \<Rightarrow> kv_cache" where
  "clear s = s\<lparr>cells := map clear_cell (cells s), head := 0, used := 0\<rparr>"

text \<open>The normalisation of a position range that every operation starts with.\<close>

definition norm_p0 :: "int \<Rightarrow> int" where
  "norm_p0 p0 = (if p0 < 0 then 0 else p0)"

definition norm_p1 :: "int \<Rightarrow> int" where
  "norm_p1 p1 = (if p1 < 0 then int32_max else p1)"

text \<open>One iteration of the loop of \<open>seq_rm\<close>; the loop variables are \<open>used\<close> and \<open>new_head\<close>.\<close>

definition seq_rm_cell ::
  "u32 \<Rightarrow> int \<Rightarrow> int \<Rightarrow> int \<Rightarrow> nat \<Rightarrow> kv_cell \<Rightarrow> u32 \<times> u32 \<Rightarrow> kv_cell \<times> u32 \<times> u32" where
  "seq_rm_cell sz q p0 p1 i c = (\<lambda>(us, nh).
     if p0 \<le> pos c \<and> pos c < p1 then
       (if q < 0 \<or> has_seq_id c q then
          (let c1 = (if q < 0 then c\<lparr>seq_id := {}\<rparr> else c\<lparr>seq_id := seq_id c - {q}\<rparr>) in
           if is_empty c1 then
             (c1\<lparr>pos := -1\<rparr>,
              (if 0 \<le> pos c1 then u32_sub us 1 else us),
              (if nh = sz then i else nh))
           else (c1, us, nh))
        else (c, us, nh))
     else (c, us, nh))"

definition seq_rm :: "int \<Rightarrow> int \<Rightarrow> int \<Rightarrow> kv_cache \<Rightarrow> bool \<times> kv_cache" where
  "seq_rm q p0 p1 s =
     (let p0 = norm_p0 p0; p1 = norm_p1 p1;
          (cs, us, nh) = cells_loop (seq_rm_cell (kv_size s) q p0 p1) 0 (cells s)
                           (used s, kv_size s)
      in (True, s\<lparr>cells := cs, used := us,
                  head := (if nh \<noteq> kv_size s \<and> nh < head s then nh else head s)\<rparr>))"

definition seq_cp :: "int \<Rightarrow> int \<Rightarrow> int \<Rightarrow> int \<Rightarrow> kv_cache \<Rightarrow> kv_cache" where
  "seq_cp src dst p0 p1 s =
     (if src = dst then s
      else let p0 = norm_p0 p0; p1 = norm_p1 p1 in
        s\<lparr>head := 0,
          cells := map (\<lambda>c. if has_seq_id c src \<and> p0 \<le> pos c \<and> pos c < p1
                             then c\<lparr>seq_id := insert dst (seq_id c)\<rparr> else c) (cells s)\<rparr>)"

definition seq_keep_cell ::
  "u32 \<Rightarrow> int \<Rightarrow> nat \<Rightarrow> kv_cell \<Rightarrow> u32 \<times> u32 \<Rightarrow> kv_cell \<times> u32 \<times> u32" where
  "seq_keep_cell sz q i c = (\<lambda>(us, nh).
     if \<not> has_seq_id c q then
       (c\<lparr>pos := -1, seq_id := {}\<rparr>,
        (if 0 \<le> pos c then u32_sub us 1 else us),
        (if nh = sz then i else nh))
     else (c\<lparr>seq_id := {q}\<rparr>, us, nh))"

definition seq_keep :: "int \<Rightarrow> kv_cache \<Rightarrow> kv_cache" where
  "seq_keep q s =
     (let (cs, us, nh) = cells_loop (seq_keep_cell (kv_size s) q) 0 (cells s)
                           (used s, kv_size s)
      in s\<lparr>cells := cs, used := us,
           head := (if nh \<noteq> kv_size s \<and> nh < head s then nh else head s)\<rparr>)"

text \<open>The loop of \<open>seq_add\<close> also raises \<open>has_shift\<close>.\<close>

definition seq_add_cell ::
  "u32 \<Rightarrow> int \<Rightarrow> int \<Rightarrow> int \<Rightarrow> int \<Rightarrow> nat \<Rightarrow> kv_cell \<Rightarrow> u32 \<times> u32 \<times> bool
     \<Rightarrow> kv_cell \<times> u32 \<times> u32 \<times> bool" where
  "seq_add_cell sz q p0 p1 d i c = (\<lambda>(us, nh, sh).
     if has_seq_id c q \<and> p0 \<le> pos c \<and> pos c < p1 then
       (let c1 = c\<lparr>pos := pos c + d, delta := delta c + d\<rparr> in
        if pos c1 < 0 then
          (c1\<lparr>pos := -1, seq_id := {}\<rparr>,
           (if \<not> is_empty c1 then u32_sub us 1 else us),
           (if nh = sz then i else nh), True)
        else (c1, us, nh, True))
     else (c, us, nh, sh))"

definition seq_add :: "int \<Rightarrow> int \<Rightarrow> int \<Rightarrow> int \<Rightarrow> kv_cache \<Rightarrow> kv_cache" where
  "seq_add q p0 p1 d s =
     (if d = 0 then s
      else let p0 = norm_p0 p0; p1 = norm_p1 p1 in
        if p0 = p1 then s
        else let (cs, us, nh, sh) = cells_loop (seq_add_cell (kv_size s) q p0 p1 d) 0 (cells s)
                                      (used s, kv_size s, has_shift s)
             in s\<lparr>cells := cs, used := us, has_shift := sh,
                  head := (if nh \<noteq> kv_size s then nh else 0)\<rparr>)"

text \<open>C++ integer division truncates towards zero.\<close>

definition c_div :: "int \<Rightarrow> int \<Rightarrow> int" where
  "c_div a b = sgn a * sgn b * (\<bar>a\<bar> div \<bar>b\<bar>)"

definition seq_div_cell ::
  "int \<Rightarrow> int \<Rightarrow> int \<Rightarrow> int \<Rightarrow> nat \<Rightarrow> kv_cell \<Rightarrow> bool \<Rightarrow> kv_cell \<times> bool" where
  "seq_div_cell q p0 p1 d i c sh =
     (if has_seq_id c q \<and> p0 \<le> pos c \<and> pos c < p1 then
        (c\<lparr>pos := c_div (pos c) d, delta := delta c + (c_div (pos c) d - pos c)\<rparr>, True)
      else (c, sh))"

definition seq_div :: "int \<Rightarrow> int \<Rightarrow> int \<Rightarrow> int \<Rightarrow> kv_cache \<Rightarrow> kv_cache" where
  "seq_div q p0 p1 d s =
     (if d = 1 then s
      else let p0 = norm_p0 p0; p1 = norm_p1 p1 in
        if p0 = p1 then s
        else let (cs, sh) = cells_loop (seq_div_cell q p0 p1 d) 0 (cells s) (has_shift s)
             in s\<lparr>cells := cs, has_shift := sh\<rparr>)"

definition seq_pos_max :: "int \<Rightarrow> kv_cache \<Rightarrow> int" where
  "seq_pos_max q s =
     fold (\<lambda>c result. if has_seq_id c q then max result (pos c) else result) (cells s) 0"

section \<open>Pending ranges\<close>

text \<open>The inner loop of \<open>restore\<close>, over the cell indices of one range.\<close>

fun restore_range :: "nat list \<Rightarrow> kv_cell list \<times> u32 \<Rightarrow> kv_cell list \<times> u32" where
  "restore_range [] (cs, us) = (cs, us)"
| "restore_range (i # is) (cs, us) =
     restore_range is
       (cs[i := (cs ! i)\<lparr>seq_id := {}, pos := -1\<rparr>],
        if 0 \<le> pos (cs ! i) then u32_sub us 1 else us)"

fun restore_ranges ::
  "(u32 \<times> u32) list \<Rightarrow> kv_cell list \<times> u32 \<times> u32 \<Rightarrow> kv_cell list \<times> u32 \<times> u32" where
  "restore_ranges [] st = st"
| "restore_ranges ((c0, c1) # rs) (cs, us, nh) =
     (let (cs', us') = restore_range [c0..<c1] (cs, us)
      in restore_ranges rs (cs', us', min nh c0))"

definition restore :: "kv_cache \<Rightarrow> kv_cache" where
  "restore s =
     (if ranges s = [] then s
      else let (cs, us, nh) = restore_ranges (ranges s) (cells s, used s, kv_size s)
           in s\<lparr>cells := cs, used := us,
                head := (if nh \<noteq> kv_size s \<and> nh < head s then nh else head s)\<rparr>)"

definition commit :: "kv_cache \<Rightarrow> kv_cache" where
  "commit s = (if ranges s = [] then s else s\<lparr>ranges := []\<rparr>)"

section \<open>Finding a slot\<close>

definition cell_max :: "kv_cache \<Rightarrow> u32" where
  "cell_max s =
     length (dropWhile (\<lambda>c. \<not> (0 \<le> pos c \<and> \<not> is_empty c)) (rev (cells s)))"

text \<open>\<open>GGML_PAD(x, n)\<close> on \<open>uint32_t\<close> operands.\<close>

definition ggml_pad :: "u32 \<Rightarrow> u32 \<Rightarrow> u32" where
  "ggml_pad x n =
     unat ((word_of_nat x + word_of_nat n - 1 :: 32 word) AND NOT (word_of_nat n - 1))"

text \<open>
  The inner loop of the search: the index \<open>i\<close> of the first occupied cell among the \<open>n_tokens\<close>
  cells from \<open>head\<close>, or \<open>None\<close> when all are free.
\<close>

fun probe :: "kv_cell list \<Rightarrow> nat \<Rightarrow> nat \<Rightarrow> nat \<Rightarrow> nat option" where
  "probe cs h i 0 = None"
| "probe cs h i (Suc k) = (if 0 \<le> pos (cs ! (h + i)) then Some i else probe cs h (Suc i) k)"

text \<open>
  The \<open>while (true)\<close> loop: the result is whether a slot was found, and \<open>head\<close>. \<open>None\<close> is a
  loop that does not end.
\<close>

partial_function (option) find_slot_loop ::
  "kv_cell list \<Rightarrow> u32 \<Rightarrow> u32 \<Rightarrow> u32 \<Rightarrow> u32 \<Rightarrow> (bool \<times> u32) option" where
  "find_slot_loop cs nt sz h n_tested =
     (if u32_add h nt > sz
      then find_slot_loop cs nt sz 0 (u32_add n_tested (u32_sub sz h))
      else case probe cs h 0 nt of
             None \<Rightarrow> Some (True, h)
           | Some i \<Rightarrow>
               if u32_add n_tested (i + 1) \<ge> sz then Some (False, u32_add h (i + 1))
               else find_slot_loop cs nt sz (u32_add h (i + 1)) (u32_add n_tested (i + 1)))"

text \<open>The two nested loops that write a micro-batch into the cells from \<open>head\<close> on.\<close>

definition place_token :: "llama_ubatch \<Rightarrow> u32 \<Rightarrow> nat \<times> nat \<Rightarrow> kv_cell list \<Rightarrow> kv_cell list" where
  "place_token ub h = (\<lambda>(q, i) cs.
     let k = q * n_seq_tokens ub + i; c = cs ! (h + k)
     in cs[h + k := c\<lparr>pos := ub_pos ub ! k,
                        seq_id := seq_id c \<union> set (take (nat (ub_n_seq_id ub ! q)) (ub_seq_id ub ! q))\<rparr>])"

definition place_ubatch :: "llama_ubatch \<Rightarrow> u32 \<Rightarrow> kv_cell list \<Rightarrow> kv_cell list" where
  "place_ubatch ub h cs =
     fold (place_token ub h) (List.product [0..<n_seqs ub] [0..<n_seq_tokens ub]) cs"

definition find_slot :: "llama_ubatch \<Rightarrow> kv_cache \<Rightarrow> (bool \<times> kv_cache) option" where
  "find_slot ub s =
     (let h0 = (if head s > u32_add (used s) (u32_mul 2 (n_tokens ub)) then 0 else head s) in
      if n_tokens ub > kv_size s then Some (False, s\<lparr>head := h0\<rparr>)
      else case find_slot_loop (cells s) (n_tokens ub) (kv_size s) h0 0 of
             None \<Rightarrow> None
           | Some (False, h) \<Rightarrow> Some (False, s\<lparr>head := h\<rparr>)
           | Some (True, h) \<Rightarrow>
               let s1 = s\<lparr>head := h, cells := place_ubatch ub h (cells s),
                          used := u32_add (used s) (n_tokens ub),
                          ranges := ranges s @ [(h, u32_add h (n_tokens ub))]\<rparr>
               in Some (True, s1\<lparr>kv_n := min (kv_size s1)
                                   (max (padding s1) (ggml_pad (cell_max s1) (padding s1)))\<rparr>))"

section \<open>Queries\<close>

definition get_n_tokens :: "kv_cache \<Rightarrow> int" where
  "get_n_tokens s = fold (\<lambda>c result. result + int (card (seq_id c))) (cells s) 0"

definition get_used_cells :: "kv_cache \<Rightarrow> u32" where
  "get_used_cells s = used s"

definition get_pos_max :: "kv_cache \<Rightarrow> int" where
  "get_pos_max s = fold (\<lambda>c pos_max. max pos_max (pos c)) (cells s) (-1)"

definition set_full :: "kv_cache \<Rightarrow> kv_cache" where
  "set_full s = s\<lparr>kv_n := kv_size s\<rparr>"

text \<open>
  \<open>defrag_sched\<close>, with the fragmentation as a real number (the code computes it in
  single precision).
\<close>

definition fragmentation :: "kv_cache \<Rightarrow> real" where
  "fragmentation s =
     (if kv_n s \<ge> 2048
      then max 0 (1 - real (u32_add (used s) (padding s)) / real (kv_n s)) else 0)"

definition defrag_sched :: "real \<Rightarrow> kv_cache \<Rightarrow> kv_cache" where
  "defrag_sched thold s = (if fragmentation s > thold then s\<lparr>do_defrag := True\<rparr> else s)"

section \<open>The invariant\<close>

definition cell_ok :: "kv_cell \<Rightarrow> bool" where
  "cell_ok c \<longleftrightarrow> finite (seq_id c) \<and> -1 \<le> pos c \<and> (0 \<le> pos c \<longleftrightarrow> \<not> is_empty c)"

definition kv_inv :: "kv_cache \<Rightarrow> bool" where
  "kv_inv s \<longleftrightarrow>
     length (cells s) = kv_size s \<and> kv_size s < 2 ^ 30 \<and> head s \<le> kv_size s
     \<and> (\<forall>c \<in> set (cells s). cell_ok c)
     \<and> used s = count_if (\<lambda>c. \<not> is_empty c) (cells s)
     \<and> (\<forall>(c0, c1) \<in> set (ranges s). c0 \<le> c1 \<and> c1 \<le> kv_size s)"

lemmas kv_defs [kv_simps] = has_seq_id_def is_empty_def norm_p0_def norm_p1_def

text \<open>What a scan does to one cell.\<close>

definition rm_cell :: "int \<Rightarrow> int \<Rightarrow> int \<Rightarrow> kv_cell \<Rightarrow> kv_cell" where
  "rm_cell q p0 p1 c = fst (seq_rm_cell 0 q p0 p1 0 c (0, 0))"

definition keep_cell :: "int \<Rightarrow> kv_cell \<Rightarrow> kv_cell" where
  "keep_cell q c = fst (seq_keep_cell 0 q 0 c (0, 0))"

definition add_cell :: "int \<Rightarrow> int \<Rightarrow> int \<Rightarrow> int \<Rightarrow> kv_cell \<Rightarrow> kv_cell" where
  "add_cell q p0 p1 d c = fst (seq_add_cell 0 q p0 p1 d 0 c (0, 0, False))"

definition div_cell :: "int \<Rightarrow> int \<Rightarrow> int \<Rightarrow> int \<Rightarrow> kv_cell \<Rightarrow> kv_cell" where
  "div_cell q p0 p1 d c = fst (seq_div_cell q p0 p1 d 0 c False)"

lemma rm_loop_fst:
  "fst (cells_loop (seq_rm_cell sz q p0 p1) i cs st) = map (rm_cell q p0 p1) cs"
  by (rule fst_cells_loop) (auto simp: rm_cell_def seq_rm_cell_def Let_def split: prod.splits)

lemma keep_loop_fst:
  "fst (cells_loop (seq_keep_cell sz q) i cs st) = map (keep_cell q) cs"
  by (rule fst_cells_loop) (auto simp: keep_cell_def seq_keep_cell_def split: prod.splits)

lemma add_loop_fst:
  "fst (cells_loop (seq_add_cell sz q p0 p1 d) i cs st) = map (add_cell q p0 p1 d) cs"
  by (rule fst_cells_loop) (auto simp: add_cell_def seq_add_cell_def Let_def split: prod.splits)

lemma div_loop_fst:
  "fst (cells_loop (seq_div_cell q p0 p1 d) i cs st) = map (div_cell q p0 p1 d) cs"
  by (rule fst_cells_loop) (auto simp: div_cell_def seq_div_cell_def)

lemmas loop_fst = rm_loop_fst keep_loop_fst add_loop_fst div_loop_fst

text \<open>
  A scan whose counter drops exactly at the cells it empties keeps \<open>used\<close> equal to the number
  of non-empty cells.
\<close>

lemma count_freed:
  assumes "\<And>c. c \<in> set cs \<Longrightarrow> \<not> is_empty (g c) \<longleftrightarrow> \<not> is_empty c \<and> \<not> fr c"
    and "\<And>c. c \<in> set cs \<Longrightarrow> fr c \<Longrightarrow> \<not> is_empty c"
  shows "count_if fr cs \<le> count_if (\<lambda>c. \<not> is_empty c) cs"
    and "count_if (\<lambda>c. \<not> is_empty c) (map g cs)
           = count_if (\<lambda>c. \<not> is_empty c) cs - count_if fr cs"
proof -
  have *: "count_if (\<lambda>c. \<not> is_empty c) cs
      = count_if (\<lambda>c. \<not> is_empty c) (map g cs) + count_if fr cs"
    using assms
  proof (induction cs)
    case (Cons c cs)
    then have "count_if (\<lambda>c. \<not> is_empty c) cs
        = count_if (\<lambda>c. \<not> is_empty c) (map g cs) + count_if fr cs" by simp
    moreover have "\<not> is_empty (g c) \<longleftrightarrow> \<not> is_empty c \<and> \<not> fr c" "fr c \<Longrightarrow> \<not> is_empty c"
      using Cons.prems by simp_all
    ultimately show ?case by auto
  qed simp
  then show "count_if fr cs \<le> count_if (\<lambda>c. \<not> is_empty c) cs"
    and "count_if (\<lambda>c. \<not> is_empty c) (map g cs)
           = count_if (\<lambda>c. \<not> is_empty c) cs - count_if fr cs"
    by simp_all
qed

lemma scan_inv:
  assumes inv: "kv_inv s"
    and cells: "cells s' = map g (cells s)"
    and frame: "kv_size s' = kv_size s" "ranges s' = ranges s" "head s' \<le> kv_size s"
    and us: "used s' = used s - count_if fr (cells s)"
    and ok: "\<And>c. cell_ok c \<Longrightarrow> cell_ok (g c)"
    and emp: "\<And>c. cell_ok c \<Longrightarrow> \<not> is_empty (g c) \<longleftrightarrow> \<not> is_empty c \<and> \<not> fr c"
    and fr: "\<And>c. cell_ok c \<Longrightarrow> fr c \<Longrightarrow> \<not> is_empty c"
  shows "kv_inv s'"
proof -
  have "used s' = count_if (\<lambda>c. \<not> is_empty c) (map g (cells s))"
    using inv emp fr us by (subst count_freed(2) [where fr = fr]) (auto simp: kv_inv_def)
  then show ?thesis
    using inv ok by (auto simp: kv_inv_def cells frame)
qed

text \<open>The number of cells a scan frees never exceeds \<open>used\<close>, so the counter does not wrap.\<close>

lemma freed_le_used:
  assumes "kv_inv s" and "\<And>c. cell_ok c \<Longrightarrow> fr c \<Longrightarrow> \<not> is_empty c"
  shows "count_if fr (cells s) \<le> used s" and "used s < 2 ^ 32"
proof -
  show "count_if fr (cells s) \<le> used s"
    using assms by (auto simp: kv_inv_def intro: count_if_mono)
  have "used s \<le> length (cells s)"
    using assms(1) count_if_le [of "\<lambda>c. \<not> is_empty c" "cells s"] by (simp add: kv_inv_def)
  then show "used s < 2 ^ 32"
    using assms(1) by (simp add: kv_inv_def)
qed

lemma kv_inv_init: "kv_cache_init sz pad = Inr s \<Longrightarrow> sz < 2 ^ 30 \<Longrightarrow> kv_inv s"
  by (auto simp: kv_cache_init_def kv_inv_def cell_ok_def empty_cell_def kv_simps count_if_eq_0
      split: if_splits)

lemma kv_inv_clear:
  assumes "kv_inv s"
  shows "kv_inv (clear s)"
  using assms
  by (auto simp: kv_inv_def clear_def clear_cell_def cell_ok_def kv_simps count_if_eq_0)

definition rm_freed :: "int \<Rightarrow> int \<Rightarrow> int \<Rightarrow> kv_cell \<Rightarrow> bool" where
  "rm_freed q p0 p1 c \<longleftrightarrow>
     p0 \<le> pos c \<and> pos c < p1 \<and> (q < 0 \<or> q \<in> seq_id c \<and> seq_id c \<subseteq> {q})"

lemma seq_rm_result:
  assumes "kv_inv s" "seq_rm q p0 p1 s = (r, s')"
  shows "r" "cells s' = map (rm_cell q (norm_p0 p0) (norm_p1 p1)) (cells s)"
    "used s' = used s - count_if (rm_freed q (norm_p0 p0) (norm_p1 p1)) (cells s)"
    "kv_size s' = kv_size s" "ranges s' = ranges s" "head s' \<le> head s"
proof -
  let ?p0 = "norm_p0 p0" and ?p1 = "norm_p1 p1"
  let ?st = "(used s, kv_size s)"
  let ?L = "cells_loop (seq_rm_cell (kv_size s) q ?p0 ?p1) 0 (cells s) ?st"
  have p0: "0 \<le> ?p0" by (simp add: norm_p0_def)
  have "fst (snd (seq_rm_cell (kv_size s) q ?p0 ?p1 i c st))
      = (if rm_freed q ?p0 ?p1 c then u32_sub (fst st) 1 else fst st)" for i c st
    using p0 by (cases st) (auto simp: seq_rm_cell_def rm_freed_def kv_simps Let_def)
  moreover have "\<And>c. cell_ok c \<Longrightarrow> rm_freed q ?p0 ?p1 c \<Longrightarrow> \<not> is_empty c"
    using p0 by (auto simp: rm_freed_def cell_ok_def)
  ultimately have us: "fst (snd ?L) = used s - count_if (rm_freed q ?p0 ?p1) (cells s)"
    using freed_le_used [OF assms(1), of "rm_freed q ?p0 ?p1"]
    by (subst cells_loop_dec [where u = fst and fr = "rm_freed q ?p0 ?p1"]) auto
  show "r" "cells s' = map (rm_cell q ?p0 ?p1) (cells s)"
    "used s' = used s - count_if (rm_freed q ?p0 ?p1) (cells s)"
    "kv_size s' = kv_size s" "ranges s' = ranges s" "head s' \<le> head s"
    using assms(2) us rm_loop_fst [of "kv_size s" q ?p0 ?p1 0 "cells s" ?st]
    by (auto simp: seq_rm_def Let_def split: prod.splits)
qed

lemma rm_cell_simps:
  "0 \<le> p0 \<Longrightarrow> rm_cell q p0 p1 c =
     (if p0 \<le> pos c \<and> pos c < p1 then
        let S = (if q < 0 then {} else seq_id c - {q}) in
        if q < 0 \<or> q \<in> seq_id c then
          c\<lparr>seq_id := S, pos := (if S = {} then -1 else pos c)\<rparr>
        else c
      else c)"
  by (auto simp: rm_cell_def seq_rm_cell_def kv_simps Let_def)

lemma kv_inv_seq_rm:
  assumes "kv_inv s" "seq_rm q p0 p1 s = (r, s')"
  shows "kv_inv s'"
proof (rule scan_inv [OF assms(1) seq_rm_result(2) [OF assms] seq_rm_result(4,5) [OF assms] _
        seq_rm_result(3) [OF assms]])
  let ?p0 = "norm_p0 p0" and ?p1 = "norm_p1 p1"
  have p0: "0 \<le> ?p0" by (simp add: norm_p0_def)
  show "head s' \<le> kv_size s"
    using seq_rm_result(6) [OF assms] assms(1) by (simp add: kv_inv_def)
  fix c assume c: "cell_ok c"
  show "cell_ok (rm_cell q ?p0 ?p1 c)"
    using c p0 by (auto simp: rm_cell_simps cell_ok_def kv_simps Let_def)
  show "(\<not> is_empty (rm_cell q ?p0 ?p1 c)) = (\<not> is_empty c \<and> \<not> rm_freed q ?p0 ?p1 c)"
    using c p0 by (auto simp: rm_cell_simps rm_freed_def cell_ok_def is_empty_def Let_def)
  show "rm_freed q ?p0 ?p1 c \<Longrightarrow> \<not> is_empty c"
    using c p0 by (auto simp: rm_freed_def cell_ok_def)
qed

lemma kv_inv_seq_cp:
  assumes "kv_inv s"
  shows "kv_inv (seq_cp src dst p0 p1 s)"
proof (cases "src = dst")
  case True
  then show ?thesis using assms by (simp add: seq_cp_def)
next
  case False
  let ?g = "\<lambda>c. if has_seq_id c src \<and> norm_p0 p0 \<le> pos c \<and> pos c < norm_p1 p1
                then c\<lparr>seq_id := insert dst (seq_id c)\<rparr> else c"
  have g: "cells (seq_cp src dst p0 p1 s) = map ?g (cells s)"
    using False by (simp add: seq_cp_def Let_def)
  show ?thesis
  proof (rule scan_inv [OF assms g, where fr = "\<lambda>_. False"])
    fix c assume "cell_ok c"
    then show "cell_ok (?g c)" "(\<not> is_empty (?g c)) = (\<not> is_empty c \<and> \<not> False)"
      by (auto simp: cell_ok_def kv_simps)
  qed (use assms False in \<open>auto simp: seq_cp_def Let_def count_if_def\<close>)
qed

lemma keep_cell_simps:
  "keep_cell q c = (if q \<in> seq_id c then c\<lparr>seq_id := {q}\<rparr> else c\<lparr>pos := -1, seq_id := {}\<rparr>)"
  by (auto simp: keep_cell_def seq_keep_cell_def has_seq_id_def)

lemma seq_keep_result:
  assumes "kv_inv s"
  shows "cells (seq_keep q s) = map (keep_cell q) (cells s)"
    "used (seq_keep q s) = used s - count_if (\<lambda>c. q \<notin> seq_id c \<and> 0 \<le> pos c) (cells s)"
    "kv_size (seq_keep q s) = kv_size s" "ranges (seq_keep q s) = ranges s"
    "head (seq_keep q s) \<le> head s"
proof -
  let ?fr = "\<lambda>c. q \<notin> seq_id c \<and> 0 \<le> pos c"
  let ?st = "(used s, kv_size s)"
  let ?L = "cells_loop (seq_keep_cell (kv_size s) q) 0 (cells s) ?st"
  have "fst (snd (seq_keep_cell (kv_size s) q i c st))
      = (if ?fr c then u32_sub (fst st) 1 else fst st)" for i c st
    by (cases st) (auto simp: seq_keep_cell_def kv_simps)
  moreover have "\<And>c. cell_ok c \<Longrightarrow> ?fr c \<Longrightarrow> \<not> is_empty c"
    by (auto simp: cell_ok_def)
  ultimately have us: "fst (snd ?L) = used s - count_if ?fr (cells s)"
    using freed_le_used [OF assms, of ?fr]
    by (subst cells_loop_dec [where u = fst and fr = ?fr]) auto
  show "cells (seq_keep q s) = map (keep_cell q) (cells s)"
    "used (seq_keep q s) = used s - count_if ?fr (cells s)"
    "kv_size (seq_keep q s) = kv_size s" "ranges (seq_keep q s) = ranges s"
    "head (seq_keep q s) \<le> head s"
    using us keep_loop_fst [of "kv_size s" q 0 "cells s" ?st]
    by (auto simp: seq_keep_def Let_def split: prod.splits)
qed

lemma kv_inv_seq_keep:
  assumes "kv_inv s"
  shows "kv_inv (seq_keep q s)"
proof (rule scan_inv [OF assms seq_keep_result(1) [OF assms] seq_keep_result(3,4) [OF assms] _
        seq_keep_result(2) [OF assms]])
  show "head (seq_keep q s) \<le> kv_size s"
    using seq_keep_result(5) [OF assms] assms by (meson kv_inv_def le_trans)
qed (auto simp: keep_cell_simps cell_ok_def is_empty_def)

lemma add_cell_simps:
  "add_cell q p0 p1 d c =
     (if q \<in> seq_id c \<and> p0 \<le> pos c \<and> pos c < p1 then
        if pos c + d < 0 then c\<lparr>pos := -1, delta := delta c + d, seq_id := {}\<rparr>
        else c\<lparr>pos := pos c + d, delta := delta c + d\<rparr>
      else c)"
  by (auto simp: add_cell_def seq_add_cell_def has_seq_id_def Let_def)

definition add_freed :: "int \<Rightarrow> int \<Rightarrow> int \<Rightarrow> int \<Rightarrow> kv_cell \<Rightarrow> bool" where
  "add_freed q p0 p1 d c \<longleftrightarrow> q \<in> seq_id c \<and> p0 \<le> pos c \<and> pos c < p1 \<and> pos c + d < 0"

lemma seq_add_result:
  assumes "kv_inv s" "d \<noteq> 0" "norm_p0 p0 \<noteq> norm_p1 p1"
  shows "cells (seq_add q p0 p1 d s) = map (add_cell q (norm_p0 p0) (norm_p1 p1) d) (cells s)"
    "used (seq_add q p0 p1 d s) = used s - count_if (add_freed q (norm_p0 p0) (norm_p1 p1) d) (cells s)"
    "kv_size (seq_add q p0 p1 d s) = kv_size s" "ranges (seq_add q p0 p1 d s) = ranges s"
    "head (seq_add q p0 p1 d s) \<le> kv_size s"
proof -
  let ?p0 = "norm_p0 p0" and ?p1 = "norm_p1 p1"
  let ?fr = "add_freed q ?p0 ?p1 d"
  let ?st = "(used s, kv_size s, has_shift s)"
  let ?f = "seq_add_cell (kv_size s) q ?p0 ?p1 d"
  let ?L = "cells_loop ?f 0 (cells s) ?st"
  have "fst (snd (?f i c st)) = (if ?fr c then u32_sub (fst st) 1 else fst st)" for i c st
    by (cases st) (auto simp: seq_add_cell_def add_freed_def kv_simps Let_def)
  moreover have "\<And>c. cell_ok c \<Longrightarrow> ?fr c \<Longrightarrow> \<not> is_empty c"
    by (auto simp: cell_ok_def add_freed_def is_empty_def)
  ultimately have us: "fst (snd ?L) = used s - count_if ?fr (cells s)"
    using freed_le_used [OF assms(1), of ?fr]
    by (subst cells_loop_dec [where u = fst and fr = ?fr]) auto
  have step: "(fst \<circ> snd) (snd (?f i c st))
      = (if ?fr c \<and> (fst \<circ> snd) st = kv_size s then i else (fst \<circ> snd) st)" for i c st
    by (cases st) (auto simp: seq_add_cell_def add_freed_def kv_simps Let_def)
  have nh: "fst (snd (snd ?L)) \<le> kv_size s"
    using cells_loop_first [where v = "fst \<circ> snd" and fr = ?fr, OF step, of 0 "cells s" ?st] assms(1)
    by (auto simp: kv_inv_def)
  show "cells (seq_add q p0 p1 d s) = map (add_cell q ?p0 ?p1 d) (cells s)"
    "used (seq_add q p0 p1 d s) = used s - count_if ?fr (cells s)"
    "kv_size (seq_add q p0 p1 d s) = kv_size s" "ranges (seq_add q p0 p1 d s) = ranges s"
    "head (seq_add q p0 p1 d s) \<le> kv_size s"
    using us nh assms(2,3) add_loop_fst [of "kv_size s" q ?p0 ?p1 d 0 "cells s" ?st]
    by (auto simp: seq_add_def Let_def split: prod.splits)
qed

lemma kv_inv_seq_add:
  assumes "kv_inv s"
  shows "kv_inv (seq_add q p0 p1 d s)"
proof (cases "d = 0 \<or> norm_p0 p0 = norm_p1 p1")
  case True
  then show ?thesis using assms by (auto simp: seq_add_def)
next
  case False
  then have d: "d \<noteq> 0" "norm_p0 p0 \<noteq> norm_p1 p1" by auto
  have p0: "0 \<le> norm_p0 p0" by (simp add: norm_p0_def)
  show ?thesis
    by (rule scan_inv [OF assms seq_add_result(1) [OF assms d] seq_add_result(3,4,5) [OF assms d]
          seq_add_result(2) [OF assms d]])
      (use p0 in \<open>auto simp: add_cell_simps add_freed_def cell_ok_def is_empty_def\<close>)
qed

lemma c_div_bounds: "0 \<le> a \<Longrightarrow> 0 < d \<Longrightarrow> 0 \<le> c_div a d \<and> c_div a d \<le> a"
  by (cases "a = 0") (auto simp: c_div_def pos_imp_zdiv_nonneg_iff
      intro: order.trans [OF zdiv_mono2 [of a 1 d]])

lemma div_cell_simps:
  "div_cell q p0 p1 d c =
     (if q \<in> seq_id c \<and> p0 \<le> pos c \<and> pos c < p1
      then c\<lparr>pos := c_div (pos c) d, delta := delta c + (c_div (pos c) d - pos c)\<rparr> else c)"
  by (auto simp: div_cell_def seq_div_cell_def has_seq_id_def)

lemma kv_inv_seq_div:
  assumes "kv_inv s" "0 < d"
  shows "kv_inv (seq_div q p0 p1 d s)"
proof (cases "d = 1 \<or> norm_p0 p0 = norm_p1 p1")
  case True
  then show ?thesis using assms by (auto simp: seq_div_def)
next
  case False
  have p0: "0 \<le> norm_p0 p0" by (simp add: norm_p0_def)
  have c: "cells (seq_div q p0 p1 d s) = map (div_cell q (norm_p0 p0) (norm_p1 p1) d) (cells s)"
    using False div_loop_fst [of q "norm_p0 p0" "norm_p1 p1" d 0 "cells s" "has_shift s"]
    by (auto simp: seq_div_def Let_def split: prod.splits)
  show ?thesis
  proof (rule scan_inv [OF assms(1) c, where fr = "\<lambda>_. False"])
    fix c assume "cell_ok c"
    moreover have "norm_p0 p0 \<le> pos c \<Longrightarrow> 0 \<le> c_div (pos c) d"
      using p0 c_div_bounds [of "pos c" d] assms(2) by simp
    ultimately show "cell_ok (div_cell q (norm_p0 p0) (norm_p1 p1) d c)"
      and "(\<not> is_empty (div_cell q (norm_p0 p0) (norm_p1 p1) d c)) = (\<not> is_empty c \<and> \<not> False)"
      by (auto simp: div_cell_simps cell_ok_def is_empty_def)
  qed (use assms(1) False in \<open>auto simp: seq_div_def Let_def kv_inv_def count_if_def split: prod.splits\<close>)
qed

section \<open>Restoring pending ranges\<close>

definition counted :: "kv_cell list \<Rightarrow> u32 \<Rightarrow> bool" where
  "counted cs us \<longleftrightarrow>
     (\<forall>c \<in> set cs. cell_ok c) \<and> us = count_if (\<lambda>c. \<not> is_empty c) cs \<and> length cs < 2 ^ 30"

lemma counted_restore_step:
  assumes "counted cs us" "i < length cs"
  shows "counted (cs[i := (cs ! i)\<lparr>seq_id := {}, pos := -1\<rparr>])
           (if 0 \<le> pos (cs ! i) then u32_sub us 1 else us)"
proof -
  let ?c = "(cs ! i)\<lparr>seq_id := {}, pos := -1\<rparr>"
  have ok: "cell_ok (cs ! i)" using assms by (simp add: counted_def)
  have "us \<le> length cs"
    using assms(1) count_if_le [of "\<lambda>c. \<not> is_empty c" cs] by (simp add: counted_def)
  then have us: "us < 2 ^ 32" using assms(1) by (simp add: counted_def)
  have "count_if (\<lambda>c. \<not> is_empty c) (cs[i := ?c]) + (if \<not> is_empty (cs ! i) then 1 else 0)
      = count_if (\<lambda>c. \<not> is_empty c) cs"
    using count_if_list_update [OF assms(2), of "\<lambda>c. \<not> is_empty c" ?c]
    by (simp add: is_empty_def)
  moreover have "cell_ok ?c" by (simp add: cell_ok_def is_empty_def)
  ultimately show ?thesis
    using assms ok us by (auto simp: counted_def cell_ok_def dest!: set_update_subset_insert [THEN subsetD]
        split: if_splits)
qed

lemma restore_range_counted:
  assumes "counted cs us" "\<forall>i \<in> set is. i < length cs"
  shows "counted (fst (restore_range is (cs, us))) (snd (restore_range is (cs, us)))
     \<and> length (fst (restore_range is (cs, us))) = length cs"
  using assms
proof (induction "is" arbitrary: cs us)
  case (Cons i "is")
  then show ?case
    using counted_restore_step [of cs us i] Cons.IH by fastforce
qed simp

lemma restore_range_nth:
  assumes "\<forall>i \<in> set is. i < length cs" "j < length cs"
  shows "fst (restore_range is (cs, us)) ! j
     = (if j \<in> set is then (cs ! j)\<lparr>seq_id := {}, pos := -1\<rparr> else cs ! j)"
  using assms
proof (induction "is" arbitrary: cs us)
  case (Cons i "is")
  then show ?case by (auto simp: nth_list_update)
qed simp

lemma length_restore_range [simp]: "length (fst (restore_range is (cs, us))) = length cs"
  by (induction "is" arbitrary: cs us) simp_all

lemma restore_ranges_counted:
  assumes "counted cs us" "\<forall>(c0, c1) \<in> set rs. c0 \<le> c1 \<and> c1 \<le> length cs"
    and "restore_ranges rs (cs, us, nh) = (cs', us', nh')"
  shows "counted cs' us' \<and> length cs' = length cs \<and> nh' \<le> nh"
  using assms
proof (induction rs arbitrary: cs us nh)
  case (Cons r rs)
  obtain c0 c1 where r: "r = (c0, c1)" by fastforce
  obtain cs1 us1 where one: "restore_range [c0..<c1] (cs, us) = (cs1, us1)" by fastforce
  have "counted cs1 us1 \<and> length cs1 = length cs"
    using restore_range_counted [OF Cons.prems(1), of "[c0..<c1]"] Cons.prems(2) one r by auto
  then have "counted cs' us' \<and> length cs' = length cs1 \<and> nh' \<le> min nh c0"
    using Cons.prems(2,3) one r by (intro Cons.IH) auto
  then show ?case
    using \<open>counted cs1 us1 \<and> length cs1 = length cs\<close> by simp
qed simp

lemma kv_inv_counted: "kv_inv s \<Longrightarrow> counted (cells s) (used s)"
  by (simp add: kv_inv_def counted_def)

lemma kv_inv_restore:
  assumes "kv_inv s"
  shows "kv_inv (restore s)"
proof -
  obtain cs us nh where r: "restore_ranges (ranges s) (cells s, used s, kv_size s) = (cs, us, nh)"
    using prod_cases3 by blast
  have "counted cs us \<and> length cs = length (cells s) \<and> nh \<le> kv_size s"
    using restore_ranges_counted [OF kv_inv_counted [OF assms] _ r] assms by (auto simp: kv_inv_def)
  then show ?thesis
    using assms r by (auto simp: restore_def kv_inv_def counted_def)
qed

lemma kv_inv_commit: "kv_inv s \<Longrightarrow> kv_inv (commit s)"
  by (auto simp: commit_def kv_inv_def)

lemma kv_inv_flags:
  "kv_inv s \<Longrightarrow> kv_inv (set_full s)"
  "kv_inv s \<Longrightarrow> kv_inv (defrag_sched th s)"
  by (auto simp: set_full_def defrag_sched_def kv_inv_def)

section \<open>Correctness of the slot search\<close>

definition free_at :: "kv_cell list \<Rightarrow> nat \<Rightarrow> nat \<Rightarrow> bool" where
  "free_at cs nt h \<longleftrightarrow> h + nt \<le> length cs \<and> (\<forall>k < nt. pos (cs ! (h + k)) < 0)"

lemma probe_None: "probe cs h i k = None \<longleftrightarrow> (\<forall>j \<in> {i..<i + k}. pos (cs ! (h + j)) < 0)"
proof (induction k arbitrary: i)
  case (Suc k)
  have "{i..<i + Suc k} = insert i {Suc i..<Suc i + k}" by auto
  then show ?case using Suc.IH [of "Suc i"] by auto
qed simp

lemma probe_Some:
  "probe cs h i k = Some j \<Longrightarrow> i \<le> j \<and> j < i + k \<and> 0 \<le> pos (cs ! (h + j))"
proof (induction k arbitrary: i)
  case (Suc k)
  then show ?case using Suc.IH [of "Suc i"] by (fastforce split: if_splits)
qed simp

text \<open>
  What the search knows with \<open>head = h\<close>, \<open>n_tested = t\<close>, having started at \<open>h0\<close>: before the
  first wrap no slot starts in \<open>[h0, h)\<close>; after it none starts in \<open>[h0, size)\<close> or \<open>[0, h)\<close>;
  after a second wrap there is no slot at all.
\<close>

definition search_inv :: "kv_cell list \<Rightarrow> nat \<Rightarrow> nat \<Rightarrow> nat \<Rightarrow> nat \<Rightarrow> bool" where
  "search_inv cs nt h0 h t \<longleftrightarrow> h \<le> length cs \<and> h0 \<le> length cs \<and>
     (h0 \<le> h \<and> t = h - h0 \<and> (\<forall>j. h0 \<le> j \<and> j < h \<longrightarrow> \<not> free_at cs nt j)
      \<or> t = length cs - h0 + h \<and> (\<forall>j. h0 \<le> j \<or> j < h \<longrightarrow> \<not> free_at cs nt j)
      \<or> h = 0 \<and> length cs \<le> t \<and> t \<le> 2 * length cs \<and> (\<forall>j. \<not> free_at cs nt j))"

lemma search_wrap:
  assumes "search_inv cs nt h0 h t" "h + nt > length cs" "nt \<le> length cs"
  shows "search_inv cs nt h0 0 (t + (length cs - h))"
proof -
  have late: "\<not> free_at cs nt j" if "h \<le> j" for j
    using that assms(2) by (auto simp: free_at_def)
  from assms(1) consider
      (a) "h0 \<le> h" "t = h - h0" "\<forall>j. h0 \<le> j \<and> j < h \<longrightarrow> \<not> free_at cs nt j"
    | (b) "t = length cs - h0 + h" "\<forall>j. h0 \<le> j \<or> j < h \<longrightarrow> \<not> free_at cs nt j"
    | (c) "h = 0" by (auto simp: search_inv_def)
  then show ?thesis
  proof cases
    case a
    then have "\<not> free_at cs nt j" if "h0 \<le> j" for j
      using late that by (meson not_le)
    then show ?thesis using a assms(1) by (auto simp: search_inv_def)
  next
    case b
    then have "\<not> free_at cs nt j" for j
      using late by (meson not_le)
    then show ?thesis using b assms(1) by (auto simp: search_inv_def)
  next
    case c
    then show ?thesis using assms(2,3) by simp
  qed
qed

text \<open>A probe that stops at an occupied cell rules out every start up to that cell.\<close>

lemma probe_rules_out:
  assumes "probe cs h 0 nt = Some i" "h \<le> j" "j < h + (i + 1)"
  shows "\<not> free_at cs nt j"
proof
  have i: "i < nt" "0 \<le> pos (cs ! (h + i))"
    using probe_Some [OF assms(1)] by auto
  assume "free_at cs nt j"
  moreover have "h + i = j + (h + i - j)" "h + i - j < nt"
    using assms(2,3) i(1) by auto
  ultimately have "pos (cs ! (h + i)) < 0"
    unfolding free_at_def by metis
  then show False using i(2) by simp
qed

lemma search_skip:
  assumes "search_inv cs nt h0 h t" "h + nt \<le> length cs" "probe cs h 0 nt = Some i"
    and "t + (i + 1) < length cs"
  shows "search_inv cs nt h0 (h + (i + 1)) (t + (i + 1))"
proof -
  have i: "h + (i + 1) \<le> length cs"
    using probe_Some [OF assms(3)] assms(2) by auto
  have skip: "\<not> free_at cs nt j" if "h \<le> j" "j < h + (i + 1)" for j
    using assms(3) that by (rule probe_rules_out)
  from assms(1) consider
      (a) "h0 \<le> h" "t = h - h0" "\<forall>j. h0 \<le> j \<and> j < h \<longrightarrow> \<not> free_at cs nt j"
    | (b) "t = length cs - h0 + h" "\<forall>j. h0 \<le> j \<or> j < h \<longrightarrow> \<not> free_at cs nt j"
    | (c) "length cs \<le> t" by (auto simp: search_inv_def)
  then show ?thesis
  proof cases
    case a
    then have "\<forall>j. h0 \<le> j \<and> j < h + (i + 1) \<longrightarrow> \<not> free_at cs nt j"
      using skip by (meson not_le)
    then show ?thesis
      using a(1,2) i assms(1) unfolding search_inv_def by (simp add: Suc_diff_le)
  next
    case b
    then have "\<forall>j. h0 \<le> j \<or> j < h + (i + 1) \<longrightarrow> \<not> free_at cs nt j"
      using skip by (meson not_le)
    then show ?thesis
      using b(1) i assms(1) unfolding search_inv_def by (metis (no_types, lifting) add.assoc)
  next
    case c
    then show ?thesis using assms(4) by simp
  qed
qed

lemma search_exhausted:
  assumes "search_inv cs nt h0 h t" "h + nt \<le> length cs" "probe cs h 0 nt = Some i"
    and "length cs \<le> t + (i + 1)"
  shows "\<not> free_at cs nt j"
proof -
  have i: "i < nt" using probe_Some [OF assms(3)] by simp
  have skip: "\<not> free_at cs nt j" if "h \<le> j" "j < h + (i + 1)" for j
    using assms(3) that by (rule probe_rules_out)
  have over: "\<not> free_at cs nt j" if "length cs \<le> j"
    using that i by (auto simp: free_at_def)
  from assms(1) consider
      (a) "h0 \<le> h" "t = h - h0" "\<forall>j. h0 \<le> j \<and> j < h \<longrightarrow> \<not> free_at cs nt j"
    | (b) "h0 \<le> length cs" "t = length cs - h0 + h" "\<forall>j. h0 \<le> j \<or> j < h \<longrightarrow> \<not> free_at cs nt j"
    | (c) "\<forall>j. \<not> free_at cs nt j" by (auto simp: search_inv_def)
  then show ?thesis
  proof cases
    case a
    then have "h0 = 0" "h + (i + 1) = length cs"
      using i assms(2,4) by auto
    then show ?thesis using a(3) skip over by (metis not_le le0)
  next
    case b
    then have "h0 \<le> h + (i + 1)" using assms(4) by simp
    then show ?thesis using b(3) skip by (metis not_le order.strict_trans2)
  next
    case c
    then show ?thesis by blast
  qed
qed

text \<open>
  The search ends. It returns true with \<open>head\<close> at the start of a free run of \<open>n_tokens\<close> cells,
  and false only when the cache has no such run.
\<close>

lemma find_slot_loop_correct:
  assumes "search_inv cs nt h0 h t" "nt \<le> length cs" "length cs < 2 ^ 30"
  shows "\<exists>b h'. find_slot_loop cs nt (length cs) h t = Some (b, h') \<and> h' \<le> length cs
           \<and> (if b then free_at cs nt h' else (\<forall>j. \<not> free_at cs nt j))"
  using assms
proof (induction "(length cs - t, if h + nt > length cs then 1 else (0::nat))"
    arbitrary: h t rule: wf_induct_rule [OF wf_lex_prod [OF wf_less wf_less]])
  case (1 h t)
  let ?sz = "length cs"
  have h: "h \<le> ?sz" and t: "t \<le> 2 * ?sz"
    using "1.prems"(1) by (auto simp: search_inv_def)
  show ?case
  proof (cases "h + nt > ?sz")
    case True
    have inv: "search_inv cs nt h0 0 (t + (?sz - h))"
      using search_wrap [OF "1.prems"(1) True "1.prems"(2)] .
    then have "t + (?sz - h) \<le> 2 * ?sz"
      by (auto simp: search_inv_def)
    then have eq: "find_slot_loop cs nt ?sz h t = find_slot_loop cs nt ?sz 0 (t + (?sz - h))"
      using True h "1.prems" by (subst find_slot_loop.simps) simp
    show ?thesis
      unfolding eq by (rule "1.hyps" [OF _ inv]) (use "1.prems"(2,3) True in auto)
  next
    case False
    show ?thesis
    proof (cases "probe cs h 0 nt")
      case None
      then have "free_at cs nt h"
        using False by (simp add: free_at_def probe_None)
      moreover have "find_slot_loop cs nt ?sz h t = Some (True, h)"
        using False None h "1.prems" by (subst find_slot_loop.simps) simp
      ultimately show ?thesis using h by (intro exI [of _ True] exI [of _ h]) simp
    next
      case (Some i)
      have i: "h + (i + 1) \<le> ?sz"
        using probe_Some [OF Some] False by simp
      show ?thesis
      proof (cases "?sz \<le> t + (i + 1)")
        case True
        have "find_slot_loop cs nt ?sz h t = Some (False, h + (i + 1))"
          using False Some h t i True "1.prems" by (subst find_slot_loop.simps) simp
        moreover have "\<forall>j. \<not> free_at cs nt j"
          using search_exhausted [OF "1.prems"(1) _ Some True] False by simp
        ultimately show ?thesis using i by (intro exI [of _ False] exI [of _ "h + (i + 1)"]) simp
      next
        case more: False
        have eq: "find_slot_loop cs nt ?sz h t = find_slot_loop cs nt ?sz (h + (i + 1)) (t + (i + 1))"
          using False Some h t i more "1.prems" by (subst find_slot_loop.simps) simp
        have inv: "search_inv cs nt h0 (h + (i + 1)) (t + (i + 1))"
          using search_skip [OF "1.prems"(1) _ Some] False more by simp
        show ?thesis
          unfolding eq by (rule "1.hyps" [OF _ inv]) (use "1.prems"(2,3) more in auto)
      qed
    qed
  qed
qed

section \<open>Placing a micro-batch\<close>

definition place_k :: "llama_ubatch \<Rightarrow> nat \<Rightarrow> nat \<Rightarrow> kv_cell list \<Rightarrow> kv_cell list" where
  "place_k ub h k cs =
     cs[h + k := (cs ! (h + k))\<lparr>pos := ub_pos ub ! k, seq_id := seq_id (cs ! (h + k)) \<union> token_seqs ub k\<rparr>]"

lemma product_index: "map (\<lambda>(q, i). q * m + i) (List.product [0..<n] [0..<m]) = [0..<n * m]"
proof (induction n)
  case (Suc n)
  have prod: "List.product [0..<Suc n] [0..<m] = List.product [0..<n] [0..<m] @ map (Pair n) [0..<m]"
    by (induction n) (simp_all add: product_concat_map)
  have shift: "map (\<lambda>i. n * m + i) [0..<m] = [n * m..<n * m + m]"
    using map_add_upt [of "n * m" m] by (simp add: add.commute)
  have "map (\<lambda>(q, i). q * m + i) (List.product [0..<Suc n] [0..<m])
      = [0..<n * m] @ [n * m..<n * m + m]"
    unfolding prod map_append Suc.IH using shift by (simp add: o_def)
  also have "\<dots> = [0..<Suc n * m]"
    using upt_add_eq_append [of 0 "n * m" m] by (simp add: add.commute)
  finally show ?case .
qed simp

lemma place_ubatch_fold:
  assumes "n_tokens ub = n_seqs ub * n_seq_tokens ub"
  shows "place_ubatch ub h cs = fold (place_k ub h) [0..<n_tokens ub] cs"
proof -
  let ?ps = "List.product [0..<n_seqs ub] [0..<n_seq_tokens ub]"
  have "place_token ub h x = place_k ub h ((\<lambda>(q, i). q * n_seq_tokens ub + i) x)" if "x \<in> set ?ps" for x
    using that by (auto simp: place_token_def place_k_def token_seqs_def Let_def fun_eq_iff)
  then have "place_ubatch ub h cs = fold (\<lambda>x. place_k ub h ((\<lambda>(q, i). q * n_seq_tokens ub + i) x)) ?ps cs"
    unfolding place_ubatch_def by (intro fold_cong) auto
  also have "\<dots> = fold (place_k ub h) (map (\<lambda>(q, i). q * n_seq_tokens ub + i) ?ps) cs"
    by (simp add: fold_map o_def)
  finally show ?thesis
    by (simp add: product_index assms)
qed

lemma fold_place_k:
  assumes "h + n \<le> length cs"
  shows "length (fold (place_k ub h) [0..<n] cs) = length cs
    \<and> (\<forall>j < length cs. fold (place_k ub h) [0..<n] cs ! j =
        (if h \<le> j \<and> j < h + n
         then (cs ! j)\<lparr>pos := ub_pos ub ! (j - h), seq_id := seq_id (cs ! j) \<union> token_seqs ub (j - h)\<rparr>
         else cs ! j))"
  using assms
proof (induction n)
  case (Suc n)
  then show ?case
    by (auto simp: place_k_def nth_list_update)
qed auto

lemma place_ubatch_nth:
  assumes "ubatch_ok ub" "h + n_tokens ub \<le> length cs"
  shows "length (place_ubatch ub h cs) = length cs"
    and "j < length cs \<Longrightarrow> place_ubatch ub h cs ! j =
        (if h \<le> j \<and> j < h + n_tokens ub
         then (cs ! j)\<lparr>pos := ub_pos ub ! (j - h), seq_id := seq_id (cs ! j) \<union> token_seqs ub (j - h)\<rparr>
         else cs ! j)"
  using fold_place_k [OF assms(2), of ub] place_ubatch_fold [of ub h cs] assms(1)
  by (auto simp: ubatch_ok_def)

lemma ubatch_ok_token:
  assumes "ubatch_ok ub" "k < n_tokens ub"
  shows "0 \<le> ub_pos ub ! k" "token_seqs ub k \<noteq> {}" "finite (token_seqs ub k)"
proof -
  have "k div n_seq_tokens ub < n_seqs ub"
    using assms by (metis less_mult_imp_div_less ubatch_ok_def)
  moreover have "n_seqs ub * n_seq_tokens ub \<le> length (ub_pos ub)"
    using assms(1) by (simp add: ubatch_ok_def)
  ultimately show "0 \<le> ub_pos ub ! k" "token_seqs ub k \<noteq> {}" "finite (token_seqs ub k)"
    using assms by (force simp: ubatch_ok_def token_seqs_def Let_def in_set_conv_nth)+
qed

text \<open>
  The occupancy of a cache: for every sequence, the cells that hold it, with their positions.
  It is the abstract state the operations are specified on.
\<close>

type_synonym occupancy = "int \<Rightarrow> (nat \<times> int) set"

definition occ :: "kv_cache \<Rightarrow> occupancy" where
  "occ s q = {(i, pos (cells s ! i)) | i. i < length (cells s) \<and> q \<in> seq_id (cells s ! i)}"

lemma count_if_card: "count_if P xs = card {i. i < length xs \<and> P (xs ! i)}"
  by (simp add: count_if_def length_filter_conv_card)

lemma counted_place:
  assumes "kv_inv s" "ubatch_ok ub" "free_at (cells s) (n_tokens ub) h"
  shows "\<forall>c \<in> set (place_ubatch ub h (cells s)). cell_ok c"
    and "count_if (\<lambda>c. \<not> is_empty c) (place_ubatch ub h (cells s)) = used s + n_tokens ub"
proof -
  let ?cs = "cells s" and ?nt = "n_tokens ub" and ?cs' = "place_ubatch ub h (cells s)"
  have room: "h + ?nt \<le> length ?cs" using assms(3) by (simp add: free_at_def)
  note nth' = place_ubatch_nth [OF assms(2) room]
  have ok: "cell_ok (?cs ! j)" if "j < length ?cs" for j
    using assms(1) that by (simp add: kv_inv_def)
  have empty: "is_empty (?cs ! j)" if "h \<le> j" "j < h + ?nt" for j
  proof -
    have "\<forall>k < ?nt. pos (?cs ! (h + k)) < 0" "j - h < ?nt" "h + (j - h) = j" "j < length ?cs"
      using assms(3) that room by (auto simp: free_at_def)
    then have "pos (?cs ! j) < 0" by metis
    then show ?thesis using ok [of j] \<open>j < length ?cs\<close> by (auto simp: cell_ok_def)
  qed
  have "cell_ok (?cs' ! j)" if j: "j < length ?cs" for j
  proof (cases "h \<le> j \<and> j < h + ?nt")
    case True
    then have "j - h < ?nt" by auto
    then show ?thesis
      using True ok [OF j] nth'(2) [OF j] ubatch_ok_token [OF assms(2), of "j - h"]
      by (auto simp: cell_ok_def is_empty_def)
  next
    case False
    then show ?thesis using ok [OF j] nth'(2) [OF j] by auto
  qed
  then show "\<forall>c \<in> set ?cs'. cell_ok c"
    using nth'(1) by (metis in_set_conv_nth)
  have "{j. j < length ?cs' \<and> \<not> is_empty (?cs' ! j)}
      = {j. j < length ?cs \<and> \<not> is_empty (?cs ! j)} \<union> {h..<h + ?nt}"
    using room nth' ubatch_ok_token(2) [OF assms(2)]
    by (auto simp: is_empty_def split: if_splits)
  moreover have "{j. j < length ?cs \<and> \<not> is_empty (?cs ! j)} \<inter> {h..<h + ?nt} = {}"
    using empty by auto
  ultimately show "count_if (\<lambda>c. \<not> is_empty c) ?cs' = used s + ?nt"
    using assms(1) by (simp add: count_if_card kv_inv_def card_Un_disjoint)
qed

lemma find_slot_cases:
  assumes "kv_inv s" "ubatch_ok ub"
  obtains (found) h where
      "find_slot ub s = Some (True, s\<lparr>head := h, cells := place_ubatch ub h (cells s),
          used := used s + n_tokens ub, ranges := ranges s @ [(h, h + n_tokens ub)],
          kv_n := min (kv_size s) (max (padding s) (ggml_pad
            (cell_max (s\<lparr>cells := place_ubatch ub h (cells s)\<rparr>)) (padding s)))\<rparr>)"
      "free_at (cells s) (n_tokens ub) h"
  | (none) h where "find_slot ub s = Some (False, s\<lparr>head := h\<rparr>)" "h \<le> kv_size s"
      "\<forall>j. \<not> free_at (cells s) (n_tokens ub) j"
proof -
  let ?h0 = "if head s > u32_add (used s) (u32_mul 2 (n_tokens ub)) then 0 else head s"
  have sz: "length (cells s) = kv_size s" "kv_size s < 2 ^ 30" "?h0 \<le> kv_size s"
    using assms(1) by (auto simp: kv_inv_def)
  show thesis
  proof (cases "n_tokens ub > kv_size s")
    case True
    then show thesis
      using sz by (intro none [of ?h0]) (auto simp: find_slot_def free_at_def Let_def)
  next
    case False
    have "search_inv (cells s) (n_tokens ub) ?h0 ?h0 0"
      using sz by (auto simp: search_inv_def)
    then obtain b h where loop:
      "find_slot_loop (cells s) (n_tokens ub) (kv_size s) ?h0 0 = Some (b, h)" "h \<le> kv_size s"
      "if b then free_at (cells s) (n_tokens ub) h else \<forall>j. \<not> free_at (cells s) (n_tokens ub) j"
      using find_slot_loop_correct [of "cells s" "n_tokens ub" ?h0 ?h0 0] False sz
      by (auto simp: not_less)
    show thesis
    proof (cases b)
      case True
      then have free: "free_at (cells s) (n_tokens ub) h" using loop(3) by simp
      then have "h + n_tokens ub \<le> kv_size s" using sz(1) by (simp add: free_at_def)
      moreover have "used s \<le> kv_size s"
        using assms(1) count_if_le [of "\<lambda>c. \<not> is_empty c" "cells s"] by (simp add: kv_inv_def)
      ultimately have "u32_add h (n_tokens ub) = h + n_tokens ub"
        "u32_add (used s) (n_tokens ub) = used s + n_tokens ub"
        using sz(2) False by simp_all
      then have "find_slot ub s = Some (True, s\<lparr>head := h, cells := place_ubatch ub h (cells s),
          used := used s + n_tokens ub, ranges := ranges s @ [(h, h + n_tokens ub)],
          kv_n := min (kv_size s) (max (padding s) (ggml_pad
            (cell_max (s\<lparr>cells := place_ubatch ub h (cells s)\<rparr>)) (padding s)))\<rparr>)"
        using False loop(1) True by (simp add: find_slot_def Let_def cell_max_def)
      then show thesis using free by (rule found)
    next
      case no: False
      then have "find_slot ub s = Some (False, s\<lparr>head := h\<rparr>)"
        using False loop(1) by (simp add: find_slot_def Let_def)
      then show thesis using loop(2,3) no by (intro none) auto
    qed
  qed
qed

lemma kv_inv_find_slot:
  assumes "kv_inv s" "ubatch_ok ub" "find_slot ub s = Some (b, s')"
  shows "kv_inv s'"
  using assms(1,2)
proof (cases rule: find_slot_cases)
  case (found h)
  moreover have "h + n_tokens ub \<le> kv_size s"
    using found(2) assms(1) by (simp add: free_at_def kv_inv_def)
  ultimately show ?thesis
    using assms counted_place [OF assms(1,2) found(2)] place_ubatch_nth(1) [OF assms(2), of h "cells s"]
    by (auto simp: kv_inv_def)
next
  case (none h)
  then show ?thesis using assms(1,3) by (auto simp: kv_inv_def)
qed

section \<open>Padding\<close>

lemma and_not_mask_word: "(w :: 32 word) AND NOT (mask k) = w - take_bit k w"
proof -
  have "w = take_bit k w OR (w AND NOT (mask k))" by (rule bit_word_eqI) (auto simp: bit_simps)
  also have "\<dots> = take_bit k w + (w AND NOT (mask k))"
    by (subst disjunctive_add) (auto simp: bit_simps)
  finally show ?thesis by (simp add: algebra_simps)
qed

lemma unat_take_bit: "unat (take_bit k w) = unat (w :: 32 word) mod 2 ^ k"
  using take_bit_eq_mod [of k "unat w"] by (simp only: unsigned_take_bit_eq)

lemma ggml_pad_pow2:
  assumes "k < 32" "x + 2 ^ k \<le> 2 ^ 32"
  shows "ggml_pad x (2 ^ k) = (x + 2 ^ k - 1) div 2 ^ k * 2 ^ k"
proof -
  let ?w = "word_of_nat (x + 2 ^ k - 1) :: 32 word"
  have "(word_of_nat x + word_of_nat (2 ^ k) - 1 :: 32 word) = ?w"
    using of_nat_diff [of 1 "x + 2 ^ k", where 'a = "32 word"] by (simp add: Suc_le_eq)
  moreover have "(word_of_nat (2 ^ k) - 1 :: 32 word) = mask k"
    by (simp add: mask_eq_exp_minus_1)
  ultimately have "ggml_pad x (2 ^ k) = unat (?w - take_bit k ?w)"
    by (simp add: ggml_pad_def and_not_mask_word)
  also have "\<dots> = unat ?w - unat (take_bit k ?w)"
    by (rule unat_sub) (simp only: word_le_nat_alt unat_take_bit mod_less_eq_dividend)
  also have "unat ?w = x + 2 ^ k - 1"
    using assms(2) by (simp only: unat_of_nat len_num1) simp
  finally show ?thesis
    by (simp only: unat_take_bit \<open>unat ?w = x + 2 ^ k - 1\<close> minus_mod_eq_div_mult)
qed

end
