(* ===== verification/KvRecurrent.thy ===== *)
theory KvRecurrent
  imports KvContract
begin

text \<open>
  The cache of recurrent models, \<open>llama_kv_cache_recurrent\<close> of \<open>src/llama-kv-cache.{h,cpp}\<close>.
  A cell stores the state of a whole sequence; \<open>tail\<close> of cell \<open>q\<close> is the index of the cell
  that holds sequence \<open>q\<close> (the cells double as the table of sequences), \<open>src\<close> the cell whose
  tensor row the next graph copies from.

  \<open>find_slot\<close> runs in three passes over the sequences of a micro-batch: it gives every sequence
  a cell of its own, brings these cells side by side by swapping, and writes the new positions.
\<close>

section \<open>State\<close>

record rec_cell =
  r_pos :: int
  r_src :: int
  r_tail :: int
  r_seq_id :: "int set"

definition rec_empty_cell :: rec_cell where
  "rec_empty_cell = \<lparr>r_pos = -1, r_src = -1, r_tail = -1, r_seq_id = {}\<rparr>"

definition r_is_empty :: "rec_cell \<Rightarrow> bool" where
  "r_is_empty c \<longleftrightarrow> r_seq_id c = {}"

record rec_cache =
  r_head :: u32
  r_size :: u32
  r_used :: u32
  r_n :: u32
  r_cells :: "rec_cell list"
  r_ranges :: "(u32 \<times> u32) list"

definition rec_init :: "u32 \<Rightarrow> rec_cache" where
  "rec_init sz = \<lparr>r_head = 0, r_size = sz, r_used = 0, r_n = 0,
     r_cells = replicate sz rec_empty_cell, r_ranges = []\<rparr>"

text \<open>\<open>cells[i]\<close> replaced by a function of its value; an index outside the cells changes nothing.\<close>

definition upd_cell :: "int \<Rightarrow> (rec_cell \<Rightarrow> rec_cell) \<Rightarrow> rec_cell list \<Rightarrow> rec_cell list" where
  "upd_cell i f cs = (if 0 \<le> i \<and> nat i < length cs then cs[nat i := f (cs ! nat i)] else cs)"

lemma length_upd_cell [simp]: "length (upd_cell i f cs) = length cs"
  by (simp add: upd_cell_def)

lemma nth_upd_cell:
  "k < length cs \<Longrightarrow> upd_cell i f cs ! k = (if i = int k then f (cs ! k) else cs ! k)"
  by (auto simp: upd_cell_def nth_list_update)

definition cell_at :: "rec_cell list \<Rightarrow> int \<Rightarrow> rec_cell" where
  "cell_at cs i = cs ! nat i"

section \<open>Sequence operations\<close>

definition rec_clear :: "rec_cache \<Rightarrow> rec_cache" where
  "rec_clear s = s\<lparr>r_cells := map (\<lambda>c. c\<lparr>r_pos := -1, r_seq_id := {}, r_src := -1, r_tail := -1\<rparr>) (r_cells s),
     r_head := 0, r_used := 0\<rparr>"

definition rec_rm_cell ::
  "u32 \<Rightarrow> int \<Rightarrow> int \<Rightarrow> int \<Rightarrow> nat \<Rightarrow> rec_cell \<Rightarrow> u32 \<times> u32 \<Rightarrow> rec_cell \<times> u32 \<times> u32" where
  "rec_rm_cell sz q p0 p1 i c = (\<lambda>(us, nh).
     if p0 \<le> r_pos c \<and> r_pos c < p1 then
       (if q < 0 \<or> q \<in> r_seq_id c then
          (let c1 = (if q < 0 then c\<lparr>r_seq_id := {}\<rparr> else c\<lparr>r_seq_id := r_seq_id c - {q}\<rparr>) in
           if r_is_empty c1 then
             (c1\<lparr>r_pos := -1, r_src := -1\<rparr>,
              (if 0 \<le> r_pos c1 then u32_sub us 1 else us),
              (if nh = sz then i else nh))
           else (c1, us, nh))
        else (c, us, nh))
     else (c, us, nh))"

definition rec_rm_cells :: "int \<Rightarrow> int \<Rightarrow> int \<Rightarrow> rec_cache \<Rightarrow> rec_cache" where
  "rec_rm_cells q p0 p1 s =
     (let (cs, us, nh) = cells_loop (rec_rm_cell (r_size s) q p0 p1) 0 (r_cells s) (r_used s, r_size s)
      in s\<lparr>r_cells := cs, r_used := us,
           r_head := (if nh \<noteq> r_size s \<and> nh < r_head s then nh else r_head s)\<rparr>)"

definition rec_seq_rm :: "int \<Rightarrow> int \<Rightarrow> int \<Rightarrow> rec_cache \<Rightarrow> bool \<times> rec_cache" where
  "rec_seq_rm q p0' p1' s =
     (let p0 = norm_p0 p0'; p1 = norm_p1 p1' in
      if int (r_size s) \<le> q then (False, s)
      else if 0 \<le> q then
        let tail_id = r_tail (cell_at (r_cells s) q) in
        if 0 \<le> tail_id then
          let p = r_pos (cell_at (r_cells s) tail_id) in
          if 0 < p0 \<and> p0 \<le> p \<or> 0 < p1 \<and> p1 \<le> p then (False, s)
          else if p0 \<le> p \<and> p < p1
          then (True, rec_rm_cells q p0 p1
                        (s\<lparr>r_cells := upd_cell q (\<lambda>c. c\<lparr>r_tail := -1\<rparr>) (r_cells s)\<rparr>))
          else (True, rec_rm_cells q p0 p1 s)
        else (True, rec_rm_cells q p0 p1 s)
      else if p0 \<noteq> p1 \<and> (p0 \<noteq> 0 \<or> p1 \<noteq> int32_max) then (False, s)
      else (True, rec_rm_cells q p0 p1 s))"

text \<open>
  Taking sequence \<open>q\<close> out of its tail cell, as \<open>seq_cp\<close> and \<open>find_slot\<close> do when the sequence
  gets another cell.
\<close>

definition drop_tail :: "int \<Rightarrow> rec_cache \<Rightarrow> rec_cache" where
  "drop_tail q s =
     (let t = r_tail (cell_at (r_cells s) q) in
      if 0 \<le> t then
        let cs1 = upd_cell t (\<lambda>c. c\<lparr>r_seq_id := r_seq_id c - {q}\<rparr>) (r_cells s);
            cs2 = upd_cell q (\<lambda>c. c\<lparr>r_tail := -1\<rparr>) cs1
        in if r_is_empty (cell_at cs2 t)
           then s\<lparr>r_cells := upd_cell t (\<lambda>c. c\<lparr>r_pos := -1, r_src := -1\<rparr>) cs2, r_used := u32_sub (r_used s) 1\<rparr>
           else s\<lparr>r_cells := cs2\<rparr>
      else s)"

definition rec_seq_cp :: "int \<Rightarrow> int \<Rightarrow> int \<Rightarrow> int \<Rightarrow> rec_cache \<Rightarrow> rec_cache" where
  "rec_seq_cp src dst p0 p1 s =
     (if src = dst then s
      else if to_u32 dst < r_size s \<and> to_u32 src < r_size s then
        let s1 = drop_tail dst s; t = r_tail (cell_at (r_cells s1) src) in
        if 0 \<le> t
        then s1\<lparr>r_cells := upd_cell dst (\<lambda>c. c\<lparr>r_tail := t\<rparr>)
                  (upd_cell t (\<lambda>c. c\<lparr>r_seq_id := insert dst (r_seq_id c)\<rparr>) (r_cells s1))\<rparr>
        else s1
      else s)"

definition rec_keep_cell ::
  "u32 \<Rightarrow> int \<Rightarrow> nat \<Rightarrow> rec_cell \<Rightarrow> u32 \<times> u32 \<Rightarrow> rec_cell \<times> u32 \<times> u32" where
  "rec_keep_cell sz q i c = (\<lambda>(us, nh).
     let c0 = (if int i \<noteq> q then c\<lparr>r_tail := -1\<rparr> else c) in
     if q \<notin> r_seq_id c0 then
       (c0\<lparr>r_pos := -1, r_src := -1, r_seq_id := {}\<rparr>,
        (if 0 \<le> r_pos c0 then u32_sub us 1 else us),
        (if nh = sz then i else nh))
     else (c0\<lparr>r_seq_id := {q}\<rparr>, us, nh))"

definition rec_seq_keep :: "int \<Rightarrow> rec_cache \<Rightarrow> rec_cache" where
  "rec_seq_keep q s =
     (let (cs, us, nh) = cells_loop (rec_keep_cell (r_size s) q) 0 (r_cells s) (r_used s, r_size s)
      in s\<lparr>r_cells := cs, r_used := us,
           r_head := (if nh \<noteq> r_size s \<and> nh < r_head s then nh else r_head s)\<rparr>)"

text \<open>The position of the tail cell of a sequence, changed when it is in the range.\<close>

definition move_tail :: "int \<Rightarrow> int \<Rightarrow> int \<Rightarrow> (int \<Rightarrow> int) \<Rightarrow> rec_cache \<Rightarrow> rec_cache" where
  "move_tail q p0 p1 g s =
     (if 0 \<le> q \<and> q < int (r_size s) then
        let t = r_tail (cell_at (r_cells s) q) in
        if 0 \<le> t then
          let c = cell_at (r_cells s) t in
          if q \<in> r_seq_id c \<and> p0 \<le> r_pos c \<and> r_pos c < p1
          then s\<lparr>r_cells := upd_cell t (\<lambda>c. c\<lparr>r_pos := g (r_pos c)\<rparr>) (r_cells s)\<rparr>
          else s
        else s
      else s)"

definition rec_seq_add :: "int \<Rightarrow> int \<Rightarrow> int \<Rightarrow> int \<Rightarrow> rec_cache \<Rightarrow> rec_cache" where
  "rec_seq_add q p0 p1 d s =
     (if d = 0 \<or> norm_p0 p0 = norm_p1 p1 then s
      else move_tail q (norm_p0 p0) (norm_p1 p1) (\<lambda>p. p + d) s)"

definition rec_seq_div :: "int \<Rightarrow> int \<Rightarrow> int \<Rightarrow> int \<Rightarrow> rec_cache \<Rightarrow> rec_cache" where
  "rec_seq_div q p0 p1 d s =
     (if d = 1 \<or> norm_p0 p0 = norm_p1 p1 then s
      else move_tail q (norm_p0 p0) (norm_p1 p1) (\<lambda>p. c_div p d) s)"

definition rec_seq_pos_max :: "int \<Rightarrow> rec_cache \<Rightarrow> int" where
  "rec_seq_pos_max q s =
     fold (\<lambda>c result. if q \<in> r_seq_id c then max result (r_pos c) else result) (r_cells s) 0"

definition rec_restore :: "rec_cache \<Rightarrow> rec_cache" where
  "rec_restore s = (if r_ranges s = [] then s else snd (rec_seq_rm (-1) (-1) (-1) s))"

definition rec_commit :: "rec_cache \<Rightarrow> rec_cache" where
  "rec_commit s = s\<lparr>r_ranges := []\<rparr>"

definition rec_set_full :: "rec_cache \<Rightarrow> rec_cache" where
  "rec_set_full s = s\<lparr>r_n := r_size s\<rparr>"

definition rec_get_n_tokens :: "rec_cache \<Rightarrow> int" where
  "rec_get_n_tokens s = fold (\<lambda>c result. result + int (card (r_seq_id c))) (r_cells s) 0"

definition rec_get_pos_max :: "rec_cache \<Rightarrow> int" where
  "rec_get_pos_max s = fold (\<lambda>c m. max m (r_pos c)) (r_cells s) (-1)"

definition rec_cell_max :: "rec_cache \<Rightarrow> u32" where
  "rec_cell_max s = length (dropWhile (\<lambda>c. \<not> (0 \<le> r_pos c \<and> \<not> r_is_empty c)) (rev (r_cells s)))"

section \<open>Finding a slot\<close>

text \<open>
  The first pass: every sequence id must be below the size; a secondary sequence of a group (\<open>j > 0\<close>)
  is taken out of its old cell. False is the early return.
\<close>

fun check_ids :: "(nat \<times> int) list \<Rightarrow> rec_cache \<Rightarrow> bool \<times> rec_cache" where
  "check_ids [] s = (True, s)"
| "check_ids ((j, q) # rest) s =
     (if q < 0 \<or> int (r_size s) \<le> q then (False, s)
      else check_ids rest (if j > 0 then drop_tail q s else s))"

definition ubatch_ids :: "llama_ubatch \<Rightarrow> nat \<Rightarrow> int list" where
  "ubatch_ids ub q = take (nat (ub_n_seq_id ub ! q)) (ub_seq_id ub ! q)"

text \<open>The search for the next empty cell, at most \<open>k\<close> iterations.\<close>

fun next_empty :: "rec_cell list \<Rightarrow> u32 \<Rightarrow> nat \<Rightarrow> nat \<Rightarrow> nat" where
  "next_empty cs sz ne 0 = ne"
| "next_empty cs sz ne (Suc k) =
     (let ne1 = (if sz \<le> ne then ne - sz else ne) in
      if r_is_empty (cs ! ne1) then ne1 else next_empty cs sz (ne1 + 1) k)"

text \<open>
  The second pass gives every sequence a cell; \<open>qs\<close> are the first sequence ids of the groups. The
  loop carries the next empty cell and the smallest and largest tail.
\<close>

fun own_cells ::
  "int list \<Rightarrow> nat \<Rightarrow> int \<Rightarrow> int \<Rightarrow> rec_cell list \<Rightarrow> (rec_cell list \<times> int \<times> int) res" where
  "own_cells [] ne mn mx cs = Inr (cs, mn, mx)"
| "own_cells (q # qs) ne mn mx cs =
     (let t = r_tail (cell_at cs q) in
      if 0 \<le> t \<and> q \<notin> r_seq_id (cell_at cs t) then Inl (Assert_fail ''cell.has_seq_id(seq_id)'')
      else if 0 \<le> t \<and> card (r_seq_id (cell_at cs t)) = 1 then own_cells qs ne (min mn t) (max mx t) cs
      else if length cs \<le> ne then Inl Out_of_range
      else if \<not> r_is_empty (cs ! ne) then Inl (Assert_fail ''empty_cell.is_empty()'')
      else
        let cs1 = (if 0 \<le> t then
                     let orig = cell_at cs t in
                     upd_cell (int ne) (\<lambda>c. c\<lparr>r_pos := r_pos orig, r_src := r_src orig,
                                              r_seq_id := insert q (r_seq_id c)\<rparr>)
                       (upd_cell t (\<lambda>c. c\<lparr>r_seq_id := r_seq_id c - {q}\<rparr>) cs)
                   else cs);
            cs2 = upd_cell q (\<lambda>c. c\<lparr>r_tail := int ne\<rparr>) cs1;
            ne' = (if qs \<noteq> [] then next_empty cs2 (length cs2) (ne + 1) (length cs2) else ne)
        in own_cells qs ne' (min mn (int ne)) (max mx (int ne)) cs2)"

text \<open>The tails of all sequences of a set.\<close>

definition set_tails :: "int set \<Rightarrow> int \<Rightarrow> rec_cell list \<Rightarrow> rec_cell list" where
  "set_tails S t cs = map (\<lambda>(i, c). if int i \<in> S then c\<lparr>r_tail := t\<rparr> else c) (enumerate 0 cs)"

text \<open>The third pass swaps the cells into the places \<open>mn\<close>, \<open>mn + 1\<close>, ...\<close>

definition swap_cells :: "int \<Rightarrow> int \<Rightarrow> rec_cell list \<Rightarrow> rec_cell list" where
  "swap_cells dst src cs =
     (let d = cell_at cs dst; c = cell_at cs src;
          cs1 = upd_cell dst (\<lambda>x. x\<lparr>r_pos := r_pos c, r_src := r_src c, r_seq_id := r_seq_id c\<rparr>) cs;
          cs2 = upd_cell src (\<lambda>x. x\<lparr>r_pos := r_pos d, r_src := r_src d, r_seq_id := r_seq_id d\<rparr>) cs1
      in set_tails (r_seq_id (cell_at cs2 dst)) dst (set_tails (r_seq_id (cell_at cs2 src)) src cs2))"

fun gather_cells :: "int list \<Rightarrow> int \<Rightarrow> rec_cell list \<Rightarrow> rec_cell list" where
  "gather_cells [] dst cs = cs"
| "gather_cells (q # qs) dst cs =
     (let src = r_tail (cell_at cs q) in
      gather_cells qs (dst + 1) (if dst \<noteq> src then swap_cells dst src cs else cs))"

text \<open>The last pass writes the positions and the sequences of the groups.\<close>

fun write_groups :: "(int \<times> int list) list \<Rightarrow> int \<Rightarrow> rec_cell list \<Rightarrow> rec_cell list" where
  "write_groups [] dst cs = cs"
| "write_groups ((p, qs) # gs) dst cs =
     write_groups gs (dst + 1)
       (set_tails (set qs) dst (upd_cell dst (\<lambda>c. c\<lparr>r_pos := p, r_seq_id := set qs\<rparr>) cs))"

definition rec_find_slot :: "llama_ubatch \<Rightarrow> rec_cache \<Rightarrow> (bool \<times> rec_cache) res" where
  "rec_find_slot ub s =
     (let s0 = s\<lparr>r_head := (if r_head s > u32_add (r_used s) (u32_mul 2 (n_tokens ub)) then 0 else r_head s)\<rparr>;
          groups = map (ubatch_ids ub) [0..<n_seqs ub] in
      if \<not> equal_seqs ub then Inl (Assert_fail ''ubatch.equal_seqs'')
      else case check_ids (concat (map (\<lambda>g. enumerate 0 g) groups)) s0 of
        (False, s1) \<Rightarrow> Inr (False, s1)
      | (True, s1) \<Rightarrow>
          bind_res (own_cells (map (\<lambda>q. hd (ub_seq_id ub ! q)) [0..<n_seqs ub])
                      (next_empty (r_cells s1) (r_size s1) (r_head s1) (r_size s1))
                      (int (r_size s1) - 1) 0 (r_cells s1))
            (\<lambda>(cs1, mn, mx).
               let cs2 = gather_cells (map (\<lambda>q. hd (ub_seq_id ub ! q)) [0..<n_seqs ub]) mn cs1;
                   cs3 = write_groups
                     (map (\<lambda>q. (ub_pos ub ! (n_seq_tokens ub * q + n_seq_tokens ub - 1), ubatch_ids ub q))
                        [0..<n_seqs ub]) mn cs2;
                   n = to_u32 (mx - mn + 1)
               in Inr (n \<ge> n_seqs ub,
                       s1\<lparr>r_cells := cs3, r_head := nat mn, r_n := n,
                          r_used := count_if (\<lambda>c. \<not> r_is_empty c) cs3\<rparr>)))"

section \<open>Inputs of the graph\<close>

text \<open>\<open>s_copy\<close> and \<open>s_mask\<close> return their value and change \<open>src\<close>.\<close>

definition s_copy :: "nat \<Rightarrow> rec_cache \<Rightarrow> int \<times> rec_cache" where
  "s_copy i s =
     (let k = i + r_head s; c = r_cells s ! k;
          src1 = (if r_src c < 0 \<or> int (r_size s) \<le> r_src c then int k else r_src c)
      in (src1, s\<lparr>r_cells := (r_cells s)[k := c\<lparr>r_src := int k\<rparr>]\<rparr>))"

definition s_mask :: "nat \<Rightarrow> rec_cache \<Rightarrow> int \<times> rec_cache" where
  "s_mask i s =
     (let k = i + r_head s; c = r_cells s ! k
      in (if 0 \<le> r_src c then 1 else 0,
          s\<lparr>r_cells := (r_cells s)[k := (if r_src c < 0 then c\<lparr>r_src := int k\<rparr> else c)]\<rparr>))"

section \<open>The memory contract\<close>

definition r_cell_ok :: "rec_cell \<Rightarrow> bool" where
  "r_cell_ok c \<longleftrightarrow> finite (r_seq_id c) \<and> -1 \<le> r_pos c \<and> (0 \<le> r_pos c \<longleftrightarrow> \<not> r_is_empty c)"

definition rec_ok :: "rec_cache \<Rightarrow> bool" where
  "rec_ok s \<longleftrightarrow> length (r_cells s) = r_size s \<and> r_size s < 2 ^ 30 \<and> r_head s \<le> r_size s
     \<and> (\<forall>c \<in> set (r_cells s). r_cell_ok c) \<and> r_used s = count_if (\<lambda>c. \<not> r_is_empty c) (r_cells s)"

definition rec_occ :: "rec_cache \<Rightarrow> occupancy" where
  "rec_occ s q = {(i, r_pos (r_cells s ! i)) | i. i < length (r_cells s) \<and> q \<in> r_seq_id (r_cells s ! i)}"

lemma mem_rec_occ:
  "(i, p) \<in> rec_occ s q \<longleftrightarrow> i < length (r_cells s) \<and> q \<in> r_seq_id (r_cells s ! i) \<and> p = r_pos (r_cells s ! i)"
  by (auto simp: rec_occ_def)

lemma rec_ok_nth: "rec_ok s \<Longrightarrow> i < length (r_cells s) \<Longrightarrow> r_cell_ok (r_cells s ! i)"
  by (simp add: rec_ok_def)

text \<open>A scan that empties exactly the freed cells.\<close>

lemma rec_scan:
  assumes ok: "rec_ok s" and len: "length cs = length (r_cells s)"
    and nth: "\<And>i. i < length cs \<Longrightarrow> r_cell_ok (r_cells s ! i) \<Longrightarrow> r_cell_ok (cs ! i)
        \<and> (\<not> r_is_empty (cs ! i) \<longleftrightarrow> \<not> r_is_empty (r_cells s ! i) \<and> \<not> fr (r_cells s ! i))"
    and fr: "\<And>c. r_cell_ok c \<Longrightarrow> fr c \<Longrightarrow> \<not> r_is_empty c"
    and us: "us = r_used s - count_if fr (r_cells s)" and hd: "h \<le> r_size s"
  shows "rec_ok (s\<lparr>r_cells := cs, r_used := us, r_head := h\<rparr>)"
proof -
  have "count_if (\<lambda>c. \<not> r_is_empty c) cs = count_if (\<lambda>c. \<not> r_is_empty c) (r_cells s) - count_if fr (r_cells s)"
    using ok len nth fr by (intro count_if_scan(1)) (auto simp: rec_ok_def)
  moreover have "\<forall>c \<in> set cs. r_cell_ok c"
    using nth rec_ok_nth [OF ok] len by (auto simp: in_set_conv_nth)
  ultimately show ?thesis using ok len us hd by (simp add: rec_ok_def)
qed

lemma rec_freed_le:
  assumes "rec_ok s" "\<And>c. r_cell_ok c \<Longrightarrow> fr c \<Longrightarrow> \<not> r_is_empty c"
  shows "count_if fr (r_cells s) \<le> r_used s" "r_used s < 2 ^ 32"
proof -
  show "count_if fr (r_cells s) \<le> r_used s" using assms by (auto simp: rec_ok_def intro: count_if_mono)
  have "r_used s \<le> length (r_cells s)"
    using assms(1) count_if_le [of "\<lambda>c. \<not> r_is_empty c" "r_cells s"] by (simp add: rec_ok_def)
  then show "r_used s < 2 ^ 32" using assms(1) by (simp add: rec_ok_def)
qed

lemma rec_ok_clear: "rec_ok s \<Longrightarrow> rec_ok (rec_clear s)"
  by (auto simp: rec_ok_def rec_clear_def r_cell_ok_def r_is_empty_def count_if_eq_0)

text \<open>The scan of \<open>seq_rm\<close>.\<close>

definition rec_removed :: "int \<Rightarrow> int \<Rightarrow> int \<Rightarrow> rec_cell \<Rightarrow> rec_cell" where
  "rec_removed q p0 p1 c =
     (if p0 \<le> r_pos c \<and> r_pos c < p1 \<and> (q < 0 \<or> q \<in> r_seq_id c) then
        let S = (if q < 0 then {} else r_seq_id c - {q}) in
        if S = {} then c\<lparr>r_seq_id := {}, r_pos := -1, r_src := -1\<rparr> else c\<lparr>r_seq_id := S\<rparr>
      else c)"

definition rec_rm_freed :: "int \<Rightarrow> int \<Rightarrow> int \<Rightarrow> rec_cell \<Rightarrow> bool" where
  "rec_rm_freed q p0 p1 c \<longleftrightarrow>
     p0 \<le> r_pos c \<and> r_pos c < p1 \<and> (q < 0 \<or> q \<in> r_seq_id c \<and> r_seq_id c \<subseteq> {q})"

lemma rec_rm_cells_result:
  assumes ok: "rec_ok s" and p0: "0 \<le> p0"
  shows "rec_ok (rec_rm_cells q p0 p1 s)" "r_cells (rec_rm_cells q p0 p1 s) = map (rec_removed q p0 p1) (r_cells s)"
    "r_size (rec_rm_cells q p0 p1 s) = r_size s" "r_ranges (rec_rm_cells q p0 p1 s) = r_ranges s"
proof -
  let ?f = "rec_rm_cell (r_size s) q p0 p1" and ?fr = "rec_rm_freed q p0 p1"
  let ?L = "cells_loop ?f 0 (r_cells s) (r_used s, r_size s)"
  have cs: "fst ?L = map (rec_removed q p0 p1) (r_cells s)"
    by (rule fst_cells_loop) (auto simp: rec_rm_cell_def rec_removed_def r_is_empty_def Let_def split: prod.splits)
  have "fst (snd (?f i c st)) = (if ?fr c then u32_sub (fst st) 1 else fst st)" for i c st
    using p0 by (cases st) (auto simp: rec_rm_cell_def rec_rm_freed_def r_is_empty_def Let_def)
  moreover have fr: "\<And>c. r_cell_ok c \<Longrightarrow> ?fr c \<Longrightarrow> \<not> r_is_empty c"
    using p0 by (auto simp: rec_rm_freed_def r_cell_ok_def)
  ultimately have us: "fst (snd ?L) = r_used s - count_if ?fr (r_cells s)"
    using rec_freed_le [OF ok fr] by (subst cells_loop_dec [where u = fst and fr = ?fr]) auto
  have eq: "rec_rm_cells q p0 p1 s = s\<lparr>r_cells := fst ?L, r_used := fst (snd ?L),
      r_head := (if snd (snd ?L) \<noteq> r_size s \<and> snd (snd ?L) < r_head s then snd (snd ?L) else r_head s)\<rparr>"
    by (simp add: rec_rm_cells_def split: prod.splits)
  show "rec_ok (rec_rm_cells q p0 p1 s)"
    unfolding eq
  proof (rule rec_scan [OF ok _ _ fr us])
    fix i assume "i < length (fst ?L)" "r_cell_ok (r_cells s ! i)"
    then show "r_cell_ok (fst ?L ! i)
        \<and> (\<not> r_is_empty (fst ?L ! i) \<longleftrightarrow> \<not> r_is_empty (r_cells s ! i) \<and> \<not> ?fr (r_cells s ! i))"
      using p0 by (auto simp: cs rec_removed_def rec_rm_freed_def r_cell_ok_def r_is_empty_def Let_def)
  qed (use ok in \<open>auto simp: rec_ok_def\<close>)
  show "r_cells (rec_rm_cells q p0 p1 s) = map (rec_removed q p0 p1) (r_cells s)"
    "r_size (rec_rm_cells q p0 p1 s) = r_size s" "r_ranges (rec_rm_cells q p0 p1 s) = r_ranges s"
    by (simp_all add: eq cs)
qed

text \<open>Changing tails only.\<close>

lemma rec_ok_tail:
  assumes "rec_ok s"
  shows "rec_ok (s\<lparr>r_cells := upd_cell q (\<lambda>c. c\<lparr>r_tail := t\<rparr>) (r_cells s)\<rparr>)"
proof -
  let ?cs = "upd_cell q (\<lambda>c. c\<lparr>r_tail := t\<rparr>) (r_cells s)"
  have "rec_ok (s\<lparr>r_cells := ?cs, r_used := r_used s, r_head := r_head s\<rparr>)"
    by (rule rec_scan [OF assms, where fr = "\<lambda>_. False"])
      (use assms in \<open>auto simp: nth_upd_cell r_cell_ok_def r_is_empty_def count_if_def rec_ok_def\<close>)
  then show ?thesis by simp
qed

text \<open>What a successful \<open>seq_rm\<close> is: possibly a tail reset, then the scan.\<close>

lemma rec_seq_rm_cases:
  assumes "rec_seq_rm q p0 p1 s = (True, s')"
  obtains s1 where "s' = rec_rm_cells q (norm_p0 p0) (norm_p1 p1) s1"
    "s1 = s \<or> s1 = s\<lparr>r_cells := upd_cell q (\<lambda>c. c\<lparr>r_tail := -1\<rparr>) (r_cells s)\<rparr>"
  using assms by (auto simp: rec_seq_rm_def Let_def split: if_splits)

lemma rec_ok_seq_rm:
  assumes "rec_ok s" "rec_seq_rm q p0 p1 s = (b, s')"
  shows "rec_ok s'"
proof (cases b)
  case True
  then obtain s1 where "s' = rec_rm_cells q (norm_p0 p0) (norm_p1 p1) s1" "rec_ok s1"
    using rec_seq_rm_cases [of q p0 p1 s s'] assms rec_ok_tail by metis
  then show ?thesis using rec_rm_cells_result(1) [of s1 "norm_p0 p0"] by (simp add: norm_p0_def)
next
  case False
  then show ?thesis using assms by (auto simp: rec_seq_rm_def Let_def split: if_splits)
qed

lemma rec_occ_seq_rm:
  assumes ok: "rec_ok s" and rm: "rec_seq_rm q p0 p1 s = (True, s')"
  shows "rec_occ s' r = (if q < 0 \<or> r = q then {(i, p) \<in> rec_occ s r. \<not> in_range p0 p1 p} else rec_occ s r)"
proof -
  let ?p0 = "norm_p0 p0" and ?p1 = "norm_p1 p1"
  obtain s1 where s1: "s' = rec_rm_cells q ?p0 ?p1 s1"
    "s1 = s \<or> s1 = s\<lparr>r_cells := upd_cell q (\<lambda>c. c\<lparr>r_tail := -1\<rparr>) (r_cells s)\<rparr>"
    by (rule rec_seq_rm_cases [OF rm])
  have ok1: "rec_ok s1" using s1(2) ok rec_ok_tail [of s] by auto
  have len: "length (r_cells s1) = length (r_cells s)" using s1(2) by auto
  have same: "r_pos (r_cells s1 ! i) = r_pos (r_cells s ! i)" "r_seq_id (r_cells s1 ! i) = r_seq_id (r_cells s ! i)"
    if "i < length (r_cells s)" for i
    using s1(2) that by (elim disjE; simp add: nth_upd_cell)+
  have cs: "r_cells s' = map (rec_removed q ?p0 ?p1) (r_cells s1)"
    using rec_rm_cells_result(2) [OF ok1, of ?p0 q ?p1] by (simp add: s1(1) norm_p0_def)
  have "(i, p) \<in> rec_occ s' r \<longleftrightarrow>
      (i, p) \<in> rec_occ s r \<and> \<not> ((q < 0 \<or> r = q) \<and> in_range p0 p1 p)" for i p
  proof (cases "i < length (r_cells s)")
    case True
    then show ?thesis
      by (auto simp: mem_rec_occ cs len same rec_removed_def in_range_def Let_def)
  qed (simp add: mem_rec_occ cs len)
  then show ?thesis by auto
qed

text \<open>The scan of \<open>seq_keep\<close>.\<close>

definition rec_kept :: "int \<Rightarrow> nat \<Rightarrow> rec_cell \<Rightarrow> rec_cell" where
  "rec_kept q i c =
     (if q \<in> r_seq_id c then c\<lparr>r_seq_id := {q}, r_tail := (if int i = q then r_tail c else -1)\<rparr>
      else c\<lparr>r_pos := -1, r_src := -1, r_seq_id := {}, r_tail := (if int i = q then r_tail c else -1)\<rparr>)"

lemma rec_seq_keep_result:
  assumes ok: "rec_ok s"
  shows "rec_ok (rec_seq_keep q s)" "r_size (rec_seq_keep q s) = r_size s" "r_ranges (rec_seq_keep q s) = r_ranges s"
    "i < length (r_cells s) \<Longrightarrow> r_cells (rec_seq_keep q s) ! i = rec_kept q i (r_cells s ! i)"
    "length (r_cells (rec_seq_keep q s)) = length (r_cells s)"
proof -
  let ?f = "rec_keep_cell (r_size s) q" and ?fr = "\<lambda>c. q \<notin> r_seq_id c \<and> 0 \<le> r_pos c"
  let ?L = "cells_loop ?f 0 (r_cells s) (r_used s, r_size s)"
  have cs: "fst ?L ! i = rec_kept q i (r_cells s ! i)" if "i < length (r_cells s)" for i
    using nth_cells_loop [where f = ?f and g = "rec_kept q", OF _ that, of 0 "(r_used s, r_size s)"]
    by (force simp: rec_keep_cell_def rec_kept_def Let_def)
  have "fst (snd (?f i c st)) = (if ?fr c then u32_sub (fst st) 1 else fst st)" for i c st
    by (cases st) (auto simp: rec_keep_cell_def Let_def)
  moreover have fr: "\<And>c. r_cell_ok c \<Longrightarrow> ?fr c \<Longrightarrow> \<not> r_is_empty c"
    by (auto simp: r_cell_ok_def)
  ultimately have us: "fst (snd ?L) = r_used s - count_if ?fr (r_cells s)"
    using rec_freed_le [OF ok fr] by (subst cells_loop_dec [where u = fst and fr = ?fr]) auto
  have eq: "rec_seq_keep q s = s\<lparr>r_cells := fst ?L, r_used := fst (snd ?L),
      r_head := (if snd (snd ?L) \<noteq> r_size s \<and> snd (snd ?L) < r_head s then snd (snd ?L) else r_head s)\<rparr>"
    by (simp add: rec_seq_keep_def split: prod.splits)
  show "rec_ok (rec_seq_keep q s)"
    unfolding eq
  proof (rule rec_scan [OF ok _ _ fr us])
    fix i assume "i < length (fst ?L)" "r_cell_ok (r_cells s ! i)"
    then show "r_cell_ok (fst ?L ! i)
        \<and> (\<not> r_is_empty (fst ?L ! i) \<longleftrightarrow> \<not> r_is_empty (r_cells s ! i) \<and> \<not> ?fr (r_cells s ! i))"
      by (auto simp: cs rec_kept_def r_cell_ok_def r_is_empty_def)
  qed (use ok in \<open>auto simp: rec_ok_def\<close>)
  show "r_size (rec_seq_keep q s) = r_size s" "r_ranges (rec_seq_keep q s) = r_ranges s"
    "i < length (r_cells s) \<Longrightarrow> r_cells (rec_seq_keep q s) ! i = rec_kept q i (r_cells s ! i)"
    "length (r_cells (rec_seq_keep q s)) = length (r_cells s)"
    by (simp_all add: eq cs)
qed

lemma rec_occ_seq_keep:
  assumes "rec_ok s"
  shows "rec_occ (rec_seq_keep q s) r = (if r = q then rec_occ s q else {})"
  using rec_seq_keep_result(4,5) [OF assms, where q = q] by (auto simp: rec_occ_def rec_kept_def split: if_splits)

lemma fold_max_rec:
  "fold (\<lambda>c result. if q \<in> r_seq_id c then max result (r_pos c) else result) cs a
     = Max (insert a {r_pos c | c. c \<in> set cs \<and> q \<in> r_seq_id c})"
proof (induction cs arbitrary: a)
  case (Cons c cs)
  define S where "S = {r_pos c | c. c \<in> set cs \<and> q \<in> r_seq_id c}"
  have fin: "finite S" by (simp add: S_def)
  have "{r_pos x | x. x \<in> set (c # cs) \<and> q \<in> r_seq_id x} = (if q \<in> r_seq_id c then insert (r_pos c) S else S)"
    by (auto simp: S_def)
  then show ?case using Cons.IH Max_insert_max [OF fin] by (simp add: S_def [symmetric])
qed simp

lemma snd_rec_occ: "snd ` rec_occ s q = {r_pos c | c. c \<in> set (r_cells s) \<and> q \<in> r_seq_id c}"
  by (force simp: rec_occ_def in_set_conv_nth image_iff)

interpretation kvr: llama_memory rec_ok rec_occ rec_clear rec_seq_rm rec_seq_keep rec_seq_pos_max
proof
  show "rec_ok s \<Longrightarrow> finite (rec_occ s q)" for s q
    by (rule finite_subset [of _ "(\<lambda>i. (i, r_pos (r_cells s ! i))) ` {..<length (r_cells s)}"])
      (auto simp: rec_occ_def)
  show "rec_ok s \<Longrightarrow> (i, p) \<in> rec_occ s q \<Longrightarrow> 0 \<le> p" for s i p q
    using rec_ok_nth [of s i] by (auto simp: mem_rec_occ r_cell_ok_def r_is_empty_def)
  show "rec_ok s \<Longrightarrow> rec_seq_pos_max q s = Max (insert 0 (snd ` rec_occ s q))" for s q
    by (simp add: rec_seq_pos_max_def fold_max_rec snd_rec_occ)
  show "rec_ok s \<Longrightarrow> rec_occ (rec_clear s) q = {}" for s q
    by (simp add: rec_occ_def rec_clear_def)
qed (auto simp: rec_ok_clear rec_seq_keep_result(1) rec_occ_seq_rm rec_occ_seq_keep intro: rec_ok_seq_rm)

section \<open>The table of sequences\<close>

text \<open>
  The invariant that the debug build verifies at the start of \<open>find_slot\<close>: the tail of sequence
  \<open>q\<close> names the one cell that holds \<open>q\<close>. Moreover an empty cell has no source, so that
  a new sequence starts from a cleared state (\<open>s_mask\<close>).
\<close>

definition tails_ok :: "rec_cell list \<Rightarrow> bool" where
  "tails_ok cs \<longleftrightarrow> (\<forall>i < length cs. \<forall>q \<in> r_seq_id (cs ! i). 0 \<le> q \<and> q < int (length cs))
     \<and> (\<forall>q < length cs. -1 \<le> r_tail (cs ! q) \<and> r_tail (cs ! q) < int (length cs))
     \<and> (\<forall>q < length cs. \<forall>i < length cs. int q \<in> r_seq_id (cs ! i) \<longleftrightarrow> r_tail (cs ! q) = int i)
     \<and> (\<forall>i < length cs. r_is_empty (cs ! i) \<longrightarrow> r_src (cs ! i) = -1)"

definition rec_inv :: "rec_cache \<Rightarrow> bool" where
  "rec_inv s \<longleftrightarrow> rec_ok s \<and> tails_ok (r_cells s) \<and> r_ranges s = []"

lemma tails_okI:
  assumes "\<And>i q. i < length cs \<Longrightarrow> q \<in> r_seq_id (cs ! i) \<Longrightarrow> 0 \<le> q \<and> q < int (length cs)"
    and "\<And>q. q < length cs \<Longrightarrow> -1 \<le> r_tail (cs ! q) \<and> r_tail (cs ! q) < int (length cs)"
    and "\<And>q i. q < length cs \<Longrightarrow> i < length cs \<Longrightarrow> int q \<in> r_seq_id (cs ! i) \<longleftrightarrow> r_tail (cs ! q) = int i"
    and "\<And>i. i < length cs \<Longrightarrow> r_is_empty (cs ! i) \<Longrightarrow> r_src (cs ! i) = -1"
  shows "tails_ok cs"
  using assms by (simp add: tails_ok_def)

lemma tails_okD:
  assumes "tails_ok cs"
  shows "i < length cs \<Longrightarrow> q \<in> r_seq_id (cs ! i) \<Longrightarrow> 0 \<le> q \<and> q < int (length cs)"
    and "k < length cs \<Longrightarrow> -1 \<le> r_tail (cs ! k) \<and> r_tail (cs ! k) < int (length cs)"
    and "k < length cs \<Longrightarrow> i < length cs \<Longrightarrow> int k \<in> r_seq_id (cs ! i) \<longleftrightarrow> r_tail (cs ! k) = int i"
    and "i < length cs \<Longrightarrow> r_is_empty (cs ! i) \<Longrightarrow> r_src (cs ! i) = -1"
  using assms by (simp_all add: tails_ok_def)

text \<open>The tail of a sequence id in range.\<close>

lemma tail_cases:
  assumes "tails_ok cs" "0 \<le> q" "q < int (length cs)"
  obtains "r_tail (cell_at cs q) = -1" "\<forall>i < length cs. q \<notin> r_seq_id (cs ! i)"
  | t where "r_tail (cell_at cs q) = int t" "t < length cs" "\<forall>i < length cs. q \<in> r_seq_id (cs ! i) \<longleftrightarrow> i = t"
proof -
  have q: "nat q < length cs" "int (nat q) = q" using assms(2,3) by auto
  show ?thesis
  proof (cases "r_tail (cell_at cs q) = -1")
    case True
    then show ?thesis using that(1) tails_okD(3) [OF assms(1) q(1)] q(2) by (simp add: cell_at_def)
  next
    case False
    then have "r_tail (cell_at cs q) = int (nat (r_tail (cell_at cs q)))" "nat (r_tail (cell_at cs q)) < length cs"
      using tails_okD(2) [OF assms(1) q(1)] by (auto simp: cell_at_def)
    then show ?thesis using that(2) tails_okD(3) [OF assms(1) q(1)] q(2) by (fastforce simp: cell_at_def)
  qed
qed

lemma rec_inv_init: "sz < 2 ^ 30 \<Longrightarrow> rec_inv (rec_init sz)"
  by (auto simp: rec_inv_def rec_ok_def rec_init_def rec_empty_cell_def r_cell_ok_def r_is_empty_def
      tails_ok_def count_if_eq_0)

lemma rec_inv_clear: "rec_inv s \<Longrightarrow> rec_inv (rec_clear s)"
  using rec_ok_clear [of s] by (auto simp: rec_inv_def tails_ok_def rec_clear_def)

lemma rec_inv_seq_keep:
  assumes "rec_inv s"
  shows "rec_inv (rec_seq_keep q s)"
proof -
  have ok: "rec_ok s" and tl: "tails_ok (r_cells s)" using assms by (simp_all add: rec_inv_def)
  note R = rec_seq_keep_result [OF ok, where q = q]
  have "tails_ok (r_cells (rec_seq_keep q s))"
  proof (rule tails_okI; unfold R(5))
    show "i < length (r_cells s) \<Longrightarrow> r \<in> r_seq_id (r_cells (rec_seq_keep q s) ! i) \<Longrightarrow>
        0 \<le> r \<and> r < int (length (r_cells s))" for i r
      using tails_okD(1) [OF tl, of i r] by (auto simp: R(4) rec_kept_def split: if_splits)
    show "k < length (r_cells s) \<Longrightarrow> -1 \<le> r_tail (r_cells (rec_seq_keep q s) ! k)
        \<and> r_tail (r_cells (rec_seq_keep q s) ! k) < int (length (r_cells s))" for k
      using tails_okD(2) [OF tl, of k] by (auto simp: R(4) rec_kept_def)
    show "k < length (r_cells s) \<Longrightarrow> i < length (r_cells s) \<Longrightarrow>
        int k \<in> r_seq_id (r_cells (rec_seq_keep q s) ! i) \<longleftrightarrow> r_tail (r_cells (rec_seq_keep q s) ! k) = int i" for k i
      using tails_okD(3) [OF tl, of k i] by (auto simp: R(4) rec_kept_def)
    show "i < length (r_cells s) \<Longrightarrow> r_is_empty (r_cells (rec_seq_keep q s) ! i) \<Longrightarrow>
        r_src (r_cells (rec_seq_keep q s) ! i) = -1" for i
      by (auto simp: R(4) rec_kept_def r_is_empty_def split: if_splits)
  qed
  then show ?thesis using R(1,3) assms by (simp add: rec_inv_def)
qed

text \<open>
  The two changes of the table: the sequences of a set leave their cells, or all of them move
  to one cell whose other owners are among them.
\<close>

lemma tails_ok_drop:
  assumes tl: "tails_ok cs" and len: "length cs' = length cs"
    and sq: "\<And>i. i < length cs \<Longrightarrow> r_seq_id (cs' ! i) = r_seq_id (cs ! i) - D"
    and ta: "\<And>k. k < length cs \<Longrightarrow> r_tail (cs' ! k) = (if int k \<in> D then -1 else r_tail (cs ! k))"
    and em: "\<And>i. i < length cs \<Longrightarrow> r_is_empty (cs' ! i) \<Longrightarrow> r_src (cs' ! i) = -1"
  shows "tails_ok cs'"
proof (rule tails_okI; unfold len)
  show "i < length cs \<Longrightarrow> q \<in> r_seq_id (cs' ! i) \<Longrightarrow> 0 \<le> q \<and> q < int (length cs)" for i q
    using tails_okD(1) [OF tl, of i q] by (simp add: sq)
  show "k < length cs \<Longrightarrow> -1 \<le> r_tail (cs' ! k) \<and> r_tail (cs' ! k) < int (length cs)" for k
    using tails_okD(2) [OF tl, of k] by (auto simp: ta)
  show "k < length cs \<Longrightarrow> i < length cs \<Longrightarrow> int k \<in> r_seq_id (cs' ! i) \<longleftrightarrow> r_tail (cs' ! k) = int i" for k i
    using tails_okD(3) [OF tl, of k i] by (auto simp: ta sq)
qed (rule em)

lemma tails_ok_assign:
  assumes tl: "tails_ok cs" and len: "length cs' = length cs" and t: "t < length cs"
    and S: "S \<subseteq> {0..<int (length cs)}" "S \<noteq> {}" and old: "r_seq_id (cs ! t) \<subseteq> S"
    and sq: "\<And>i. i < length cs \<Longrightarrow> r_seq_id (cs' ! i) = (if i = t then S else r_seq_id (cs ! i) - S)"
    and ta: "\<And>k. k < length cs \<Longrightarrow> r_tail (cs' ! k) = (if int k \<in> S then int t else r_tail (cs ! k))"
    and em: "\<And>i. i < length cs \<Longrightarrow> i \<noteq> t \<Longrightarrow> r_is_empty (cs' ! i) \<Longrightarrow> r_src (cs' ! i) = -1"
  shows "tails_ok cs'"
proof (rule tails_okI; unfold len)
  show "i < length cs \<Longrightarrow> q \<in> r_seq_id (cs' ! i) \<Longrightarrow> 0 \<le> q \<and> q < int (length cs)" for i q
    using tails_okD(1) [OF tl, of i q] S by (auto simp: sq split: if_splits)
  show "k < length cs \<Longrightarrow> -1 \<le> r_tail (cs' ! k) \<and> r_tail (cs' ! k) < int (length cs)" for k
    using tails_okD(2) [OF tl, of k] t by (auto simp: ta)
  show "k < length cs \<Longrightarrow> i < length cs \<Longrightarrow> int k \<in> r_seq_id (cs' ! i) \<longleftrightarrow> r_tail (cs' ! k) = int i" for k i
    using tails_okD(3) [OF tl, of k i] tails_okD(3) [OF tl, of k t] t old by (auto simp: ta sq split: if_splits)
  show "i < length cs \<Longrightarrow> r_is_empty (cs' ! i) \<Longrightarrow> r_src (cs' ! i) = -1" for i
    using em S(2) by (cases "i = t") (auto simp: r_is_empty_def sq)
qed

lemma rec_inv_seq_rm:
  assumes inv: "rec_inv s" and q: "0 \<le> q" and rm: "rec_seq_rm q p0 p1 s = (b, s')"
  shows "rec_inv s'"
proof (cases b)
  case False
  then show ?thesis using inv rm by (auto simp: rec_seq_rm_def Let_def split: if_splits)
next
  case True
  have ok: "rec_ok s" and tl: "tails_ok (r_cells s)" and rg: "r_ranges s = []" and sz: "r_size s = length (r_cells s)"
    using inv by (simp_all add: rec_inv_def rec_ok_def)
  let ?p0 = "norm_p0 p0" and ?p1 = "norm_p1 p1" and ?cs = "r_cells s"
  have p0: "0 \<le> ?p0" by (simp add: norm_p0_def)
  have ql: "q < int (length ?cs)" using rm True sz by (auto simp: rec_seq_rm_def Let_def split: if_splits)
  have em: "r_src (rec_removed q ?p0 ?p1 c) = -1"
    if "r_is_empty (rec_removed q ?p0 ?p1 c)" "r_is_empty c \<Longrightarrow> r_src c = -1" for c
    using that by (auto simp: rec_removed_def r_is_empty_def Let_def split: if_splits)
  from tl q ql show ?thesis
  proof (cases rule: tail_cases)
    case 1
    then have s': "s' = rec_rm_cells q ?p0 ?p1 s" using rm True q by (auto simp: rec_seq_rm_def Let_def split: if_splits)
    have "r_cells s' = ?cs"
      using rec_rm_cells_result(2) [OF ok p0] 1(2) q
      by (auto simp: s' rec_removed_def intro!: nth_equalityI)
    then show ?thesis using s' tl rg rec_rm_cells_result(1,4) [OF ok p0] by (simp add: rec_inv_def)
  next
    case (2 t)
    let ?here = "r_pos (?cs ! t)"
    have at: "cell_at ?cs (int t) = ?cs ! t" by (simp add: cell_at_def)
    let ?s1 = "if ?p0 \<le> ?here \<and> ?here < ?p1 then s\<lparr>r_cells := upd_cell q (\<lambda>c. c\<lparr>r_tail := -1\<rparr>) ?cs\<rparr> else s"
    have s': "s' = rec_rm_cells q ?p0 ?p1 ?s1"
      using rm True q 2(1) at by (auto simp: rec_seq_rm_def Let_def split: if_splits)
    have ok1: "rec_ok ?s1" using ok rec_ok_tail [OF ok] by auto
    note R = rec_rm_cells_result [OF ok1 p0, of q ?p1, folded s']
    have "tails_ok (r_cells s')"
    proof (rule tails_ok_drop [OF tl, where D = "if ?p0 \<le> ?here \<and> ?here < ?p1 then {q} else {}"])
      fix i assume i: "i < length ?cs"
      show "r_seq_id (r_cells s' ! i) = r_seq_id (?cs ! i) - (if ?p0 \<le> ?here \<and> ?here < ?p1 then {q} else {})"
        using 2(2,3) i q by (auto simp: R(2) rec_removed_def nth_upd_cell Let_def)
      show "r_tail (r_cells s' ! i) = (if int i \<in> (if ?p0 \<le> ?here \<and> ?here < ?p1 then {q} else {}) then -1 else r_tail (?cs ! i))"
        using i by (auto simp: R(2) rec_removed_def nth_upd_cell Let_def)
      show "r_is_empty (r_cells s' ! i) \<Longrightarrow> r_src (r_cells s' ! i) = -1"
        using em [of "r_cells ?s1 ! i"] i tails_okD(4) [OF tl i] by (auto simp: R(2) nth_upd_cell r_is_empty_def)
    qed (simp add: R(2))
    moreover have "r_ranges s' = []" using R(4) rg by simp
    ultimately show ?thesis using R(1) by (simp add: rec_inv_def)
  qed
qed

text \<open>Taking one sequence out of its cell.\<close>

lemma count_if_unique:
  assumes "t < length xs" "\<And>i. i < length xs \<Longrightarrow> P (xs ! i) \<longleftrightarrow> i = t"
  shows "count_if P xs = 1"
proof -
  have "{i. i < length xs \<and> P (xs ! i)} = {t}" using assms by auto
  then show ?thesis by (simp add: count_if_def length_filter_conv_card)
qed

definition rec_dropped :: "int \<Rightarrow> nat \<Rightarrow> rec_cell \<Rightarrow> rec_cell" where
  "rec_dropped q i c =
     (let d = (if r_seq_id c = {q} then c\<lparr>r_seq_id := {}, r_pos := -1, r_src := -1\<rparr>
               else c\<lparr>r_seq_id := r_seq_id c - {q}\<rparr>)
      in if int i = q then d\<lparr>r_tail := -1\<rparr> else d)"

lemma rec_dropped_other:
  assumes "q \<notin> r_seq_id c"
  shows "rec_dropped q i c = (if int i = q then c\<lparr>r_tail := -1\<rparr> else c)"
proof -
  have "r_seq_id c - {q} = r_seq_id c" "r_seq_id c \<noteq> {q}" using assms by auto
  then show ?thesis by (simp add: rec_dropped_def Let_def)
qed

lemma drop_tail_result:
  assumes inv: "rec_inv s" and q: "0 \<le> q" "q < int (length (r_cells s))"
  shows "rec_inv (drop_tail q s)" "length (r_cells (drop_tail q s)) = length (r_cells s)"
    "r_size (drop_tail q s) = r_size s" "r_head (drop_tail q s) = r_head s"
    "i < length (r_cells s) \<Longrightarrow> r_cells (drop_tail q s) ! i = rec_dropped q i (r_cells s ! i)"
proof -
  let ?cs = "r_cells s" and ?s' = "drop_tail q s"
  have ok: "rec_ok s" and tl: "tails_ok ?cs" and rg: "r_ranges s = []" using inv by (simp_all add: rec_inv_def)
  have used: "r_used s < 2 ^ 32" using rec_freed_le(2) [OF ok, of "\<lambda>_. False"] by simp
  have *: "length (r_cells ?s') = length ?cs \<and> (\<forall>i < length ?cs. r_cells ?s' ! i = rec_dropped q i (?cs ! i))
    \<and> ?s' = s\<lparr>r_cells := r_cells ?s', r_used := r_used s - count_if (\<lambda>c. r_seq_id c = {q}) ?cs, r_head := r_head s\<rparr>"
    using tl q
  proof (cases rule: tail_cases)
    case 1
    have no: "q \<notin> r_seq_id c" if "c \<in> set ?cs" for c using 1(2) that by (auto simp: in_set_conv_nth)
    then have "count_if (\<lambda>c. r_seq_id c = {q}) ?cs = 0" by (auto simp: count_if_eq_0)
    moreover have "rec_dropped q i (?cs ! i) = ?cs ! i" if "i < length ?cs" for i
    proof -
      have "q \<notin> r_seq_id (?cs ! i)" using no that by simp
      then show ?thesis
        using 1(1) rec_cell.surjective [of "?cs ! i"] by (auto simp: rec_dropped_other cell_at_def)
    qed
    ultimately show ?thesis using 1 by (simp add: drop_tail_def Let_def)
  next
    case (2 t)
    have cnt: "count_if (\<lambda>c. r_seq_id c = {q}) ?cs = (if r_seq_id (?cs ! t) = {q} then 1 else 0)"
    proof (cases "r_seq_id (?cs ! t) = {q}")
      case True
      then show ?thesis using count_if_unique [OF 2(2), of "\<lambda>c. r_seq_id c = {q}"] 2(3) by auto
    next
      case False
      then have "r_seq_id (?cs ! i) \<noteq> {q}" if "i < length ?cs" for i using 2(3) that by fastforce
      then have "\<forall>c \<in> set ?cs. r_seq_id c \<noteq> {q}" by (auto simp: in_set_conv_nth)
      then show ?thesis using False by (simp add: count_if_eq_0)
    qed
    have pos: "r_used s \<ge> 1" if "r_seq_id (?cs ! t) = {q}"
    proof -
      have "\<not> r_is_empty (?cs ! t)" using that by (simp add: r_is_empty_def)
      then have "count_if (\<lambda>c. \<not> r_is_empty c) ?cs \<noteq> 0" using 2(2) by (auto simp: count_if_eq_0)
      then show ?thesis using ok by (simp add: rec_ok_def)
    qed
    have other: "rec_dropped q i (?cs ! i) = (if int i = q then (?cs ! i)\<lparr>r_tail := -1\<rparr> else ?cs ! i)"
      if "i < length ?cs" "i \<noteq> t" for i
      using 2(3) that by (intro rec_dropped_other) simp
    have mt: "q \<in> r_seq_id (?cs ! t)" using 2(2,3) by simp
    let ?cs2 = "upd_cell q (\<lambda>c. c\<lparr>r_tail := -1\<rparr>)
      (upd_cell (int t) (\<lambda>c. c\<lparr>r_seq_id := r_seq_id c - {q}\<rparr>) ?cs)"
    have emp: "r_is_empty (cell_at ?cs2 (int t)) \<longleftrightarrow> r_seq_id (?cs ! t) = {q}"
      using 2(2) mt by (auto simp: cell_at_def r_is_empty_def nth_upd_cell)
    have d: "drop_tail q s = (if r_seq_id (?cs ! t) = {q}
        then s\<lparr>r_cells := upd_cell (int t) (\<lambda>c. c\<lparr>r_pos := -1, r_src := -1\<rparr>) ?cs2, r_used := u32_sub (r_used s) 1\<rparr>
        else s\<lparr>r_cells := ?cs2\<rparr>)"
      by (simp add: drop_tail_def 2(1) emp Let_def)
    have n: "r_cells ?s' ! i = rec_dropped q i (?cs ! i)" if "i < length ?cs" for i
    proof (cases "i = t")
      case True
      then show ?thesis using that by (auto simp: d nth_upd_cell rec_dropped_def Let_def)
    next
      case False
      then show ?thesis using that other [OF that] by (auto simp: d nth_upd_cell)
    qed
    show ?thesis
      using n pos used by (auto simp: d cnt)
  qed
  then have eq: "?s' = s\<lparr>r_cells := r_cells ?s', r_used := r_used s - count_if (\<lambda>c. r_seq_id c = {q}) ?cs, r_head := r_head s\<rparr>"
    and len: "length (r_cells ?s') = length ?cs" and nth: "\<And>i. i < length ?cs \<Longrightarrow> r_cells ?s' ! i = rec_dropped q i (?cs ! i)"
    by blast+
  show "length (r_cells ?s') = length ?cs" by (rule len)
  show "i < length ?cs \<Longrightarrow> r_cells ?s' ! i = rec_dropped q i (?cs ! i)" by (rule nth)
  show "r_size ?s' = r_size s" "r_head ?s' = r_head s" by (subst eq, simp)+
  have "rec_ok ?s'"
    by (subst eq, rule rec_scan [OF ok len, where fr = "\<lambda>c. r_seq_id c = {q}"])
      (use ok in \<open>auto simp: len nth rec_dropped_def r_cell_ok_def r_is_empty_def rec_ok_def Let_def split: if_splits\<close>)
  moreover have "tails_ok (r_cells ?s')"
    by (rule tails_ok_drop [OF tl len, where D = "{q}"])
      (use tails_okD(4) [OF tl] in \<open>auto simp: nth rec_dropped_def r_is_empty_def Let_def split: if_splits\<close>)
  moreover have "r_ranges ?s' = []" by (subst eq) (simp add: rg)
  ultimately show "rec_inv ?s'" by (simp add: rec_inv_def)
qed

lemma rec_inv_seq_cp:
  assumes inv: "rec_inv s" and i32: "-(2 ^ 31) \<le> src" "src < 2 ^ 31" "-(2 ^ 31) \<le> dst" "dst < 2 ^ 31"
  shows "rec_inv (rec_seq_cp src dst p0 p1 s)"
proof (cases "src \<noteq> dst \<and> to_u32 dst < r_size s \<and> to_u32 src < r_size s")
  case True
  have sz: "r_size s < 2 ^ 30" "r_size s = length (r_cells s)" using inv by (simp_all add: rec_inv_def rec_ok_def)
  have rng: "0 \<le> x \<and> x < int (length (r_cells s))" if "to_u32 x < r_size s" "-(2 ^ 31) \<le> x" "x < 2 ^ 31" for x
  proof (cases "0 \<le> x")
    case False
    then have "(x + 2 ^ 32) mod 2 ^ 32 = x + 2 ^ 32" using that(2) by (intro mod_pos_pos_trivial) auto
    then have "x mod 2 ^ 32 = x + 2 ^ 32" by simp
    then show ?thesis using that sz by (simp add: to_u32_def)
  qed (use that sz in \<open>simp add: nat_less_iff\<close>)
  have d: "0 \<le> dst" "dst < int (length (r_cells s))" and q: "0 \<le> src" "src < int (length (r_cells s))"
    using rng True i32 by blast+
  define s1 where "s1 = drop_tail dst s"
  note D = drop_tail_result [OF inv d, folded s1_def]
  have tl: "tails_ok (r_cells s1)" and ok1: "rec_ok s1" using D(1) by (simp_all add: rec_inv_def)
  have nod: "dst \<notin> r_seq_id (r_cells s1 ! i)" if "i < length (r_cells s1)" for i
    using that D(2,5) by (auto simp: rec_dropped_def Let_def)
  have q1: "src < int (length (r_cells s1))" using q D(2) by simp
  from tl q(1) q1 show ?thesis
  proof (cases rule: tail_cases)
    case 1
    then show ?thesis using True D(1) by (simp add: rec_seq_cp_def Let_def flip: s1_def)
  next
    case (2 t)
    define cs' where "cs' = upd_cell dst (\<lambda>c. c\<lparr>r_tail := int t\<rparr>)
      (upd_cell (int t) (\<lambda>c. c\<lparr>r_seq_id := insert dst (r_seq_id c)\<rparr>) (r_cells s1))"
    have res: "rec_seq_cp src dst p0 p1 s = s1\<lparr>r_cells := cs'\<rparr>"
      using True 2(1) by (simp add: rec_seq_cp_def cs'_def Let_def flip: s1_def)
    have len: "length cs' = length (r_cells s1)" by (simp add: cs'_def)
    have own: "r \<in> r_seq_id (r_cells s1 ! i) \<longleftrightarrow> i = t" if "i < length (r_cells s1)" "r \<in> r_seq_id (r_cells s1 ! t)" for i r
    proof -
      have r: "0 \<le> r \<and> r < int (length (r_cells s1))" by (rule tails_okD(1) [OF tl 2(2) that(2)])
      then show ?thesis
        using tails_okD(3) [OF tl, of "nat r" i] tails_okD(3) [OF tl, of "nat r" t] that 2(2) by auto
    qed
    have "tails_ok cs'"
    proof (rule tails_ok_assign [OF tl len 2(2), where S = "insert dst (r_seq_id (r_cells s1 ! t))"])
      show "insert dst (r_seq_id (r_cells s1 ! t)) \<subseteq> {0..<int (length (r_cells s1))}"
        using tails_okD(1) [OF tl 2(2)] d D(2) by auto
      fix i assume i: "i < length (r_cells s1)"
      show "r_seq_id (cs' ! i) = (if i = t then insert dst (r_seq_id (r_cells s1 ! t))
          else r_seq_id (r_cells s1 ! i) - insert dst (r_seq_id (r_cells s1 ! t)))"
        using i nod [OF i] own [OF i] by (auto simp: cs'_def nth_upd_cell)
      show "r_tail (cs' ! i) = (if int i \<in> insert dst (r_seq_id (r_cells s1 ! t)) then int t else r_tail (r_cells s1 ! i))"
        using i tails_okD(3) [OF tl i 2(2)] by (auto simp: cs'_def nth_upd_cell)
      show "i \<noteq> t \<Longrightarrow> r_is_empty (cs' ! i) \<Longrightarrow> r_src (cs' ! i) = -1"
        using i tails_okD(4) [OF tl i] by (auto simp: cs'_def nth_upd_cell r_is_empty_def split: if_splits)
    qed auto
    moreover have "rec_ok (s1\<lparr>r_cells := cs', r_used := r_used s1, r_head := r_head s1\<rparr>)"
      by (rule rec_scan [OF ok1 len, where fr = "\<lambda>_. False"])
        (use ok1 2 in \<open>auto simp: cs'_def nth_upd_cell r_cell_ok_def r_is_empty_def rec_ok_def count_if_def\<close>)
    ultimately show ?thesis using D(1) by (simp add: res rec_inv_def)
  qed
qed (use inv in \<open>auto simp: rec_seq_cp_def\<close>)

text \<open>The first pass of \<open>find_slot\<close> takes the secondary sequences out of their cells.\<close>

definition without :: "int set \<Rightarrow> rec_cache \<Rightarrow> rec_cache \<Rightarrow> bool" where
  "without D s s' \<longleftrightarrow> length (r_cells s') = length (r_cells s) \<and> r_size s' = r_size s \<and> r_head s' = r_head s
     \<and> (\<forall>i < length (r_cells s). r_seq_id (r_cells s' ! i) = r_seq_id (r_cells s ! i) - D
          \<and> (r_seq_id (r_cells s' ! i) \<noteq> {} \<longrightarrow>
               r_pos (r_cells s' ! i) = r_pos (r_cells s ! i) \<and> r_src (r_cells s' ! i) = r_src (r_cells s ! i))
          \<and> r_tail (r_cells s' ! i) = (if int i \<in> D then -1 else r_tail (r_cells s ! i)))"

lemma without_refl: "without {} s s"
  by (simp add: without_def)

lemma without_trans: "without D s s1 \<Longrightarrow> without E s1 s2 \<Longrightarrow> without (D \<union> E) s s2"
  unfolding without_def by (intro conjI allI impI) (auto simp: Diff_eq)

lemma without_drop_tail:
  assumes "rec_inv s" "0 \<le> q" "q < int (length (r_cells s))"
  shows "without {q} s (drop_tail q s)"
  using drop_tail_result [OF assms] by (auto simp: without_def rec_dropped_def Let_def)

lemma check_ids_result:
  assumes "rec_inv s" "check_ids jqs s = (b, s')"
  shows "rec_inv s' \<and> (b \<longleftrightarrow> (\<forall>(j, q) \<in> set jqs. 0 \<le> q \<and> q < int (r_size s)))
    \<and> (b \<longrightarrow> without {q. \<exists>j > 0. (j, q) \<in> set jqs} s s')"
  using assms
proof (induction jqs arbitrary: s)
  case Nil
  then show ?case by (simp add: without_refl)
next
  case (Cons x jqs)
  obtain j q where x: "x = (j, q)" by fastforce
  show ?case
  proof (cases "0 \<le> q \<and> q < int (r_size s)")
    case False
    then show ?thesis using Cons.prems by (auto simp: x split: if_splits)
  next
    case True
    let ?s = "if j > 0 then drop_tail q s else s"
    have q: "q < int (length (r_cells s))" using Cons.prems(1) True by (simp add: rec_inv_def rec_ok_def)
    have inv: "rec_inv ?s" and sz: "r_size ?s = r_size s"
      using drop_tail_result(1,3) [OF Cons.prems(1) _ q] True Cons.prems(1) by auto
    have w: "without (if j > 0 then {q} else {}) s ?s"
      using without_drop_tail [OF Cons.prems(1) _ q] without_refl True by auto
    have "check_ids jqs ?s = (b, s')" using Cons.prems(2) True by (auto simp: x)
    then have IH: "rec_inv s'" "b \<longleftrightarrow> (\<forall>(j, q) \<in> set jqs. 0 \<le> q \<and> q < int (r_size s))"
      "b \<Longrightarrow> without {q. \<exists>j > 0. (j, q) \<in> set jqs} ?s s'"
      using Cons.IH [OF inv] sz by auto
    have "{r. \<exists>i > 0. (i, r) \<in> set (x # jqs)} = (if j > 0 then {q} else {}) \<union> {r. \<exists>i > 0. (i, r) \<in> set jqs}"
      by (auto simp: x)
    then have "b \<longrightarrow> without {r. \<exists>i > 0. (i, r) \<in> set (x # jqs)} s s'"
      using without_trans [OF w IH(3)] by simp
    then show ?thesis using IH(1,2) True by (auto simp: x)
  qed
qed

text \<open>
  "Everything should fit if all seq_ids are smaller than the max": a sequence that has no cell
  of its own leaves at least one cell empty, and the cyclic search finds one.
\<close>

lemma empty_cell_exists:
  assumes tl: "tails_ok cs" and q: "0 \<le> q" "q < int (length cs)"
    and own: "\<forall>t. r_tail (cell_at cs q) = int t \<longrightarrow> r_seq_id (cs ! t) \<noteq> {q}"
  shows "\<exists>i < length cs. r_is_empty (cs ! i)"
proof (rule ccontr)
  assume "\<not> ?thesis"
  then have ne: "r_seq_id (cs ! i) \<noteq> {}" if "i < length cs" for i using that by (auto simp: r_is_empty_def)
  have "\<exists>r \<in> r_seq_id (cs ! i). r \<noteq> q" if i: "i < length cs" for i
    using tl q
  proof (cases rule: tail_cases)
    case 1
    then have "q \<notin> r_seq_id (cs ! i)" using i by simp
    moreover obtain r where "r \<in> r_seq_id (cs ! i)" using ne [OF i] by auto
    ultimately show ?thesis by auto
  next
    case (2 t)
    then have "r_seq_id (cs ! t) \<noteq> {q}" using own by simp
    then show ?thesis using ne [OF i] i 2(3) by (cases "i = t") auto
  qed
  then obtain f where f: "\<And>i. i < length cs \<Longrightarrow> f i \<in> r_seq_id (cs ! i) \<and> f i \<noteq> q" by metis
  have rng: "0 \<le> f i \<and> f i < int (length cs)" if "i < length cs" for i
    using tails_okD(1) [OF tl that] f [OF that] by blast
  have "inj_on (nat \<circ> f) {..<length cs}"
  proof (rule inj_onI)
    fix i j assume ij: "i \<in> {..<length cs}" "j \<in> {..<length cs}" "(nat \<circ> f) i = (nat \<circ> f) j"
    then have "f i = f j" using rng [of i] rng [of j] by auto
    then show "i = j"
      using tails_okD(3) [OF tl, of "nat (f i)" i] tails_okD(3) [OF tl, of "nat (f i)" j] f [of i] f [of j] rng [of i] ij
      by auto
  qed
  moreover have "(nat \<circ> f) ` {..<length cs} \<subseteq> {..<length cs} - {nat q}"
    using f rng q by (auto simp: nat_less_iff nat_eq_iff)
  ultimately have "card {..<length cs} \<le> card ({..<length cs} - {nat q})"
    by (rule card_inj_on_le) simp
  then show False using q by (simp add: nat_less_iff)
qed

lemma next_empty_finds:
  assumes "ne \<le> length cs" "j < k" "r_is_empty (cs ! ((ne + j) mod length cs))" "cs \<noteq> []"
  shows "next_empty cs (length cs) ne k < length cs \<and> r_is_empty (cs ! next_empty cs (length cs) ne k)"
  using assms
proof (induction k arbitrary: ne j)
  case (Suc k)
  define ne1 where "ne1 = (if length cs \<le> ne then ne - length cs else ne)"
  have ne1: "ne1 < length cs" "ne mod length cs = ne1" using Suc.prems(1,4) by (auto simp: ne1_def)
  show ?case
  proof (cases "r_is_empty (cs ! ne1)")
    case True
    then show ?thesis using ne1 by (simp add: ne1_def [symmetric] Let_def)
  next
    case False
    then obtain j' where j: "j = Suc j'" using Suc.prems(3) ne1 by (cases j) auto
    have "(ne1 + (1 + j')) mod length cs = (ne + (1 + j')) mod length cs"
      by (metis ne1(2) mod_add_left_eq)
    then have "(ne1 + 1 + j') mod length cs = (ne + j) mod length cs" by (simp add: j)
    then have "r_is_empty (cs ! ((ne1 + 1 + j') mod length cs))" using Suc.prems(3) by simp
    then show ?thesis
      using Suc.IH [of "ne1 + 1" j'] Suc.prems(2,4) ne1 j False by (simp add: ne1_def [symmetric] Let_def)
  qed
qed simp

lemma next_empty_total:
  assumes "i < length cs" "r_is_empty (cs ! i)" "ne \<le> length cs"
  shows "next_empty cs (length cs) ne (length cs) < length cs
    \<and> r_is_empty (cs ! next_empty cs (length cs) ne (length cs))"
proof (cases "ne \<le> i")
  case True
  then show ?thesis using next_empty_finds [of ne cs "i - ne" "length cs"] assms by fastforce
next
  case False
  then have "(ne + (i + length cs - ne)) mod length cs = i" using assms by simp
  then show ?thesis using next_empty_finds [of ne cs "i + length cs - ne" "length cs"] assms False by fastforce
qed

lemma nth_set_tails: "k < length cs \<Longrightarrow> set_tails S t cs ! k = (if int k \<in> S then (cs ! k)\<lparr>r_tail := t\<rparr> else cs ! k)"
  by (simp add: set_tails_def nth_enumerate_eq)

lemma length_set_tails [simp]: "length (set_tails S t cs) = length cs"
  by (simp add: set_tails_def)

text \<open>The second pass for one sequence.\<close>

lemma own_single:
  assumes inv: "rec_inv s" and q: "0 \<le> q" "q < int (length (r_cells s))"
  defines "cs \<equiv> r_cells s"
  obtains cs1 t where
    "own_cells [q] (next_empty cs (r_size s) (r_head s) (r_size s)) (int (r_size s) - 1) 0 cs = Inr (cs1, int t, int t)"
    "t < length cs" "length cs1 = length cs" "r_seq_id (cs ! t) \<subseteq> {q}"
    "\<And>i. i < length cs \<Longrightarrow> i \<noteq> t \<Longrightarrow> r_seq_id (cs1 ! i) = r_seq_id (cs ! i) - {q}
       \<and> r_pos (cs1 ! i) = r_pos (cs ! i) \<and> r_src (cs1 ! i) = r_src (cs ! i) \<and> (r_is_empty (cs1 ! i) \<longleftrightarrow> r_is_empty (cs ! i))"
    "\<And>k. k < length cs \<Longrightarrow> r_tail (cs1 ! k) = (if int k = q then int t else r_tail (cs ! k))"
    "r_src (cs1 ! t) = (if 0 \<le> r_tail (cell_at cs q) then r_src (cell_at cs (r_tail (cell_at cs q))) else -1)"
proof -
  let ?ne = "next_empty cs (r_size s) (r_head s) (r_size s)"
  have ok: "rec_ok s" and tl: "tails_ok cs" and sz: "r_size s = length cs" "r_head s \<le> length cs"
    using inv by (simp_all add: rec_inv_def rec_ok_def cs_def)
  have ql: "q < int (length cs)" using q(2) by (simp add: cs_def)
  have bounds: "min (int (length cs) - 1) (int t) = int t \<and> max 0 (int t) = int t" if "t < length cs" for t
    using that by auto
  have empty: "?ne < length cs \<and> r_is_empty (cs ! ?ne)"
    if "\<forall>t. r_tail (cell_at cs q) = int t \<longrightarrow> r_seq_id (cs ! t) \<noteq> {q}"
    using empty_cell_exists [OF tl q(1) ql that] next_empty_total sz by (metis sz(1))
  from tl q(1) ql show thesis
  proof (cases rule: tail_cases)
    case 1
    then have e: "?ne < length cs" "r_is_empty (cs ! ?ne)" using empty by auto
    show thesis
    proof (rule that [of "upd_cell q (\<lambda>c. c\<lparr>r_tail := int ?ne\<rparr>) cs" ?ne])
      show "own_cells [q] ?ne (int (r_size s) - 1) 0 cs = Inr (upd_cell q (\<lambda>c. c\<lparr>r_tail := int ?ne\<rparr>) cs, int ?ne, int ?ne)"
        using 1 e bounds [OF e(1)] by (simp add: Let_def sz)
      show "r_src (upd_cell q (\<lambda>c. c\<lparr>r_tail := int ?ne\<rparr>) cs ! ?ne)
          = (if 0 \<le> r_tail (cell_at cs q) then r_src (cell_at cs (r_tail (cell_at cs q))) else -1)"
        using e 1 tails_okD(4) [OF tl e] by (simp add: nth_upd_cell)
    qed (use e 1 in \<open>auto simp: nth_upd_cell r_is_empty_def\<close>)
  next
    case (2 t)
    have mt: "q \<in> r_seq_id (cs ! t)" using 2 by simp
    have at: "cell_at cs (int t) = cs ! t" by (simp add: cell_at_def)
    have fin: "finite (r_seq_id (cs ! t))" using rec_ok_nth [OF ok, of t] 2(2) by (simp add: r_cell_ok_def cs_def)
    have one: "card (r_seq_id (cs ! t)) = 1 \<longleftrightarrow> r_seq_id (cs ! t) = {q}"
      using mt by (auto simp: card_1_singleton_iff)
    show thesis
    proof (cases "r_seq_id (cs ! t) = {q}")
      case True
      show thesis
      proof (rule that [of cs t])
        show "own_cells [q] ?ne (int (r_size s) - 1) 0 cs = Inr (cs, int t, int t)"
          using 2 mt True bounds [OF 2(2)] by (simp add: Let_def at sz)
      qed (use 2 True q in \<open>auto simp: at cell_at_def\<close>)
    next
      case False
      then have e: "?ne < length cs" "r_is_empty (cs ! ?ne)" using empty 2(1) by auto
      have nt: "?ne \<noteq> t" using e mt by (auto simp: r_is_empty_def)
      define cs1 where "cs1 = upd_cell q (\<lambda>c. c\<lparr>r_tail := int ?ne\<rparr>)
        (upd_cell (int ?ne) (\<lambda>c. c\<lparr>r_pos := r_pos (cs ! t), r_src := r_src (cs ! t), r_seq_id := insert q (r_seq_id c)\<rparr>)
          (upd_cell (int t) (\<lambda>c. c\<lparr>r_seq_id := r_seq_id c - {q}\<rparr>) cs))"
      have len: "length cs1 = length cs" by (simp add: cs1_def)
      show thesis
      proof (rule that [of cs1 ?ne])
        show "own_cells [q] ?ne (int (r_size s) - 1) 0 cs = Inr (cs1, int ?ne, int ?ne)"
          using 2(1) mt False one e bounds [OF e(1)] by (simp add: Let_def at sz cs1_def)
        show "r_src (cs1 ! ?ne) = (if 0 \<le> r_tail (cell_at cs q) then r_src (cell_at cs (r_tail (cell_at cs q))) else -1)"
          using e nt 2 by (simp add: cs1_def nth_upd_cell at)
        show "r_seq_id (cs ! ?ne) \<subseteq> {q}" using e(2) by (simp add: r_is_empty_def)
        fix i assume i: "i < length cs"
        show "r_tail (cs1 ! i) = (if int i = q then int ?ne else r_tail (cs ! i))"
          using i by (auto simp: cs1_def nth_upd_cell)
        assume ne: "i \<noteq> ?ne"
        show "r_seq_id (cs1 ! i) = r_seq_id (cs ! i) - {q}
          \<and> r_pos (cs1 ! i) = r_pos (cs ! i) \<and> r_src (cs1 ! i) = r_src (cs ! i) \<and> (r_is_empty (cs1 ! i) \<longleftrightarrow> r_is_empty (cs ! i))"
          using i ne 2(3) mt False by (cases "i = t") (auto simp: cs1_def nth_upd_cell r_is_empty_def)
      qed (use e len in auto)
    qed
  qed
qed

text \<open>A micro-batch of one group of sequences whose ids fit.\<close>

definition single_group :: "u32 \<Rightarrow> llama_ubatch \<Rightarrow> bool" where
  "single_group sz ub \<longleftrightarrow> equal_seqs ub \<and> n_seqs ub = 1 \<and> ubatch_ids ub 0 \<noteq> [] \<and> distinct (ubatch_ids ub 0)
     \<and> (\<forall>q \<in> set (ubatch_ids ub 0). 0 \<le> q \<and> q < int sz) \<and> 0 \<le> ub_pos ub ! (n_seq_tokens ub - 1)"

lemma secondary_ids: "{q. \<exists>j > 0. (j, q) \<in> set (enumerate 0 xs)} = set (tl xs)"
proof (cases xs)
  case (Cons x ys)
  have "set ys = snd ` set (enumerate (Suc 0) ys)" by (metis list.set_map map_snd_enumerate)
  moreover have "j > 0" if "(j, q) \<in> set (enumerate (Suc 0) ys)" for j q
    using that by (auto simp: in_set_enumerate_eq)
  ultimately show ?thesis by (force simp: Cons image_iff)
qed simp

lemma check_single:
  assumes inv: "rec_inv s" and sg: "single_group (r_size s) ub"
  obtains s1 where "check_ids (concat (map (\<lambda>g. enumerate 0 g) (map (ubatch_ids ub) [0..<n_seqs ub]))) s = (True, s1)"
    "rec_inv s1" "without (set (tl (ubatch_ids ub 0))) s s1"
proof -
  let ?l = "concat (map (\<lambda>g. enumerate 0 g) (map (ubatch_ids ub) [0..<n_seqs ub]))"
  have l: "?l = enumerate 0 (ubatch_ids ub 0)" using sg by (simp add: single_group_def)
  obtain b s1 where c: "check_ids (enumerate 0 (ubatch_ids ub 0)) s = (b, s1)" by fastforce
  have "\<forall>(j, q) \<in> set (enumerate 0 (ubatch_ids ub 0)). 0 \<le> q \<and> q < int (r_size s)"
    using sg by (auto simp: single_group_def in_set_enumerate_eq)
  then have "rec_inv s1" "b" "without (set (tl (ubatch_ids ub 0))) s s1"
    using check_ids_result [OF inv c] secondary_ids [of "ubatch_ids ub 0"] by simp_all
  then show thesis using that [of s1] c unfolding l by simp
qed

lemma rec_inv_head: "rec_inv s \<Longrightarrow> h \<le> r_size s \<Longrightarrow> rec_inv (s\<lparr>r_head := h\<rparr>)"
  by (simp add: rec_inv_def rec_ok_def)

lemma rec_find_slot_group:
  assumes inv: "rec_inv s" and sg: "single_group (r_size s) ub"
  defines "ids \<equiv> ubatch_ids ub 0" and "cs \<equiv> r_cells s"
  defines "q \<equiv> hd ids"
  obtains s' t where "rec_find_slot ub s = Inr (True, s')" "rec_inv s'" "r_head s' = t" "r_n s' = 1" "t < r_size s'"
    "r_size s' = r_size s"
    "\<And>r. rec_occ s' r = (if r \<in> set ids then {(t, ub_pos ub ! (n_seq_tokens ub - 1))} else rec_occ s r)"
    "r_src (r_cells s' ! t) = (if 0 \<le> r_tail (cell_at cs q) then r_src (cell_at cs (r_tail (cell_at cs q))) else -1)"
    "\<And>i. i < length cs \<Longrightarrow> i \<noteq> t \<Longrightarrow> \<not> r_is_empty (r_cells s' ! i) \<Longrightarrow> r_src (r_cells s' ! i) = r_src (cs ! i)"
proof -
  let ?p = "ub_pos ub ! (n_seq_tokens ub - 1)"
  define s0 where "s0 = s\<lparr>r_head := (if r_head s > u32_add (r_used s) (u32_mul 2 (n_tokens ub)) then 0 else r_head s)\<rparr>"
  have inv0: "rec_inv s0" unfolding s0_def by (rule rec_inv_head [OF inv]) (use inv in \<open>auto simp: rec_inv_def rec_ok_def\<close>)
  have sz: "r_size s0 = r_size s" "r_cells s0 = cs" "length cs = r_size s" "r_size s < 2 ^ 30"
    using inv by (simp_all add: s0_def cs_def rec_inv_def rec_ok_def)
  obtain s1 where c: "check_ids (concat (map (\<lambda>g. enumerate 0 g) (map (ubatch_ids ub) [0..<n_seqs ub]))) s0 = (True, s1)"
    and inv1: "rec_inv s1" and w: "without (set (tl ids)) s0 s1"
    using check_single [OF inv0] sg sz unfolding ids_def by metis
  let ?c1 = "r_cells s1"
  have len1: "length ?c1 = length cs" and sz1: "r_size s1 = length cs" using w sz by (simp_all add: without_def)
  have ids: "ids = q # tl ids" "q \<notin> set (tl ids)" "set ids \<subseteq> {0..<int (length cs)}" "0 \<le> ?p"
    using sg sz by (auto simp: single_group_def ids_def q_def neq_Nil_conv)
  have sids: "set ids = insert q (set (tl ids))" by (subst ids(1)) simp
  have q: "0 \<le> q" "q < int (length ?c1)" "q < int (length cs)" using sids ids(3) len1 by auto
  have hd_q: "hd (ub_seq_id ub ! 0) = q"
    using sg by (auto simp: q_def ids_def ubatch_ids_def single_group_def hd_take split: nat.splits)
  obtain cs1 t where own:
    "own_cells [q] (next_empty ?c1 (r_size s1) (r_head s1) (r_size s1)) (int (r_size s1) - 1) 0 ?c1 = Inr (cs1, int t, int t)"
    "t < length ?c1" "length cs1 = length ?c1" "r_seq_id (?c1 ! t) \<subseteq> {q}"
    "\<And>i. i < length ?c1 \<Longrightarrow> i \<noteq> t \<Longrightarrow> r_seq_id (cs1 ! i) = r_seq_id (?c1 ! i) - {q}
       \<and> r_pos (cs1 ! i) = r_pos (?c1 ! i) \<and> r_src (cs1 ! i) = r_src (?c1 ! i) \<and> (r_is_empty (cs1 ! i) \<longleftrightarrow> r_is_empty (?c1 ! i))"
    "\<And>k. k < length ?c1 \<Longrightarrow> r_tail (cs1 ! k) = (if int k = q then int t else r_tail (?c1 ! k))"
    "r_src (cs1 ! t) = (if 0 \<le> r_tail (cell_at ?c1 q) then r_src (cell_at ?c1 (r_tail (cell_at ?c1 q))) else -1)"
    by (rule own_single [OF inv1 q(1,2)]) blast
  define cs3 where "cs3 = set_tails (set ids) (int t) (upd_cell (int t) (\<lambda>c. c\<lparr>r_pos := ?p, r_seq_id := set ids\<rparr>) cs1)"
  define s' where "s' = s1\<lparr>r_cells := cs3, r_head := t, r_n := 1, r_used := count_if (\<lambda>c. \<not> r_is_empty c) cs3\<rparr>"
  have tq: "r_tail (cell_at cs1 q) = int t" using own(6) [of "nat q"] q by (simp add: cell_at_def nat_less_iff)
  have res: "rec_find_slot ub s = Inr (True, s')"
    using sg c own(1) tq
    by (simp add: rec_find_slot_def single_group_def s0_def [symmetric] hd_q ids_def [symmetric] cs3_def s'_def
        Let_def to_u32_def del: own_cells.simps check_ids.simps)
  have l3: "length cs3 = length cs" using own(3) len1 by (simp add: cs3_def)
  have n3: "cs3 ! i = (let c = (if i = t then (cs1 ! i)\<lparr>r_pos := ?p, r_seq_id := set ids\<rparr> else cs1 ! i)
      in if int i \<in> set ids then c\<lparr>r_tail := int t\<rparr> else c)" if "i < length cs" for i
    using that own(3) len1 by (simp add: cs3_def nth_set_tails nth_upd_cell)
  have W: "r_seq_id (?c1 ! i) = r_seq_id (cs ! i) - set (tl ids)"
    "r_tail (?c1 ! i) = (if int i \<in> set (tl ids) then -1 else r_tail (cs ! i))"
    "r_seq_id (?c1 ! i) \<noteq> {} \<Longrightarrow> r_pos (?c1 ! i) = r_pos (cs ! i) \<and> r_src (?c1 ! i) = r_src (cs ! i)"
    if "i < length cs" for i
    using w that sz by (auto simp: without_def)
  have seq3: "r_seq_id (cs3 ! i) = (if i = t then set ids else r_seq_id (cs ! i) - set ids)" if "i < length cs" for i
    using that own(5) [of i] W(1) [OF that] len1 n3 [OF that]
    by (cases "i = t") (auto simp: Let_def sids)
  have ok1: "rec_ok s1" and tl1: "tails_ok ?c1" and rg1: "r_ranges s1 = []" and tl: "tails_ok cs"
    using inv1 inv by (simp_all add: rec_inv_def cs_def)
  have t: "t < length cs" using own(2) len1 by simp
  have at_t: "r_pos (cs3 ! t) = ?p" "r_src (cs3 ! t) = r_src (cs1 ! t)"
    using n3 [OF t] by (simp_all add: Let_def)
  have rest: "r_pos (cs3 ! i) = r_pos (?c1 ! i)" "r_src (cs3 ! i) = r_src (?c1 ! i)"
    "r_is_empty (cs3 ! i) \<longleftrightarrow> r_is_empty (?c1 ! i)" if "i < length cs" "i \<noteq> t" for i
    using own(5) [of i] that len1 n3 [OF that(1)] by (auto simp: Let_def r_is_empty_def)
  have tail3: "r_tail (cs3 ! k) = (if int k \<in> set ids then int t else r_tail (cs ! k))" if "k < length cs" for k
    using own(6) [of k] W(2) [OF that] that len1 n3 [OF that] by (auto simp: Let_def sids)
  have tails3: "tails_ok cs3"
  proof (rule tails_ok_assign [OF tl l3 t ids(3) _ _ seq3 tail3])
    show "set ids \<noteq> {}" using sids by simp
    show "r_seq_id (cs ! t) \<subseteq> set ids" using own(4) W(1) [OF t] sids by auto
    fix i assume i: "i < length cs" "i \<noteq> t" "r_is_empty (cs3 ! i)"
    then show "r_src (cs3 ! i) = -1" using rest [OF i(1,2)] tails_okD(4) [OF tl1, of i] len1 by simp
  qed
  have "r_cell_ok (cs3 ! i)" if "i < length cs" for i
  proof (cases "i = t")
    case True
    then show ?thesis using seq3 [OF that] at_t ids(4) sids by (simp add: r_cell_ok_def r_is_empty_def)
  next
    case False
    have "finite (r_seq_id (cs3 ! i))" using seq3 [OF that] False rec_ok_nth [of s i] inv that
      by (simp add: r_cell_ok_def rec_inv_def cs_def)
    then show ?thesis using rest [OF that False] rec_ok_nth [OF ok1, of i] that len1 by (simp add: r_cell_ok_def)
  qed
  then have "rec_ok s'" using ok1 l3 len1 t sz1 by (auto simp: rec_ok_def s'_def in_set_conv_nth)
  then have "rec_inv s'" using tails3 rg1 by (simp add: rec_inv_def s'_def)
  moreover have "rec_occ s' r = (if r \<in> set ids then {(t, ?p)} else rec_occ s r)" for r
  proof -
    have "(i, p) \<in> rec_occ s' r \<longleftrightarrow> (if r \<in> set ids then i = t \<and> p = ?p else (i, p) \<in> rec_occ s r)" for i p
    proof (cases "i < length cs")
      case i: True
      have keep: "r \<in> r_seq_id (cs ! i) \<Longrightarrow> r \<notin> set ids \<Longrightarrow> i \<noteq> t \<and> r_pos (cs3 ! i) = r_pos (cs ! i)"
        using own(4) W(1,3) [OF i] sids rest(1) [OF i] by (cases "i = t") auto
      show ?thesis
        using seq3 [OF i] keep at_t i l3 by (auto simp: mem_rec_occ s'_def cs_def [symmetric])
    qed (use t l3 in \<open>auto simp: mem_rec_occ s'_def cs_def [symmetric]\<close>)
    then show ?thesis by auto
  qed
  moreover have "r_src (cs3 ! t) = (if 0 \<le> r_tail (cell_at cs q) then r_src (cell_at cs (r_tail (cell_at cs q))) else -1)"
  proof -
    have tail_q: "r_tail (cell_at ?c1 q) = r_tail (cell_at cs q)"
      using W(2) [of "nat q"] q ids(2) by (simp add: cell_at_def nat_less_iff)
    have "r_src (cell_at ?c1 (int u)) = r_src (cell_at cs (int u))" if "r_tail (cell_at cs q) = int u" for u
    proof -
      have u: "u < length cs" "q \<in> r_seq_id (cs ! u)"
        using tails_okD(2,3) [OF tl, of "nat q"] q that by (auto simp: cell_at_def nat_less_iff)
      then have "r_seq_id (?c1 ! u) \<noteq> {}" using W(1) [OF u(1)] ids(2) by auto
      then show ?thesis using W(3) [OF u(1)] by (simp add: cell_at_def)
    qed
    then show ?thesis using own(7) at_t tail_q by (metis zero_le_imp_eq_int)
  qed
  moreover have "r_src (cs3 ! i) = r_src (cs ! i)" if "i < length cs" "i \<noteq> t" "\<not> r_is_empty (cs3 ! i)" for i
    using rest [OF that(1,2)] W(3) [OF that(1)] that(3) by (simp add: r_is_empty_def)
  ultimately show thesis
    using that [OF res, of t] t sz sz1 by (simp add: s'_def)
qed

section \<open>Reachable states\<close>

text \<open>
  The operations of the cache as they are used with one group of sequences per micro-batch
  (\<open>find_slot\<close> with several new sequences does not keep the table, see \<open>rec_find_slot_mixes\<close>). \<open>s_copy\<close>
  and \<open>s_mask\<close> are evaluated on the cells of the slot, which are in use; \<open>seq_rm\<close> with a negative
  sequence id is left out (\<open>rec_rm_all_stale\<close>), and so are position shifts below zero.
\<close>

inductive rec_step :: "rec_cache \<Rightarrow> rec_cache \<Rightarrow> bool" where
  rstep_clear: "rec_step s (rec_clear s)"
| rstep_seq_rm: "0 \<le> q \<Longrightarrow> rec_seq_rm q p0 p1 s = (b, s') \<Longrightarrow> rec_step s s'"
| rstep_seq_cp: "-(2 ^ 31) \<le> a \<Longrightarrow> a < 2 ^ 31 \<Longrightarrow> -(2 ^ 31) \<le> b \<Longrightarrow> b < 2 ^ 31 \<Longrightarrow> rec_step s (rec_seq_cp a b p0 p1 s)"
| rstep_seq_keep: "rec_step s (rec_seq_keep q s)"
| rstep_seq_add: "0 \<le> d \<Longrightarrow> rec_step s (rec_seq_add q p0 p1 d s)"
| rstep_seq_div: "0 < d \<Longrightarrow> rec_step s (rec_seq_div q p0 p1 d s)"
| rstep_restore: "rec_step s (rec_restore s)"
| rstep_commit: "rec_step s (rec_commit s)"
| rstep_set_full: "rec_step s (rec_set_full s)"
| rstep_find_slot: "single_group (r_size s) ub \<Longrightarrow> rec_find_slot ub s = Inr (b, s') \<Longrightarrow> rec_step s s'"
| rstep_s_copy: "i + r_head s < r_size s \<Longrightarrow> \<not> r_is_empty (r_cells s ! (i + r_head s)) \<Longrightarrow> rec_step s (snd (s_copy i s))"
| rstep_s_mask: "i + r_head s < r_size s \<Longrightarrow> \<not> r_is_empty (r_cells s ! (i + r_head s)) \<Longrightarrow> rec_step s (snd (s_mask i s))"

inductive rec_reachable :: "u32 \<Rightarrow> rec_cache \<Rightarrow> bool" for sz where
  rreach_init: "rec_reachable sz (rec_init sz)"
| rreach_step: "rec_reachable sz s \<Longrightarrow> rec_step s s' \<Longrightarrow> rec_reachable sz s'"

text \<open>Cells may change their source and position as long as used cells keep a position.\<close>

lemma rec_inv_same_table:
  assumes inv: "rec_inv s" and len: "length cs' = length (r_cells s)"
    and same: "\<And>i. i < length (r_cells s) \<Longrightarrow> r_seq_id (cs' ! i) = r_seq_id (r_cells s ! i)
        \<and> r_tail (cs' ! i) = r_tail (r_cells s ! i)
        \<and> (r_is_empty (r_cells s ! i) \<longrightarrow> cs' ! i = r_cells s ! i)
        \<and> (\<not> r_is_empty (r_cells s ! i) \<longrightarrow> 0 \<le> r_pos (cs' ! i))"
  shows "rec_inv (s\<lparr>r_cells := cs'\<rparr>)"
proof -
  have ok: "rec_ok s" and tl: "tails_ok (r_cells s)" using inv by (simp_all add: rec_inv_def)
  have "rec_ok (s\<lparr>r_cells := cs', r_used := r_used s, r_head := r_head s\<rparr>)"
  proof (rule rec_scan [OF ok len, where fr = "\<lambda>_. False"])
    fix i assume i: "i < length cs'" "r_cell_ok (r_cells s ! i)"
    show "r_cell_ok (cs' ! i) \<and> (\<not> r_is_empty (cs' ! i) \<longleftrightarrow> \<not> r_is_empty (r_cells s ! i) \<and> \<not> False)"
      using same [of i] i len by (cases "r_is_empty (r_cells s ! i)") (auto simp: r_cell_ok_def r_is_empty_def)
  qed (use ok in \<open>auto simp: rec_ok_def count_if_def\<close>)
  moreover have "tails_ok cs'"
    by (rule tails_ok_drop [OF tl len, where D = "{}"]) (use same tails_okD(4) [OF tl] in \<open>auto simp: r_is_empty_def\<close>)
  ultimately show ?thesis using inv by (simp add: rec_inv_def)
qed

lemma rec_inv_nonempty:
  assumes "rec_inv s" "i < length (r_cells s)" "\<not> r_is_empty (r_cells s ! i)"
  shows "0 \<le> r_pos (r_cells s ! i)"
  using assms rec_ok_nth [of s i] by (simp add: rec_inv_def r_cell_ok_def)

lemma rec_inv_move_tail:
  assumes inv: "rec_inv s" and g: "\<And>p. 0 \<le> p \<Longrightarrow> 0 \<le> g p"
  shows "rec_inv (move_tail q p0 p1 g s)"
proof (cases "move_tail q p0 p1 g s = s")
  case False
  let ?t = "r_tail (cell_at (r_cells s) q)"
  have res: "move_tail q p0 p1 g s = s\<lparr>r_cells := upd_cell ?t (\<lambda>c. c\<lparr>r_pos := g (r_pos c)\<rparr>) (r_cells s)\<rparr>"
    and t: "q \<in> r_seq_id (cell_at (r_cells s) ?t)" "0 \<le> ?t"
    using False by (auto simp: move_tail_def Let_def split: if_splits)
  show ?thesis
    unfolding res
  proof (rule rec_inv_same_table [OF inv])
    fix i assume i: "i < length (r_cells s)"
    have "\<not> r_is_empty (r_cells s ! i)" if "?t = int i" using t that by (auto simp: cell_at_def r_is_empty_def)
    then show "r_seq_id (upd_cell ?t (\<lambda>c. c\<lparr>r_pos := g (r_pos c)\<rparr>) (r_cells s) ! i) = r_seq_id (r_cells s ! i)
        \<and> r_tail (upd_cell ?t (\<lambda>c. c\<lparr>r_pos := g (r_pos c)\<rparr>) (r_cells s) ! i) = r_tail (r_cells s ! i)
        \<and> (r_is_empty (r_cells s ! i) \<longrightarrow> upd_cell ?t (\<lambda>c. c\<lparr>r_pos := g (r_pos c)\<rparr>) (r_cells s) ! i = r_cells s ! i)
        \<and> (\<not> r_is_empty (r_cells s ! i) \<longrightarrow> 0 \<le> r_pos (upd_cell ?t (\<lambda>c. c\<lparr>r_pos := g (r_pos c)\<rparr>) (r_cells s) ! i))"
      using rec_inv_nonempty [OF inv i] g i by (auto simp: nth_upd_cell)
  qed simp
qed (use inv in simp)

lemma rec_inv_src:
  assumes "rec_inv s" "k < length (r_cells s)" "\<not> r_is_empty (r_cells s ! k)"
  shows "rec_inv (s\<lparr>r_cells := (r_cells s)[k := (r_cells s ! k)\<lparr>r_src := v\<rparr>]\<rparr>)"
  by (rule rec_inv_same_table [OF assms(1)])
    (use rec_inv_nonempty [OF assms(1)] assms(2,3) in \<open>auto simp: nth_list_update\<close>)

lemma rec_inv_idle:
  assumes "rec_inv s"
  shows "rec_inv (rec_restore s)" "rec_inv (rec_commit s)" "rec_inv (rec_set_full s)"
  using assms by (simp_all add: rec_restore_def rec_commit_def rec_set_full_def rec_inv_def rec_ok_def)

lemma rec_inv_step:
  assumes "rec_step s s'" "rec_inv s"
  shows "rec_inv s'"
  using assms
proof (induction rule: rec_step.induct)
  case (rstep_seq_add d s q p0 p1)
  then show ?case using rec_inv_move_tail by (simp add: rec_seq_add_def)
next
  case (rstep_seq_div d s q p0 p1)
  then show ?case using rec_inv_move_tail [of s "\<lambda>p. c_div p d"] c_div_bounds
    by (simp add: rec_seq_div_def)
next
  case (rstep_find_slot s ub b s')
  obtain s1 where "rec_find_slot ub s = Inr (True, s1)" "rec_inv s1"
    by (rule rec_find_slot_group [OF rstep_find_slot(3,1)])
  then show ?case using rstep_find_slot(2) by simp
next
  case (rstep_s_copy i s)
  then have "i + r_head s < length (r_cells s)" by (simp add: rec_inv_def rec_ok_def)
  then show ?case using rec_inv_src [OF rstep_s_copy(3)] rstep_s_copy(2) by (simp add: s_copy_def Let_def)
next
  case (rstep_s_mask i s)
  then have "i + r_head s < length (r_cells s)" by (simp add: rec_inv_def rec_ok_def)
  then show ?case
    using rec_inv_src [OF rstep_s_mask(3)] rstep_s_mask(2,3) by (simp add: s_mask_def Let_def list_update_id)
qed (auto simp: rec_inv_clear rec_inv_seq_cp rec_inv_seq_keep rec_inv_idle intro: rec_inv_seq_rm)

lemma rec_inv_reachable: "rec_reachable sz s \<Longrightarrow> sz < 2 ^ 30 \<Longrightarrow> rec_inv s"
  by (induction rule: rec_reachable.induct) (auto simp: rec_inv_init intro: rec_inv_step)

section \<open>A concrete run\<close>

text \<open>A micro-batch of one token per group.\<close>

definition rec_ub :: "int list list \<Rightarrow> int \<Rightarrow> llama_ubatch" where
  "rec_ub gs p = \<lparr>equal_seqs = True, n_tokens = length gs, n_seq_tokens = 1, n_seqs = length gs,
     ub_token = Some (replicate (length gs) 0), ub_embd = None, ub_pos = replicate (length gs) p,
     ub_n_seq_id = map (int \<circ> length) gs, ub_seq_id = gs, ub_output = replicate (length gs) 0\<rparr>"

text \<open>
  A cache of four cells written as a list of (position, source, tail, sequences), and the
  evaluation of the operations on it.
\<close>

definition rcs :: "(int \<times> int \<times> int \<times> int set) list \<Rightarrow> rec_cell list" where
  "rcs = map (\<lambda>(p, sr, t, qs). \<lparr>r_pos = p, r_src = sr, r_tail = t, r_seq_id = qs\<rparr>)"

definition rs :: "u32 \<Rightarrow> u32 \<Rightarrow> u32 \<Rightarrow> (int \<times> int \<times> int \<times> int set) list \<Rightarrow> rec_cache" where
  "rs h us n cs = \<lparr>r_head = h, r_size = 4, r_used = us, r_n = n, r_cells = rcs cs, r_ranges = []\<rparr>"

lemmas cell_eval = rcs_def cell_at_def upd_cell_def set_tails_def swap_cells_def r_is_empty_def Let_def
lemmas rec_eval = rs_def cell_eval s_copy_def rec_seq_rm_def rec_rm_cells_def rec_rm_cell_def norm_p0_def norm_p1_def int32_max_def

lemma next_empty_pos:
  "0 < k \<Longrightarrow> next_empty cs sz ne k =
     (let ne1 = (if sz \<le> ne then ne - sz else ne) in
      if r_is_empty (cs ! ne1) then ne1 else next_empty cs sz (ne1 + 1) (k - 1))"
  by (cases k) (simp_all add: Let_def)

lemma check_singletons:
  "\<forall>q \<in> set qs. 0 \<le> q \<and> q < int (r_size s) \<Longrightarrow> check_ids (map (Pair 0) qs) s = (True, s)"
  by (induction qs) auto

lemma rec_find_slot_ub:
  assumes "\<forall>q \<in> set qs. 0 \<le> q \<and> q < int (r_size s)" "r_head s \<le> u32_add (r_used s) (u32_mul 2 (length qs))"
  shows "rec_find_slot (rec_ub (map (\<lambda>q. [q]) qs) p) s =
    bind_res (own_cells qs (next_empty (r_cells s) (r_size s) (r_head s) (r_size s)) (int (r_size s) - 1) 0 (r_cells s))
      (\<lambda>(cs1, mn, mx).
         let cs3 = write_groups (map (\<lambda>q. (p, [q])) qs) mn (gather_cells qs mn cs1); n = to_u32 (mx - mn + 1)
         in Inr (n \<ge> length qs, s\<lparr>r_cells := cs3, r_head := nat mn, r_n := n,
                    r_used := count_if (\<lambda>c. \<not> r_is_empty c) cs3\<rparr>))"
proof -
  let ?ub = "rec_ub (map (\<lambda>q. [q]) qs) p"
  have ids: "ubatch_ids ?ub k = [qs ! k]" if "k < length qs" for k
    using that by (simp add: ubatch_ids_def rec_ub_def)
  have n: "n_seqs ?ub = length qs" "n_tokens ?ub = length qs" "n_seq_tokens ?ub = 1" "equal_seqs ?ub"
    by (simp_all add: rec_ub_def)
  have g: "concat (map (\<lambda>g. enumerate 0 g) (map (ubatch_ids ?ub) [0..<n_seqs ?ub])) = map (Pair 0) qs"
  proof -
    have "map (ubatch_ids ?ub) [0..<length qs] = map (\<lambda>q. [q]) qs" by (auto simp: ids intro: nth_equalityI)
    then show ?thesis by (simp add: n comp_def concat_map_singleton)
  qed
  have h: "map (\<lambda>q. hd (ub_seq_id ?ub ! q)) [0..<n_seqs ?ub] = qs"
    by (rule nth_equalityI) (auto simp: rec_ub_def)
  have w: "map (\<lambda>q. (ub_pos ?ub ! (n_seq_tokens ?ub * q + n_seq_tokens ?ub - 1), ubatch_ids ?ub q)) [0..<n_seqs ?ub]
      = map (\<lambda>q. (p, [q])) qs"
    by (rule nth_equalityI) (auto simp: n ids, simp add: rec_ub_def)
  show ?thesis
    unfolding rec_find_slot_def Let_def g h w
    using assms check_singletons [OF assms(1)] by (simp add: n)
qed


text \<open>
  Sequences 0, 2 and 1 get the cells 0, 1 and 2, sequence 0 is removed, and then a micro-batch
  has a token of sequence 1 and one of the new sequence 0.
\<close>

lemma run_init: "rec_init 4 = rs 0 0 0 [(-1,-1,-1,{}), (-1,-1,-1,{}), (-1,-1,-1,{}), (-1,-1,-1,{})]"
  by (simp add: rec_eval rec_init_def rec_empty_cell_def numeral_eq_Suc)

lemma run_slot_0: "rec_find_slot (rec_ub [[0]] 0) (rs 0 0 0 [(-1,-1,-1,{}), (-1,-1,-1,{}), (-1,-1,-1,{}), (-1,-1,-1,{})])
  = Inr (True, rs 0 1 1 [(0,-1,0,{0}), (-1,-1,-1,{}), (-1,-1,-1,{}), (-1,-1,-1,{})])"
  by (subst rec_find_slot_ub [of "[0]", simplified]) (simp_all add: rec_eval next_empty_pos to_u32_def)

lemma run_copy_0: "s_copy 0 (rs 0 1 1 [(0,-1,0,{0}), (-1,-1,-1,{}), (-1,-1,-1,{}), (-1,-1,-1,{})])
  = (0, rs 0 1 1 [(0,0,0,{0}), (-1,-1,-1,{}), (-1,-1,-1,{}), (-1,-1,-1,{})])"
  by (simp add: rec_eval)

lemma run_slot_2: "rec_find_slot (rec_ub [[2]] 0) (rs 0 1 1 [(0,0,0,{0}), (-1,-1,-1,{}), (-1,-1,-1,{}), (-1,-1,-1,{})])
  = Inr (True, rs 1 2 1 [(0,0,0,{0}), (0,-1,-1,{2}), (-1,-1,1,{}), (-1,-1,-1,{})])"
  by (subst rec_find_slot_ub [of "[2]", simplified]) (simp_all add: rec_eval next_empty_pos to_u32_def)

lemma run_copy_2: "s_copy 0 (rs 1 2 1 [(0,0,0,{0}), (0,-1,-1,{2}), (-1,-1,1,{}), (-1,-1,-1,{})])
  = (1, rs 1 2 1 [(0,0,0,{0}), (0,1,-1,{2}), (-1,-1,1,{}), (-1,-1,-1,{})])"
  by (simp add: rec_eval)

lemma run_slot_1: "rec_find_slot (rec_ub [[1]] 0) (rs 1 2 1 [(0,0,0,{0}), (0,1,-1,{2}), (-1,-1,1,{}), (-1,-1,-1,{})])
  = Inr (True, rs 2 3 1 [(0,0,0,{0}), (0,1,2,{2}), (0,-1,1,{1}), (-1,-1,-1,{})])"
  by (subst rec_find_slot_ub [of "[1]", simplified]) (simp_all add: rec_eval next_empty_pos to_u32_def)

lemma run_copy_1: "s_copy 0 (rs 2 3 1 [(0,0,0,{0}), (0,1,2,{2}), (0,-1,1,{1}), (-1,-1,-1,{})])
  = (2, rs 2 3 1 [(0,0,0,{0}), (0,1,2,{2}), (0,2,1,{1}), (-1,-1,-1,{})])"
  by (simp add: rec_eval)

lemma run_rm_0: "rec_seq_rm 0 (-1) (-1) (rs 2 3 1 [(0,0,0,{0}), (0,1,2,{2}), (0,2,1,{1}), (-1,-1,-1,{})])
  = (True, rs 0 2 1 [(-1,-1,-1,{}), (0,1,2,{2}), (0,2,1,{1}), (-1,-1,-1,{})])"
  by (simp add: rec_eval)

lemma run_own: "own_cells [1, 0] 0 3 0 (rcs [(-1,-1,-1,{}), (0,1,2,{2}), (0,2,1,{1}), (-1,-1,-1,{})])
   = Inr (rcs [(-1,-1,0,{}), (0,1,2,{2}), (0,2,1,{1}), (-1,-1,-1,{})], 0, 2)"
  by (simp add: cell_eval)

lemma run_gather: "gather_cells [1, 0] 0 (rcs [(-1,-1,0,{}), (0,1,2,{2}), (0,2,1,{1}), (-1,-1,-1,{})])
   = rcs [(0,1,0,{2}), (0,2,1,{1}), (-1,-1,0,{}), (-1,-1,-1,{})]"
  by (simp add: cell_eval)

lemma run_write: "write_groups [(1, [1]), (1, [0])] 0 (rcs [(0,1,0,{2}), (0,2,1,{1}), (-1,-1,0,{}), (-1,-1,-1,{})])
   = rcs [(1,1,1,{1}), (1,2,0,{0}), (-1,-1,0,{}), (-1,-1,-1,{})]"
  by (simp add: cell_eval)

lemma run_slot_1_0: "rec_find_slot (rec_ub [[1],[0]] 1) (rs 0 2 1 [(-1,-1,-1,{}), (0,1,2,{2}), (0,2,1,{1}), (-1,-1,-1,{})])
  = Inr (True, rs 0 2 3 [(1,1,1,{1}), (1,2,0,{0}), (-1,-1,0,{}), (-1,-1,-1,{})])"
proof -
  let ?cs = "[(-1,-1,-1,{}), (0,1,2,{2}), (0,2,1,{1}), (-1,-1,-1,{})]"
  have ne: "next_empty (rcs ?cs) 4 0 4 = 0" by (simp add: next_empty_pos cell_eval)
  show ?thesis
    by (subst rec_find_slot_ub [of "[1, 0]", simplified])
      (simp_all add: rs_def ne run_own run_gather run_write to_u32_def Let_def del: own_cells.simps gather_cells.simps write_groups.simps, 
        simp add: cell_eval)
qed

lemma run_rm_all: "rec_seq_rm (-1) (-1) (-1) (rs 0 1 1 [(0,0,0,{0}), (-1,-1,-1,{}), (-1,-1,-1,{}), (-1,-1,-1,{})])
  = (True, rs 0 0 1 [(-1,-1,0,{}), (-1,-1,-1,{}), (-1,-1,-1,{}), (-1,-1,-1,{})])"
  by (simp add: rec_eval)

lemma run_slot_fails: "rec_find_slot (rec_ub [[0]] 0) (rs 0 0 1 [(-1,-1,0,{}), (-1,-1,-1,{}), (-1,-1,-1,{}), (-1,-1,-1,{})])
  = Inl (Assert_fail ''cell.has_seq_id(seq_id)'')"
  by (subst rec_find_slot_ub [of "[0]", simplified]) (simp_all add: rec_eval next_empty_pos)

abbreviation "run_used \<equiv> rs 0 1 1 [(0,0,0,{0}), (-1,-1,-1,{}), (-1,-1,-1,{}), (-1,-1,-1,{})]"
abbreviation "run_two \<equiv> rs 0 2 1 [(-1,-1,-1,{}), (0,1,2,{2}), (0,2,1,{1}), (-1,-1,-1,{})]"

lemma single_group_ub: "0 \<le> q \<Longrightarrow> q < int sz \<Longrightarrow> single_group sz (rec_ub [[q]] 0)"
  by (simp add: single_group_def rec_ub_def ubatch_ids_def)

lemma rec_reachable_token:
  assumes "rec_reachable 4 (rs h us n cs)" "0 \<le> q" "q < 4"
    and "rec_find_slot (rec_ub [[q]] 0) (rs h us n cs) = Inr (True, rs h' us' n' cs')"
    and "s_copy 0 (rs h' us' n' cs') = (v, s')" "h' < 4" "\<not> r_is_empty (rcs cs' ! h')"
  shows "rec_reachable 4 s'"
proof -
  have "rec_reachable 4 (rs h' us' n' cs')"
    using rreach_step [OF assms(1) rstep_find_slot [OF _ assms(4)]] single_group_ub assms(2,3) by (simp add: rs_def)
  then show ?thesis
    using rreach_step [OF _ rstep_s_copy, of 4 "rs h' us' n' cs'" 0] assms(5-) by (simp add: rs_def)
qed

lemma run_used_reachable: "rec_reachable 4 run_used"
  by (rule rec_reachable_token [OF rreach_init [of 4, unfolded run_init] _ _ run_slot_0 run_copy_0])
    (simp_all add: rcs_def r_is_empty_def)

lemma run_two_reachable: "rec_reachable 4 run_two"
proof -
  have "rec_reachable 4 (rs 1 2 1 [(0,0,0,{0}), (0,1,-1,{2}), (-1,-1,1,{}), (-1,-1,-1,{})])"
    by (rule rec_reachable_token [OF run_used_reachable _ _ run_slot_2 run_copy_2]) (simp_all add: rcs_def r_is_empty_def)
  then have "rec_reachable 4 (rs 2 3 1 [(0,0,0,{0}), (0,1,2,{2}), (0,2,1,{1}), (-1,-1,-1,{})])"
    by (rule rec_reachable_token [OF _ _ _ run_slot_1 run_copy_1]) (simp_all add: rcs_def r_is_empty_def)
  then show ?thesis by (rule rreach_step [OF _ rstep_seq_rm [OF _ run_rm_0]]) simp
qed

lemma rec_occ_rs:
  "rec_occ (rs h us n cs) q =
     (\<Union>(i, p, sr, t, qs) \<in> set (enumerate 0 cs). if q \<in> qs then {(i, p)} else {})" (is "_ = ?R")
proof -
  have "(i, p) \<in> rec_occ (rs h us n cs) q \<longleftrightarrow> (i, p) \<in> ?R" for i p
    by (cases "cs ! i") (fastforce simp: mem_rec_occ rs_def rcs_def in_set_enumerate_eq split: if_splits)
  then show ?thesis by (intro set_eqI) (simp only: split_paired_all)
qed

section \<open>Properties\<close>



text \<open>
  C15. A micro-batch of one group of sequences with ids below the size always finds a cell ("everything
  should fit if all seq_ids are smaller than the max"): \<open>find_slot\<close> returns true without an assertion or
  an access out of bounds, the sequences of the group are held by the slot's one cell at the last
  position of the batch, every other sequence keeps its cell and position, and the source of the cell is
  the one of the first sequence's former cell, or none for a new sequence.
\<close>

theorem rec_find_slot_single:
  assumes "rec_inv s" "single_group (r_size s) ub"
  shows "\<exists>s'. rec_find_slot ub s = Inr (True, s') \<and> rec_inv s' \<and> r_n s' = 1 \<and> r_head s' < r_size s'
    \<and> (\<forall>r. rec_occ s' r = (if r \<in> set (ubatch_ids ub 0)
              then {(r_head s', ub_pos ub ! (n_seq_tokens ub - 1))} else rec_occ s r))
    \<and> r_src (r_cells s' ! r_head s') =
        (let t = r_tail (cell_at (r_cells s) (hd (ubatch_ids ub 0)))
         in if 0 \<le> t then r_src (cell_at (r_cells s) t) else -1)"
  by (rule rec_find_slot_group [OF assms]) (simp add: Let_def)

theorem rec_find_slot_single_witness:
  "\<exists>s'. rec_find_slot (rec_ub [[2, 0]] 1) run_two = Inr (True, s')
     \<and> rec_occ s' 0 = rec_occ s' 2 \<and> rec_occ s' 1 = {(2, 0)}"
proof -
  have "single_group (r_size run_two) (rec_ub [[2, 0]] 1)"
    by (simp add: single_group_def rec_ub_def ubatch_ids_def rs_def)
  moreover have "set (ubatch_ids (rec_ub [[2, 0]] 1) 0) = {0, 2}" by (auto simp: rec_ub_def ubatch_ids_def)
  moreover have "rec_occ run_two 1 = {(2, 0)}" by (simp_all add: rec_occ_rs)
  ultimately show ?thesis
    using rec_find_slot_single [of run_two "rec_ub [[2, 0]] 1"] rec_inv_reachable [OF run_two_reachable] by auto
qed

text \<open>
  C16. The state of a sequence can only be removed as a whole: \<open>seq_rm\<close> of a sequence id in range fails and
  changes nothing exactly when a bound of the range cuts the sequence's history, and otherwise
  the sequence loses its cell when its position is in the range and nothing else changes.
\<close>

theorem rec_seq_rm_whole:
  assumes "rec_inv s" "0 \<le> q" "q < int (r_size s)" "rec_seq_rm q p0 p1 s = (b, s')"
  shows "(b \<longleftrightarrow> (\<forall>(i, p) \<in> rec_occ s q. \<not> (0 < norm_p0 p0 \<and> norm_p0 p0 \<le> p) \<and> \<not> (0 < norm_p1 p1 \<and> norm_p1 p1 \<le> p)))
    \<and> (\<not> b \<longrightarrow> s' = s)
    \<and> (b \<longrightarrow> rec_occ s' q = (if \<exists>(i, p) \<in> rec_occ s q. in_range p0 p1 p then {} else rec_occ s q)
          \<and> (\<forall>r. r \<noteq> q \<longrightarrow> rec_occ s' r = rec_occ s r))"
proof -
  have ok: "rec_ok s" and tl: "tails_ok (r_cells s)" and sz: "r_size s = length (r_cells s)"
    using assms(1) by (simp_all add: rec_inv_def rec_ok_def)
  have occ: "b \<Longrightarrow> rec_occ s' r = (if r = q then {(i, p) \<in> rec_occ s r. \<not> in_range p0 p1 p} else rec_occ s r)" for r
    using kvr.occ_seq_rm [OF ok, of q p0 p1 s' r] assms(2,4) by simp
  from tl assms(2) assms(3) [unfolded sz] show ?thesis
  proof (cases rule: tail_cases)
    case 1
    then have "rec_occ s q = {}" by (auto simp: rec_occ_def)
    moreover have b using assms(2,3,4) 1(1) by (auto simp: rec_seq_rm_def Let_def split: if_splits)
    ultimately show ?thesis using occ by simp
  next
    case (2 t)
    let ?here = "r_pos (r_cells s ! t)"
    have o: "rec_occ s q = {(t, ?here)}" using 2(2,3) by (auto simp: rec_occ_def)
    have "b \<longleftrightarrow> \<not> (0 < norm_p0 p0 \<and> norm_p0 p0 \<le> ?here \<or> 0 < norm_p1 p1 \<and> norm_p1 p1 \<le> ?here)"
      and "\<not> b \<Longrightarrow> s' = s"
      using assms(2,3,4) 2(1) by (auto simp: rec_seq_rm_def cell_at_def Let_def split: if_splits)
    then show ?thesis using occ o by auto
  qed
qed

theorem rec_seq_rm_whole_witness:
  "fst (rec_seq_rm 1 0 0 run_two) = True \<and> rec_occ (snd (rec_seq_rm 1 (-1) (-1) run_two)) 1 = {}
    \<and> rec_occ (snd (rec_seq_rm 1 (-1) (-1) run_two)) 2 = {(1, 0)}"
proof -
  note inv = rec_inv_reachable [OF run_two_reachable]
  have o: "rec_occ run_two 1 = {(2, 0)}" "rec_occ run_two 2 = {(1, 0)}"
    by (simp_all add: rec_occ_rs)
  have sz: "r_size run_two = 4" by (simp add: rs_def)
  show ?thesis
    using rec_seq_rm_whole [of run_two 1 0 0] rec_seq_rm_whole [of run_two 1 "-1" "-1"] inv o sz
    by (cases "rec_seq_rm 1 0 0 run_two"; cases "rec_seq_rm 1 (-1) (-1) run_two")
      (auto simp: norm_p0_def norm_p1_def in_range_def int32_max_def)
qed

text \<open>
  With two sequences in a micro-batch of which one is new, \<open>find_slot\<close> can mix up their states: the cell
  chosen for the new sequence stays empty, so swapping the cells does not update its tail. There is a
  reachable state with sequence 1 in cell 2 and sequence 2 in cell 1 from which \<open>find_slot\<close> succeeds on
  a token of sequence 1 and a token of the new sequence 0, and afterwards sequence 1 continues the state of
  sequence 2 (its source is cell 1), the new sequence 0 that of sequence 1 (cell 2), and sequence 2,
  not in the batch, is gone.
\<close>

theorem rec_find_slot_mixes:
  "\<exists>s s'. rec_reachable 4 s \<and> rec_occ s 0 = {} \<and> rec_occ s 1 = {(2, 0)} \<and> rec_occ s 2 = {(1, 0)}
     \<and> rec_find_slot (rec_ub [[1], [0]] 1) s = Inr (True, s')
     \<and> rec_occ s' 1 = {(0, 1)} \<and> r_src (r_cells s' ! 0) = 1
     \<and> rec_occ s' 0 = {(1, 1)} \<and> r_src (r_cells s' ! 1) = 2 \<and> rec_occ s' 2 = {}"
proof (intro exI conjI)
  show "rec_reachable 4 run_two" by (rule run_two_reachable)
  show "rec_find_slot (rec_ub [[1],[0]] 1) run_two
    = Inr (True, rs 0 2 3 [(1,1,1,{1}), (1,2,0,{0}), (-1,-1,0,{}), (-1,-1,-1,{})])" by (rule run_slot_1_0)
qed (simp_all add: rec_occ_rs, simp_all add: rs_def rcs_def)

text \<open>
  Removing all sequences at once (\<open>seq_rm(-1, -1, -1)\<close>, which \<open>restore\<close> calls) empties the cells but not
  the tails: from a reachable state, \<open>seq_rm\<close> succeeds, no sequence is left, and the next
  \<open>find_slot\<close> for a sequence that was there ends in the assertion \<open>cell.has_seq_id(seq_id)\<close>.
\<close>

theorem rec_rm_all_stale:
  "\<exists>s s'. rec_reachable 4 s \<and> rec_seq_rm (-1) (-1) (-1) s = (True, s') \<and> (\<forall>q. rec_occ s' q = {})
     \<and> rec_find_slot (rec_ub [[0]] 0) s' = Inl (Assert_fail ''cell.has_seq_id(seq_id)'')"
proof (intro exI conjI)
  show "rec_reachable 4 run_used" by (rule run_used_reachable)
  show "rec_seq_rm (-1) (-1) (-1) run_used = (True, rs 0 0 1 [(-1,-1,0,{}), (-1,-1,-1,{}), (-1,-1,-1,{}), (-1,-1,-1,{})])"
    by (rule run_rm_all)
qed (use run_slot_fails in \<open>simp_all add: rec_occ_rs\<close>)

end
