(* ===== verification/KvDefrag.thy ===== *)
theory KvDefrag
  imports KvUnified
begin

text \<open>
  Defragmentation and the deferred updates of the unified cache: \<open>defrag_prepare\<close> and
  \<open>update\<close> of \<open>src/llama-kv-cache.cpp\<close>. The graphs that move and shift the tensor data are
  built from \<open>ids\<close> and \<open>delta\<close>, which the model keeps; their computation is not modelled.
\<close>

section \<open>The model\<close>

text \<open>\<open>nh\<close>: the size of the hole at \<open>i0\<close>, cut at \<open>n_used\<close>.\<close>

function hole_size :: "kv_cell list \<Rightarrow> nat \<Rightarrow> nat \<Rightarrow> nat \<Rightarrow> nat" where
  "hole_size cs n_used i0 nh =
     (if i0 + nh < n_used \<and> is_empty (cs ! (i0 + nh)) then hole_size cs n_used i0 (nh + 1) else nh)"
  by pat_completeness auto
termination
  by (relation "measure (\<lambda>(cs, n_used, i0, nh). n_used - (i0 + nh))") auto

declare hole_size.simps [simp del]

text \<open>The backward search for \<open>nh\<close> non-empty cells not moved yet; returns \<open>is\<close> and \<open>nf\<close>.\<close>

fun find_src :: "kv_cell list \<Rightarrow> u32 list \<Rightarrow> nat \<Rightarrow> nat \<Rightarrow> nat \<Rightarrow> nat \<Rightarrow> nat \<Rightarrow> nat \<times> nat" where
  "find_src cs ids n_kv i0 nh is nf =
     (if is > i0 then
        (if is_empty (cs ! is) \<or> ids ! is \<noteq> n_kv then find_src cs ids n_kv i0 nh (is - 1) nf
         else if nf + 1 = nh then (is, nf + 1)
         else find_src cs ids n_kv i0 nh (is - 1) (nf + 1))
      else (is, nf))"

declare find_src.simps [simp del]

text \<open>The variables the moves change.\<close>

record defrag_state =
  d_cells :: "kv_cell list"
  d_ids :: "u32 list"
  d_moves :: u32
  d_head :: u32

text \<open>The forward loop over \<open>i1\<close> that fills the hole; returns the state and \<open>stop\<close>.\<close>

function move_cells ::
  "nat \<Rightarrow> nat \<Rightarrow> nat \<Rightarrow> nat \<Rightarrow> nat \<Rightarrow> nat \<Rightarrow> nat \<Rightarrow> bool \<Rightarrow> defrag_state \<Rightarrow> defrag_state \<times> bool" where
  "move_cells n_kv n_used max_moves i0 nh i1 nf cont d =
     (if i1 < n_kv then
        (if is_empty (d_cells d ! i1) \<or> d_ids d ! i1 \<noteq> n_kv then
           (if d_moves d = max_moves then (d, True)
            else move_cells n_kv n_used max_moves i0 nh (i1 + 1) nf False d)
         else
           let d' = d\<lparr>d_ids := (d_ids d)[i1 := i0 + nf],
                      d_cells := (d_cells d)[i0 + nf := d_cells d ! i1, i1 := empty_cell],
                      d_head := n_used,
                      d_moves := (if \<not> cont then d_moves d + 1 else d_moves d)\<rparr>
           in if nf + 1 = nh then (d', False)
              else move_cells n_kv n_used max_moves i0 nh (i1 + 1) (nf + 1) True d')
      else (d, False))"
  by pat_completeness auto
termination
  by (relation "measure (\<lambda>(n_kv, n_used, mm, i0, nh, i1, nf, cont, d). n_kv - i1)") auto

declare move_cells.simps [simp del]

text \<open>The loop over \<open>i0\<close>.\<close>

lemma hole_size_ge: "nh \<le> hole_size cs n_used i0 nh"
proof (induction cs n_used i0 nh rule: hole_size.induct)
  case (1 cs n_used i0 nh)
  then show ?case by (subst hole_size.simps) auto
qed

function defrag_loop ::
  "nat \<Rightarrow> nat \<Rightarrow> nat \<Rightarrow> nat \<Rightarrow> defrag_state \<Rightarrow> defrag_state res" where
  "defrag_loop n_kv n_used max_moves i0 d =
     (if i0 < n_used then
        (if \<not> is_empty (d_cells d ! i0) then
           defrag_loop n_kv n_used max_moves (i0 + 1) (d\<lparr>d_ids := (d_ids d)[i0 := i0]\<rparr>)
         else
           let nh = hole_size (d_cells d) n_used i0 1;
               (is, nf) = find_src (d_cells d) (d_ids d) n_kv i0 nh (n_kv - 1) 0
           in if nf \<noteq> nh then Inl (Assert_fail ''KV defrag bug: nf != nh'')
              else
                let (d', stop) = move_cells n_kv n_used max_moves i0 nh is 0 False d in
                if stop \<or> d_moves d' = max_moves then Inr d'
                else defrag_loop n_kv n_used max_moves (i0 + nh) d')
      else Inr d)"
  by pat_completeness auto
termination
proof (relation "measure (\<lambda>(n_kv, n_used, mm, i0, d). n_used - i0)", goal_cases)
  case (3 n_kv n_used mm i0 d nh)
  then show ?case using hole_size_ge [of 1 "d_cells d" n_used i0] by auto
qed auto

declare defrag_loop.simps [simp del]

definition defrag_prepare :: "u32 \<Rightarrow> int \<Rightarrow> kv_cache \<Rightarrow> (bool \<times> kv_cache) res" where
  "defrag_prepare n_layer n_max_nodes s =
     (let n_kv = cell_max s; n_used = used s in
      if \<not> n_used \<le> n_kv then Inl (Assert_fail ''n_used <= n_kv'')
      else if u32_mul 6 n_layer = 0 then Inl Out_of_range
      else
        let max_moves = u32_sub (to_u32 n_max_nodes) (u32_mul 2 n_layer) div u32_mul 6 n_layer
        in bind_res (defrag_loop n_kv n_used max_moves 0
             \<lparr>d_cells = cells s, d_ids = replicate n_kv n_kv, d_moves = 0, d_head = head s\<rparr>)
             (\<lambda>d. Inr (d_moves d \<noteq> 0,
                       s\<lparr>cells := d_cells d, defrag_ids := d_ids d, head := d_head d\<rparr>)))"

text \<open>
  \<open>update\<close>: the pending K-shift, then the pending defragmentation. \<open>has_rope\<close> is
  \<open>hparams.rope_type != LLAMA_ROPE_TYPE_NONE\<close>; the result is \<open>need_reserve\<close>.
\<close>

definition kv_update :: "bool \<Rightarrow> u32 \<Rightarrow> int \<Rightarrow> kv_cache \<Rightarrow> (bool \<times> kv_cache) res" where
  "kv_update has_rope n_layer n_max_nodes s =
     bind_res
       (if has_shift s then
          (if \<not> can_shift s
           then Inl (Assert_fail ''The current KV cache / model configuration does not support K-shift'')
           else Inr (has_rope, s\<lparr>has_shift := False, cells := map (\<lambda>c. c\<lparr>delta := 0\<rparr>) (cells s)\<rparr>))
        else Inr (False, s))
       (\<lambda>(need_reserve, s1).
          if do_defrag s1 then
            bind_res (defrag_prepare n_layer n_max_nodes s1)
              (\<lambda>(moved, s2). Inr (need_reserve \<or> moved, s2\<lparr>do_defrag := False\<rparr>))
          else Inr (need_reserve, s1))"

section \<open>The hole and its filling\<close>

lemma hole_size_spec:
  assumes "i0 + nh \<le> n_used"
  shows "i0 + hole_size cs n_used i0 nh \<le> n_used
    \<and> (\<forall>j. i0 + nh \<le> j \<and> j < i0 + hole_size cs n_used i0 nh \<longrightarrow> is_empty (cs ! j))"
  using assms
proof (induction cs n_used i0 nh rule: hole_size.induct)
  case (1 cs n_used i0 nh)
  show ?case
  proof (cases "i0 + nh < n_used \<and> is_empty (cs ! (i0 + nh))")
    case True
    then have IH: "i0 + hole_size cs n_used i0 (nh + 1) \<le> n_used"
      "\<forall>j. i0 + (nh + 1) \<le> j \<and> j < i0 + hole_size cs n_used i0 (nh + 1) \<longrightarrow> is_empty (cs ! j)"
      using "1.IH" by auto
    have "is_empty (cs ! j)" if "i0 + nh \<le> j" "j < i0 + hole_size cs n_used i0 (nh + 1)" for j
      using IH(2) True that by (cases "j = i0 + nh") auto
    then show ?thesis
      using True IH(1) by (simp add: hole_size.simps [of cs n_used i0 nh])
  next
    case False
    then show ?thesis
      using "1.prems" by (subst (1 2) hole_size.simps) auto
  qed
qed

definition live_between :: "kv_cell list \<Rightarrow> nat \<Rightarrow> nat \<Rightarrow> nat set" where
  "live_between cs a b = {j. a \<le> j \<and> j < b \<and> \<not> is_empty (cs ! j)}"

lemma finite_live [simp]: "finite (live_between cs a b)"
  by (rule finite_subset [of _ "{..<b}"]) (auto simp: live_between_def)

lemma live_between_Suc:
  "a \<le> b \<Longrightarrow> live_between cs a (Suc b) =
     (if is_empty (cs ! b) then live_between cs a b else insert b (live_between cs a b))"
  by (auto simp: live_between_def less_Suc_eq)

lemma find_src_spec:
  assumes "\<forall>j. i0 < j \<and> j < n_kv \<and> \<not> is_empty (cs ! j) \<longrightarrow> ids ! j = n_kv"
    and "is < n_kv" "nf < nh" "nh \<le> nf + card (live_between cs (Suc i0) (Suc is))"
  shows "\<exists>is'. find_src cs ids n_kv i0 nh is nf = (is', nh) \<and> i0 < is' \<and> is' \<le> is
    \<and> \<not> is_empty (cs ! is') \<and> card (live_between cs is' (Suc is)) = nh - nf"
  using assms(2-4)
proof (induction "is" arbitrary: nf rule: less_induct)
  case (less "is")
  have gt: "i0 < is"
  proof (rule ccontr)
    assume "\<not> i0 < is"
    then have "live_between cs (Suc i0) (Suc is) = {}" by (auto simp: live_between_def)
    then show False using less.prems by simp
  qed
  have split: "live_between cs a (Suc is) =
      (if is_empty (cs ! is) then live_between cs a (Suc (is - 1))
       else insert is (live_between cs a (Suc (is - 1))))" if "a \<le> is" for a
    using live_between_Suc [OF that] gt by simp
  have lt: "is - 1 < is" "is - 1 < n_kv" using gt less.prems by auto
  have notin: "is \<notin> live_between cs a (Suc (is - 1))" for a
    using gt by (auto simp: live_between_def)
  show ?case
  proof (cases "is_empty (cs ! is)")
    case True
    then obtain is' where "find_src cs ids n_kv i0 nh (is - 1) nf = (is', nh)" "i0 < is'"
      "is' \<le> is - 1" "\<not> is_empty (cs ! is')" "card (live_between cs is' (Suc (is - 1))) = nh - nf"
      using less.IH [of "is - 1" nf] less.prems gt lt split [of "Suc i0"] by auto
    then show ?thesis
      using True gt split [of is'] by (subst find_src.simps) auto
  next
    case False
    then have id: "ids ! is = n_kv" using assms(1) gt less.prems by simp
    have one: "card (live_between cs a (Suc is)) = Suc (card (live_between cs a (Suc (is - 1))))"
      if "a \<le> is" for a
      using False split [OF that] notin [of a] by simp
    show ?thesis
    proof (cases "nf + 1 = nh")
      case True
      moreover have "live_between cs is (Suc is) = {is}"
        using False by (auto simp: live_between_def)
      ultimately show ?thesis
        using False gt id by (subst find_src.simps) auto
    next
      case more: False
      then obtain is' where "find_src cs ids n_kv i0 nh (is - 1) (nf + 1) = (is', nh)" "i0 < is'"
        "is' \<le> is - 1" "\<not> is_empty (cs ! is')"
        "card (live_between cs is' (Suc (is - 1))) = nh - (nf + 1)"
        using less.IH [of "is - 1" "nf + 1"] less.prems gt lt one [of "Suc i0"] by auto
      then show ?thesis
        using False more gt id one [of is'] less.prems by (subst find_src.simps) auto
    qed
  qed
qed

text \<open>
  What holds throughout: the non-empty cells are those of the start, up to order, and the
  cell that was at \<open>j\<close> is now where \<open>ids\<close> says.
\<close>

definition dest :: "u32 list \<Rightarrow> nat \<Rightarrow> nat \<Rightarrow> nat" where
  "dest ids n_kv j = (if ids ! j = n_kv then j else ids ! j)"

definition defrag_base :: "kv_cell list \<Rightarrow> nat \<Rightarrow> kv_cell list \<Rightarrow> u32 list \<Rightarrow> bool" where
  "defrag_base cs0 n_kv cs ids \<longleftrightarrow>
     length cs = length cs0 \<and> length ids = n_kv \<and> n_kv \<le> length cs
     \<and> (\<forall>c \<in> set cs. cell_ok c)
     \<and> {#c \<in># mset cs. \<not> is_empty c#} = {#c \<in># mset cs0. \<not> is_empty c#}
     \<and> (\<forall>j. n_kv \<le> j \<and> j < length cs \<longrightarrow> is_empty (cs ! j))
     \<and> (\<forall>j < n_kv. dest ids n_kv j < n_kv)
     \<and> (\<forall>j < n_kv. \<not> is_empty (cs0 ! j) \<longrightarrow> cs ! dest ids n_kv j = cs0 ! j)"

text \<open>
  What holds with the hole \<open>[i0, i0 + nh)\<close> filled up to \<open>k\<close> (\<open>k = e = i0\<close> between holes, \<open>e\<close> the
  end of the hole): everything before \<open>k\<close> is full, the rest of the hole empty, and the cells
  behind the hole are untouched or emptied.
\<close>

definition defrag_mid :: "kv_cell list \<Rightarrow> nat \<Rightarrow> nat \<Rightarrow> nat \<Rightarrow> kv_cell list \<Rightarrow> u32 list \<Rightarrow> bool" where
  "defrag_mid cs0 n_kv k e cs ids \<longleftrightarrow>
     k \<le> e \<and> e \<le> n_kv
     \<and> (\<forall>j < k. \<not> is_empty (cs ! j))
     \<and> (\<forall>j. k \<le> j \<and> j < e \<longrightarrow> is_empty (cs ! j))
     \<and> (\<forall>j. e \<le> j \<and> j < n_kv \<and> \<not> is_empty (cs ! j) \<longrightarrow> ids ! j = n_kv \<and> cs ! j = cs0 ! j)
     \<and> (\<forall>j < n_kv. ids ! j \<noteq> n_kv \<longrightarrow> ids ! j < k)"

lemma mset_move:
  assumes "k < length cs" "i < length cs" "k \<noteq> i" "is_empty (cs ! k)" "\<not> is_empty (cs ! i)" "is_empty z"
  shows "{#c \<in># mset (cs[k := cs ! i, i := z]). \<not> is_empty c#} = {#c \<in># mset cs. \<not> is_empty c#}"
proof -
  let ?x = "cs ! i"
  have "mset (cs[k := ?x]) = add_mset ?x (mset cs - {#cs ! k#})"
    using assms by (simp add: mset_update)
  then have "{#c \<in># mset (cs[k := ?x]). \<not> is_empty c#} = add_mset ?x {#c \<in># mset cs. \<not> is_empty c#}"
    using assms(4,5) by (simp add: filter_diff_mset)
  moreover have "mset (cs[k := ?x, i := z]) = add_mset z (mset (cs[k := ?x]) - {#?x#})"
    using assms by (simp add: mset_update)
  ultimately show ?thesis
    using assms(5,6) by (simp add: filter_diff_mset)
qed

lemma move_step:
  assumes base: "defrag_base cs0 n_kv cs ids" and mid: "defrag_mid cs0 n_kv k e cs ids"
    and i1: "e \<le> i1" "i1 < n_kv" "k < e" "\<not> is_empty (cs ! i1)"
  shows "defrag_base cs0 n_kv (cs[k := cs ! i1, i1 := empty_cell]) (ids[i1 := k])"
    and "defrag_mid cs0 n_kv (k + 1) e (cs[k := cs ! i1, i1 := empty_cell]) (ids[i1 := k])"
proof -
  let ?cs = "cs[k := cs ! i1, i1 := empty_cell]" and ?ids = "ids[i1 := k]"
  have len: "length cs = length cs0" "length ids = n_kv" "n_kv \<le> length cs"
    using base by (auto simp: defrag_base_def)
  have z: "is_empty empty_cell" "cell_ok empty_cell"
    by (auto simp: empty_cell_def is_empty_def cell_ok_def)
  have ke: "is_empty (cs ! k)" "k \<noteq> i1" "k < n_kv"
    using mid i1 by (auto simp: defrag_mid_def)
  have x: "ids ! i1 = n_kv" "cs ! i1 = cs0 ! i1"
    using mid i1 by (auto simp: defrag_mid_def)
  have nth: "?cs ! j = (if j = i1 then empty_cell else if j = k then cs ! i1 else cs ! j)"
    if "j < length cs" for j
    using that len i1 by (auto simp: nth_list_update)
  have ok: "\<forall>c \<in> set ?cs. cell_ok c"
    using base z(2) i1 len by (auto simp: defrag_base_def dest!: set_update_subset_insert [THEN subsetD])
  have dest': "dest ?ids n_kv j = (if j = i1 then k else dest ids n_kv j)" if "j < n_kv" for j
    using that len ke by (auto simp: dest_def nth_list_update)
  have content: "?cs ! dest ?ids n_kv j = cs0 ! j" if j: "j < n_kv" "\<not> is_empty (cs0 ! j)" for j
  proof (cases "j = i1")
    case True
    then show ?thesis using dest' [OF j(1)] nth [of k] ke x len by simp
  next
    case False
    have old: "cs ! dest ids n_kv j = cs0 ! j" "dest ids n_kv j < n_kv"
      using base j by (auto simp: defrag_base_def)
    have "dest ids n_kv j \<noteq> k" using old(1) ke(1) j(2) by auto
    moreover have "dest ids n_kv j \<noteq> i1"
      using mid False j i1 by (auto simp: dest_def defrag_mid_def)
    ultimately show ?thesis
      using dest' [OF j(1)] nth [of "dest ids n_kv j"] old len False by simp
  qed
  show "defrag_base cs0 n_kv ?cs ?ids"
    unfolding defrag_base_def
    using base ok content dest' ke i1 len nth mset_move [of k cs i1 empty_cell] z(1)
    by (auto simp: defrag_base_def)
  show "defrag_mid cs0 n_kv (k + 1) e ?cs ?ids"
    using mid i1 ke z(1) nth len by (auto simp: defrag_mid_def nth_list_update less_Suc_eq)
qed

lemma live_between_head:
  "i < n \<Longrightarrow> live_between cs i n =
     (if is_empty (cs ! i) then live_between cs (Suc i) n else insert i (live_between cs (Suc i) n))"
  by (auto simp: live_between_def Suc_le_eq nat_less_le)

lemma move_cells_spec:
  assumes "defrag_base cs0 n_kv (d_cells d) (d_ids d)"
    and "defrag_mid cs0 n_kv (i0 + nf) (i0 + nh) (d_cells d) (d_ids d)"
    and "i0 + nh \<le> i1" "nf < nh" "card (live_between (d_cells d) i1 n_kv) = nh - nf"
    and "move_cells n_kv n_used max_moves i0 nh i1 nf cont d = (d', stop)"
  shows "defrag_base cs0 n_kv (d_cells d') (d_ids d')
    \<and> (\<not> stop \<longrightarrow> defrag_mid cs0 n_kv (i0 + nh) (i0 + nh) (d_cells d') (d_ids d'))
    \<and> (stop \<longrightarrow> d_moves d' = max_moves)
    \<and> d_head d' \<in> {d_head d, n_used}"
  using assms
proof (induction n_kv n_used max_moves i0 nh i1 nf cont d rule: move_cells.induct)
  case (1 n_kv n_used max_moves i0 nh i1 nf cont d)
  note eqn = "1.prems"(6)
  have "live_between (d_cells d) i1 n_kv \<noteq> {}" using "1.prems"(4,5) by auto
  then have lt: "i1 < n_kv" by (auto simp: live_between_def)
  note hd = live_between_head [OF lt, of "d_cells d"]
  show ?case
  proof (cases "is_empty (d_cells d ! i1)")
    case True
    show ?thesis
    proof (cases "d_moves d = max_moves")
      case True
      then show ?thesis
        using eqn lt \<open>is_empty _\<close> "1.prems"(1) by (subst (asm) move_cells.simps) auto
    next
      case False
      then have "move_cells n_kv n_used max_moves i0 nh (i1 + 1) nf False d = (d', stop)"
        using eqn lt True by (subst (asm) move_cells.simps) auto
      then show ?thesis
        using "1.IH"(1) [OF lt _ False] "1.prems" True hd by auto
    qed
  next
    case False
    let ?cs = "(d_cells d)[i0 + nf := d_cells d ! i1, i1 := empty_cell]"
    let ?ids = "(d_ids d)[i1 := i0 + nf]"
    define e where "e = d\<lparr>d_ids := ?ids, d_cells := ?cs, d_head := n_used,
                          d_moves := (if \<not> cont then d_moves d + 1 else d_moves d)\<rparr>"
    have id: "d_ids d ! i1 = n_kv"
      using "1.prems"(2,3) lt False by (auto simp: defrag_mid_def)
    have base: "defrag_base cs0 n_kv (d_cells e) (d_ids e)"
      and mid: "defrag_mid cs0 n_kv (i0 + (nf + 1)) (i0 + nh) (d_cells e) (d_ids e)"
      using move_step [OF "1.prems"(1,2,3) lt _ False] "1.prems"(4) by (auto simp: e_def)
    have len: "n_kv \<le> length (d_cells d)" using "1.prems"(1) by (simp add: defrag_base_def)
    show ?thesis
    proof (cases "nf + 1 = nh")
      case True
      then have "(d', stop) = (e, False)"
        using eqn lt False id by (subst (asm) move_cells.simps) (auto simp: e_def Let_def)
      then show ?thesis using base mid True by (auto simp: e_def)
    next
      case more: False
      then have "move_cells n_kv n_used max_moves i0 nh (i1 + 1) (nf + 1) True e = (d', stop)"
        using eqn lt False id by (subst (asm) move_cells.simps) (auto simp: e_def Let_def)
      moreover have "live_between ?cs (i1 + 1) n_kv = live_between (d_cells d) (Suc i1) n_kv"
        using "1.prems"(3,4) len by (auto simp: live_between_def nth_list_update)
      moreover have "card (live_between (d_cells d) (Suc i1) n_kv) = nh - (nf + 1)"
        using hd "1.prems"(5) False by (simp add: live_between_def)
      ultimately show ?thesis
        using "1.IH"(2) [OF lt _ e_def more] base mid "1.prems"(3,4) False id more
        by (auto simp: e_def)
    qed
  qed
qed

section \<open>The whole pass\<close>

lemma card_live_all:
  assumes "defrag_base cs0 n_kv cs ids"
  shows "card (live_between cs 0 n_kv) = count_if (\<lambda>c. \<not> is_empty c) cs0"
proof -
  have "live_between cs 0 n_kv = {j. j < length cs \<and> \<not> is_empty (cs ! j)}"
    using assms unfolding live_between_def defrag_base_def
    by (auto simp: not_less [symmetric] intro: less_le_trans)
  then have "card (live_between cs 0 n_kv) = size {#c \<in># mset cs. \<not> is_empty c#}"
    by (simp add: length_filter_conv_card flip: mset_filter)
  also have "\<dots> = size {#c \<in># mset cs0. \<not> is_empty c#}"
    using assms by (simp add: defrag_base_def)
  finally show ?thesis
    by (simp add: count_if_def flip: mset_filter)
qed

lemma live_after_prefix:
  assumes "defrag_base cs0 n_kv cs ids" "defrag_mid cs0 n_kv i0 i0 cs ids"
  shows "card (live_between cs i0 n_kv) = count_if (\<lambda>c. \<not> is_empty c) cs0 - i0"
proof -
  have "live_between cs 0 n_kv = {..<i0} \<union> live_between cs i0 n_kv"
    using assms(2) by (auto simp: live_between_def defrag_mid_def)
  moreover have "{..<i0} \<inter> live_between cs i0 n_kv = {}" by (auto simp: live_between_def)
  ultimately have "card (live_between cs 0 n_kv) = i0 + card (live_between cs i0 n_kv)"
    by (simp add: card_Un_disjoint)
  then show ?thesis using card_live_all [OF assms(1)] by simp
qed

lemma defrag_keep:
  assumes "defrag_base cs0 n_kv cs ids" "defrag_mid cs0 n_kv i0 i0 cs ids"
    and "i0 < n_kv" "\<not> is_empty (cs ! i0)"
  shows "defrag_base cs0 n_kv cs (ids[i0 := i0])" "defrag_mid cs0 n_kv (i0 + 1) (i0 + 1) cs (ids[i0 := i0])"
proof -
  have len: "length ids = n_kv" and id: "ids ! i0 = n_kv"
    using assms by (auto simp: defrag_base_def defrag_mid_def)
  have "dest (ids[i0 := i0]) n_kv j = dest ids n_kv j" if "j < n_kv" for j
    using that len id assms(3) by (auto simp: dest_def nth_list_update)
  then show "defrag_base cs0 n_kv cs (ids[i0 := i0])"
    using assms(1) by (simp add: defrag_base_def)
  show "defrag_mid cs0 n_kv (i0 + 1) (i0 + 1) cs (ids[i0 := i0])"
    using assms len by (auto simp: defrag_mid_def nth_list_update less_Suc_eq)
qed

lemma defrag_hole:
  assumes base: "defrag_base cs0 n_kv cs ids" and mid: "defrag_mid cs0 n_kv i0 i0 cs ids"
    and used: "n_used = count_if (\<lambda>c. \<not> is_empty c) cs0" "n_used \<le> n_kv"
    and i0: "i0 < n_used" "is_empty (cs ! i0)"
    and nh: "nh = hole_size cs n_used i0 1"
  shows "0 < nh \<and> i0 + nh \<le> n_used" "defrag_mid cs0 n_kv i0 (i0 + nh) cs ids"
    and "\<exists>is. find_src cs ids n_kv i0 nh (n_kv - 1) 0 = (is, nh) \<and> i0 + nh \<le> is
           \<and> card (live_between cs is n_kv) = nh"
proof -
  have hole: "i0 + nh \<le> n_used" "\<forall>j. i0 + 1 \<le> j \<and> j < i0 + nh \<longrightarrow> is_empty (cs ! j)"
    using hole_size_spec [of i0 1 n_used cs] i0(1) nh by auto
  have pos: "0 < nh" using hole_size_ge [of 1 cs n_used i0] nh by simp
  have empty: "is_empty (cs ! j)" if "i0 \<le> j" "j < i0 + nh" for j
    using hole(2) i0(2) that by (cases "j = i0") auto
  show "0 < nh \<and> i0 + nh \<le> n_used" using pos hole(1) by simp
  show "defrag_mid cs0 n_kv i0 (i0 + nh) cs ids"
    using mid hole(1) used(2) empty by (auto simp: defrag_mid_def)
  have n: "n_kv - 1 < n_kv" "Suc (n_kv - 1) = n_kv" using i0(1) used(2) by auto
  have "live_between cs i0 n_kv = live_between cs (Suc i0) n_kv"
    using live_between_head [of i0 n_kv cs] i0 used(2) by simp
  then have "card (live_between cs (Suc i0) n_kv) = n_used - i0"
    using live_after_prefix [OF base mid] used(1) by simp
  moreover have "\<forall>j. i0 < j \<and> j < n_kv \<and> \<not> is_empty (cs ! j) \<longrightarrow> ids ! j = n_kv"
    using mid by (auto simp: defrag_mid_def)
  moreover have "nh \<le> n_used - i0" using hole(1) by simp
  ultimately obtain "is" where src: "find_src cs ids n_kv i0 nh (n_kv - 1) 0 = (is, nh)" "i0 < is"
    "\<not> is_empty (cs ! is)" "card (live_between cs is n_kv) = nh"
    using find_src_spec [of i0 n_kv cs ids "n_kv - 1" 0 nh] pos hole(1) n by auto
  have "i0 + nh \<le> is"
    using empty [of "is"] src(2,3) by (meson less_imp_le not_le)
  then show "\<exists>is. find_src cs ids n_kv i0 nh (n_kv - 1) 0 = (is, nh) \<and> i0 + nh \<le> is
           \<and> card (live_between cs is n_kv) = nh"
    using src by blast
qed

lemma defrag_loop_spec:
  assumes "defrag_base cs0 n_kv (d_cells d) (d_ids d)" "defrag_mid cs0 n_kv i0 i0 (d_cells d) (d_ids d)"
    and "i0 \<le> n_used" "n_used = count_if (\<lambda>c. \<not> is_empty c) cs0" "n_used \<le> n_kv"
  shows "\<exists>d'. defrag_loop n_kv n_used max_moves i0 d = Inr d'
    \<and> defrag_base cs0 n_kv (d_cells d') (d_ids d') \<and> d_head d' \<in> {d_head d, n_used}
    \<and> (d_moves d' \<noteq> max_moves \<longrightarrow> (\<forall>j < n_used. \<not> is_empty (d_cells d' ! j)))"
  using assms
proof (induction n_kv n_used max_moves i0 d rule: defrag_loop.induct)
  case (1 n_kv n_used max_moves i0 d)
  show ?case
  proof (cases "i0 < n_used")
    case False
    then have "i0 = n_used" using "1.prems"(3) by simp
    then show ?thesis
      using "1.prems"(1,2) by (subst defrag_loop.simps) (auto simp: defrag_mid_def)
  next
    case lt: True
    show ?thesis
    proof (cases "is_empty (d_cells d ! i0)")
      case False
      let ?d = "d\<lparr>d_ids := (d_ids d)[i0 := i0]\<rparr>"
      have "i0 < n_kv" using lt "1.prems"(5) by simp
      note keep = defrag_keep [OF "1.prems"(1,2) this False]
      have "defrag_loop n_kv n_used max_moves i0 d = defrag_loop n_kv n_used max_moves (i0 + 1) ?d"
        using lt False by (subst defrag_loop.simps) simp
      then show ?thesis
        using "1.IH"(1) [OF lt False] keep "1.prems"(3-5) lt by simp
    next
      case True
      define nh where "nh = hole_size (d_cells d) n_used i0 1"
      note hole = defrag_hole [OF "1.prems"(1,2,4,5) lt True nh_def]
      have nh: "hole_size (d_cells d) n_used i0 (Suc 0) = nh" by (simp add: nh_def)
      obtain "is" where src: "find_src (d_cells d) (d_ids d) n_kv i0 nh (n_kv - 1) 0 = (is, nh)"
        "i0 + nh \<le> is" "card (live_between (d_cells d) is n_kv) = nh"
        using hole(3) by blast
      obtain d' stop where mv: "move_cells n_kv n_used max_moves i0 nh is 0 False d = (d', stop)"
        by fastforce
      have d': "defrag_base cs0 n_kv (d_cells d') (d_ids d')"
        "\<not> stop \<Longrightarrow> defrag_mid cs0 n_kv (i0 + nh) (i0 + nh) (d_cells d') (d_ids d')"
        "stop \<Longrightarrow> d_moves d' = max_moves" "d_head d' \<in> {d_head d, n_used}"
        using move_cells_spec [OF "1.prems"(1) _ src(2) _ _ mv] hole(1,2) src(3) by auto
      show ?thesis
      proof (cases "stop \<or> d_moves d' = max_moves")
        case True
        then have "defrag_loop n_kv n_used max_moves i0 d = Inr d'"
          using lt \<open>is_empty _\<close> src(1) mv by (subst defrag_loop.simps) (simp add: nh Let_def)
        then show ?thesis using d' True by auto
      next
        case go: False
        then have eq: "defrag_loop n_kv n_used max_moves i0 d = defrag_loop n_kv n_used max_moves (i0 + nh) d'"
          using lt True src(1) mv by (subst defrag_loop.simps) (simp add: nh Let_def)
        have "\<exists>d''. defrag_loop n_kv n_used max_moves (i0 + nh) d' = Inr d''
          \<and> defrag_base cs0 n_kv (d_cells d'') (d_ids d'') \<and> d_head d'' \<in> {d_head d', n_used}
          \<and> (d_moves d'' \<noteq> max_moves \<longrightarrow> (\<forall>j < n_used. \<not> is_empty (d_cells d'' ! j)))"
          using go d' hole(1) "1.prems"(4,5) lt True src(1) mv
          by (intro "1.IH"(2) [OF lt _ nh_def src(1) [symmetric] refl _ mv [symmetric] refl]) auto
        then show ?thesis using eq d'(4) by auto
      qed
    qed
  qed
qed

lemma cell_max_drop: "\<forall>c \<in> set (drop (cell_max s) (cells s)). \<not> (0 \<le> pos c \<and> \<not> is_empty c)"
proof -
  let ?P = "\<lambda>c. \<not> (0 \<le> pos c \<and> \<not> is_empty c)"
  have "cells s = rev (dropWhile ?P (rev (cells s))) @ rev (takeWhile ?P (rev (cells s)))"
    by (metis rev_append rev_rev_ident takeWhile_dropWhile_id)
  then have "drop (cell_max s) (cells s) = rev (takeWhile ?P (rev (cells s)))"
    by (rule drop_prefix) (simp add: cell_max_def)
  then have "set (drop (cell_max s) (cells s)) = set (takeWhile ?P (rev (cells s)))" by simp
  then show ?thesis by (auto dest: set_takeWhileD)
qed

lemma cell_max_le: "cell_max s \<le> length (cells s)"
  unfolding cell_max_def by (metis length_dropWhile_le length_rev)

lemma cell_max_spec:
  assumes "kv_inv s"
  shows "\<forall>j. cell_max s \<le> j \<and> j < length (cells s) \<longrightarrow> is_empty (cells s ! j)" "used s \<le> cell_max s"
proof -
  have "is_empty c" if "c \<in> set (drop (cell_max s) (cells s))" for c
  proof -
    have "cell_ok c" using that assms by (auto simp: kv_inv_def dest: in_set_dropD)
    then show ?thesis using cell_max_drop [of s] that by (auto simp: cell_ok_def)
  qed
  then have d: "\<forall>c \<in> set (drop (cell_max s) (cells s)). is_empty c" by blast
  show "\<forall>j. cell_max s \<le> j \<and> j < length (cells s) \<longrightarrow> is_empty (cells s ! j)"
  proof (intro allI impI)
    fix j assume j: "cell_max s \<le> j \<and> j < length (cells s)"
    then have "drop (cell_max s) (cells s) ! (j - cell_max s) = cells s ! j" by simp
    moreover have "drop (cell_max s) (cells s) ! (j - cell_max s) \<in> set (drop (cell_max s) (cells s))"
      using j by (intro nth_mem) (simp add: diff_less_mono)
    ultimately show "is_empty (cells s ! j)" using d by simp
  qed
  have "count_if (\<lambda>c. \<not> is_empty c) (drop (cell_max s) (cells s)) = 0"
    using d by (simp add: count_if_eq_0)
  then have "used s = count_if (\<lambda>c. \<not> is_empty c) (take (cell_max s) (cells s))"
    using assms count_if_split [of "\<lambda>c. \<not> is_empty c" "cells s" "cell_max s"]
    by (simp add: kv_inv_def)
  then show "used s \<le> cell_max s"
    using count_if_le [of "\<lambda>c. \<not> is_empty c" "take (cell_max s) (cells s)"] by simp
qed

text \<open>A model has between one and \<open>LLAMA_MAX_LAYERS\<close> layers.\<close>

definition n_layer_ok :: "u32 \<Rightarrow> bool" where
  "n_layer_ok n \<longleftrightarrow> 0 < n \<and> n \<le> 512"

definition max_moves_of :: "u32 \<Rightarrow> int \<Rightarrow> u32" where
  "max_moves_of n_layer n_max_nodes =
     u32_sub (to_u32 n_max_nodes) (u32_mul 2 n_layer) div u32_mul 6 n_layer"

lemma defrag_prepare_result:
  assumes inv: "kv_inv s" and "n_layer_ok n_layer"
  obtains d :: defrag_state where
    "defrag_prepare n_layer n_max_nodes s
       = Inr (d_moves d \<noteq> 0, s\<lparr>cells := d_cells d, defrag_ids := d_ids d, head := d_head d\<rparr>)"
    "defrag_base (cells s) (cell_max s) (d_cells d) (d_ids d)" "d_head d \<in> {head s, used s}"
    "d_moves d \<noteq> max_moves_of n_layer n_max_nodes \<Longrightarrow> \<forall>j < used s. \<not> is_empty (d_cells d ! j)"
proof -
  let ?d0 = "\<lparr>d_cells = cells s, d_ids = replicate (cell_max s) (cell_max s), d_moves = 0, d_head = head s\<rparr>"
  have "defrag_base (cells s) (cell_max s) (d_cells ?d0) (d_ids ?d0)"
    using inv cell_max_spec(1) [OF inv] cell_max_le [of s] by (auto simp: defrag_base_def dest_def kv_inv_def)
  moreover have "defrag_mid (cells s) (cell_max s) 0 0 (d_cells ?d0) (d_ids ?d0)"
    by (simp add: defrag_mid_def)
  ultimately obtain d where
    "defrag_loop (cell_max s) (used s) (max_moves_of n_layer n_max_nodes) 0 ?d0 = Inr d"
    "defrag_base (cells s) (cell_max s) (d_cells d) (d_ids d)" "d_head d \<in> {head s, used s}"
    "d_moves d \<noteq> max_moves_of n_layer n_max_nodes \<Longrightarrow> \<forall>j < used s. \<not> is_empty (d_cells d ! j)"
    using defrag_loop_spec [of "cells s" "cell_max s" ?d0 0 "used s" "max_moves_of n_layer n_max_nodes"]
      inv cell_max_spec(2) [OF inv] by (auto simp: kv_inv_def)
  moreover have "u32_mul 6 n_layer \<noteq> 0" using assms(2) by (simp add: n_layer_ok_def u32_mul_def)
  ultimately show thesis
    using cell_max_spec(2) [OF inv] by (intro that [of d]) (simp_all add: defrag_prepare_def Let_def max_moves_of_def)
qed

lemma kv_inv_defrag_prepare:
  assumes "kv_inv s" "n_layer_ok n_layer" "defrag_prepare n_layer n_max_nodes s = Inr (b, s')"
  shows "kv_inv s'"
  using assms(1,2)
proof (rule defrag_prepare_result)
  fix d :: defrag_state
  assume res: "defrag_prepare n_layer n_max_nodes s
       = Inr (d_moves d \<noteq> 0, s\<lparr>cells := d_cells d, defrag_ids := d_ids d, head := d_head d\<rparr>)"
    and base: "defrag_base (cells s) (cell_max s) (d_cells d) (d_ids d)"
    and hd: "d_head d \<in> {head s, used s}"
  have "count_if (\<lambda>c. \<not> is_empty c) (d_cells d) = count_if (\<lambda>c. \<not> is_empty c) (cells s)"
    using base unfolding defrag_base_def count_if_def by (metis mset_filter size_mset)
  moreover have "used s \<le> kv_size s"
    using cell_max_spec(2) [OF assms(1)] cell_max_le [of s] assms(1) by (simp add: kv_inv_def)
  ultimately show "kv_inv s'"
    using assms(1,3) res base hd by (auto simp: kv_inv_def defrag_base_def)
qed

lemma kv_inv_update:
  assumes "kv_inv s" "n_layer_ok n_layer" "kv_update has_rope n_layer n_max_nodes s = Inr (b, s')"
  shows "kv_inv s'"
proof -
  let ?s1 = "if has_shift s then s\<lparr>has_shift := False, cells := map (\<lambda>c. c\<lparr>delta := 0\<rparr>) (cells s)\<rparr> else s"
  have "kv_inv (s\<lparr>has_shift := False, cells := map (\<lambda>c. c\<lparr>delta := 0\<rparr>) (cells s)\<rparr>)"
    by (rule scan_inv [OF assms(1), where g = "\<lambda>c. c\<lparr>delta := 0\<rparr>" and fr = "\<lambda>_. False"])
      (use assms(1) in \<open>auto simp: kv_inv_def cell_ok_def is_empty_def count_if_def\<close>)
  then have inv1: "kv_inv ?s1" using assms(1) by simp
  show ?thesis
  proof (cases "do_defrag ?s1")
    case True
    then obtain m s2 where "defrag_prepare n_layer n_max_nodes ?s1 = Inr (m, s2)"
      "s' = s2\<lparr>do_defrag := False\<rparr>"
      using assms(3) by (auto simp: kv_update_def bind_res_eq_Inr split: if_splits)
    then show ?thesis
      using kv_inv_defrag_prepare [OF inv1 assms(2)] by (auto simp: kv_inv_def)
  next
    case False
    then have "s' = ?s1" using assms(3) by (auto simp: kv_update_def split: if_splits)
    then show ?thesis using inv1 by simp
  qed
qed

text \<open>The content of a cache: the positions and owners of its used cells, without their places.\<close>

definition kv_content :: "kv_cache \<Rightarrow> (int \<times> int set) multiset" where
  "kv_content s = {#(pos c, seq_id c). c \<in># {#c \<in># mset (cells s). \<not> is_empty c#}#}"

lemma kv_update_total:
  assumes "kv_inv s" "can_shift s" "n_layer_ok n_layer"
  shows "\<exists>r s'. kv_update has_rope n_layer n_max_nodes s = Inr (r, s') \<and> ranges s' = ranges s
    \<and> kv_content s' = kv_content s \<and> \<not> has_shift s' \<and> \<not> do_defrag s'
    \<and> (has_shift s \<and> \<not> do_defrag s \<longrightarrow> (\<forall>c \<in> set (cells s'). delta c = 0))"
proof -
  let ?s0 = "s\<lparr>has_shift := False, cells := map (\<lambda>c. c\<lparr>delta := 0\<rparr>) (cells s)\<rparr>"
  let ?s1 = "if has_shift s then ?s0 else s"
  have "kv_inv ?s0"
    by (rule scan_inv [OF assms(1), where g = "\<lambda>c. c\<lparr>delta := 0\<rparr>" and fr = "\<lambda>_. False"])
      (use assms(1) in \<open>auto simp: kv_inv_def cell_ok_def is_empty_def count_if_def\<close>)
  then have inv1: "kv_inv ?s1" using assms(1) by simp
  have "{#(pos c, seq_id c). c \<in># {#c \<in># mset (map (\<lambda>c. c\<lparr>delta := 0\<rparr>) cs). \<not> is_empty c#}#}
      = {#(pos c, seq_id c). c \<in># {#c \<in># mset cs. \<not> is_empty c#}#}" for cs :: "kv_cell list"
    by (induction cs) (auto simp: is_empty_def)
  then have "kv_content ?s0 = kv_content s" by (simp add: kv_content_def)
  then have cont: "kv_content ?s1 = kv_content s" by simp
  show ?thesis
  proof (cases "do_defrag s")
    case True
    obtain d :: defrag_state where d:
      "defrag_prepare n_layer n_max_nodes ?s1
         = Inr (d_moves d \<noteq> 0, ?s1\<lparr>cells := d_cells d, defrag_ids := d_ids d, head := d_head d\<rparr>)"
      "defrag_base (cells ?s1) (cell_max ?s1) (d_cells d) (d_ids d)"
      using inv1 assms(3) by (rule defrag_prepare_result)
    have "kv_content (?s1\<lparr>cells := d_cells d, defrag_ids := d_ids d, head := d_head d, do_defrag := False\<rparr>)
        = kv_content ?s1"
      using d(2) by (simp add: kv_content_def defrag_base_def)
    then show ?thesis
      using d(1) True assms(2) cont by (auto simp: kv_update_def)
  next
    case False
    then show ?thesis using cont assms(2) by (auto simp: kv_update_def)
  qed
qed

end
