(* ===== verification/KvMachine.thy ===== *)
theory KvMachine
  imports KvContract KvDefrag
begin

text \<open>
  The unified cache as a state machine: the operations of \<open>llama_kv_cache_unified\<close> as a step
  relation, its reachable states and their invariant; the effect of each operation on the
  occupancy; the rollback of uncommitted micro-batches.
\<close>

section \<open>Steps\<close>

text \<open>
  What a caller may do to a cache. \<open>has_rope\<close>, \<open>n_layer\<close> and \<open>n_max_nodes\<close> come from the model
  and the compute graph; \<open>llama_kv_self_seq_div\<close> is called with a positive divisor.
\<close>

inductive kv_step :: "kv_cache \<Rightarrow> kv_cache \<Rightarrow> bool" where
  st_clear: "kv_step s (clear s)"
| st_rm: "seq_rm q p0 p1 s = (b, s') \<Longrightarrow> kv_step s s'"
| st_cp: "kv_step s (seq_cp q r p0 p1 s)"
| st_keep: "kv_step s (seq_keep q s)"
| st_add: "kv_step s (seq_add q p0 p1 d s)"
| st_div: "0 < d \<Longrightarrow> kv_step s (seq_div q p0 p1 d s)"
| st_find: "ubatch_ok ub \<Longrightarrow> find_slot ub s = Some (b, s') \<Longrightarrow> kv_step s s'"
| st_commit: "kv_step s (commit s)"
| st_restore: "kv_step s (restore s)"
| st_full: "kv_step s (set_full s)"
| st_sched: "kv_step s (defrag_sched thold s)"
| st_update: "n_layer_ok n_layer \<Longrightarrow> kv_update has_rope n_layer n_max_nodes s = Inr (b, s') \<Longrightarrow> kv_step s s'"

inductive kv_reachable :: "kv_cache \<Rightarrow> bool" where
  reach_init: "kv_cache_init sz pad = Inr s \<Longrightarrow> sz < 2 ^ 30 \<Longrightarrow> kv_reachable s"
| reach_step: "kv_reachable s \<Longrightarrow> kv_step s s' \<Longrightarrow> kv_reachable s'"

inductive_cases kv_stepE: "kv_step s s'"

lemma kv_inv_step:
  assumes "kv_inv s" "kv_step s s'"
  shows "kv_inv s'"
  using assms(2,1)
  by (cases rule: kv_step.cases)
    (auto intro: kv_inv_clear kv_inv_seq_rm kv_inv_seq_cp kv_inv_seq_keep kv_inv_seq_add kv_inv_seq_div
      kv_inv_find_slot kv_inv_commit kv_inv_restore kv_inv_flags kv_inv_update)

text \<open>No step changes the size, the padding or \<open>can_shift\<close>.\<close>

lemma kv_step_frame:
  assumes "kv_step s s'"
  shows "can_shift s' = can_shift s \<and> padding s' = padding s \<and> kv_size s' = kv_size s"
  using assms
proof (cases rule: kv_step.cases)
  case (st_update n_layer has_rope n_max_nodes b)
  then show ?thesis
    by (auto simp: kv_update_def defrag_prepare_def bind_res_eq_Inr Let_def split: if_splits)
qed (auto simp: clear_def seq_rm_def seq_cp_def seq_keep_def seq_add_def seq_div_def find_slot_def commit_def
    restore_def set_full_def defrag_sched_def Let_def split: prod.splits option.splits if_splits bool.splits)

declare find_slot_loop.simps [code]

section \<open>Occupancy\<close>

text \<open>The cells a micro-batch fills, seen from sequence \<open>r\<close>.\<close>

definition ubatch_occ :: "llama_ubatch \<Rightarrow> nat \<Rightarrow> occupancy" where
  "ubatch_occ ub h r = {(h + k, ub_pos ub ! k) | k. k < n_tokens ub \<and> r \<in> token_seqs ub k}"

lemma mem_occ: "(i, p) \<in> occ s q \<longleftrightarrow> i < length (cells s) \<and> q \<in> seq_id (cells s ! i) \<and> p = pos (cells s ! i)"
  by (auto simp: occ_def)

lemma occ_place:
  assumes "kv_inv s" "ubatch_ok ub" "free_at (cells s) (n_tokens ub) h"
    and "cells s' = place_ubatch ub h (cells s)"
  shows "occ s' r = occ s r \<union> ubatch_occ ub h r"
proof -
  have room: "h + n_tokens ub \<le> length (cells s)" using assms(3) by (simp add: free_at_def)
  note nth' = place_ubatch_nth [OF assms(2) room]
  have empty: "seq_id (cells s ! (h + k)) = {}" if "k < n_tokens ub" for k
  proof -
    have "cell_ok (cells s ! (h + k))" "pos (cells s ! (h + k)) < 0"
      using assms(1,3) that room by (auto simp: kv_inv_def free_at_def)
    then show ?thesis by (auto simp: cell_ok_def is_empty_def)
  qed
  have new: "cells s' ! (h + k) = (cells s ! (h + k))\<lparr>pos := ub_pos ub ! k, seq_id := token_seqs ub k\<rparr>"
    if "k < n_tokens ub" for k
    using nth'(2) [of "h + k"] that room empty [OF that] by (simp add: assms(4))
  have old: "cells s' ! j = cells s ! j" if "j < length (cells s)" "\<not> (h \<le> j \<and> j < h + n_tokens ub)" for j
    using nth'(2) [OF that(1)] that(2) by (auto simp: assms(4))
  have len: "length (cells s') = length (cells s)" using nth'(1) by (simp add: assms(4))
  show ?thesis
  proof (intro set_eqI iffI)
    fix x assume "x \<in> occ s' r"
    then obtain i where i: "x = (i, pos (cells s' ! i))" "i < length (cells s)" "r \<in> seq_id (cells s' ! i)"
      by (auto simp: occ_def len)
    show "x \<in> occ s r \<union> ubatch_occ ub h r"
    proof (cases "h \<le> i \<and> i < h + n_tokens ub")
      case True
      then obtain k where "i = h + k" "k < n_tokens ub" by (metis le_Suc_ex nat_add_left_cancel_less)
      then show ?thesis using i new [of k] by (auto simp: ubatch_occ_def)
    next
      case False
      then show ?thesis using i old [of i] by (auto simp: occ_def)
    qed
  next
    fix x assume "x \<in> occ s r \<union> ubatch_occ ub h r"
    then consider (a) i where "x = (i, pos (cells s ! i))" "i < length (cells s)" "r \<in> seq_id (cells s ! i)"
      | (b) k where "x = (h + k, ub_pos ub ! k)" "k < n_tokens ub" "r \<in> token_seqs ub k"
      by (auto simp: occ_def ubatch_occ_def)
    then show "x \<in> occ s' r"
    proof cases
      case a
      then have "\<not> (h \<le> i \<and> i < h + n_tokens ub)"
        using empty by (metis empty_iff le_Suc_ex nat_add_left_cancel_less)
      then show ?thesis using a old [of i] by (auto simp: occ_def len)
    next
      case b
      then show ?thesis using new [of k] room by (auto simp: occ_def len)
    qed
  qed
qed

lemma occ_seq_add_kv:
  assumes "kv_inv s"
  shows "occ (seq_add q p0 p1 d s) r =
    {(i, p) \<in> occ s r. (i, p) \<notin> occ s q \<or> \<not> in_range p0 p1 p}
    \<union> {(i, p + d) | i p. (i, p) \<in> occ s r \<inter> occ s q \<and> in_range p0 p1 p \<and> 0 \<le> p + d}"
proof (cases "d = 0 \<or> norm_p0 p0 = norm_p1 p1")
  case True
  then have "seq_add q p0 p1 d s = s" by (auto simp: seq_add_def Let_def)
  moreover have "d = 0 \<or> \<not> in_range p0 p1 p" for p
    using True by (auto simp: in_range_def)
  ultimately show ?thesis
    using kvu.occ_nonneg [OF assms(1)] by fastforce
next
  case False
  then have d: "d \<noteq> 0" "norm_p0 p0 \<noteq> norm_p1 p1" by auto
  show ?thesis
    using seq_add_result(1) [OF assms d, of q]
    by (auto simp: mem_occ add_cell_simps in_range_def set_eq_iff split: if_splits)
qed

section \<open>Rollback\<close>

text \<open>
  The micro-batches of one \<open>llama_context::decode\<close>: each asks for a slot, and the first that
  finds none ends the loop.
\<close>

fun find_slots :: "llama_ubatch list \<Rightarrow> kv_cache \<Rightarrow> (bool \<times> kv_cache) option" where
  "find_slots [] s = Some (True, s)"
| "find_slots (ub # ubs) s =
     (case find_slot ub s of
        None \<Rightarrow> None
      | Some (b, s') \<Rightarrow> if b then find_slots ubs s' else Some (False, s'))"

definition covered :: "(u32 \<times> u32) list \<Rightarrow> nat \<Rightarrow> bool" where
  "covered rs j \<longleftrightarrow> (\<exists>(c0, c1) \<in> set rs. c0 \<le> j \<and> j < c1)"

definition wiped :: "kv_cell \<Rightarrow> kv_cell" where
  "wiped c = c\<lparr>seq_id := {}, pos := -1\<rparr>"

lemma restore_ranges_nth:
  assumes "\<forall>(c0, c1) \<in> set rs. c0 \<le> c1 \<and> c1 \<le> length cs" "j < length cs"
  shows "length (fst (restore_ranges rs (cs, us, nh))) = length cs
    \<and> fst (restore_ranges rs (cs, us, nh)) ! j = (if covered rs j then wiped (cs ! j) else cs ! j)"
  using assms
proof (induction rs arbitrary: cs us nh)
  case (Cons r rs)
  obtain c0 c1 where r: "r = (c0, c1)" by fastforce
  obtain cs1 us1 where one: "restore_range [c0..<c1] (cs, us) = (cs1, us1)" by fastforce
  have len: "length cs1 = length cs"
    using length_restore_range [of "[c0..<c1]" cs us] one by simp
  have "cs1 ! j = (if c0 \<le> j \<and> j < c1 then wiped (cs ! j) else cs ! j)"
    using restore_range_nth [of "[c0..<c1]" cs j us] one r Cons.prems by (auto simp: wiped_def)
  then show ?case
    using Cons.IH [of cs1 us1 "min nh c0"] Cons.prems one r len
    by (auto simp: covered_def wiped_def)
qed (simp add: covered_def)

text \<open>\<open>s'\<close> is \<open>s\<close> with uncommitted tokens in cells that were empty.\<close>

definition ahead_of :: "kv_cache \<Rightarrow> kv_cache \<Rightarrow> bool" where
  "ahead_of s s' \<longleftrightarrow> kv_inv s' \<and> length (cells s') = length (cells s)
     \<and> (\<forall>j < length (cells s).
          if covered (ranges s') j then is_empty (cells s ! j) \<and> wiped (cells s' ! j) = cells s ! j
          else cells s' ! j = cells s ! j)"

lemma wiped_empty: "cell_ok c \<Longrightarrow> is_empty c \<Longrightarrow> wiped c = c"
  by (simp add: wiped_def cell_ok_def is_empty_def)

lemma ahead_of_find_slot:
  assumes ahead: "ahead_of s s1" and ok: "ubatch_ok ub" and find: "find_slot ub s1 = Some (b, s2)"
  shows "ahead_of s s2"
proof -
  have inv: "kv_inv s1" using ahead by (simp add: ahead_of_def)
  have inv2: "kv_inv s2" using kv_inv_find_slot [OF inv ok find] .
  from inv ok show ?thesis
  proof (cases rule: find_slot_cases)
    case (found h)
    have room: "h + n_tokens ub \<le> length (cells s1)" using found(2) by (simp add: free_at_def)
    have cs: "cells s2 = place_ubatch ub h (cells s1)" "ranges s2 = ranges s1 @ [(h, h + n_tokens ub)]"
      using found(1) find by auto
    have "if covered (ranges s2) j then is_empty (cells s ! j) \<and> wiped (cells s2 ! j) = cells s ! j
          else cells s2 ! j = cells s ! j" if j: "j < length (cells s)" for j
    proof (cases "h \<le> j \<and> j < h + n_tokens ub")
      case True
      have j1: "j < length (cells s1)" using j ahead by (simp add: ahead_of_def)
      then have ok1: "cell_ok (cells s1 ! j)" using inv by (simp add: kv_inv_def)
      have "pos (cells s1 ! j) < 0"
        using found(2) True unfolding free_at_def by (metis le_Suc_ex nat_add_left_cancel_less)
      then have emp: "is_empty (cells s1 ! j)" using ok1 by (auto simp: cell_ok_def)
      then have "wiped (cells s1 ! j) = cells s1 ! j" using wiped_empty [OF ok1] by simp
      moreover have "wiped (cells s2 ! j) = wiped (cells s1 ! j)"
        using place_ubatch_nth(2) [OF ok room j1] True by (simp add: cs wiped_def)
      ultimately have "is_empty (cells s ! j) \<and> wiped (cells s2 ! j) = cells s ! j"
        using ahead j emp unfolding ahead_of_def by (metis (full_types))
      then show ?thesis using True by (auto simp: cs covered_def)
    next
      case False
      then have "covered (ranges s2) j = covered (ranges s1) j" by (auto simp: cs covered_def)
      moreover have "cells s2 ! j = cells s1 ! j"
        using place_ubatch_nth(2) [OF ok room, of j] j False ahead by (auto simp: cs ahead_of_def)
      ultimately show ?thesis using ahead j by (simp add: ahead_of_def)
    qed
    moreover have "length (cells s2) = length (cells s)"
      using ahead place_ubatch_nth(1) [OF ok room] by (simp add: ahead_of_def cs)
    ultimately show ?thesis
      using inv2 unfolding ahead_of_def by blast
  next
    case (none h)
    then show ?thesis using inv2 ahead find by (auto simp: ahead_of_def)
  qed
qed

lemma ahead_of_find_slots:
  assumes "ahead_of s s1" "\<forall>ub \<in> set ubs. ubatch_ok ub"
  shows "\<exists>b s2. find_slots ubs s1 = Some (b, s2) \<and> ahead_of s s2"
  using assms
proof (induction ubs arbitrary: s1)
  case (Cons ub ubs)
  have ok: "ubatch_ok ub" and inv: "kv_inv s1" using Cons.prems by (auto simp: ahead_of_def)
  obtain b s2 where f: "find_slot ub s1 = Some (b, s2)"
    by (rule find_slot_cases [OF inv ok]) auto
  have "ahead_of s s2" using ahead_of_find_slot [OF Cons.prems(1) ok f] .
  then show ?case using f Cons by (cases b) auto
qed auto

lemma ahead_of_restore:
  assumes inv: "kv_inv s" and ahead: "ahead_of s s'"
  shows "cells (restore s') = cells s \<and> used (restore s') = used s"
proof -
  have inv': "kv_inv s'" using ahead by (simp add: ahead_of_def)
  have rs: "\<forall>(c0, c1) \<in> set (ranges s'). c0 \<le> c1 \<and> c1 \<le> length (cells s')"
    using inv' by (simp add: kv_inv_def)
  have "cells (restore s') ! j = cells s ! j" if "j < length (cells s)" for j
    using restore_ranges_nth [OF rs, of j "used s'" "kv_size s'"] ahead that
    by (auto simp: restore_def ahead_of_def covered_def split: if_splits prod.splits)
  moreover have len: "length (cells (restore s')) = length (cells s)"
    using kv_inv_restore [OF inv'] inv' ahead
    by (simp add: kv_inv_def ahead_of_def restore_def split: prod.splits if_splits)
  ultimately have "cells (restore s') = cells s" by (simp add: nth_equalityI)
  moreover have "used (restore s') = count_if (\<lambda>c. \<not> is_empty c) (cells (restore s'))"
    using kv_inv_restore [OF inv'] by (simp add: kv_inv_def)
  ultimately show ?thesis using inv by (simp add: kv_inv_def)
qed

section \<open>Properties\<close>

text \<open>A small cache and a micro-batch for the witnesses.\<close>

definition wit_cell :: "int \<Rightarrow> int set \<Rightarrow> kv_cell" where
  "wit_cell p q = \<lparr>pos = p, delta = 0, seq_id = q\<rparr>"

definition wit_cache :: kv_cache where
  "wit_cache = \<lparr>head = 0, kv_size = 4, used = 2, kv_n = 0,
     cells = [wit_cell 0 {0, 1}, empty_cell, wit_cell 1 {0}, empty_cell],
     has_shift = False, do_defrag = False, can_shift = True, padding = 4, ranges = [], defrag_ids = []\<rparr>"

definition wit_new :: kv_cache where
  "wit_new = \<lparr>head = 0, kv_size = 2, used = 0, kv_n = 0, cells = [empty_cell, empty_cell],
     has_shift = False, do_defrag = False, can_shift = True, padding = 2, ranges = [], defrag_ids = []\<rparr>"

definition wit_ubatch :: llama_ubatch where
  "wit_ubatch = \<lparr>equal_seqs = False, n_tokens = 1, n_seq_tokens = 1, n_seqs = 1, ub_token = Some [7],
     ub_embd = None, ub_pos = [5], ub_n_seq_id = [1], ub_seq_id = [[3]], ub_output = [1]\<rparr>"

lemma wit_cache_inv: "kv_inv wit_cache"
  by (simp add: wit_cache_def wit_cell_def kv_inv_def cell_ok_def is_empty_def empty_cell_def)

lemma wit_ubatch_ok: "ubatch_ok wit_ubatch"
  by (simp add: wit_ubatch_def ubatch_ok_def)

text \<open>
  C1. In every state the cache can reach from its constructor by any sequence of the operations of \<open>kv_step\<close>
  (all operations on cells; \<open>seq_div\<close> with a positive divisor, \<open>find_slot\<close> with a well-formed micro-batch, fewer than
  2^30 cells; reading a saved state is not one of them, see \<open>state_read_truncated\<close> in \<open>KvState\<close>),
  \<open>used\<close> is the number of non-empty cells (so the unsigned counter never wraps), a cell has a
  position exactly when it belongs to a sequence, \<open>head\<close> and the pending ranges stay within the
  cells, and the number of cells is the configured size.
\<close>

theorem kv_reachable_inv:
  assumes "kv_reachable s"
  shows "kv_inv s \<and> can_shift s \<and> kv_size s mod padding s = 0"
  using assms
proof induction
  case (reach_init sz pad s)
  then show ?case
    using kv_inv_init by (auto simp: kv_cache_init_def split: if_splits)
next
  case (reach_step s s')
  then show ?case
    using kv_inv_step kv_step_frame by metis
qed

theorem kv_reachable_inv_witness: "kv_inv (seq_keep 0 wit_new)"
proof -
  have "kv_cache_init 2 2 = Inr wit_new" by (simp add: kv_cache_init_def wit_new_def numeral_2_eq_2)
  then have "kv_reachable wit_new" by (rule reach_init) simp
  then have "kv_reachable (seq_keep 0 wit_new)" by (rule reach_step) (rule st_keep)
  from kv_reachable_inv [OF this] show ?thesis by simp
qed

text \<open>
  C2. \<open>find_slot\<close> always returns. It returns true exactly when the cache has a run of
  \<open>n_tokens\<close> consecutive free cells; then the tokens of the micro-batch are added, in order,
  to such a run, with their positions and sequences, no other cell changes, and the run is
  recorded as pending. Otherwise nothing but \<open>head\<close> changes.
\<close>

theorem find_slot_correct:
  assumes "kv_inv s" "ubatch_ok ub"
  shows "\<exists>b s'. find_slot ub s = Some (b, s')
    \<and> (b \<longleftrightarrow> (\<exists>h. free_at (cells s) (n_tokens ub) h))
    \<and> (if b then \<exists>h. free_at (cells s) (n_tokens ub) h
               \<and> (\<forall>r. occ s' r = occ s r \<union> ubatch_occ ub h r)
               \<and> used s' = used s + n_tokens ub
               \<and> ranges s' = ranges s @ [(h, h + n_tokens ub)]
        else cells s' = cells s \<and> used s' = used s \<and> ranges s' = ranges s)"
  using assms
proof (cases rule: find_slot_cases)
  case (found h)
  then show ?thesis
    using occ_place [OF assms found(2)] by (intro exI [of _ True]) auto
next
  case (none h)
  then show ?thesis by (intro exI [of _ False]) auto
qed

theorem find_slot_correct_witness:
  "\<exists>b s'. find_slot wit_ubatch wit_cache = Some (b, s')
    \<and> (b \<longleftrightarrow> (\<exists>h. free_at (cells wit_cache) 1 h))"
  using find_slot_correct [OF wit_cache_inv wit_ubatch_ok] by (auto simp: wit_ubatch_def)

text \<open>
  C3. The micro-batches of a \<open>decode\<close> that fails or is abandoned leave no trace: from a cache
  without pending ranges, whatever slots were found, \<open>restore\<close> brings back every cell and the
  count of used cells.
\<close>

theorem decode_rollback:
  assumes "kv_inv s" "ranges s = []" "\<forall>ub \<in> set ubs. ubatch_ok ub"
  shows "\<exists>b s'. find_slots ubs s = Some (b, s')
    \<and> cells (restore s') = cells s \<and> used (restore s') = used s"
proof -
  have "ahead_of s s" using assms(1,2) by (simp add: ahead_of_def covered_def)
  then show ?thesis
    using ahead_of_find_slots [OF _ assms(3)] ahead_of_restore [OF assms(1)] by metis
qed

theorem decode_rollback_witness:
  "\<exists>b s'. find_slots [wit_ubatch, wit_ubatch] wit_cache = Some (b, s')
    \<and> cells (restore s') = cells wit_cache \<and> used (restore s') = 2"
  using decode_rollback [OF wit_cache_inv, of "[wit_ubatch, wit_ubatch]"] wit_ubatch_ok
  by (simp add: wit_cache_def)

text \<open>
  C4. Defragmentation: the assertion that guards against an inaccurate \<open>used\<close> never fires, and
  the loops end. The moves recorded in \<open>ids\<close> are what happened to the cells: every non-empty
  cell \<open>j\<close> is found unchanged at the place \<open>ids\<close> gives it, no cell is lost or duplicated, and
  unless the limit on the number of moves stopped it, the used cells fill the front of the cache.
\<close>

theorem defrag_prepare_correct:
  assumes "kv_inv s" "n_layer_ok n_layer"
  shows "\<exists>n s'. defrag_prepare n_layer n_max_nodes s = Inr (n \<noteq> 0, s')
    \<and> {#c \<in># mset (cells s'). \<not> is_empty c#} = {#c \<in># mset (cells s). \<not> is_empty c#}
    \<and> (\<forall>j < cell_max s. \<not> is_empty (cells s ! j) \<longrightarrow>
         dest (defrag_ids s') (cell_max s) j < cell_max s
         \<and> cells s' ! dest (defrag_ids s') (cell_max s) j = cells s ! j)
    \<and> (n = max_moves_of n_layer n_max_nodes \<or> (\<forall>j < used s. \<not> is_empty (cells s' ! j)))"
  using assms
proof (rule defrag_prepare_result)
  fix d :: defrag_state
  assume "defrag_prepare n_layer n_max_nodes s
       = Inr (d_moves d \<noteq> 0, s\<lparr>cells := d_cells d, defrag_ids := d_ids d, head := d_head d\<rparr>)"
    "defrag_base (cells s) (cell_max s) (d_cells d) (d_ids d)"
    "d_moves d \<noteq> max_moves_of n_layer n_max_nodes \<Longrightarrow> \<forall>j < used s. \<not> is_empty (d_cells d ! j)"
  then show ?thesis
    by (intro exI [of _ "d_moves d"] exI) (auto simp: defrag_base_def)
qed

theorem defrag_prepare_correct_witness:
  "\<exists>b s'. defrag_prepare 2 8192 wit_cache = Inr (b, s')
    \<and> {#c \<in># mset (cells s'). \<not> is_empty c#} = {#c \<in># mset (cells wit_cache). \<not> is_empty c#}"
proof -
  have "n_layer_ok 2" by (simp add: n_layer_ok_def)
  from defrag_prepare_correct [OF wit_cache_inv this, of 8192] show ?thesis by blast
qed

text \<open>
  C5. \<open>seq_rm\<close> takes exactly the positions of the range (negative bounds meaning open ends) out
  of the given sequence, or out of every sequence when the id is negative, moves nothing else,
  and always reports success; \<open>seq_cp\<close> adds exactly the range of the source to the destination;
  \<open>seq_keep\<close> drops every other sequence.
\<close>

theorem seq_ops_occupancy:
  assumes "kv_inv s"
  shows "fst (seq_rm q p0 p1 s)
    \<and> occ (snd (seq_rm q p0 p1 s)) r
        = (if q < 0 \<or> r = q then {(i, p) \<in> occ s r. \<not> in_range p0 p1 p} else occ s r)
    \<and> occ (seq_cp q q' p0 p1 s) r
        = (if r = q' then occ s q' \<union> {(i, p) \<in> occ s q. in_range p0 p1 p} else occ s r)
    \<and> occ (seq_keep q s) r = (if r = q then occ s q else {})"
proof (intro conjI)
  obtain b s' where rm: "seq_rm q p0 p1 s = (b, s')" by fastforce
  show "fst (seq_rm q p0 p1 s)" using seq_rm_result(1) [OF assms rm] by (simp add: rm)
  show "occ (snd (seq_rm q p0 p1 s)) r
           = (if q < 0 \<or> r = q then {(i, p) \<in> occ s r. \<not> in_range p0 p1 p} else occ s r)"
    using occ_seq_rm_kv [OF assms rm] by (simp add: rm)
  show "occ (seq_cp q q' p0 p1 s) r
           = (if r = q' then occ s q' \<union> {(i, p) \<in> occ s q. in_range p0 p1 p} else occ s r)"
  proof (cases "q = q'")
    case True
    then show ?thesis by (auto simp: seq_cp_def)
  qed (rule occ_seq_cp_kv)
  show "occ (seq_keep q s) r = (if r = q then occ s q else {})"
    by (rule occ_seq_keep_kv [OF assms])
qed

theorem seq_ops_occupancy_witness:
  "occ (snd (seq_rm 0 1 (-1) wit_cache)) 0 = {(0, 0)} \<and> occ (seq_keep 1 wit_cache) 0 = {}"
proof -
  have "occ wit_cache 0 = {(0, 0), (2, 1)}"
    by (auto simp: mem_occ wit_cache_def wit_cell_def empty_cell_def less_Suc_eq numeral_eq_Suc)
  then show ?thesis
    using seq_ops_occupancy [OF wit_cache_inv, of 0 1 "-1" 0 0] seq_ops_occupancy [OF wit_cache_inv, of 1 1 "-1" 0 0]
    by (auto simp: in_range_def norm_p0_def norm_p1_def int32_max_def)
qed

text \<open>
  \<open>seq_add\<close> shifts the positions of the range of a sequence by \<open>delta\<close> (the cells it shares
  with other sequences move for them too) and drops the cells whose position would become
  negative; every other cell stays as it was.
\<close>

theorem seq_add_occupancy:
  assumes "kv_inv s"
  shows "occ (seq_add q p0 p1 d s) r =
    {(i, p) \<in> occ s r. (i, p) \<notin> occ s q \<or> \<not> in_range p0 p1 p}
    \<union> {(i, p + d) | i p. (i, p) \<in> occ s r \<inter> occ s q \<and> in_range p0 p1 p \<and> 0 \<le> p + d}"
  by (rule occ_seq_add_kv [OF assms])

theorem seq_add_occupancy_witness: "(2, 0) \<in> occ (seq_add 0 0 (-1) (-1) wit_cache) 0"
  unfolding seq_add_occupancy [OF wit_cache_inv]
proof (intro UnI2 CollectI exI conjI)
  show "(2, 0) = (2 :: nat, (1 :: int) + - 1)" by simp
  show "(2, 1) \<in> occ wit_cache 0 \<inter> occ wit_cache 0"
    by (simp add: mem_occ wit_cache_def wit_cell_def)
qed (simp_all add: in_range_def norm_p0_def norm_p1_def int32_max_def)

text \<open>
  After truncating a sequence at \<open>p0\<close> (the way the server drops a slot's tail before
  reusing its prefix), its largest position is below \<open>p0\<close>.
\<close>

theorem pos_max_after_truncate:
  assumes "kv_inv s" "seq_rm q p0 (-1) s = (b, s')" "0 < p0" "\<forall>(i, p) \<in> occ s q. p < int32_max"
  shows "seq_pos_max q s' < p0"
  using kvu.pos_max_after_rm [OF assms(1) _ assms(3,4)] seq_rm_result(1) [OF assms(1,2)] assms(2)
  by simp

theorem pos_max_after_truncate_witness: "seq_pos_max 0 (snd (seq_rm 0 1 (-1) wit_cache)) < 1"
proof -
  have "\<forall>(i, p) \<in> occ wit_cache 0. p < int32_max"
    by (auto simp: mem_occ wit_cache_def wit_cell_def empty_cell_def less_Suc_eq numeral_eq_Suc int32_max_def)
  from pos_max_after_truncate [OF wit_cache_inv _ _ this] show ?thesis
    by (metis prod.collapse zero_less_one)
qed

text \<open>
  C8. After a slot is found, the window \<open>n\<close> the attention reads covers every used cell, is
  not larger than the cache and stays a multiple of the padding (a power of two).
\<close>

theorem find_slot_window:
  assumes "kv_inv s" "ubatch_ok ub" "find_slot ub s = Some (True, s')"
    and "padding s = 2 ^ k" "k < 30" "kv_size s mod padding s = 0"
  shows "cell_max s' \<le> kv_n s' \<and> kv_n s' \<le> kv_size s' \<and> kv_n s' mod padding s' = 0
    \<and> (\<forall>j. kv_n s' \<le> j \<and> j < kv_size s' \<longrightarrow> is_empty (cells s' ! j))"
proof (intro conjI)
  have inv': "kv_inv s'" by (rule kv_inv_find_slot [OF assms(1-3)])
  have sz: "length (cells s') = kv_size s'" "kv_size s' < 2 ^ 30" using inv' by (simp_all add: kv_inv_def)
  have frame: "kv_size s' = kv_size s" "padding s' = 2 ^ k"
    using kv_step_frame [OF st_find [OF assms(2,3)]] assms(4) by simp_all
  have n: "kv_n s' = min (kv_size s') (max (2 ^ k) (ggml_pad (cell_max s') (2 ^ k)))"
    using assms(1,2)
  proof (cases rule: find_slot_cases)
    case (found h)
    then show ?thesis using assms(3,4) by (auto simp: cell_max_def)
  next
    case (none h)
    then show ?thesis using assms(3) by simp
  qed
  have le: "cell_max s' \<le> kv_size s'" using cell_max_le [of s'] sz(1) by simp
  have p30: "(2::nat) ^ k \<le> 2 ^ 30" using assms(5) by (intro power_increasing) simp_all
  have pad: "ggml_pad (cell_max s') (2 ^ k) = (cell_max s' + 2 ^ k - 1) div 2 ^ k * 2 ^ k"
    using assms(5) sz(2) le p30 by (intro ggml_pad_pow2) simp_all
  have "cell_max s' \<le> ggml_pad (cell_max s') (2 ^ k)"
    unfolding pad using div_mult_mod_eq [of "cell_max s' + 2 ^ k - 1" "2 ^ k"]
      mod_less_divisor [of "2 ^ k" "cell_max s' + 2 ^ k - 1"] by (simp del: mod_less_divisor)
  then show cov: "cell_max s' \<le> kv_n s'" using le by (simp add: n)
  show "kv_n s' \<le> kv_size s'" by (simp add: n)
  show "kv_n s' mod padding s' = 0"
    using assms(4,6) by (auto simp: n pad frame min_def max_def)
  show "\<forall>j. kv_n s' \<le> j \<and> j < kv_size s' \<longrightarrow> is_empty (cells s' ! j)"
    using cell_max_spec(1) [OF inv'] cov sz(1) by (auto dest: order.trans)
qed

theorem find_slot_window_witness:
  "\<exists>s'. find_slot wit_ubatch wit_cache = Some (True, s') \<and> cell_max s' \<le> kv_n s' \<and> kv_n s' mod 4 = 0"
proof -
  have ex: "\<exists>s'. find_slot wit_ubatch wit_cache = Some (True, s')"
    using wit_cache_inv wit_ubatch_ok
  proof (cases rule: find_slot_cases)
    case (none h)
    then have "\<not> free_at (cells wit_cache) 1 1" by (simp add: wit_ubatch_def)
    then show ?thesis by (simp add: free_at_def wit_cache_def empty_cell_def)
  qed blast
  then obtain s' where f: "find_slot wit_ubatch wit_cache = Some (True, s')" by blast
  have "padding wit_cache = 2 ^ 2" "kv_size wit_cache mod padding wit_cache = 0"
    by (simp_all add: wit_cache_def)
  moreover have "padding s' = 4"
    using kv_step_frame [OF st_find [OF wit_ubatch_ok f]] by (simp add: wit_cache_def)
  ultimately show ?thesis
    using find_slot_window [OF wit_cache_inv wit_ubatch_ok f, of 2] f by simp
qed

section \<open>Stale pending ranges\<close>

text \<open>A micro-batch of single tokens, given by their positions and sequences.\<close>

definition tokens_ubatch :: "(int \<times> int) list \<Rightarrow> llama_ubatch" where
  "tokens_ubatch ts = \<lparr>equal_seqs = False, n_tokens = length ts, n_seq_tokens = 1, n_seqs = length ts,
     ub_token = Some (map fst ts), ub_embd = None, ub_pos = map fst ts, ub_n_seq_id = map (\<lambda>_. 1) ts,
     ub_seq_id = map (\<lambda>t. [snd t]) ts, ub_output = map (\<lambda>_. 0) ts\<rparr>"

lemma tokens_ubatch_ok: "\<forall>t \<in> set ts. 0 \<le> fst t \<Longrightarrow> ubatch_ok (tokens_ubatch ts)"
  by (auto simp: tokens_ubatch_def ubatch_ok_def in_set_conv_nth)

lemma find_slot_at_0:
  assumes "head s = 0" "free_at (cells s) (n_tokens ub) 0" "length (cells s) = kv_size s" "kv_size s < 2 ^ 30"
  obtains s' where "find_slot ub s = Some (True, s')" "cells s' = place_ubatch ub 0 (cells s)"
    "used s' = u32_add (used s) (n_tokens ub)" "ranges s' = ranges s @ [(0, n_tokens ub)]" "head s' = 0"
    "kv_size s' = kv_size s" "has_shift s' = has_shift s" "can_shift s' = can_shift s" "do_defrag s' = do_defrag s"
proof -
  have "n_tokens ub \<le> kv_size s" using assms(2,3) by (simp add: free_at_def)
  moreover have "probe (cells s) 0 0 (n_tokens ub) = None" using assms(2) by (simp add: probe_None free_at_def)
  ultimately have "find_slot_loop (cells s) (n_tokens ub) (kv_size s) 0 0 = Some (True, 0)"
    using assms(4) by (subst find_slot_loop.simps) simp
  then show thesis
    using that assms \<open>n_tokens ub \<le> kv_size s\<close> by (simp add: find_slot_def Let_def not_less)
qed

lemma eval_place:
  "place_ubatch (tokens_ubatch [(0, 1), (1, 1), (0, 0)]) 0 [empty_cell, empty_cell, empty_cell, empty_cell]
     = [wit_cell 0 {1}, wit_cell 1 {1}, wit_cell 0 {0}, empty_cell]"
  "place_ubatch (tokens_ubatch [(0, 5), (1, 5)]) 0 [empty_cell, empty_cell, wit_cell 0 {0}, empty_cell]
     = [wit_cell 0 {5}, wit_cell 1 {5}, wit_cell 0 {0}, empty_cell]"
  by (simp_all add: place_ubatch_def place_token_def tokens_ubatch_def wit_cell_def empty_cell_def upt_rec Let_def)

lemma eval_free:
  "free_at [empty_cell, empty_cell, empty_cell, empty_cell] (Suc (Suc (Suc 0))) 0"
  "free_at [empty_cell, empty_cell, wit_cell 0 {0}, empty_cell] (Suc (Suc 0)) 0"
  by (auto simp: free_at_def empty_cell_def less_Suc_eq)

lemma upt_0_2: "[0..<2 :: nat] = [0, Suc 0]"
  by (simp add: upt_rec numeral_2_eq_2)

lemma eval_defrag:
  fixes h :: u32
  defines "c \<equiv> wit_cell 0 {0}" and "e \<equiv> empty_cell"
  defines "d0 \<equiv> \<lparr>d_cells = [e, e, c, e], d_ids = [3, 3, 3], d_moves = 0, d_head = h\<rparr>"
  shows "defrag_loop 3 1 mm 0 d0 = Inr \<lparr>d_cells = [c, e, e, e], d_ids = [3, 3, 0], d_moves = 1, d_head = 1\<rparr>"
proof -
  let ?d1 = "\<lparr>d_cells = [c, e, e, e], d_ids = [3, 3, 0], d_moves = 1, d_head = 1\<rparr>"
  have emp: "is_empty e" "\<not> is_empty c" by (simp_all add: e_def c_def empty_cell_def wit_cell_def is_empty_def)
  have "hole_size (d_cells d0) 1 0 1 = 1" by (subst hole_size.simps) simp
  moreover have "find_src (d_cells d0) (d_ids d0) 3 0 1 2 0 = (2, 1)"
    by (subst find_src.simps) (simp add: d0_def emp)
  moreover have "move_cells 3 1 mm 0 1 2 0 False d0 = (?d1, False)"
    by (subst move_cells.simps) (simp add: d0_def emp e_def numeral_2_eq_2)
  moreover have "defrag_loop 3 1 mm 1 ?d1 = Inr ?d1" by (subst defrag_loop.simps) simp
  moreover have "d_cells d0 ! 0 = e" by (simp add: d0_def)
  ultimately show ?thesis by (subst defrag_loop.simps) (simp add: emp)
qed

lemma replicate_3: "replicate 3 x = [x, x, x]"
  by (simp add: numeral_3_eq_3)

lemma occ_empty: "\<forall>c \<in> set (cells s). q \<notin> seq_id c \<Longrightarrow> occ s q = {}"
  by (auto simp: occ_def)

lemma n_tokens_ubatch: "n_tokens (tokens_ubatch ts) = length ts"
  by (simp add: tokens_ubatch_def)

text \<open>
  \<open>restore\<close> does not clear the pending ranges, and this loses tokens: there is a reachable
  cache with a committed token of sequence 0 for which the next \<open>find_slot\<close> finds no room, and
  the \<open>restore\<close> of the guard then wipes this token. (A first failed \<open>decode\<close> leaves its range
  behind, a defragmentation moves the token into it, the second failed \<open>decode\<close> rolls the range
  back again.)
\<close>

theorem restore_keeps_ranges:
  "\<exists>s ub s'. kv_reachable s \<and> occ s 0 = {(0, 0)} \<and> find_slot ub s = Some (False, s') \<and> occ (restore s') 0 = {}"
proof -
  let ?A = "tokens_ubatch [(0, 1), (1, 1), (0, 0)]" and ?B = "tokens_ubatch [(0, 5), (1, 5)]"
  let ?C = "tokens_ubatch [(0, 6), (0, 6), (0, 6), (0, 6), (0, 6)]"
  let ?e = empty_cell and ?c = "wit_cell 0 {0}"
  obtain s0 where s0: "kv_cache_init 4 1 = Inr s0" "cells s0 = [?e, ?e, ?e, ?e]" "head s0 = 0" "used s0 = 0"
    "kv_size s0 = 4" "ranges s0 = []" "\<not> has_shift s0" "can_shift s0"
    by (simp add: kv_cache_init_def numeral_eq_Suc)
  have r0: "kv_reachable s0" using s0(1) by (rule reach_init) simp
  obtain s1 where s1: "find_slot ?A s0 = Some (True, s1)" "cells s1 = [wit_cell 0 {1}, wit_cell 1 {1}, ?c, ?e]"
    "used s1 = 3" "ranges s1 = [(0, 3)]" "head s1 = 0" "kv_size s1 = 4" "\<not> has_shift s1" "can_shift s1"
    by (rule find_slot_at_0 [of s0 ?A]) (use s0 eval_free in \<open>simp_all add: n_tokens_ubatch eval_place\<close>)
  have r1: "kv_reachable s1" by (rule reach_step [OF r0 st_find [OF tokens_ubatch_ok s1(1)]]) simp
  define s2 where "s2 = commit s1"
  have r2: "kv_reachable s2" unfolding s2_def by (rule reach_step [OF r1 st_commit])
  obtain b s3 where s3: "seq_rm 1 (-1) (-1) s2 = (b, s3)" by fastforce
  have r3: "kv_reachable s3" by (rule reach_step [OF r2 st_rm [OF s3]])
  have f3: "cells s3 = [?e, ?e, ?c, ?e]" "used s3 = 1" "ranges s3 = []" "head s3 = 0" "kv_size s3 = 4"
    "\<not> has_shift s3" "can_shift s3"
    using s1 s3 by (auto simp: s2_def commit_def seq_rm_def seq_rm_cell_def norm_p0_def norm_p1_def int32_max_def
        wit_cell_def empty_cell_def has_seq_id_def is_empty_def Let_def)
  obtain s4 where s4: "find_slot ?B s3 = Some (True, s4)" "cells s4 = [wit_cell 0 {5}, wit_cell 1 {5}, ?c, ?e]"
    "used s4 = 3" "ranges s4 = [(0, 2)]" "head s4 = 0" "kv_size s4 = 4" "\<not> has_shift s4" "can_shift s4"
    by (rule find_slot_at_0 [of s3 ?B]) (use f3 eval_free in \<open>simp_all add: n_tokens_ubatch eval_place\<close>)
  have r4: "kv_reachable s4" by (rule reach_step [OF r3 st_find [OF tokens_ubatch_ok s4(1)]]) simp
  define s5 where "s5 = restore s4"
  have r5: "kv_reachable s5" unfolding s5_def by (rule reach_step [OF r4 st_restore])
  have f5: "cells s5 = [?e, ?e, ?c, ?e]" "used s5 = 1" "ranges s5 = [(0, 2)]" "kv_size s5 = 4"
    "\<not> has_shift s5" "can_shift s5"
    using s4 by (simp_all add: s5_def restore_def wit_cell_def empty_cell_def upt_0_2)
  define s6 where "s6 = defrag_sched (-1) s5"
  have r6: "kv_reachable s6" unfolding s6_def by (rule reach_step [OF r5 st_sched])
  have "0 \<le> fragmentation s5" by (simp add: fragmentation_def)
  then have f6: "cells s6 = [?e, ?e, ?c, ?e]" "used s6 = 1" "ranges s6 = [(0, 2)]" "kv_size s6 = 4"
    "\<not> has_shift s6" "do_defrag s6"
    using f5 by (auto simp: s6_def defrag_sched_def)
  have max6: "cell_max s6 = 3" using f6(1) by (simp add: cell_max_def is_empty_def wit_cell_def empty_cell_def)
  have "u32_mul 6 2 \<noteq> 0" by (simp add: u32_mul_def)
  then have "\<exists>s'. defrag_prepare 2 8192 s6 = Inr (True, s') \<and> cells s' = [?c, ?e, ?e, ?e] \<and> ranges s' = [(0, 2)]
      \<and> kv_size s' = 4"
    unfolding defrag_prepare_def Let_def max6 f6(1,2) replicate_3
    using f6(3,4) by (simp add: eval_defrag del: One_nat_def)
  then obtain m s7 where s7: "kv_update True 2 8192 s6 = Inr (m, s7)" "cells s7 = [?c, ?e, ?e, ?e]"
    "ranges s7 = [(0, 2)]" "kv_size s7 = 4"
    using f6(5,6) by (auto simp: kv_update_def)
  have r7: "kv_reachable s7" by (rule reach_step [OF r6 st_update [OF _ s7(1)]]) (simp add: n_layer_ok_def)
  obtain s8 where s8: "find_slot ?C s7 = Some (False, s8)" "cells s8 = cells s7" "ranges s8 = ranges s7"
    using s7(4) by (simp add: find_slot_def tokens_ubatch_def Let_def)
  have "occ (restore s8) 0 = {}"
    by (rule occ_empty) (use s7(2,3) s8(2,3) in \<open>simp add: restore_def wit_cell_def empty_cell_def upt_0_2\<close>)
  moreover have "occ s7 0 = {(0, 0)}"
    using s7(2) by (auto simp: occ_def wit_cell_def empty_cell_def less_Suc_eq numeral_eq_Suc)
  ultimately show ?thesis using r7 s8(1) by blast
qed

end
