(* ===== verification/StateIo.thy ===== *)
theory StateIo
  imports Prelude "HOL-Library.Word"
begin

text \<open>
  The byte streams of saved states: \<open>llama_io_write_i\<close> and \<open>llama_io_read_i\<close> (\<open>src/llama-io.{h,cpp}\<close>)
  and their implementations in \<open>src/llama-context.cpp\<close>.

  A writer receives a sequence of chunks, one for each call of \<open>write\<close> or \<open>write_tensor\<close>; what
  a component writes is therefore a list of byte lists. \<open>io_dummy\<close> only counts, \<open>io_buffer\<close>
  copies into a buffer of limited size. A reader is the rest of the input. An object is written as
  its representation in memory, little-endian and two's complement.
\<close>

type_synonym byte = "8 word"
type_synonym bytes = "byte list"

section \<open>Objects as bytes\<close>

fun put_uint :: "nat \<Rightarrow> nat \<Rightarrow> bytes" where
  "put_uint 0 n = []"
| "put_uint (Suc k) n = word_of_nat n # put_uint k (n div 256)"

fun get_uint :: "bytes \<Rightarrow> nat" where
  "get_uint [] = 0"
| "get_uint (b # bs) = unat b + 256 * get_uint bs"

definition put_u32 :: "nat \<Rightarrow> bytes" where
  "put_u32 = put_uint 4"

definition put_u64 :: "nat \<Rightarrow> bytes" where
  "put_u64 = put_uint 8"

definition put_i32 :: "int \<Rightarrow> bytes" where
  "put_i32 i = put_uint 4 (nat (i mod 2 ^ 32))"

definition get_i32 :: "bytes \<Rightarrow> int" where
  "get_i32 bs = (let n = int (get_uint bs) in if n < 2 ^ 31 then n else n - 2 ^ 32)"

section \<open>Readers and writers\<close>

text \<open>\<open>llama_io_read_buffer::read\<close>: the bytes read and the rest.\<close>

definition io_read :: "nat \<Rightarrow> bytes \<Rightarrow> (bytes \<times> bytes) res" where
  "io_read n bs =
     (if n > length bs then Inl (Throw ''unexpectedly reached end of buffer'')
      else Inr (take n bs, drop n bs))"

definition read_u32 :: "bytes \<Rightarrow> (nat \<times> bytes) res" where
  "read_u32 bs = bind_res (io_read 4 bs) (\<lambda>(x, rest). Inr (get_uint x, rest))"

definition read_u64 :: "bytes \<Rightarrow> (nat \<times> bytes) res" where
  "read_u64 bs = bind_res (io_read 8 bs) (\<lambda>(x, rest). Inr (get_uint x, rest))"

definition read_i32 :: "bytes \<Rightarrow> (int \<times> bytes) res" where
  "read_i32 bs = bind_res (io_read 4 bs) (\<lambda>(x, rest). Inr (get_i32 x, rest))"

definition write_string :: "bytes \<Rightarrow> bytes list" where
  "write_string str = [put_u32 (length str mod 2 ^ 32), take (length str mod 2 ^ 32) str]"

definition read_string :: "bytes \<Rightarrow> (bytes \<times> bytes) res" where
  "read_string bs = bind_res (read_u32 bs) (\<lambda>(n, rest). io_read n rest)"

text \<open>\<open>llama_io_write_dummy\<close> and \<open>llama_io_write_buffer\<close>: what was written, or the exception.\<close>

definition io_dummy :: "bytes list \<Rightarrow> nat" where
  "io_dummy chunks = fold (\<lambda>c n. n + length c) chunks 0"

fun io_buffer :: "nat \<Rightarrow> bytes list \<Rightarrow> bytes res" where
  "io_buffer buf_size [] = Inr []"
| "io_buffer buf_size (c # cs) =
     (if length c > buf_size then Inl (Throw ''unexpectedly reached end of buffer'')
      else bind_res (io_buffer (buf_size - length c) cs) (\<lambda>rest. Inr (c @ rest)))"

section \<open>Round trips\<close>

lemma length_put_uint [simp]: "length (put_uint k n) = k"
  by (induction k arbitrary: n) auto

lemma get_put_uint: "n < 256 ^ k \<Longrightarrow> get_uint (put_uint k n) = n"
proof (induction k arbitrary: n)
  case (Suc k)
  then have "n div 256 < 256 ^ k" by (simp add: less_mult_imp_div_less)
  then show ?case using Suc.IH by (simp add: unat_of_nat)
qed simp

lemma length_put [simp]: "length (put_u32 n) = 4" "length (put_u64 n) = 8" "length (put_i32 i) = 4"
  by (simp_all add: put_u32_def put_u64_def put_i32_def)

lemma io_read_append [simp]: "length xs = n \<Longrightarrow> io_read n (xs @ ys) = Inr (xs, ys)"
  by (simp add: io_read_def)

lemma read_put_u32 [simp]: "n < 2 ^ 32 \<Longrightarrow> read_u32 (put_u32 n @ rest) = Inr (n, rest)"
  by (simp add: read_u32_def put_u32_def get_put_uint)

lemma read_put_u64 [simp]: "n < 2 ^ 64 \<Longrightarrow> read_u64 (put_u64 n @ rest) = Inr (n, rest)"
  by (simp add: read_u64_def put_u64_def get_put_uint)

lemma get_put_i32:
  assumes "-(2 ^ 31) \<le> i" "i < 2 ^ 31"
  shows "get_i32 (put_i32 i) = i"
proof -
  have "nat (i mod 2 ^ 32) < 256 ^ 4" using pos_mod_bound [of "2 ^ 32" i] by (simp add: nat_less_iff)
  then have g: "int (get_uint (put_uint 4 (nat (i mod 2 ^ 32)))) = i mod 2 ^ 32" by (simp add: get_put_uint)
  show ?thesis
  proof (cases "0 \<le> i")
    case False
    have "(i + 2 ^ 32) mod 2 ^ 32 = i + 2 ^ 32" using assms False by (intro mod_pos_pos_trivial) auto
    then have "i mod 2 ^ 32 = i + 2 ^ 32" by simp
    then show ?thesis using g assms False by (simp add: get_i32_def put_i32_def Let_def)
  qed (use g assms in \<open>simp add: get_i32_def put_i32_def Let_def\<close>)
qed

lemma read_put_i32 [simp]:
  "-(2 ^ 31) \<le> i \<Longrightarrow> i < 2 ^ 31 \<Longrightarrow> read_i32 (put_i32 i @ rest) = Inr (i, rest)"
  using get_put_i32 [of i] by (simp add: read_i32_def)

lemma read_write_string:
  "length str < 2 ^ 32 \<Longrightarrow> read_string (concat (write_string str) @ rest) = Inr (str, rest)"
  by (simp add: read_string_def write_string_def)

section \<open>The two writers agree\<close>

lemma io_dummy_length: "io_dummy chunks = length (concat chunks)"
proof -
  have "fold (\<lambda>c n. n + length c) chunks k = k + length (concat chunks)" for k
    by (induction chunks arbitrary: k) auto
  then show ?thesis by (simp add: io_dummy_def)
qed

lemma io_buffer_result:
  "io_buffer n chunks =
     (if length (concat chunks) \<le> n then Inr (concat chunks)
      else Inl (Throw ''unexpectedly reached end of buffer''))"
  by (induction chunks arbitrary: n) (auto simp: less_diff_conv)

end
