(* ===== verification/KvState.thy ===== *)
theory KvState
  imports KvMachine StateIo
begin

text \<open>
  Saving and restoring the unified cache: \<open>llama_kv_cache_unified::state_write\<close>, \<open>state_read\<close> and the
  functions they call (\<open>src/llama-kv-cache.cpp\<close>), for the whole cache (\<open>seq_id = -1\<close>) or for one
  sequence, and the entry points of \<open>llama_context\<close> that save and restore one sequence.

  The tensors are byte lists; the sizes that \<open>ggml_row_size\<close> and \<open>ggml_type_size\<close> compute from the
  type of a tensor and the hyper-parameters are fields of the layer.
\<close>

section \<open>State\<close>

record kv_layer =
  k_type :: int
  k_size_row :: nat
  k_data :: bytes
  v_type :: int
  v_size_row :: nat
  v_size_el :: nat
  n_embd_v_gqa :: nat
  v_data :: bytes

record kv_store =
  st_kv :: kv_cache
  v_trans :: bool
  layers :: "kv_layer list"

text \<open>
  \<open>ggml_backend_tensor_get\<close> and \<open>ggml_backend_tensor_set\<close>, which assert that the range is inside the tensor. The ranges
  that are read are inside in every store whose tensors have the size of the cache (\<open>row_fits\<close>,
  \<open>v_src_offset_small\<close>); a range outside, for which the program aborts, gives the bytes there are.
\<close>

definition tensor_get :: "nat \<Rightarrow> nat \<Rightarrow> bytes \<Rightarrow> bytes" where
  "tensor_get off n t = take n (drop off t)"

definition tensor_set :: "nat \<Rightarrow> bytes \<Rightarrow> bytes \<Rightarrow> bytes res" where
  "tensor_set off bs t =
     (if off + length bs \<le> length t then Inr (write_at off bs t)
      else Inl (Assert_fail ''tensor write out of bounds''))"

text \<open>\<open>clear\<close> with the tensors, which \<open>ggml_backend_buffer_clear\<close> fills with zeros.\<close>

definition store_clear :: "kv_store \<Rightarrow> kv_store" where
  "store_clear st = st\<lparr>st_kv := clear (st_kv st),
     layers := map (\<lambda>l. l\<lparr>k_data := replicate (length (k_data l)) 0, v_data := replicate (length (v_data l)) 0\<rparr>)
                 (layers st)\<rparr>"

section \<open>Writing\<close>

text \<open>The cells that are saved, and the loop that collects them into ranges.\<close>

definition saved :: "int \<Rightarrow> kv_cell \<Rightarrow> bool" where
  "saved q c \<longleftrightarrow> (q = -1 \<and> \<not> is_empty c) \<or> has_seq_id c q"

fun cell_ranges :: "u32 \<Rightarrow> int \<Rightarrow> nat \<Rightarrow> kv_cell list \<Rightarrow> nat \<Rightarrow> u32 \<Rightarrow> nat \<times> (nat \<times> nat) list" where
  "cell_ranges sz q i [] begin0 cnt = (cnt, if begin0 \<noteq> sz then [(begin0, sz)] else [])"
| "cell_ranges sz q i (c # cs) begin0 cnt =
     (if saved q c
      then cell_ranges sz q (Suc i) cs (if begin0 = sz then i else begin0) (u32_add cnt 1)
      else if begin0 \<noteq> sz
      then (let r = cell_ranges sz q (Suc i) cs sz cnt in (fst r, (begin0, i) # snd r))
      else cell_ranges sz q (Suc i) cs begin0 cnt)"

definition write_meta_cell :: "int \<Rightarrow> kv_cell \<Rightarrow> bytes list" where
  "write_meta_cell q c =
     (let n_seq_id = (if q = -1 then card (seq_id c) else 0)
      in [put_i32 (pos c), put_u32 n_seq_id]
         @ (if n_seq_id \<noteq> 0 then map put_i32 (sorted_list_of_set (seq_id c)) else []))"

definition state_write_meta :: "(nat \<times> nat) list \<Rightarrow> int \<Rightarrow> kv_cache \<Rightarrow> bytes list" where
  "state_write_meta rs q s = concat (map (\<lambda>(a, b). concat (map (\<lambda>i. write_meta_cell q (cells s ! i)) [a..<b])) rs)"

definition write_k :: "(nat \<times> nat) list \<Rightarrow> kv_layer \<Rightarrow> bytes list" where
  "write_k rs l =
     [put_i32 (k_type l), put_u64 (k_size_row l)]
     @ map (\<lambda>(a, b). tensor_get (a * k_size_row l) ((b - a) * k_size_row l) (k_data l)) rs"

definition write_v :: "(nat \<times> nat) list \<Rightarrow> kv_layer \<Rightarrow> bytes list" where
  "write_v rs l =
     [put_i32 (v_type l), put_u64 (v_size_row l)]
     @ map (\<lambda>(a, b). tensor_get (a * v_size_row l) ((b - a) * v_size_row l) (v_data l)) rs"

text \<open>
  For transposed values, the offset of element \<open>j\<close> of cell \<open>a\<close>: all its factors are \<open>uint32_t\<close>.
\<close>

definition v_src_offset :: "u32 \<Rightarrow> u32 \<Rightarrow> u32 \<Rightarrow> u32 \<Rightarrow> nat" where
  "v_src_offset a j sz el = u32_mul (u32_add a (u32_mul j sz)) el"

definition write_v_trans :: "u32 \<Rightarrow> (nat \<times> nat) list \<Rightarrow> kv_layer \<Rightarrow> bytes list" where
  "write_v_trans sz rs l =
     [put_i32 (v_type l), put_u32 (v_size_el l), put_u32 (n_embd_v_gqa l)]
     @ concat (map (\<lambda>j. map (\<lambda>(a, b). tensor_get (v_src_offset a j sz (v_size_el l)) ((b - a) * v_size_el l) (v_data l)) rs)
                 [0..<n_embd_v_gqa l])"

definition state_write_data :: "(nat \<times> nat) list \<Rightarrow> kv_store \<Rightarrow> bytes list" where
  "state_write_data rs st =
     [put_u32 (if v_trans st then 1 else 0), put_u32 (length (layers st))]
     @ concat (map (write_k rs) (layers st))
     @ (if \<not> v_trans st then concat (map (write_v rs) (layers st))
        else concat (map (write_v_trans (kv_size (st_kv st)) rs) (layers st)))"

definition state_write :: "int \<Rightarrow> kv_store \<Rightarrow> bytes list res" where
  "state_write q st =
     (let s = st_kv st; (cnt, rs) = cell_ranges (kv_size s) q 0 (cells s) (kv_size s) 0 in
      if cnt \<noteq> fold (\<lambda>(a, b) n. u32_add n (u32_sub b a)) rs 0
      then Inl (Assert_fail ''cell_count == cell_count_check'')
      else Inr ([put_u32 cnt] @ state_write_meta rs q s @ state_write_data rs st))"

section \<open>Reading\<close>

text \<open>
  A function that returns a \<open>bool\<close> and may throw: \<open>Ret b rest\<close> with the rest of the input, or
  \<open>Thrown\<close>. The state it has changed so far is returned beside it in both cases.
\<close>

datatype status =
    Ret bool bytes
  | Thrown fault

text \<open>Reading a value and continuing with it; an exception leaves the state \<open>s\<close>.\<close>

definition then_read :: "('a \<times> bytes) res \<Rightarrow> 's \<Rightarrow> ('a \<Rightarrow> bytes \<Rightarrow> status \<times> 's) \<Rightarrow> status \<times> 's" where
  "then_read r s f = (case r of Inl e \<Rightarrow> (Thrown e, s) | Inr (x, rest) \<Rightarrow> f x rest)"

text \<open>One sequence: the positions of the cells, \<open>None\<close> when a cell lists sequences.\<close>

fun read_positions :: "nat \<Rightarrow> bytes \<Rightarrow> (int list option \<times> bytes) res" where
  "read_positions 0 bs = Inr (Some [], bs)"
| "read_positions (Suc k) bs =
     bind_res (read_i32 bs) (\<lambda>(p, bs1). bind_res (read_u32 bs1) (\<lambda>(n_seq_id, bs2).
       if n_seq_id \<noteq> 0 then Inr (None, bs2)
       else bind_res (read_positions k bs2) (\<lambda>(ps, bs3). Inr (map_option ((#) p) ps, bs3))))"

text \<open>The micro-batch that asks for the cells of the sequence.\<close>

definition empty_sbatch :: llama_sbatch where
  "empty_sbatch = \<lparr>sb_n_tokens = 0, sb_n_embd = 0, logits_all = False, sb_ids = [], out_ids = [], sb_seq = [],
     sb_batch = None, ubatch_token = [], ubatch_embd = [], ubatch_pos = [], ubatch_n_seq_id = [], ubatch_seq_id = [],
     ubatch_output = []\<rparr>"

definition restore_ubatch :: "int \<Rightarrow> int list \<Rightarrow> llama_ubatch" where
  "restore_ubatch q ps =
     (let ub = snd (reserve_ubatch (length ps) False empty_sbatch) in
      ub\<lparr>n_tokens := length ps, n_seq_tokens := length ps, n_seqs := 1, ub_pos := write_at 0 ps (ub_pos ub),
         ub_n_seq_id := (ub_n_seq_id ub)[0 := 1], ub_seq_id := (ub_seq_id ub)[0 := [q]]\<rparr>)"

text \<open>
  The part of \<open>state_read_meta\<close> for one sequence. With no cell, \<open>batch.n_seq_id[0]\<close> is outside the
  empty array. The debug checks after \<open>commit\<close> are the assertion. (\<open>find_slot\<close> always returns, see
  \<open>find_slot_cases\<close>; the branch \<open>None\<close> is not reached.)
\<close>

definition read_meta_seq :: "nat \<Rightarrow> int \<Rightarrow> bytes \<Rightarrow> kv_cache \<Rightarrow> status \<times> kv_cache" where
  "read_meta_seq cell_count q bs s =
     (let s1 = snd (seq_rm q (-1) (-1) s) in
      then_read (read_positions cell_count bs) s1 (\<lambda>ps bs1.
        case ps of
          None \<Rightarrow> (Ret False bs1, s1)
        | Some ps \<Rightarrow>
            if ps = [] then (Thrown Out_of_range, s1)
            else case find_slot (restore_ubatch q ps) s1 of
              None \<Rightarrow> (Thrown (Throw ''no result''), s1)
            | Some (False, s2) \<Rightarrow> (Ret False bs1, s2)
            | Some (True, s2) \<Rightarrow>
                let s3 = commit s2; h = head s3; e = u32_sub (u32_add h cell_count) 1 in
                if u32_add h cell_count \<le> kv_size s3
                   \<and> pos (cells s3 ! h) = hd ps \<and> pos (cells s3 ! e) = last ps
                   \<and> has_seq_id (cells s3 ! h) q \<and> has_seq_id (cells s3 ! e) q
                then (Ret True bs1, s3)
                else (Thrown (Assert_fail ''cells[head].pos == batch.pos[0]''), s3)))"

text \<open>The whole cache: the ids of one cell, then the cells from \<open>i\<close> on.\<close>

fun read_ids :: "nat \<Rightarrow> bytes \<Rightarrow> kv_cell \<Rightarrow> status \<times> kv_cell" where
  "read_ids 0 bs c = (Ret True bs, c)"
| "read_ids (Suc k) bs c =
     then_read (read_i32 bs) c (\<lambda>q bs1.
       if q < 0 then (Ret False bs1, c)
       else read_ids k bs1 (c\<lparr>seq_id := insert q (seq_id c)\<rparr>))"

fun read_cells :: "nat \<Rightarrow> nat \<Rightarrow> bytes \<Rightarrow> kv_cell list \<Rightarrow> status \<times> kv_cell list" where
  "read_cells i 0 bs cs = (Ret True bs, cs)"
| "read_cells i (Suc k) bs cs =
     then_read (read_i32 bs) cs (\<lambda>p bs1.
     then_read (read_u32 bs1) cs (\<lambda>n_seq_id bs2.
       case read_ids n_seq_id bs2 ((cs ! i)\<lparr>pos := p\<rparr>) of
         (Ret True bs3, c) \<Rightarrow> read_cells (Suc i) k bs3 (cs[i := c])
       | (st, c) \<Rightarrow> (st, cs[i := c])))"

definition read_meta_all :: "nat \<Rightarrow> bytes \<Rightarrow> kv_store \<Rightarrow> status \<times> kv_store" where
  "read_meta_all cell_count bs st =
     (if cell_count > kv_size (st_kv st) then (Ret False bs, st)
      else let st1 = store_clear st; s1 = st_kv st1 in
        case read_cells 0 cell_count bs (cells s1) of
          (Ret True bs1, cs) \<Rightarrow> (Ret True bs1, st1\<lparr>st_kv := s1\<lparr>cells := cs, head := 0, used := cell_count\<rparr>\<rparr>)
        | (r, cs) \<Rightarrow> (r, st1\<lparr>st_kv := s1\<lparr>cells := cs\<rparr>\<rparr>))"

definition state_read_meta :: "nat \<Rightarrow> int \<Rightarrow> bytes \<Rightarrow> kv_store \<Rightarrow> status \<times> kv_store" where
  "state_read_meta cell_count q bs st =
     (if q \<noteq> -1 then (let (r, s) = read_meta_seq cell_count q bs (st_kv st) in (r, st\<lparr>st_kv := s\<rparr>))
      else read_meta_all cell_count bs st)"

text \<open>The rows of one tensor, and the loops over the layers.\<close>

definition read_rows :: "nat \<Rightarrow> nat \<Rightarrow> nat \<Rightarrow> bytes \<Rightarrow> bytes \<Rightarrow> (bytes \<times> bytes) res" where
  "read_rows h cell_count row bs t =
     (if cell_count \<noteq> 0
      then bind_res (io_read (cell_count * row) bs) (\<lambda>(x, rest).
             bind_res (tensor_set (h * row) x t) (\<lambda>t'. Inr (t', rest)))
      else Inr (t, bs))"

fun read_k_layers :: "nat \<Rightarrow> nat \<Rightarrow> bytes \<Rightarrow> kv_layer list \<Rightarrow> status \<times> kv_layer list" where
  "read_k_layers h cc bs [] = (Ret True bs, [])"
| "read_k_layers h cc bs (l # ls) =
     then_read (read_i32 bs) (l # ls) (\<lambda>ty bs1.
       if k_type l \<noteq> ty then (Ret False bs1, l # ls)
       else then_read (read_u64 bs1) (l # ls) (\<lambda>row bs2.
         if k_size_row l \<noteq> row then (Ret False bs2, l # ls)
         else then_read (read_rows h cc (k_size_row l) bs2 (k_data l)) (l # ls) (\<lambda>t bs3.
           let r = read_k_layers h cc bs3 ls in (fst r, l\<lparr>k_data := t\<rparr> # snd r))))"

fun read_v_layers :: "nat \<Rightarrow> nat \<Rightarrow> bytes \<Rightarrow> kv_layer list \<Rightarrow> status \<times> kv_layer list" where
  "read_v_layers h cc bs [] = (Ret True bs, [])"
| "read_v_layers h cc bs (l # ls) =
     then_read (read_i32 bs) (l # ls) (\<lambda>ty bs1.
       if v_type l \<noteq> ty then (Ret False bs1, l # ls)
       else then_read (read_u64 bs1) (l # ls) (\<lambda>row bs2.
         if v_size_row l \<noteq> row then (Ret False bs2, l # ls)
         else then_read (read_rows h cc (v_size_row l) bs2 (v_data l)) (l # ls) (\<lambda>t bs3.
           let r = read_v_layers h cc bs3 ls in (fst r, l\<lparr>v_data := t\<rparr> # snd r))))"

text \<open>
  Transposed values: row \<open>j\<close> holds element \<open>j\<close> of every cell. The index of an element is computed in
  32 bits; when reading, the product with the element size is in 64 bits.
\<close>

fun read_columns :: "nat \<Rightarrow> nat \<Rightarrow> u32 \<Rightarrow> nat \<Rightarrow> nat list \<Rightarrow> bytes \<Rightarrow> bytes \<Rightarrow> status \<times> bytes" where
  "read_columns h cc sz el [] bs t = (Ret True bs, t)"
| "read_columns h cc sz el (j # js) bs t =
     then_read (io_read (cc * el) bs) t (\<lambda>x rest.
       case tensor_set (u32_add h (u32_mul j sz) * el) x t of
         Inl e \<Rightarrow> (Thrown e, t)
       | Inr t' \<Rightarrow> read_columns h cc sz el js rest t')"

definition read_columns_of :: "nat \<Rightarrow> nat \<Rightarrow> u32 \<Rightarrow> bytes \<Rightarrow> kv_layer \<Rightarrow> status \<times> bytes" where
  "read_columns_of h cc sz bs l =
     (if cc \<noteq> 0 then read_columns h cc sz (v_size_el l) [0..<n_embd_v_gqa l] bs (v_data l)
      else (Ret True bs, v_data l))"

fun read_v_trans_layers :: "nat \<Rightarrow> nat \<Rightarrow> u32 \<Rightarrow> bytes \<Rightarrow> kv_layer list \<Rightarrow> status \<times> kv_layer list" where
  "read_v_trans_layers h cc sz bs [] = (Ret True bs, [])"
| "read_v_trans_layers h cc sz bs (l # ls) =
     then_read (read_i32 bs) (l # ls) (\<lambda>ty bs1.
       if v_type l \<noteq> ty then (Ret False bs1, l # ls)
       else then_read (read_u32 bs1) (l # ls) (\<lambda>el bs2.
         if v_size_el l \<noteq> el then (Ret False bs2, l # ls)
         else then_read (read_u32 bs2) (l # ls) (\<lambda>n_embd bs3.
           if n_embd_v_gqa l \<noteq> n_embd then (Ret False bs3, l # ls)
           else case read_columns_of h cc sz bs3 l of
             (Ret True bs4, t) \<Rightarrow> (let r = read_v_trans_layers h cc sz bs4 ls in (fst r, l\<lparr>v_data := t\<rparr> # snd r))
           | (st, t) \<Rightarrow> (st, l\<lparr>v_data := t\<rparr> # ls))))"

definition state_read_data :: "nat \<Rightarrow> bytes \<Rightarrow> kv_store \<Rightarrow> status \<times> kv_store" where
  "state_read_data cell_count bs st =
     then_read (read_u32 bs) st (\<lambda>v_tr bs1.
     then_read (read_u32 bs1) st (\<lambda>n_layer bs2.
       if n_layer \<noteq> length (layers st) then (Ret False bs2, st)
       else if cell_count > kv_size (st_kv st) then (Ret False bs2, st)
       else if v_trans st \<noteq> (v_tr \<noteq> 0) then (Ret False bs2, st)
       else let h = head (st_kv st) in
         case read_k_layers h cell_count bs2 (layers st) of
           (Ret True bs3, ls) \<Rightarrow>
             (let (r, ls') = (if \<not> v_trans st then read_v_layers h cell_count bs3 ls
                              else read_v_trans_layers h cell_count (kv_size (st_kv st)) bs3 ls)
              in (r, st\<lparr>layers := ls'\<rparr>))
         | (r, ls) \<Rightarrow> (r, st\<lparr>layers := ls\<rparr>)))"

text \<open>
  \<open>state_read\<close>: the rest of the input, or the exception it ends with. An exception of the reader
  passes through; only a result \<open>false\<close> empties the cache first.
\<close>

definition state_read :: "int \<Rightarrow> bytes \<Rightarrow> kv_store \<Rightarrow> bytes res \<times> kv_store" where
  "state_read q bs st =
     (case read_u32 bs of
        Inl e \<Rightarrow> (Inl e, st)
      | Inr (cell_count, bs1) \<Rightarrow>
          let (r1, st1) = state_read_meta cell_count q bs1 st;
              (r, st2) = (case r1 of Ret True bs2 \<Rightarrow> state_read_data cell_count bs2 st1 | _ \<Rightarrow> (r1, st1))
          in case r of
               Ret True rest \<Rightarrow> (Inr rest, st2)
             | Ret False rest \<Rightarrow>
                 (Inl (Throw ''failed to restore kv cache''),
                  if q = -1 then store_clear st2 else st2\<lparr>st_kv := snd (seq_rm q (-1) (-1) (st_kv st2))\<rparr>)
             | Thrown e \<Rightarrow> (Inl e, st2))"

section \<open>Entry points of the context\<close>

text \<open>\<open>state_seq_get_size\<close>, \<open>state_seq_get_data\<close>, \<open>state_seq_set_data\<close>: 0 when an exception was caught.\<close>

definition state_seq_get_size :: "int \<Rightarrow> kv_store \<Rightarrow> nat res" where
  "state_seq_get_size q st = bind_res (state_write q st) (\<lambda>chunks. Inr (io_dummy chunks))"

definition state_seq_get_data :: "int \<Rightarrow> nat \<Rightarrow> kv_store \<Rightarrow> (nat \<times> bytes) res" where
  "state_seq_get_data q buf_size st =
     bind_res (state_write q st) (\<lambda>chunks.
       case io_buffer buf_size chunks of Inl e \<Rightarrow> Inr (0, []) | Inr bs \<Rightarrow> Inr (length bs, bs))"

definition state_seq_set_data :: "int \<Rightarrow> bytes \<Rightarrow> kv_store \<Rightarrow> nat res \<times> kv_store" where
  "state_seq_set_data q src st =
     (case state_read q src st of
        (Inr rest, st') \<Rightarrow> (Inr (length src - length rest), st')
      | (Inl (Throw m), st') \<Rightarrow> (Inr 0, st')
      | (Inl e, st') \<Rightarrow> (Inl e, st'))"

section \<open>The saved cells\<close>

fun sel_from :: "int \<Rightarrow> nat \<Rightarrow> kv_cell list \<Rightarrow> nat list" where
  "sel_from q i [] = []"
| "sel_from q i (c # cs) = (if saved q c then [i] else []) @ sel_from q (Suc i) cs"

definition saved_idx :: "int \<Rightarrow> kv_cache \<Rightarrow> nat list" where
  "saved_idx q s = filter (\<lambda>i. saved q (cells s ! i)) [0..<length (cells s)]"

lemma sel_from_filter: "sel_from q i cs = filter (\<lambda>k. saved q (cs ! (k - i))) [i..<i + length cs]"
proof (induction cs arbitrary: i)
  case (Cons c cs)
  have "filter (\<lambda>k. saved q ((c # cs) ! (k - i))) [Suc i..<Suc i + length cs]
      = filter (\<lambda>k. saved q (cs ! (k - Suc i))) [Suc i..<Suc i + length cs]"
    by (rule filter_cong) (auto simp: nth_Cons' Suc_diff_Suc)
  then show ?case using Cons.IH [of "Suc i"] by (simp add: upt_conv_Cons del: upt_Suc)
qed simp

lemma saved_idx_sel: "saved_idx q s = sel_from q 0 (cells s)"
  by (simp add: saved_idx_def sel_from_filter)

lemma cell_ranges_correct:
  assumes "sz = i + length cs" "b0 = sz \<or> b0 < i" "cnt + length cs < 2 ^ 32"
  shows "concat (map (\<lambda>(a, b). [a..<b]) (snd (cell_ranges sz q i cs b0 cnt)))
        = (if b0 = sz then [] else [b0..<i]) @ sel_from q i cs
    \<and> fst (cell_ranges sz q i cs b0 cnt) = cnt + length (sel_from q i cs)
    \<and> (\<forall>(a, b) \<in> set (snd (cell_ranges sz q i cs b0 cnt)). a \<le> b \<and> b \<le> sz)"
  using assms
proof (induction cs arbitrary: i b0 cnt)
  case (Cons c cs)
  show ?case
  proof (cases "saved q c")
    case True
    let ?b = "if b0 = sz then i else b0"
    have "concat (map (\<lambda>(a, b). [a..<b]) (snd (cell_ranges sz q (Suc i) cs ?b (u32_add cnt 1))))
        = (if ?b = sz then [] else [?b..<Suc i]) @ sel_from q (Suc i) cs
      \<and> fst (cell_ranges sz q (Suc i) cs ?b (u32_add cnt 1)) = u32_add cnt 1 + length (sel_from q (Suc i) cs)
      \<and> (\<forall>(a, b) \<in> set (snd (cell_ranges sz q (Suc i) cs ?b (u32_add cnt 1))). a \<le> b \<and> b \<le> sz)"
      by (rule Cons.IH) (use Cons.prems in \<open>auto split: if_splits\<close>)
    then show ?thesis using True Cons.prems by (auto simp: upt_Suc_append)
  next
    case False
    have "concat (map (\<lambda>(a, b). [a..<b]) (snd (cell_ranges sz q (Suc i) cs sz cnt))) = sel_from q (Suc i) cs
      \<and> fst (cell_ranges sz q (Suc i) cs sz cnt) = cnt + length (sel_from q (Suc i) cs)
      \<and> (\<forall>(a, b) \<in> set (snd (cell_ranges sz q (Suc i) cs sz cnt)). a \<le> b \<and> b \<le> sz)"
      using Cons.IH [of "Suc i" sz cnt] Cons.prems by simp
    then show ?thesis using False Cons.prems by (auto simp: Let_def)
  qed
qed (auto simp: less_imp_le)

lemma sum_ranges:
  assumes "\<forall>(a, b) \<in> set rs. a \<le> b \<and> b < 2 ^ 32" "n + length (concat (map (\<lambda>(a, b). [a..<b]) rs)) < 2 ^ 32"
  shows "fold (\<lambda>(a, b) n. u32_add n (u32_sub b a)) rs n = n + length (concat (map (\<lambda>(a, b). [a..<b]) rs))"
  using assms by (induction rs arbitrary: n) auto

lemma concat_ranges:
  "concat (map (\<lambda>(a, b). concat (map g [a..<b])) rs) = concat (map g (concat (map (\<lambda>(a, b). [a..<b]) rs)))"
  by (induction rs) auto

section \<open>Tensors\<close>

lemma tensor_get_rows:
  assumes "a \<le> b"
  shows "tensor_get ((a + m) * row) ((b - a) * row) t
    = concat (map (\<lambda>i. tensor_get ((i + m) * row) row t) [a..<b])"
  using assms
proof (induction b rule: dec_induct)
  case (step n)
  have "(Suc n - a) * row = (n - a) * row + row" using step(1) by (simp add: Suc_diff_le)
  moreover have "(n - a) * row + (a + m) * row = (n + m) * row"
    using step(1) by (metis add.assoc add_mult_distrib le_add_diff_inverse2)
  ultimately show ?case using step by (simp add: tensor_get_def take_add)
qed (simp add: tensor_get_def)

lemma length_tensor_get: "off + n \<le> length t \<Longrightarrow> length (tensor_get off n t) = n"
  by (simp add: tensor_get_def)

lemma write_at_split:
  assumes "off + length xs \<le> length t"
  shows "write_at off xs t = take off t @ xs @ drop (off + length xs) t"
proof (rule nth_equalityI)
  fix i assume "i < length (write_at off xs t)"
  then show "write_at off xs t ! i = (take off t @ xs @ drop (off + length xs) t) ! i"
    using assms by (auto simp: nth_write_at nth_append)
qed (use assms in simp)

lemma tensor_get_inside:
  assumes "off + length xs \<le> length t" "m + n \<le> length xs"
  shows "tensor_get (off + m) n (write_at off xs t) = take n (drop m xs)"
  using assms by (simp add: tensor_get_def write_at_split)

lemma tensor_get_outside:
  assumes "off + length xs \<le> length t" "o' + n \<le> off \<or> off + length xs \<le> o'"
  shows "tensor_get o' n (write_at off xs t) = tensor_get o' n t"
proof (rule nth_equalityI)
  show "length (tensor_get o' n (write_at off xs t)) = length (tensor_get o' n t)"
    by (simp add: tensor_get_def)
  fix i assume "i < length (tensor_get o' n (write_at off xs t))"
  then show "tensor_get o' n (write_at off xs t) ! i = tensor_get o' n t ! i"
    using assms by (auto simp: tensor_get_def nth_write_at)
qed

lemma block_nth:
  assumes "\<forall>r \<in> set rows. length r = row" "k < length rows"
  shows "take row (drop (k * row) (concat rows)) = rows ! k"
  using assms
proof (induction rows arbitrary: k)
  case (Cons r rows)
  then show ?case by (cases k) (auto simp: add.commute)
qed simp

lemma length_concat_rows: "\<forall>r \<in> set rows. length r = row \<Longrightarrow> length (concat rows) = length rows * row"
  by (induction rows) auto

lemma read_rows_ok:
  assumes len: "length rows = cc" "\<forall>r \<in> set rows. length r = row" and fit: "(h + cc) * row \<le> length t"
  obtains t' where "read_rows h cc row (concat rows @ rest) t = Inr (t', rest)" "length t' = length t"
    "\<And>k. k < cc \<Longrightarrow> tensor_get ((h + k) * row) row t' = rows ! k"
    "\<And>i. i < h \<or> h + cc \<le> i \<Longrightarrow> tensor_get (i * row) row t' = tensor_get (i * row) row t"
proof (cases "cc = 0")
  case True
  then show thesis using that [of t] len by (simp add: read_rows_def)
next
  case False
  have lc: "length (concat rows) = cc * row" using length_concat_rows [OF len(2)] len(1) by simp
  have fit': "h * row + length (concat rows) \<le> length t" using fit lc by (simp add: algebra_simps)
  show thesis
  proof (rule that [of "write_at (h * row) (concat rows) t"])
    show "read_rows h cc row (concat rows @ rest) t = Inr (write_at (h * row) (concat rows) t, rest)"
      using False lc fit' by (simp add: read_rows_def tensor_set_def)
    fix k assume k: "k < cc"
    have "k * row + row \<le> cc * row" using k by (metis Suc_leI mult_Suc mult_le_mono1 add.commute)
    then show "tensor_get ((h + k) * row) row (write_at (h * row) (concat rows) t) = rows ! k"
      using tensor_get_inside [OF fit', of "k * row" row] block_nth [OF len(2), of k] lc k len(1)
      by (simp add: algebra_simps)
  next
    fix i assume "i < h \<or> h + cc \<le> i"
    then have "i * row + row \<le> h * row \<or> h * row + length (concat rows) \<le> i * row"
    proof
      assume "i < h"
      then have "Suc i * row \<le> h * row" by (intro mult_le_mono1) simp
      then show ?thesis by simp
    next
      assume "h + cc \<le> i"
      then have "(h + cc) * row \<le> i * row" by (rule mult_le_mono1)
      then show ?thesis by (simp add: lc algebra_simps)
    qed
    then show "tensor_get (i * row) row (write_at (h * row) (concat rows) t) = tensor_get (i * row) row t"
      by (rule tensor_get_outside [OF fit'])
  qed simp
qed

text \<open>Transposed values: the columns of the restored cells, one row of the matrix after the other.\<close>

lemma column_disjoint:
  assumes "k < cc" "h + cc \<le> sz" "j \<noteq> (j' :: nat)"
  shows "(h + k + j * sz) * el + el \<le> (h + j' * sz) * el \<or> (h + cc + j' * sz) * el \<le> (h + k + j * sz) * el"
proof (cases "j < j'")
  case True
  then have "Suc j * sz \<le> j' * sz" by (intro mult_le_mono1) simp
  then have "Suc (h + k + j * sz) \<le> h + j' * sz" using assms by simp
  then have "Suc (h + k + j * sz) * el \<le> (h + j' * sz) * el" by (rule mult_le_mono1)
  then show ?thesis by simp
next
  case False
  then have "Suc j' * sz \<le> j * sz" using assms(3) by (intro mult_le_mono1) simp
  then have "h + cc + j' * sz \<le> h + k + j * sz" using assms by simp
  then show ?thesis by (intro disjI2 mult_le_mono1)
qed

lemma read_columns_ok:
  assumes "distinct js" "h + cc \<le> sz" "\<forall>j \<in> set js. (h + cc + j * sz) * el \<le> length t \<and> h + j * sz < 2 ^ 32"
    and "\<forall>j \<in> set js. length (X j) = cc * el"
  shows "\<exists>t'. read_columns h cc sz el js (concat (map X js) @ rest) t = (Ret True rest, t') \<and> length t' = length t
    \<and> (\<forall>j \<in> set js. \<forall>k < cc. tensor_get ((h + k + j * sz) * el) el t' = take el (drop (k * el) (X j)))
    \<and> (\<forall>o'. (\<forall>j \<in> set js. o' + el \<le> (h + j * sz) * el \<or> (h + cc + j * sz) * el \<le> o') \<longrightarrow>
          tensor_get o' el t' = tensor_get o' el t)"
  using assms
proof (induction js arbitrary: t)
  case (Cons j js)
  let ?off = "(h + j * sz) * el"
  define t1 where "t1 = write_at ?off (X j) t"
  have fit: "?off + length (X j) \<le> length t" using Cons.prems(3,4) by (simp add: algebra_simps)
  have u: "u32_add h (u32_mul j sz) = h + j * sz" using Cons.prems(3) by auto
  have l1: "length t1 = length t" by (simp add: t1_def)
  obtain t' where IH: "read_columns h cc sz el js (concat (map X js) @ rest) t1 = (Ret True rest, t')" "length t' = length t1"
    "\<And>j k. j \<in> set js \<Longrightarrow> k < cc \<Longrightarrow> tensor_get ((h + k + j * sz) * el) el t' = take el (drop (k * el) (X j))"
    "\<And>o'. (\<And>j. j \<in> set js \<Longrightarrow> o' + el \<le> (h + j * sz) * el \<or> (h + cc + j * sz) * el \<le> o') \<Longrightarrow>
          tensor_get o' el t' = tensor_get o' el t1"
    using Cons.IH [of t1] Cons.prems unfolding l1 by (simp only: distinct.simps list.set ball_simps) blast
  have run: "read_columns h cc sz el (j # js) (concat (map X (j # js)) @ rest) t = (Ret True rest, t')"
    using Cons.prems(4) fit u IH(1) by (simp add: then_read_def tensor_set_def flip: t1_def)
  have here: "tensor_get ((h + k + j * sz) * el) el t' = take el (drop (k * el) (X j))" if k: "k < cc" for k
  proof -
    have "tensor_get ((h + k + j * sz) * el) el t' = tensor_get ((h + k + j * sz) * el) el t1"
    proof (rule IH(4))
      fix j' assume "j' \<in> set js"
      then have "j \<noteq> j'" using Cons.prems(1) by auto
      then show "(h + k + j * sz) * el + el \<le> (h + j' * sz) * el \<or> (h + cc + j' * sz) * el \<le> (h + k + j * sz) * el"
        by (rule column_disjoint [OF k Cons.prems(2)])
    qed
    also have "(h + k + j * sz) * el = ?off + k * el" by (simp add: algebra_simps)
    moreover have "k * el + el \<le> length (X j)"
      using k Cons.prems(4) mult_le_mono1 [of "Suc k" cc el] by simp
    ultimately show ?thesis using tensor_get_inside [OF fit] by (simp add: t1_def)
  qed
  have "tensor_get o' el t' = tensor_get o' el t"
    if o': "\<forall>i \<in> set (j # js). o' + el \<le> (h + i * sz) * el \<or> (h + cc + i * sz) * el \<le> o'" for o'
  proof -
    have "tensor_get o' el t' = tensor_get o' el t1" using o' by (intro IH(4)) simp
    moreover have "o' + el \<le> ?off \<or> ?off + length (X j) \<le> o'" using o' Cons.prems(4) by (auto simp: algebra_simps)
    ultimately show ?thesis using tensor_get_outside [OF fit] by (simp add: t1_def)
  qed
  then show ?case using run here IH(2,3) l1 by (intro exI [of _ t']) auto
qed simp

lemma concat_concat_map: "concat (concat xss) = concat (map concat xss)"
  by (induction xss) auto

section \<open>Layers\<close>

text \<open>The rows of one cell in a layer; when the values are transposed, its elements.\<close>

definition k_row :: "kv_layer \<Rightarrow> nat \<Rightarrow> bytes" where
  "k_row l i = tensor_get (i * k_size_row l) (k_size_row l) (k_data l)"

definition v_row :: "kv_layer \<Rightarrow> nat \<Rightarrow> bytes" where
  "v_row l i = tensor_get (i * v_size_row l) (v_size_row l) (v_data l)"

definition v_elem :: "nat \<Rightarrow> kv_layer \<Rightarrow> nat \<Rightarrow> nat \<Rightarrow> bytes" where
  "v_elem sz l j i = tensor_get ((i + j * sz) * v_size_el l) (v_size_el l) (v_data l)"

text \<open>A layer of a cache of \<open>sz\<close> cells: the sizes fit their fields, the tensors have a row for every cell.\<close>

definition layer_ok :: "bool \<Rightarrow> nat \<Rightarrow> kv_layer \<Rightarrow> bool" where
  "layer_ok tr sz l \<longleftrightarrow> -(2 ^ 31) \<le> k_type l \<and> k_type l < 2 ^ 31 \<and> -(2 ^ 31) \<le> v_type l \<and> v_type l < 2 ^ 31
     \<and> k_size_row l < 2 ^ 64 \<and> v_size_row l < 2 ^ 64 \<and> 0 < v_size_el l \<and> v_size_el l < 2 ^ 32 \<and> n_embd_v_gqa l < 2 ^ 32
     \<and> length (k_data l) = sz * k_size_row l
     \<and> (if tr then length (v_data l) = n_embd_v_gqa l * sz * v_size_el l \<and> n_embd_v_gqa l * sz * v_size_el l < 2 ^ 32
        else length (v_data l) = sz * v_size_row l)"

text \<open>Layers of the same model.\<close>

definition compat :: "kv_layer \<Rightarrow> kv_layer \<Rightarrow> bool" where
  "compat l m \<longleftrightarrow> k_type l = k_type m \<and> k_size_row l = k_size_row m \<and> v_type l = v_type m
     \<and> v_size_row l = v_size_row m \<and> v_size_el l = v_size_el m \<and> n_embd_v_gqa l = n_embd_v_gqa m"

text \<open>Layers whose keys, and whose values, have the fields that the reader compares.\<close>

definition k_match :: "kv_layer \<Rightarrow> kv_layer \<Rightarrow> bool" where
  "k_match l m \<longleftrightarrow> k_type l = k_type m \<and> k_size_row l = k_size_row m"

definition v_match :: "bool \<Rightarrow> kv_layer \<Rightarrow> kv_layer \<Rightarrow> bool" where
  "v_match tr l m \<longleftrightarrow> v_type l = v_type m
     \<and> (if tr then v_size_el l = v_size_el m \<and> n_embd_v_gqa l = n_embd_v_gqa m else v_size_row l = v_size_row m)"

lemma compat_match: "compat l m \<Longrightarrow> k_match l m \<and> v_match tr l m"
  by (simp add: compat_def k_match_def v_match_def)

text \<open>The ranges as the writers see them, with the indices they stand for.\<close>

definition ranges_for :: "(nat \<times> nat) list \<Rightarrow> nat \<Rightarrow> nat list \<Rightarrow> bool" where
  "ranges_for rs sz idx \<longleftrightarrow> (\<forall>(a, b) \<in> set rs. a \<le> b \<and> b \<le> sz) \<and> concat (map (\<lambda>(a, b). [a..<b]) rs) = idx"

lemma ranges_for_less: "ranges_for rs sz idx \<Longrightarrow> i \<in> set idx \<Longrightarrow> i < sz"
  by (force simp: ranges_for_def)

lemma concat_tensor_ranges:
  assumes "ranges_for rs sz idx"
  shows "concat (map (\<lambda>(a, b). tensor_get ((a + m) * row) ((b - a) * row) t) rs)
    = concat (map (\<lambda>i. tensor_get ((i + m) * row) row t) idx)"
proof -
  have "map (\<lambda>(a, b). tensor_get ((a + m) * row) ((b - a) * row) t) rs
      = map (\<lambda>(a, b). concat (map (\<lambda>i. tensor_get ((i + m) * row) row t) [a..<b])) rs"
    using assms by (intro map_cong) (auto simp: ranges_for_def tensor_get_rows)
  moreover have "concat (map (\<lambda>(a, b). [a..<b]) rs) = idx" using assms by (simp add: ranges_for_def)
  ultimately show ?thesis by (simp only: concat_ranges)
qed

lemma concat_write_k:
  "ranges_for rs sz idx \<Longrightarrow>
   concat (write_k rs l) = put_i32 (k_type l) @ put_u64 (k_size_row l) @ concat (map (k_row l) idx)"
  using concat_tensor_ranges [of rs sz idx 0 "k_size_row l" "k_data l"] by (simp add: write_k_def k_row_def [abs_def])

lemma concat_write_v:
  "ranges_for rs sz idx \<Longrightarrow>
   concat (write_v rs l) = put_i32 (v_type l) @ put_u64 (v_size_row l) @ concat (map (v_row l) idx)"
  using concat_tensor_ranges [of rs sz idx 0 "v_size_row l" "v_data l"] by (simp add: write_v_def v_row_def [abs_def])

lemma v_src_offset_small:
  assumes "layer_ok True sz l" "a < sz" "j < n_embd_v_gqa l"
  shows "v_src_offset a j sz (v_size_el l) = (a + j * sz) * v_size_el l"
    and "(a + j * sz) * v_size_el l + v_size_el l \<le> length (v_data l)"
proof -
  have "Suc j * sz \<le> n_embd_v_gqa l * sz" using assms(3) by (intro mult_le_mono1) simp
  then have "Suc (a + j * sz) \<le> n_embd_v_gqa l * sz" using assms(2) by simp
  then have le: "Suc (a + j * sz) * v_size_el l \<le> n_embd_v_gqa l * sz * v_size_el l" by (rule mult_le_mono1)
  then show "(a + j * sz) * v_size_el l + v_size_el l \<le> length (v_data l)" using assms(1) by (simp add: layer_ok_def)
  have el: "0 < v_size_el l" "n_embd_v_gqa l * sz * v_size_el l < 2 ^ 32" using assms(1) by (simp_all add: layer_ok_def)
  have small: "(a + j * sz) * v_size_el l < 2 ^ 32" using le el by simp
  have "a + j * sz \<le> (a + j * sz) * v_size_el l" using mult_le_mono2 [of 1 "v_size_el l" "a + j * sz"] el(1) by simp
  then have "a + j * sz < 2 ^ 32" using small by (rule le_less_trans)
  then show "v_src_offset a j sz (v_size_el l) = (a + j * sz) * v_size_el l"
    using small by (simp add: v_src_offset_def)
qed

lemma concat_write_v_trans:
  assumes "ranges_for rs sz idx" "layer_ok True sz l"
  shows "concat (write_v_trans sz rs l) = put_i32 (v_type l) @ put_u32 (v_size_el l) @ put_u32 (n_embd_v_gqa l)
    @ concat (map (\<lambda>j. concat (map (v_elem sz l j) idx)) [0..<n_embd_v_gqa l])"
proof -
  have "concat (map (\<lambda>(a, b). tensor_get (v_src_offset a j sz (v_size_el l)) ((b - a) * v_size_el l) (v_data l)) rs)
      = concat (map (v_elem sz l j) idx)" if j: "j < n_embd_v_gqa l" for j
  proof -
    have "tensor_get (v_src_offset a j sz (v_size_el l)) ((b - a) * v_size_el l) (v_data l)
        = tensor_get ((a + j * sz) * v_size_el l) ((b - a) * v_size_el l) (v_data l)" if "(a, b) \<in> set rs" for a b
    proof (cases "a = b")
      case False
      then have "a < sz" using assms(1) that by (auto simp: ranges_for_def)
      then show ?thesis using v_src_offset_small(1) [OF assms(2) _ j] by simp
    qed (simp add: tensor_get_def)
    then have "map (\<lambda>(a, b). tensor_get (v_src_offset a j sz (v_size_el l)) ((b - a) * v_size_el l) (v_data l)) rs
        = map (\<lambda>(a, b). tensor_get ((a + j * sz) * v_size_el l) ((b - a) * v_size_el l) (v_data l)) rs"
      by (intro map_cong) auto
    then show ?thesis by (simp only: concat_tensor_ranges [OF assms(1)] v_elem_def [abs_def])
  qed
  then have eq: "map (\<lambda>j. concat (map (\<lambda>(a, b). tensor_get (v_src_offset a j sz (v_size_el l)) ((b - a) * v_size_el l) (v_data l)) rs))
      [0..<n_embd_v_gqa l] = map (\<lambda>j. concat (map (v_elem sz l j) idx)) [0..<n_embd_v_gqa l]"
    by (intro map_cong) auto
  show ?thesis by (simp add: write_v_trans_def concat_concat_map o_def eq)
qed

text \<open>What reading does to one layer: rows \<open>h\<close>, \<open>h + 1\<close>, ... are those of the saved cells, all others stay.\<close>

definition k_restored :: "nat list \<Rightarrow> nat \<Rightarrow> kv_layer \<Rightarrow> kv_layer \<Rightarrow> kv_layer \<Rightarrow> bool" where
  "k_restored idx h l m m' \<longleftrightarrow> m' = m\<lparr>k_data := k_data m'\<rparr> \<and> length (k_data m') = length (k_data m)
     \<and> (\<forall>k < length idx. k_row m' (h + k) = k_row l (idx ! k))
     \<and> (\<forall>i. i < h \<or> h + length idx \<le> i \<longrightarrow> k_row m' i = k_row m i)"

definition v_restored :: "bool \<Rightarrow> nat \<Rightarrow> nat \<Rightarrow> nat list \<Rightarrow> nat \<Rightarrow> kv_layer \<Rightarrow> kv_layer \<Rightarrow> kv_layer \<Rightarrow> bool" where
  "v_restored tr sz1 sz2 idx h l m m' \<longleftrightarrow> m' = m\<lparr>v_data := v_data m'\<rparr> \<and> length (v_data m') = length (v_data m)
     \<and> (if tr then (\<forall>j < n_embd_v_gqa m. (\<forall>k < length idx. v_elem sz2 m' j (h + k) = v_elem sz1 l j (idx ! k))
            \<and> (\<forall>i < sz2. i < h \<or> h + length idx \<le> i \<longrightarrow> v_elem sz2 m' j i = v_elem sz2 m j i))
        else (\<forall>k < length idx. v_row m' (h + k) = v_row l (idx ! k))
            \<and> (\<forall>i. i < h \<or> h + length idx \<le> i \<longrightarrow> v_row m' i = v_row m i))"

lemma row_fits: "i < sz \<Longrightarrow> i * row + row \<le> sz * (row :: nat)"
  using mult_le_mono1 [of "Suc i" sz row] by simp

lemma k_rows_length:
  assumes "layer_ok tr sz l" "ranges_for rs sz idx"
  shows "\<forall>r \<in> set (map (k_row l) idx). length r = k_size_row l"
    and "\<not> tr \<Longrightarrow> \<forall>r \<in> set (map (v_row l) idx). length r = v_size_row l"
  using assms ranges_for_less [OF assms(2)] row_fits
  by (auto simp: k_row_def v_row_def layer_ok_def intro!: length_tensor_get)

lemma read_k_layers_ok:
  assumes "length ls = length ms" "\<forall>l \<in> set ls. layer_ok tr sz1 l" "\<forall>m \<in> set ms. layer_ok tr sz2 m"
    and "list_all2 compat ls ms" "ranges_for rs sz1 idx" "h + length idx \<le> sz2"
  shows "\<exists>ms'. read_k_layers h (length idx) (concat (concat (map (write_k rs) ls)) @ rest) ms = (Ret True rest, ms')
    \<and> list_all2 (\<lambda>(l, m) m'. k_restored idx h l m m') (zip ls ms) ms'"
  using assms(1-4)
proof (induction ls ms rule: list_induct2)
  case (Cons l ls m ms)
  have ok: "layer_ok tr sz1 l" "layer_ok tr sz2 m" and c: "compat l m" using Cons.prems by auto
  obtain ms' where IH: "read_k_layers h (length idx) (concat (concat (map (write_k rs) ls)) @ rest) ms = (Ret True rest, ms')"
    "list_all2 (\<lambda>(l, m) m'. k_restored idx h l m m') (zip ls ms) ms'"
    using Cons.IH Cons.prems by auto
  have fit: "(h + length idx) * k_size_row m \<le> length (k_data m)"
    using ok(2) assms(6) by (simp add: layer_ok_def mult_le_mono1)
  obtain t' where t': "read_rows h (length idx) (k_size_row m)
      (concat (map (k_row l) idx) @ concat (concat (map (write_k rs) ls)) @ rest) (k_data m)
      = Inr (t', concat (concat (map (write_k rs) ls)) @ rest)" "length t' = length (k_data m)"
    "\<And>k. k < length idx \<Longrightarrow> tensor_get ((h + k) * k_size_row m) (k_size_row m) t' = map (k_row l) idx ! k"
    "\<And>i. i < h \<or> h + length idx \<le> i \<Longrightarrow> tensor_get (i * k_size_row m) (k_size_row m) t' = tensor_get (i * k_size_row m) (k_size_row m) (k_data m)"
    by (rule read_rows_ok [of "map (k_row l) idx" "length idx" "k_size_row m" h "k_data m"])
      (use k_rows_length(1) [OF ok(1) assms(5)] c fit in \<open>auto simp: compat_def\<close>)
  have "k_restored idx h l m (m\<lparr>k_data := t'\<rparr>)"
    using t'(2-4) c by (auto simp: k_restored_def k_row_def compat_def)
  moreover have "read_k_layers h (length idx) (concat (concat (map (write_k rs) (l # ls))) @ rest) (m # ms)
      = (Ret True rest, m\<lparr>k_data := t'\<rparr> # ms')"
    using IH(1) t'(1) c ok concat_write_k [OF assms(5), of l]
    by (simp add: then_read_def compat_def layer_ok_def)
  ultimately show ?case using IH(2) by (intro exI [of _ "m\<lparr>k_data := t'\<rparr> # ms'"]) simp
qed simp

lemma read_v_layers_ok:
  assumes "length ls = length ms" "\<forall>l \<in> set ls. layer_ok False sz1 l" "\<forall>m \<in> set ms. layer_ok False sz2 m"
    and "list_all2 compat ls ms" "ranges_for rs sz1 idx" "h + length idx \<le> sz2"
  shows "\<exists>ms'. read_v_layers h (length idx) (concat (concat (map (write_v rs) ls)) @ rest) ms = (Ret True rest, ms')
    \<and> list_all2 (\<lambda>(l, m) m'. v_restored False sz1 sz2 idx h l m m') (zip ls ms) ms'"
  using assms(1-4)
proof (induction ls ms rule: list_induct2)
  case (Cons l ls m ms)
  have ok: "layer_ok False sz1 l" "layer_ok False sz2 m" and c: "compat l m" using Cons.prems by auto
  obtain ms' where IH: "read_v_layers h (length idx) (concat (concat (map (write_v rs) ls)) @ rest) ms = (Ret True rest, ms')"
    "list_all2 (\<lambda>(l, m) m'. v_restored False sz1 sz2 idx h l m m') (zip ls ms) ms'"
    using Cons.IH Cons.prems by auto
  have fit: "(h + length idx) * v_size_row m \<le> length (v_data m)"
    using ok(2) assms(6) by (simp add: layer_ok_def mult_le_mono1)
  obtain t' where t': "read_rows h (length idx) (v_size_row m)
      (concat (map (v_row l) idx) @ concat (concat (map (write_v rs) ls)) @ rest) (v_data m)
      = Inr (t', concat (concat (map (write_v rs) ls)) @ rest)" "length t' = length (v_data m)"
    "\<And>k. k < length idx \<Longrightarrow> tensor_get ((h + k) * v_size_row m) (v_size_row m) t' = map (v_row l) idx ! k"
    "\<And>i. i < h \<or> h + length idx \<le> i \<Longrightarrow> tensor_get (i * v_size_row m) (v_size_row m) t' = tensor_get (i * v_size_row m) (v_size_row m) (v_data m)"
    by (rule read_rows_ok [of "map (v_row l) idx" "length idx" "v_size_row m" h "v_data m"])
      (use k_rows_length(2) [OF ok(1) assms(5)] c fit in \<open>auto simp: compat_def\<close>)
  have "v_restored False sz1 sz2 idx h l m (m\<lparr>v_data := t'\<rparr>)"
    using t'(2-4) c by (auto simp: v_restored_def v_row_def compat_def)
  moreover have "read_v_layers h (length idx) (concat (concat (map (write_v rs) (l # ls))) @ rest) (m # ms)
      = (Ret True rest, m\<lparr>v_data := t'\<rparr> # ms')"
    using IH(1) t'(1) c ok concat_write_v [OF assms(5), of l]
    by (simp add: then_read_def compat_def layer_ok_def)
  ultimately show ?case using IH(2) by (intro exI [of _ "m\<lparr>v_data := t'\<rparr> # ms'"]) simp
qed simp

text \<open>One layer of transposed values.\<close>

lemma read_v_trans_layer:
  assumes ok: "layer_ok True sz1 l" "layer_ok True sz2 m" and c: "v_match True l m"
    and rs: "ranges_for rs sz1 idx" and fit: "h + length idx \<le> sz2"
  obtains t' where
    "read_columns_of h (length idx) sz2 (concat (map (\<lambda>j. concat (map (v_elem sz1 l j) idx)) [0..<n_embd_v_gqa l]) @ rest) m
      = (Ret True rest, t')"
    "v_restored True sz1 sz2 idx h l m (m\<lparr>v_data := t'\<rparr>)"
proof (cases "idx = []")
  case True
  then show thesis using that [of "v_data m"] by (simp add: v_restored_def read_columns_of_def concat_eq_Nil_conv)
next
  case False
  let ?X = "\<lambda>j. concat (map (v_elem sz1 l j) idx)" and ?el = "v_size_el m" and ?n = "n_embd_v_gqa m"
  have elem: "length (v_elem sz1 l j i) = ?el" if "j < ?n" "i \<in> set idx" for i j
    using v_src_offset_small(2) [OF ok(1) ranges_for_less [OF rs that(2)], of j] that(1) c
    by (simp add: v_elem_def length_tensor_get v_match_def)
  have X: "length (?X j) = length idx * ?el" if "j < ?n" for j
    using length_concat_rows [of "map (v_elem sz1 l j) idx" ?el] elem [OF that] by simp
  have fits: "(h + length idx + j * sz2) * ?el \<le> length (v_data m) \<and> h + j * sz2 < 2 ^ 32" if j: "j < ?n" for j
  proof -
    have h: "h + (length idx - 1) < sz2" using fit False by (cases idx) auto
    have "h + (length idx - 1) + j * sz2 + 1 = h + length idx + j * sz2" using False by (cases idx) auto
    then have "(h + length idx + j * sz2) * ?el = (h + (length idx - 1) + j * sz2) * ?el + ?el"
      by (metis add_mult_distrib mult_1)
    then have le: "(h + length idx + j * sz2) * ?el \<le> length (v_data m)"
      using v_src_offset_small(2) [OF ok(2) h j] by simp
    have "h + j * sz2 \<le> (h + length idx + j * sz2) * ?el"
      using ok(2) mult_le_mono [of "h + j * sz2" "h + length idx + j * sz2" 1 ?el] by (simp add: layer_ok_def)
    also note le
    also have "length (v_data m) < 2 ^ 32" using ok(2) by (simp add: layer_ok_def)
    finally show ?thesis using le by simp
  qed
  obtain t' where t': "read_columns h (length idx) sz2 ?el [0..<?n] (concat (map ?X [0..<?n]) @ rest) (v_data m) = (Ret True rest, t')"
    "length t' = length (v_data m)"
    "\<And>j k. j < ?n \<Longrightarrow> k < length idx \<Longrightarrow> tensor_get ((h + k + j * sz2) * ?el) ?el t' = take ?el (drop (k * ?el) (?X j))"
    "\<And>o'. (\<And>j. j < ?n \<Longrightarrow> o' + ?el \<le> (h + j * sz2) * ?el \<or> (h + length idx + j * sz2) * ?el \<le> o') \<Longrightarrow>
        tensor_get o' ?el t' = tensor_get o' ?el (v_data m)"
    using read_columns_ok [of "[0..<?n]" h "length idx" sz2 ?el "v_data m" ?X rest] fits X fit by (auto simp: atLeast0LessThan)
  show thesis
  proof (rule that [of t'])
    show "v_restored True sz1 sz2 idx h l m (m\<lparr>v_data := t'\<rparr>)"
      unfolding v_restored_def if_True
    proof (intro conjI allI impI)
      fix j k assume jk: "j < ?n" "k < length idx"
      have "take ?el (drop (k * ?el) (?X j)) = map (v_elem sz1 l j) idx ! k"
        using elem [OF jk(1)] jk(2) by (intro block_nth) auto
      then show "v_elem sz2 (m\<lparr>v_data := t'\<rparr>) j (h + k) = v_elem sz1 l j (idx ! k)"
        using t'(3) [OF jk] jk by (simp add: v_elem_def)
    next
      fix j i assume j: "j < ?n" and i: "i < sz2" "i < h \<or> h + length idx \<le> i"
      have "(i + j * sz2) * ?el + ?el \<le> (h + j' * sz2) * ?el \<or> (h + length idx + j' * sz2) * ?el \<le> (i + j * sz2) * ?el"
        if "j' < ?n" for j'
      proof (cases "j = j'")
        case True
        have "Suc (i + j * sz2) * ?el \<le> (h + j * sz2) * ?el \<or> (h + length idx + j * sz2) * ?el \<le> (i + j * sz2) * ?el"
          using i(2) by (intro disj_forward [OF i(2)] mult_le_mono1) auto
        then show ?thesis using True by (simp add: add.commute)
      next
        case ne: False
        show ?thesis
        proof (cases "j < j'")
          case True
          then have "Suc j * sz2 \<le> j' * sz2" by (intro mult_le_mono1) simp
          then have "Suc (i + j * sz2) * ?el \<le> (h + j' * sz2) * ?el" using i(1) by (intro mult_le_mono1) simp
          then show ?thesis by simp
        next
          case False
          then have "Suc j' * sz2 \<le> j * sz2" using ne by (intro mult_le_mono1) simp
          then have "(h + length idx + j' * sz2) * ?el \<le> (i + j * sz2) * ?el" using fit by (intro mult_le_mono1) simp
          then show ?thesis by simp
        qed
      qed
      then show "v_elem sz2 (m\<lparr>v_data := t'\<rparr>) j i = v_elem sz2 m j i"
        using t'(4) [of "(i + j * sz2) * ?el"] by (simp add: v_elem_def)
    qed (use t'(2) in simp_all)
  qed (use t'(1) c False in \<open>simp add: v_match_def read_columns_of_def\<close>)
qed

lemma read_v_trans_layers_ok:
  assumes "length ls = length ms" "\<forall>l \<in> set ls. layer_ok True sz1 l" "\<forall>m \<in> set ms. layer_ok True sz2 m"
    and "list_all2 compat ls ms" "ranges_for rs sz1 idx" "h + length idx \<le> sz2"
  shows "\<exists>ms'. read_v_trans_layers h (length idx) sz2 (concat (concat (map (write_v_trans sz1 rs) ls)) @ rest) ms = (Ret True rest, ms')
    \<and> list_all2 (\<lambda>(l, m) m'. v_restored True sz1 sz2 idx h l m m') (zip ls ms) ms'"
  using assms(1-4)
proof (induction ls ms rule: list_induct2)
  case (Cons l ls m ms)
  have ok: "layer_ok True sz1 l" "layer_ok True sz2 m" and c: "compat l m" using Cons.prems by auto
  let ?more = "concat (concat (map (write_v_trans sz1 rs) ls)) @ rest"
  obtain ms' where IH: "read_v_trans_layers h (length idx) sz2 ?more ms = (Ret True rest, ms')"
    "list_all2 (\<lambda>(l, m) m'. v_restored True sz1 sz2 idx h l m m') (zip ls ms) ms'"
    using Cons.IH Cons.prems by auto
  obtain t' where t': "read_columns_of h (length idx) sz2
        (concat (map (\<lambda>j. concat (map (v_elem sz1 l j) idx)) [0..<n_embd_v_gqa l]) @ ?more) m = (Ret True ?more, t')"
    "v_restored True sz1 sz2 idx h l m (m\<lparr>v_data := t'\<rparr>)"
    by (rule read_v_trans_layer [OF ok _ assms(5,6)]) (use compat_match [OF c] in simp)
  have "read_v_trans_layers h (length idx) sz2 (concat (concat (map (write_v_trans sz1 rs) (l # ls))) @ rest) (m # ms)
      = (Ret True rest, m\<lparr>v_data := t'\<rparr> # ms')"
    using IH(1) t'(1) c ok concat_write_v_trans [OF assms(5) ok(1)]
    by (simp add: then_read_def compat_def layer_ok_def)
  then show ?case using IH(2) t'(2) by (intro exI [of _ "m\<lparr>v_data := t'\<rparr> # ms'"]) simp
qed simp

section \<open>Layers of another shape\<close>

text \<open>
  Reading what was written for the layers \<open>ls\<close> into the layers \<open>ms\<close>: the result tells whether the fields that
  are compared agree.
\<close>

lemma read_k_layers_match:
  assumes "length ls = length ms" "\<forall>l \<in> set ls. layer_ok tr sz1 l" "\<forall>m \<in> set ms. layer_ok tr' sz2 m"
    and "ranges_for rs sz1 idx" "h + length idx \<le> sz2"
  shows "\<exists>rest' ms'. read_k_layers h (length idx) (concat (concat (map (write_k rs) ls)) @ rest) ms
      = (Ret (list_all2 k_match ls ms) rest', ms')
    \<and> (list_all2 k_match ls ms \<longrightarrow> rest' = rest
         \<and> list_all2 (\<lambda>m m'. m' = m\<lparr>k_data := k_data m'\<rparr> \<and> length (k_data m') = length (k_data m)) ms ms')"
  using assms(1-3)
proof (induction ls ms rule: list_induct2)
  case (Cons l ls m ms)
  let ?more = "concat (concat (map (write_k rs) ls)) @ rest"
  have ok: "layer_ok tr sz1 l" "layer_ok tr' sz2 m" using Cons.prems by auto
  have bytes: "concat (concat (map (write_k rs) (l # ls))) @ rest
      = put_i32 (k_type l) @ put_u64 (k_size_row l) @ concat (map (k_row l) idx) @ ?more"
    using concat_write_k [OF assms(4), of l] by simp
  show ?case
  proof (cases "k_match l m")
    case True
    obtain rest' ms' where IH: "read_k_layers h (length idx) ?more ms = (Ret (list_all2 k_match ls ms) rest', ms')"
      "list_all2 k_match ls ms \<longrightarrow> rest' = rest
         \<and> list_all2 (\<lambda>m m'. m' = m\<lparr>k_data := k_data m'\<rparr> \<and> length (k_data m') = length (k_data m)) ms ms'"
      using Cons.IH Cons.prems by auto
    have fit: "(h + length idx) * k_size_row m \<le> length (k_data m)"
      using ok(2) assms(5) by (simp add: layer_ok_def mult_le_mono1)
    obtain t' where t': "read_rows h (length idx) (k_size_row m) (concat (map (k_row l) idx) @ ?more) (k_data m) = Inr (t', ?more)"
      "length t' = length (k_data m)"
      by (rule read_rows_ok [of "map (k_row l) idx" "length idx" "k_size_row m" h "k_data m"])
        (use k_rows_length(1) [OF ok(1) assms(4)] True fit in \<open>auto simp: k_match_def\<close>)
    have "read_k_layers h (length idx) (concat (concat (map (write_k rs) (l # ls))) @ rest) (m # ms)
        = (Ret (list_all2 k_match ls ms) rest', m\<lparr>k_data := t'\<rparr> # ms')"
      unfolding bytes using IH(1) t'(1) True ok by (simp add: then_read_def k_match_def layer_ok_def)
    then show ?thesis using IH(2) t'(2) True by (intro exI [of _ rest'] exI [of _ "m\<lparr>k_data := t'\<rparr> # ms'"]) simp
  next
    case False
    then have "\<exists>rest' ms'. read_k_layers h (length idx) (concat (concat (map (write_k rs) (l # ls))) @ rest) (m # ms) = (Ret False rest', ms')"
      unfolding bytes using ok by (cases "k_type l = k_type m") (auto simp: then_read_def k_match_def layer_ok_def)
    then show ?thesis using False by simp
  qed
qed simp

lemma read_v_layers_match:
  assumes "length ls = length ms" "\<forall>l \<in> set ls. layer_ok False sz1 l" "\<forall>m \<in> set ms. layer_ok False sz2 m"
    and "ranges_for rs sz1 idx" "h + length idx \<le> sz2"
  shows "\<exists>rest' ms'. read_v_layers h (length idx) (concat (concat (map (write_v rs) ls)) @ rest) ms
      = (Ret (list_all2 (v_match False) ls ms) rest', ms')"
  using assms(1-3)
proof (induction ls ms rule: list_induct2)
  case (Cons l ls m ms)
  let ?more = "concat (concat (map (write_v rs) ls)) @ rest"
  have ok: "layer_ok False sz1 l" "layer_ok False sz2 m" using Cons.prems by auto
  have bytes: "concat (concat (map (write_v rs) (l # ls))) @ rest
      = put_i32 (v_type l) @ put_u64 (v_size_row l) @ concat (map (v_row l) idx) @ ?more"
    using concat_write_v [OF assms(4), of l] by simp
  show ?case
  proof (cases "v_match False l m")
    case True
    obtain rest' ms' where IH: "read_v_layers h (length idx) ?more ms = (Ret (list_all2 (v_match False) ls ms) rest', ms')"
      using Cons.IH Cons.prems by auto
    have fit: "(h + length idx) * v_size_row m \<le> length (v_data m)"
      using ok(2) assms(5) by (simp add: layer_ok_def mult_le_mono1)
    obtain t' where t': "read_rows h (length idx) (v_size_row m) (concat (map (v_row l) idx) @ ?more) (v_data m) = Inr (t', ?more)"
      by (rule read_rows_ok [of "map (v_row l) idx" "length idx" "v_size_row m" h "v_data m"])
        (use k_rows_length(2) [OF ok(1) assms(4)] True fit in \<open>auto simp: v_match_def\<close>)
    have f: "v_type l = v_type m" "v_size_row l = v_size_row m" using True by (simp_all add: v_match_def)
    show ?thesis unfolding bytes using IH t' True f ok by (simp add: then_read_def layer_ok_def)
  next
    case False
    then have "\<exists>rest' ms'. read_v_layers h (length idx) (concat (concat (map (write_v rs) (l # ls))) @ rest) (m # ms) = (Ret False rest', ms')"
      unfolding bytes using ok by (cases "v_type l = v_type m") (auto simp: then_read_def v_match_def layer_ok_def)
    then show ?thesis using False by simp
  qed
qed simp

lemma read_v_trans_layers_match:
  assumes "length ls = length ms" "\<forall>l \<in> set ls. layer_ok True sz1 l" "\<forall>m \<in> set ms. layer_ok True sz2 m"
    and "ranges_for rs sz1 idx" "h + length idx \<le> sz2"
  shows "\<exists>rest' ms'. read_v_trans_layers h (length idx) sz2 (concat (concat (map (write_v_trans sz1 rs) ls)) @ rest) ms
      = (Ret (list_all2 (v_match True) ls ms) rest', ms')"
  using assms(1-3)
proof (induction ls ms rule: list_induct2)
  case (Cons l ls m ms)
  let ?more = "concat (concat (map (write_v_trans sz1 rs) ls)) @ rest"
  have ok: "layer_ok True sz1 l" "layer_ok True sz2 m" using Cons.prems by auto
  have bytes: "concat (concat (map (write_v_trans sz1 rs) (l # ls))) @ rest
      = put_i32 (v_type l) @ put_u32 (v_size_el l) @ put_u32 (n_embd_v_gqa l)
        @ concat (map (\<lambda>j. concat (map (v_elem sz1 l j) idx)) [0..<n_embd_v_gqa l]) @ ?more"
    using concat_write_v_trans [OF assms(4) ok(1)] by simp
  show ?case
  proof (cases "v_match True l m")
    case True
    obtain rest' ms' where IH: "read_v_trans_layers h (length idx) sz2 ?more ms = (Ret (list_all2 (v_match True) ls ms) rest', ms')"
      using Cons.IH Cons.prems by auto
    obtain t' where t': "read_columns_of h (length idx) sz2
        (concat (map (\<lambda>j. concat (map (v_elem sz1 l j) idx)) [0..<n_embd_v_gqa l]) @ ?more) m = (Ret True ?more, t')"
      by (rule read_v_trans_layer [OF ok True assms(4,5)])
    have f: "v_type l = v_type m" "v_size_el l = v_size_el m" "n_embd_v_gqa l = n_embd_v_gqa m" using True by (simp_all add: v_match_def)
    show ?thesis unfolding bytes using IH t' True f ok by (simp add: then_read_def layer_ok_def)
  next
    case False
    then have "\<exists>rest' ms'. read_v_trans_layers h (length idx) sz2 (concat (concat (map (write_v_trans sz1 rs) (l # ls))) @ rest) (m # ms) = (Ret False rest', ms')"
      unfolding bytes using ok
      by (cases "v_type l = v_type m"; cases "v_size_el l = v_size_el m") (auto simp: then_read_def v_match_def layer_ok_def)
    then show ?thesis using False by simp
  qed
qed simp

section \<open>Contents\<close>

text \<open>What is stored for one cell in all layers, and the saved cells of a store in order.\<close>

definition cell_rows :: "kv_store \<Rightarrow> nat \<Rightarrow> (bytes \<times> bytes list) list" where
  "cell_rows st i = map (\<lambda>l. (k_row l i,
     if v_trans st then map (\<lambda>j. v_elem (kv_size (st_kv st)) l j i) [0..<n_embd_v_gqa l] else [v_row l i])) (layers st)"

definition saved_content :: "int \<Rightarrow> kv_store \<Rightarrow> (int \<times> int set \<times> (bytes \<times> bytes list) list) list" where
  "saved_content q st =
     map (\<lambda>i. (pos (cells (st_kv st) ! i), seq_id (cells (st_kv st) ! i), cell_rows st i)) (saved_idx q (st_kv st))"

text \<open>A store whose numbers fit their fields, and two stores of the same model.\<close>

definition store_ok :: "kv_store \<Rightarrow> bool" where
  "store_ok st \<longleftrightarrow> kv_inv (st_kv st) \<and> length (layers st) < 2 ^ 32
     \<and> (\<forall>l \<in> set (layers st). layer_ok (v_trans st) (kv_size (st_kv st)) l)
     \<and> (\<forall>c \<in> set (cells (st_kv st)). pos c < 2 ^ 31 \<and> (\<forall>q \<in> seq_id c. 0 \<le> q \<and> q < 2 ^ 31))"

definition same_model :: "kv_store \<Rightarrow> kv_store \<Rightarrow> bool" where
  "same_model s d \<longleftrightarrow> v_trans s = v_trans d \<and> list_all2 compat (layers s) (layers d)"

text \<open>Two stores that agree in everything the reader compares.\<close>

definition same_shape :: "kv_store \<Rightarrow> kv_store \<Rightarrow> bool" where
  "same_shape s d \<longleftrightarrow> v_trans s = v_trans d \<and> list_all2 k_match (layers s) (layers d)
     \<and> list_all2 (v_match (v_trans s)) (layers s) (layers d)"

lemma same_model_shape: "same_model s d \<Longrightarrow> same_shape s d"
  using compat_match by (auto simp: same_model_def same_shape_def list_all2_conv_all_nth)

lemma state_read_data_shape:
  assumes s: "\<forall>l \<in> set (layers s). layer_ok (v_trans s) (kv_size (st_kv s)) l" "length (layers s) < 2 ^ 32"
    and d: "\<forall>m \<in> set (layers d). layer_ok (v_trans d) (kv_size (st_kv d)) m"
    and rs: "ranges_for rs (kv_size (st_kv s)) idx" and fit: "head (st_kv d) + length idx \<le> kv_size (st_kv d)"
  shows "\<exists>rest' d'. state_read_data (length idx) (concat (state_write_data rs s) @ rest) d = (Ret (same_shape s d) rest', d')"
proof -
  let ?tr = "v_trans s" and ?sz1 = "kv_size (st_kv s)" and ?sz2 = "kv_size (st_kv d)" and ?h = "head (st_kv d)"
  let ?vb = "concat (if \<not> ?tr then concat (map (write_v rs) (layers s)) else concat (map (write_v_trans ?sz1 rs) (layers s)))"
  have bytes: "concat (state_write_data rs s) @ rest
      = put_u32 (if ?tr then 1 else 0) @ put_u32 (length (layers s)) @ concat (concat (map (write_k rs) (layers s))) @ ?vb @ rest"
    by (simp add: state_write_data_def)
  show ?thesis
  proof (cases "length (layers s) = length (layers d) \<and> v_trans d = ?tr")
    case False
    then have "\<not> same_shape s d" by (auto simp: same_shape_def dest: list_all2_lengthD)
    then show ?thesis unfolding bytes using False s(2) by (auto simp: state_read_data_def then_read_def)
  next
    case True
    obtain rest1 ms1 where k: "read_k_layers ?h (length idx) (concat (concat (map (write_k rs) (layers s))) @ ?vb @ rest) (layers d)
        = (Ret (list_all2 k_match (layers s) (layers d)) rest1, ms1)"
      "list_all2 k_match (layers s) (layers d) \<longrightarrow> rest1 = ?vb @ rest
         \<and> list_all2 (\<lambda>m m'. m' = m\<lparr>k_data := k_data m'\<rparr> \<and> length (k_data m') = length (k_data m)) (layers d) ms1"
      using read_k_layers_match [OF _ s(1) d rs fit, of "?vb @ rest"] True by blast
    show ?thesis
    proof (cases "list_all2 k_match (layers s) (layers d)")
      case False
      then have "\<not> same_shape s d" by (simp add: same_shape_def)
      then show ?thesis unfolding bytes using False True k(1) s(2) fit by (auto simp: state_read_data_def then_read_def Let_def)
    next
      case match: True
      then have l1: "length ms1 = length (layers d)" "\<And>n. n < length ms1 \<Longrightarrow> ms1 ! n = (layers d ! n)\<lparr>k_data := k_data (ms1 ! n)\<rparr>
          \<and> length (k_data (ms1 ! n)) = length (k_data (layers d ! n))"
        using k(2) by (auto simp: list_all2_conv_all_nth)
      have frame: "layer_ok tr sz (m\<lparr>k_data := t\<rparr>) = layer_ok tr sz m" "v_match tr l (m\<lparr>k_data := t\<rparr>) = v_match tr l m"
        if "length t = length (k_data m)" for tr sz m t l
        using that by (simp_all add: layer_ok_def v_match_def)
      have ok1: "\<forall>m \<in> set ms1. layer_ok ?tr ?sz2 m"
      proof
        fix m assume "m \<in> set ms1"
        then obtain n where n: "n < length ms1" "m = ms1 ! n" by (auto simp: in_set_conv_nth)
        then have "layer_ok ?tr ?sz2 (layers d ! n)" using d l1(1) True by simp
        then show "layer_ok ?tr ?sz2 m" using l1(2) [OF n(1)] frame(1) n(2) by metis
      qed
      have "v_match tr (layers s ! n) (ms1 ! n) = v_match tr (layers s ! n) (layers d ! n)" if "n < length ms1" for n tr
        using l1(2) [OF that] frame(2) by metis
      then have vm: "list_all2 (v_match tr) (layers s) ms1 = list_all2 (v_match tr) (layers s) (layers d)" for tr
        using l1(1) True by (auto simp: list_all2_conv_all_nth)
      obtain rest' ms2 where v: "(if \<not> ?tr then read_v_layers ?h (length idx) (?vb @ rest) ms1
          else read_v_trans_layers ?h (length idx) ?sz2 (?vb @ rest) ms1) = (Ret (list_all2 (v_match ?tr) (layers s) ms1) rest', ms2)"
      proof (cases ?tr)
        case tr: True
        then show thesis
          using that read_v_trans_layers_match [of "layers s" ms1 ?sz1 ?sz2 rs idx ?h rest] s(1) ok1 rs fit True l1(1) by auto
      next
        case tr: False
        then show thesis
          using that read_v_layers_match [of "layers s" ms1 ?sz1 ?sz2 rs idx ?h rest] s(1) ok1 rs fit True l1(1) by auto
      qed
      have "same_shape s d = list_all2 (v_match ?tr) (layers s) ms1" using True match vm by (simp add: same_shape_def)
      then show ?thesis
        unfolding bytes using True match k s(2) fit v
        by (intro exI [of _ rest'] exI [of _ "d\<lparr>layers := ms2\<rparr>"]) (simp add: state_read_data_def then_read_def Let_def)
    qed
  qed
qed

lemma k_restored_ok:
  assumes "k_restored idx h l m m1" "layer_ok tr sz m" "compat l m"
  shows "layer_ok tr sz m1 \<and> compat l m1"
proof -
  define kd where "kd = k_data m1"
  have m1: "m1 = m\<lparr>k_data := kd\<rparr>" using assms(1) by (simp add: k_restored_def kd_def)
  show ?thesis using assms unfolding k_restored_def m1 by (simp add: layer_ok_def compat_def split: if_splits)
qed

lemma restored_layer:
  assumes "k_restored idx h l m m1" "v_restored tr sz1 sz2 idx h l m1 m2" "layer_ok tr sz2 m" "compat l m"
  shows "layer_ok tr sz2 m2 \<and> compat m m2
    \<and> (\<forall>k < length idx. k_row m2 (h + k) = k_row l (idx ! k)
        \<and> (if tr then \<forall>j < n_embd_v_gqa l. v_elem sz2 m2 j (h + k) = v_elem sz1 l j (idx ! k)
           else v_row m2 (h + k) = v_row l (idx ! k)))
    \<and> (\<forall>i < sz2. i < h \<or> h + length idx \<le> i \<longrightarrow> k_row m2 i = k_row m i
        \<and> (if tr then \<forall>j < n_embd_v_gqa l. v_elem sz2 m2 j i = v_elem sz2 m j i else v_row m2 i = v_row m i))"
proof -
  define kd where "kd = k_data m1"
  define vd where "vd = v_data m2"
  have m1: "m1 = m\<lparr>k_data := kd\<rparr>" using assms(1) by (simp add: k_restored_def kd_def)
  have m2: "m2 = m1\<lparr>v_data := vd\<rparr>" using assms(2) by (simp add: v_restored_def vd_def)
  note eqs = assms(1,2) [unfolded k_restored_def v_restored_def m2, unfolded m1]
  show ?thesis
    using eqs assms(3,4)
    by (simp add: m1 m2 k_row_def v_row_def v_elem_def layer_ok_def compat_def split: if_splits)
qed

lemma state_read_data_ok:
  assumes ls: "\<forall>l \<in> set (layers s). layer_ok (v_trans s) (kv_size (st_kv s)) l" "length (layers s) < 2 ^ 32"
    and ld: "\<forall>m \<in> set (layers d). layer_ok (v_trans d) (kv_size (st_kv d)) m"
    and sm: "same_model s d" and rs: "ranges_for rs (kv_size (st_kv s)) idx"
    and fit: "head (st_kv d) + length idx \<le> kv_size (st_kv d)"
  obtains d' where "state_read_data (length idx) (concat (state_write_data rs s) @ rest) d = (Ret True rest, d')"
    "st_kv d' = st_kv d" "v_trans d' = v_trans d" "same_model d d'"
    "\<forall>m \<in> set (layers d'). layer_ok (v_trans d') (kv_size (st_kv d')) m"
    "\<And>k. k < length idx \<Longrightarrow> cell_rows d' (head (st_kv d) + k) = cell_rows s (idx ! k)"
    "\<And>i. i < kv_size (st_kv d) \<Longrightarrow> i < head (st_kv d) \<or> head (st_kv d) + length idx \<le> i \<Longrightarrow>
        cell_rows d' i = cell_rows d i"
proof -
  let ?tr = "v_trans s" and ?sz1 = "kv_size (st_kv s)" and ?sz2 = "kv_size (st_kv d)" and ?h = "head (st_kv d)"
  have tr: "v_trans d = ?tr" and c: "list_all2 compat (layers s) (layers d)" using sm by (simp_all add: same_model_def)
  have len: "length (layers s) = length (layers d)" using c by (rule list_all2_lengthD)
  let ?vb = "concat (if \<not> ?tr then concat (map (write_v rs) (layers s)) else concat (map (write_v_trans ?sz1 rs) (layers s)))"
  obtain ms1 where k: "read_k_layers ?h (length idx) (concat (concat (map (write_k rs) (layers s))) @ ?vb @ rest) (layers d)
      = (Ret True (?vb @ rest), ms1)" "list_all2 (\<lambda>(l, m) m'. k_restored idx ?h l m m') (zip (layers s) (layers d)) ms1"
    using read_k_layers_ok [OF len ls(1) ld [unfolded tr] c rs fit] by blast
  have l1: "length ms1 = length (layers d)" using list_all2_lengthD [OF k(2)] len by simp
  have K: "k_restored idx ?h (layers s ! n) (layers d ! n) (ms1 ! n)" if "n < length (layers d)" for n
    using list_all2_nthD2 [OF k(2), of n] that l1 len by simp
  have ok1: "\<forall>m \<in> set ms1. layer_ok ?tr ?sz2 m" and c1: "list_all2 compat (layers s) ms1"
  proof -
    have "layer_ok ?tr ?sz2 (ms1 ! n) \<and> compat (layers s ! n) (ms1 ! n)" if n: "n < length (layers d)" for n
      using k_restored_ok [OF K [OF n] _ list_all2_nthD2 [OF c n], where tr = ?tr and sz = ?sz2] ld n tr by simp
    then show "\<forall>m \<in> set ms1. layer_ok ?tr ?sz2 m" "list_all2 compat (layers s) ms1"
      using l1 len by (auto simp: in_set_conv_nth list_all2_conv_all_nth)
  qed
  obtain ms2 where v: "(if \<not> ?tr then read_v_layers ?h (length idx) (?vb @ rest) ms1
        else read_v_trans_layers ?h (length idx) ?sz2 (?vb @ rest) ms1) = (Ret True rest, ms2)"
    "list_all2 (\<lambda>(l, m) m'. v_restored ?tr ?sz1 ?sz2 idx ?h l m m') (zip (layers s) ms1) ms2"
  proof (cases ?tr)
    case True
    then show thesis
      using that read_v_trans_layers_ok [of "layers s" ms1 ?sz1 ?sz2 rs idx ?h rest] ls(1) ok1 c1 rs fit len l1 by auto
  next
    case False
    then show thesis
      using that read_v_layers_ok [of "layers s" ms1 ?sz1 ?sz2 rs idx ?h rest] ls(1) ok1 c1 rs fit len l1 by auto
  qed
  have l2: "length ms2 = length (layers d)" using list_all2_lengthD [OF v(2)] len l1 by simp
  have R: "layer_ok ?tr ?sz2 (ms2 ! n) \<and> compat (layers d ! n) (ms2 ! n)
    \<and> (\<forall>k < length idx. k_row (ms2 ! n) (?h + k) = k_row (layers s ! n) (idx ! k)
        \<and> (if ?tr then \<forall>j < n_embd_v_gqa (layers s ! n). v_elem ?sz2 (ms2 ! n) j (?h + k) = v_elem ?sz1 (layers s ! n) j (idx ! k)
           else v_row (ms2 ! n) (?h + k) = v_row (layers s ! n) (idx ! k)))
    \<and> (\<forall>i < ?sz2. i < ?h \<or> ?h + length idx \<le> i \<longrightarrow> k_row (ms2 ! n) i = k_row (layers d ! n) i
        \<and> (if ?tr then \<forall>j < n_embd_v_gqa (layers s ! n). v_elem ?sz2 (ms2 ! n) j i = v_elem ?sz2 (layers d ! n) j i
           else v_row (ms2 ! n) i = v_row (layers d ! n) i))" if n: "n < length (layers d)" for n
  proof (rule restored_layer [OF K [OF n]])
    show "v_restored ?tr ?sz1 ?sz2 idx ?h (layers s ! n) (ms1 ! n) (ms2 ! n)"
      using list_all2_nthD2 [OF v(2), of n] n l1 l2 len by simp
  qed (use ld n tr list_all2_nthD2 [OF c n] in auto)
  have emb: "n_embd_v_gqa (ms2 ! n) = n_embd_v_gqa (layers s ! n)" "n_embd_v_gqa (layers d ! n) = n_embd_v_gqa (layers s ! n)"
    if "n < length (layers d)" for n
    using R [OF that] list_all2_nthD2 [OF c that] by (simp_all add: compat_def)
  show thesis
  proof (rule that [of "d\<lparr>layers := ms2\<rparr>"])
    show "state_read_data (length idx) (concat (state_write_data rs s) @ rest) d = (Ret True rest, d\<lparr>layers := ms2\<rparr>)"
      using k(1) v(1) ls(2) len tr fit
      by (auto simp: state_read_data_def state_write_data_def then_read_def Let_def split: if_splits)
    show "same_model d (d\<lparr>layers := ms2\<rparr>)" using R l2 by (simp add: same_model_def list_all2_conv_all_nth)
    show "\<forall>m \<in> set (layers (d\<lparr>layers := ms2\<rparr>)). layer_ok (v_trans (d\<lparr>layers := ms2\<rparr>)) (kv_size (st_kv (d\<lparr>layers := ms2\<rparr>))) m"
      using R l2 tr by (auto simp: in_set_conv_nth)
    show "cell_rows (d\<lparr>layers := ms2\<rparr>) (?h + k) = cell_rows s (idx ! k)" if "k < length idx" for k
      using R that l2 len tr emb unfolding cell_rows_def by (intro nth_equalityI) auto
    show "cell_rows (d\<lparr>layers := ms2\<rparr>) i = cell_rows d i" if "i < ?sz2" "i < ?h \<or> ?h + length idx \<le> i" for i
      using R that l2 len tr emb unfolding cell_rows_def by (intro nth_equalityI) auto
  qed simp_all
qed

section \<open>Round trips\<close>

lemma saved_idx_nth: "i \<in> set (saved_idx q s) \<longleftrightarrow> i < length (cells s) \<and> saved q (cells s ! i)"
  by (auto simp: saved_idx_def)

lemma length_saved_idx: "length (saved_idx q s) \<le> length (cells s)"
  using length_filter_le [of "\<lambda>i. saved q (cells s ! i)" "[0..<length (cells s)]"] by (simp add: saved_idx_def)

lemma length_saved_idx_count: "length (saved_idx q s) = count_if (saved q) (cells s)"
proof -
  have "count_if (saved q) (map (\<lambda>i. cells s ! i) [0..<length (cells s)]) = length (saved_idx q s)"
    by (simp add: count_if_map count_if_def saved_idx_def o_def)
  then show ?thesis by (simp add: map_nth)
qed

lemma state_write_ok:
  assumes "kv_inv (st_kv s)"
  obtains rs where "state_write q s =
      Inr ([put_u32 (length (saved_idx q (st_kv s)))] @ state_write_meta rs q (st_kv s) @ state_write_data rs s)"
    "ranges_for rs (kv_size (st_kv s)) (saved_idx q (st_kv s))"
proof -
  let ?s = "st_kv s" and ?idx = "saved_idx q (st_kv s)"
  let ?r = "cell_ranges (kv_size ?s) q 0 (cells ?s) (kv_size ?s) 0"
  have sz: "kv_size ?s = length (cells ?s)" "length (cells ?s) < 2 ^ 30" using assms by (simp_all add: kv_inv_def)
  have r: "concat (map (\<lambda>(a, b). [a..<b]) (snd ?r)) = ?idx" "fst ?r = length ?idx"
    "\<forall>(a, b) \<in> set (snd ?r). a \<le> b \<and> b \<le> kv_size ?s"
    using cell_ranges_correct [of "kv_size ?s" 0 "cells ?s" "kv_size ?s" 0 q] sz by (simp_all add: saved_idx_sel)
  have "length ?idx < 2 ^ 30" using length_saved_idx [of q ?s] sz(2) by simp
  then have "fold (\<lambda>(a, b) n. u32_add n (u32_sub b a)) (snd ?r) 0 = fst ?r"
    using sum_ranges [of "snd ?r" 0] r sz by fastforce
  then have "state_write q s = Inr ([put_u32 (length ?idx)] @ state_write_meta (snd ?r) q ?s @ state_write_data (snd ?r) s)"
    using r(2) by (auto simp: state_write_def Let_def split: prod.splits)
  then show thesis using that [of "snd ?r"] r by (simp add: ranges_for_def)
qed

lemma concat_write_meta:
  assumes "ranges_for rs sz idx"
  shows "concat (state_write_meta rs q s) = concat (concat (map (write_meta_cell q) (map (\<lambda>i. cells s ! i) idx)))"
proof -
  have "concat (map (\<lambda>(a, b). [a..<b]) rs) = idx" using assms by (simp add: ranges_for_def)
  then show ?thesis
    using concat_ranges [of "\<lambda>i. write_meta_cell q (cells s ! i)" rs] by (simp add: state_write_meta_def o_def)
qed

lemma read_ids_ok:
  "\<forall>q \<in> set qs. 0 \<le> q \<and> q < 2 ^ 31 \<Longrightarrow>
   read_ids (length qs) (concat (map put_i32 qs) @ rest) c = (Ret True rest, c\<lparr>seq_id := seq_id c \<union> set qs\<rparr>)"
  by (induction qs arbitrary: c) (auto simp: then_read_def)

text \<open>A cell that can be written: position and sequence ids fit 32 bits.\<close>

definition cell_fits :: "kv_cell \<Rightarrow> bool" where
  "cell_fits c \<longleftrightarrow> finite (seq_id c) \<and> -(2 ^ 31) \<le> pos c \<and> pos c < 2 ^ 31 \<and> (\<forall>q \<in> seq_id c. 0 \<le> q \<and> q < 2 ^ 31)"

lemma cell_fits_card:
  assumes "cell_fits c"
  shows "card (seq_id c) < 2 ^ 32"
proof -
  have "seq_id c \<subseteq> {0..<2 ^ 31}" using assms by (auto simp: cell_fits_def)
  then have "card (seq_id c) \<le> card {0..<(2::int) ^ 31}" by (rule card_mono [rotated]) simp
  then show ?thesis by simp
qed

lemma read_cells_ok:
  assumes "\<forall>c \<in> set ds. cell_fits c" "i + length ds \<le> length cs"
    and "\<And>k. i \<le> k \<Longrightarrow> k < length cs \<Longrightarrow> seq_id (cs ! k) = {}"
  shows "\<exists>cs'. read_cells i (length ds) (concat (concat (map (write_meta_cell (-1)) ds)) @ rest) cs = (Ret True rest, cs')
    \<and> length cs' = length cs
    \<and> (\<forall>k < length cs. cs' ! k = (if i \<le> k \<and> k < i + length ds
          then (cs ! k)\<lparr>pos := pos (ds ! (k - i)), seq_id := seq_id (ds ! (k - i))\<rparr> else cs ! k))"
  using assms
proof (induction ds arbitrary: i cs)
  case (Cons d ds)
  let ?more = "concat (concat (map (write_meta_cell (-1)) ds)) @ rest"
  let ?c = "(cs ! i)\<lparr>pos := pos d, seq_id := seq_id d\<rparr>"
  have d: "cell_fits d" and i: "i < length cs" using Cons.prems by auto
  have fin: "finite (seq_id d)" using d by (simp add: cell_fits_def)
  have bytes: "concat (write_meta_cell (-1) d) = put_i32 (pos d) @ put_u32 (card (seq_id d))
      @ concat (map put_i32 (sorted_list_of_set (seq_id d)))"
    using fin by (auto simp: write_meta_cell_def Let_def card_eq_0_iff)
  have ids: "read_ids (card (seq_id d)) (concat (map put_i32 (sorted_list_of_set (seq_id d))) @ ?more) ((cs ! i)\<lparr>pos := pos d\<rparr>)
      = (Ret True ?more, ?c)"
    using read_ids_ok [of "sorted_list_of_set (seq_id d)" ?more "(cs ! i)\<lparr>pos := pos d\<rparr>"] d fin Cons.prems(3) [of i] i
    by (simp add: cell_fits_def)
  have "read_cells i (length (d # ds)) (concat (concat (map (write_meta_cell (-1)) (d # ds))) @ rest) cs
      = read_cells (Suc i) (length ds) ?more (cs[i := ?c])"
    using d cell_fits_card [OF d] ids by (simp add: bytes then_read_def cell_fits_def)
  moreover obtain cs' where cs': "read_cells (Suc i) (length ds) ?more (cs[i := ?c]) = (Ret True rest, cs')"
    "length cs' = length cs"
    "\<And>k. k < length cs \<Longrightarrow> cs' ! k = (if Suc i \<le> k \<and> k < Suc i + length ds
          then (cs[i := ?c] ! k)\<lparr>pos := pos (ds ! (k - Suc i)), seq_id := seq_id (ds ! (k - Suc i))\<rparr> else cs[i := ?c] ! k)"
    using Cons.IH [of "Suc i" "cs[i := ?c]"] Cons.prems by auto
  moreover have "cs' ! k = (if i \<le> k \<and> k < i + length (d # ds)
          then (cs ! k)\<lparr>pos := pos ((d # ds) ! (k - i)), seq_id := seq_id ((d # ds) ! (k - i))\<rparr> else cs ! k)"
    if "k < length cs" for k
    using cs'(3) [OF that] that i by (cases "k = i") (auto simp: nth_Cons' Suc_diff_Suc)
  ultimately show ?case by (intro exI [of _ cs']) auto
qed auto

lemma read_positions_ok:
  "\<forall>c \<in> set ds. cell_fits c \<Longrightarrow> q \<noteq> -1 \<Longrightarrow>
   read_positions (length ds) (concat (concat (map (write_meta_cell q) ds)) @ rest) = Inr (Some (map pos ds), rest)"
  by (induction ds) (auto simp: write_meta_cell_def cell_fits_def Let_def)

lemma store_ok_fits:
  assumes "store_ok s" "c \<in> set (cells (st_kv s))"
  shows "cell_fits c"
  using assms by (force simp: store_ok_def kv_inv_def cell_ok_def cell_fits_def)

lemma saved_all: "saved (-1) c \<longleftrightarrow> \<not> is_empty c" if "\<forall>q \<in> seq_id c. 0 \<le> q"
  using that by (auto simp: saved_def has_seq_id_def)

lemma saved_seq: "q \<noteq> -1 \<Longrightarrow> saved q c \<longleftrightarrow> q \<in> seq_id c"
  by (simp add: saved_def has_seq_id_def)

lemma saved_idx_prefix:
  assumes "h + n \<le> length (cells s)" "\<And>i. i < length (cells s) \<Longrightarrow> saved q (cells s ! i) \<longleftrightarrow> h \<le> i \<and> i < h + n"
  shows "saved_idx q s = [h..<h + n]"
proof -
  obtain m where m: "length (cells s) = h + n + m" using assms(1) le_Suc_ex by blast
  have "[0..<length (cells s)] = [0..<h] @ [h..<h + n] @ [h + n..<length (cells s)]"
    using upt_add_eq_append [of 0 h "n + m"] upt_add_eq_append [of h "h + n" m] m by (simp add: add.assoc)
  moreover have "filter (\<lambda>i. saved q (cells s ! i)) [0..<h] = []" "filter (\<lambda>i. saved q (cells s ! i)) [h + n..<length (cells s)] = []"
    using assms(2,1) by (auto simp: filter_empty_conv)
  moreover have "filter (\<lambda>i. saved q (cells s ! i)) [h..<h + n] = [h..<h + n]"
    using assms(2,1) by (auto simp: filter_id_conv)
  ultimately show ?thesis by (simp add: saved_idx_def)
qed

text \<open>The content of a store that holds, from cell \<open>h\<close> on, the saved cells of another one.\<close>

lemma saved_content_block:
  assumes "h + length idx \<le> length (cells (st_kv d))"
    and "\<And>i. i < length (cells (st_kv d)) \<Longrightarrow> saved q (cells (st_kv d) ! i) \<longleftrightarrow> h \<le> i \<and> i < h + length idx"
    and "\<And>k. k < length idx \<Longrightarrow> pos (cells (st_kv d) ! (h + k)) = pos (cells (st_kv s) ! (idx ! k))
        \<and> seq_id (cells (st_kv d) ! (h + k)) = g (seq_id (cells (st_kv s) ! (idx ! k)))
        \<and> cell_rows d (h + k) = cell_rows s (idx ! k)"
  shows "saved_content q d = map (\<lambda>i. (pos (cells (st_kv s) ! i), g (seq_id (cells (st_kv s) ! i)), cell_rows s i)) idx"
proof -
  have "saved_idx q (st_kv d) = [h..<h + length idx]" by (rule saved_idx_prefix) (use assms(1,2) in auto)
  then show ?thesis unfolding saved_content_def using assms(3) by (intro nth_equalityI) auto
qed

lemma cell_rows_store_clear_layers:
  assumes "\<forall>m \<in> set (layers d). layer_ok (v_trans d) (kv_size (st_kv d)) m"
  shows "\<forall>m \<in> set (layers (store_clear d)). layer_ok (v_trans (store_clear d)) (kv_size (st_kv (store_clear d))) m"
    and "same_model d (store_clear d)"
  using assms by (auto simp: store_clear_def clear_def layer_ok_def same_model_def compat_def list_all2_conv_all_nth)

lemma length_saved_used:
  assumes "store_ok s"
  shows "length (saved_idx (-1) (st_kv s)) = used (st_kv s)"
proof -
  have sel: "saved (-1) c \<longleftrightarrow> \<not> is_empty c" if "c \<in> set (cells (st_kv s))" for c
    using store_ok_fits [OF assms that] by (intro saved_all) (simp add: cell_fits_def)
  have "length (saved_idx (-1) (st_kv s)) = count_if (saved (-1)) (cells (st_kv s))" by (rule length_saved_idx_count)
  also have "\<dots> = count_if (\<lambda>c. \<not> is_empty c) (cells (st_kv s))" using sel by (rule count_if_cong)
  finally show ?thesis using assms by (simp add: store_ok_def kv_inv_def)
qed

text \<open>Writing a whole cache, and reading its cells into a cache that has room for them.\<close>

lemma state_meta_all:
  assumes s: "store_ok s" and d: "store_ok d" and room: "used (st_kv s) \<le> kv_size (st_kv d)"
  defines "idx \<equiv> saved_idx (-1) (st_kv s)"
  obtains rs kv where
    "state_write (-1) s = Inr ([put_u32 (length idx)] @ state_write_meta rs (-1) (st_kv s) @ state_write_data rs s)"
    "ranges_for rs (kv_size (st_kv s)) idx" "length idx = used (st_kv s)"
    "\<And>bs. state_read_meta (length idx) (-1) (concat (state_write_meta rs (-1) (st_kv s)) @ bs) d
       = (Ret True bs, (store_clear d)\<lparr>st_kv := kv\<rparr>)"
    "kv = (st_kv (store_clear d))\<lparr>cells := cells kv, head := 0, used := length idx\<rparr>" "length (cells kv) = length (cells (st_kv d))"
    "\<And>k. k < length (cells kv) \<Longrightarrow> cells kv ! k = (if k < length idx
        then (cells (st_kv (store_clear d)) ! k)\<lparr>pos := pos (cells (st_kv s) ! (idx ! k)), seq_id := seq_id (cells (st_kv s) ! (idx ! k))\<rparr>
        else cells (st_kv (store_clear d)) ! k)"
proof -
  let ?s = "st_kv s" and ?d1 = "store_clear d"
  let ?ds = "map (\<lambda>i. cells ?s ! i) idx"
  have inv: "kv_inv ?s" "kv_inv (st_kv d)" using s d by (simp_all add: store_ok_def)
  have fit: "c \<in> set (cells ?s) \<Longrightarrow> cell_fits c" for c using store_ok_fits [OF s] by blast
  have n: "length idx = used ?s" unfolding idx_def by (rule length_saved_used [OF s])
  obtain rs where w: "state_write (-1) s = Inr ([put_u32 (length idx)] @ state_write_meta rs (-1) ?s @ state_write_data rs s)"
    "ranges_for rs (kv_size ?s) idx"
    unfolding idx_def by (rule state_write_ok [OF inv(1)])
  have sz: "kv_size (st_kv d) = length (cells (st_kv d))" using inv by (simp add: kv_inv_def)
  have dsfit: "\<forall>c \<in> set ?ds. cell_fits c" using fit by (auto simp: idx_def saved_idx_nth)
  define cs where "cs = snd (read_cells 0 (length ?ds) (concat (concat (map (write_meta_cell (-1)) ?ds)) @ []) (cells (st_kv ?d1)))"
  have "\<exists>cs'. read_cells 0 (length ?ds) (concat (concat (map (write_meta_cell (-1)) ?ds)) @ bs) (cells (st_kv ?d1)) = (Ret True bs, cs')
      \<and> length cs' = length (cells (st_kv d))
      \<and> (\<forall>k < length cs'. cs' ! k = (if k < length ?ds
        then (cells (st_kv ?d1) ! k)\<lparr>pos := pos (?ds ! k), seq_id := seq_id (?ds ! k)\<rparr> else cells (st_kv ?d1) ! k))" for bs
    using read_cells_ok [OF dsfit, of 0 "cells (st_kv ?d1)" bs] room n sz
    by (auto simp: store_clear_def clear_def clear_cell_def)
  note rc = this
  have cs: "length cs = length (cells (st_kv d))" "\<And>k. k < length cs \<Longrightarrow> cs ! k = (if k < length ?ds
        then (cells (st_kv ?d1) ! k)\<lparr>pos := pos (?ds ! k), seq_id := seq_id (?ds ! k)\<rparr> else cells (st_kv ?d1) ! k)"
    using rc [of "[]"] by (auto simp: cs_def)
  have read: "read_cells 0 (length ?ds) (concat (concat (map (write_meta_cell (-1)) ?ds)) @ bs) (cells (st_kv ?d1)) = (Ret True bs, cs)" for bs
  proof -
    obtain cs' where cs': "read_cells 0 (length ?ds) (concat (concat (map (write_meta_cell (-1)) ?ds)) @ bs) (cells (st_kv ?d1)) = (Ret True bs, cs')"
      "length cs' = length (cells (st_kv d))" "\<forall>k < length cs'. cs' ! k = (if k < length ?ds
        then (cells (st_kv ?d1) ! k)\<lparr>pos := pos (?ds ! k), seq_id := seq_id (?ds ! k)\<rparr> else cells (st_kv ?d1) ! k)"
      using rc [of bs] by blast
    then have "cs' = cs" using cs by (intro nth_equalityI) simp_all
    then show ?thesis using cs'(1) by simp
  qed
  show thesis
  proof (rule that [OF w n])
    show "state_read_meta (length idx) (-1) (concat (state_write_meta rs (-1) ?s) @ bs) d
       = (Ret True bs, ?d1\<lparr>st_kv := (st_kv ?d1)\<lparr>cells := cs, head := 0, used := length idx\<rparr>\<rparr>)" for bs
      using read [of bs] room n by (simp add: state_read_meta_def read_meta_all_def concat_write_meta [OF w(2)] Let_def)
  qed (use cs in simp_all)
qed

lemma state_roundtrip_all:
  assumes s: "store_ok s" and d: "store_ok d" and sm: "same_model s d" and room: "used (st_kv s) \<le> kv_size (st_kv d)"
  obtains chunks d' where "state_write (-1) s = Inr chunks" "state_read (-1) (concat chunks @ rest) d = (Inr rest, d')"
    "saved_content (-1) d' = saved_content (-1) s" "kv_inv (st_kv d')"
proof -
  let ?s = "st_kv s" and ?idx = "saved_idx (-1) (st_kv s)" and ?d1 = "store_clear d"
  have inv: "kv_inv ?s" "kv_inv (st_kv d)" using s d by (simp_all add: store_ok_def)
  have sz: "kv_size (st_kv d) = length (cells (st_kv d))" "length (cells ?s) < 2 ^ 30" using inv by (simp_all add: kv_inv_def)
  obtain rs kv where w: "state_write (-1) s = Inr ([put_u32 (length ?idx)] @ state_write_meta rs (-1) ?s @ state_write_data rs s)"
    "ranges_for rs (kv_size ?s) ?idx" and n: "length ?idx = used ?s"
    and meta: "\<And>bs. state_read_meta (length ?idx) (-1) (concat (state_write_meta rs (-1) ?s) @ bs) d = (Ret True bs, ?d1\<lparr>st_kv := kv\<rparr>)"
    and kv: "kv = (st_kv ?d1)\<lparr>cells := cells kv, head := 0, used := length ?idx\<rparr>" "length (cells kv) = length (cells (st_kv d))"
    and cs: "\<And>k. k < length (cells kv) \<Longrightarrow> cells kv ! k = (if k < length ?idx
        then (cells (st_kv ?d1) ! k)\<lparr>pos := pos (cells ?s ! (?idx ! k)), seq_id := seq_id (cells ?s ! (?idx ! k))\<rparr>
        else cells (st_kv ?d1) ! k)"
    by (rule state_meta_all [OF s d room]) (rule that)
  let ?data = "concat (state_write_data rs s) @ rest"
  have small: "length ?idx < 2 ^ 32" using length_saved_idx [of "-1" ?s] sz(2) by simp
  have kvf: "kv_size kv = length (cells (st_kv d))" "head kv = 0" "used kv = length ?idx" "ranges kv = ranges (st_kv d)"
    using sz by (subst kv(1), simp add: store_clear_def clear_def)+
  obtain d' where d': "state_read_data (length ?idx) ?data (?d1\<lparr>st_kv := kv\<rparr>) = (Ret True rest, d')"
    "st_kv d' = kv" "\<And>k. k < length ?idx \<Longrightarrow> cell_rows d' k = cell_rows s (?idx ! k)"
  proof (rule state_read_data_ok [of s "?d1\<lparr>st_kv := kv\<rparr>" rs ?idx rest])
    show "same_model s (?d1\<lparr>st_kv := kv\<rparr>)"
      using sm by (simp add: same_model_def store_clear_def list_all2_conv_all_nth compat_def)
    show "\<forall>m \<in> set (layers (?d1\<lparr>st_kv := kv\<rparr>)). layer_ok (v_trans (?d1\<lparr>st_kv := kv\<rparr>)) (kv_size (st_kv (?d1\<lparr>st_kv := kv\<rparr>))) m"
      using d sz by (auto simp: store_ok_def kvf store_clear_def layer_ok_def)
  qed (use s w(2) room n sz kvf in \<open>auto simp: store_ok_def\<close>)
  have cell: "cell_ok (cells kv ! k)" "is_empty (cells kv ! k) \<longleftrightarrow> \<not> k < length ?idx" "saved (-1) (cells kv ! k) = (k < length ?idx)"
    if k: "k < length (cells kv)" for k
  proof -
    have "cell_ok (cells kv ! k) \<and> (is_empty (cells kv ! k) \<longleftrightarrow> \<not> k < length ?idx) \<and> (\<forall>q \<in> seq_id (cells kv ! k). 0 \<le> q)"
    proof (cases "k < length ?idx")
      case True
      let ?c = "cells ?s ! (?idx ! k)"
      have m: "?c \<in> set (cells ?s)" "saved (-1) ?c" using nth_mem [OF True] by (auto simp: saved_idx_nth)
      then have "cell_ok ?c" "cell_fits ?c" using inv store_ok_fits [OF s] by (auto simp: kv_inv_def)
      moreover from this have "\<not> is_empty ?c" using m(2) saved_all [of ?c] by (simp add: cell_fits_def)
      ultimately show ?thesis using cs [OF k] True by (simp add: cell_ok_def is_empty_def cell_fits_def)
    next
      case False
      then show ?thesis using cs [OF k] k kv(2) by (simp add: store_clear_def clear_def clear_cell_def cell_ok_def is_empty_def)
    qed
    then show "cell_ok (cells kv ! k)" "is_empty (cells kv ! k) \<longleftrightarrow> \<not> k < length ?idx" "saved (-1) (cells kv ! k) = (k < length ?idx)"
      using saved_all [of "cells kv ! k"] by blast+
  qed
  have le: "length ?idx \<le> length (cells kv)" using room n sz kv(2) by simp
  have "{k. k < length (cells kv) \<and> \<not> is_empty (cells kv ! k)} = {..<length ?idx}" using cell(2) le by auto
  then have cnt: "count_if (\<lambda>c. \<not> is_empty c) (cells kv) = length ?idx" by (simp add: count_if_card)
  have "kv_inv kv"
    using inv(2) cnt cell(1) kvf kv(2) by (auto simp: kv_inv_def in_set_conv_nth)
  moreover have "saved_content (-1) d' = map (\<lambda>i. (pos (cells ?s ! i), id (seq_id (cells ?s ! i)), cell_rows s i)) ?idx"
    by (rule saved_content_block [where h = 0]) (use d' cell(3) le cs in auto)
  moreover have "state_read (-1) (concat ([put_u32 (length ?idx)] @ state_write_meta rs (-1) ?s @ state_write_data rs s) @ rest) d
      = (Inr rest, d')"
    using small meta [of ?data] d'(1) by (simp add: state_read_def Let_def)
  ultimately show thesis using that [OF w(1), of d'] d'(2) by (simp add: saved_content_def)
qed

subsection \<open>One sequence\<close>

definition seq_data :: "int \<Rightarrow> kv_store \<Rightarrow> (int \<times> (bytes \<times> bytes list) list) list" where
  "seq_data q st = map (\<lambda>i. (pos (cells (st_kv st) ! i), cell_rows st i)) (saved_idx q (st_kv st))"

lemma restore_ubatch_simps:
  shows "n_tokens (restore_ubatch q ps) = length ps" "ub_pos (restore_ubatch q ps) = ps"
    "ps \<noteq> [] \<Longrightarrow> (\<forall>p \<in> set ps. 0 \<le> p) \<Longrightarrow> ubatch_ok (restore_ubatch q ps)"
    "k < length ps \<Longrightarrow> token_seqs (restore_ubatch q ps) k = {q}"
proof -
  have w: "write_at 0 ps (replicate (length ps) 0) = ps"
    using write_at_take [of 0 ps "replicate (length ps) 0"] by simp
  show "n_tokens (restore_ubatch q ps) = length ps" and p: "ub_pos (restore_ubatch q ps) = ps"
    by (simp_all add: restore_ubatch_def reserve_ubatch_def empty_sbatch_def resize_def w Let_def)
  show "ps \<noteq> [] \<Longrightarrow> (\<forall>p \<in> set ps. 0 \<le> p) \<Longrightarrow> ubatch_ok (restore_ubatch q ps)"
    unfolding ubatch_ok_def p
    by (simp add: restore_ubatch_def reserve_ubatch_def empty_sbatch_def resize_def Let_def Suc_le_eq)
  show "k < length ps \<Longrightarrow> token_seqs (restore_ubatch q ps) k = {q}"
    by (cases ps) (simp_all add: token_seqs_def restore_ubatch_def reserve_ubatch_def empty_sbatch_def resize_def Let_def)
qed

text \<open>Making room: what \<open>seq_rm\<close> and \<open>find_slot\<close> leave for the sequence being restored.\<close>

lemma read_meta_seq_ok:
  assumes inv: "kv_inv s" and b: "0 \<le> b" and ps: "ps \<noteq> []" "\<forall>p \<in> set ps. 0 \<le> p"
    and rm: "\<forall>(i, p) \<in> occ s b. p < int32_max"
    and rd: "read_positions (length ps) bs = Inr (Some ps, rest)"
    and room: "free_at (cells (snd (seq_rm b (-1) (-1) s))) (length ps) h0"
  obtains s3 where "read_meta_seq (length ps) b bs s = (Ret True rest, s3)" "kv_inv s3" "kv_size s3 = kv_size s"
    "head s3 + length ps \<le> kv_size s"
    "\<And>i. i < length (cells s3) \<Longrightarrow> b \<in> seq_id (cells s3 ! i) \<longleftrightarrow> head s3 \<le> i \<and> i < head s3 + length ps"
    "\<And>k. k < length ps \<Longrightarrow> pos (cells s3 ! (head s3 + k)) = ps ! k \<and> seq_id (cells s3 ! (head s3 + k)) = {b}"
    "\<And>i r. i < length (cells s3) \<Longrightarrow> r \<noteq> b \<Longrightarrow> r \<in> seq_id (cells s3 ! i) \<longleftrightarrow> r \<in> seq_id (cells s ! i)"
    "\<And>i r. i < length (cells s3) \<Longrightarrow> r \<noteq> b \<Longrightarrow> r \<in> seq_id (cells s ! i) \<Longrightarrow>
        pos (cells s3 ! i) = pos (cells s ! i) \<and> (i < head s3 \<or> head s3 + length ps \<le> i)"
proof -
  let ?ub = "restore_ubatch b ps"
  note ub = restore_ubatch_simps(1,2) [of b ps] restore_ubatch_simps(3) [OF ps] restore_ubatch_simps(4) [of _ ps b]
  obtain s1 where s1: "seq_rm b (-1) (-1) s = (True, s1)"
    using seq_rm_result(1) [OF inv, of b "-1" "-1"] by (metis (full_types) prod.collapse)
  have inv1: "kv_inv s1" using kv_inv_seq_rm [OF inv s1] .
  note R = seq_rm_result [OF inv s1]
  have len: "length (cells s1) = length (cells s)" "length (cells s) = kv_size s" using R(2) inv by (simp_all add: kv_inv_def)
  have occ1: "occ s1 b = {}" by (rule kvu.rm_all_empties [OF inv s1 rm])
  have occr: "occ s1 r = occ s r" if "r \<noteq> b" for r using kvu.occ_seq_rm [OF inv s1, of r] that b by simp
  obtain h where fs: "find_slot ?ub s1 = Some (True, s1\<lparr>head := h, cells := place_ubatch ?ub h (cells s1),
          used := used s1 + n_tokens ?ub, ranges := ranges s1 @ [(h, h + n_tokens ?ub)],
          kv_n := min (kv_size s1) (max (padding s1) (ggml_pad
            (cell_max (s1\<lparr>cells := place_ubatch ?ub h (cells s1)\<rparr>)) (padding s1)))\<rparr>)"
      "free_at (cells s1) (n_tokens ?ub) h"
    using find_slot_cases [OF inv1 ub(3)] room ub(1) s1 by (metis snd_conv)
  define s2 where "s2 = s1\<lparr>head := h, cells := place_ubatch ?ub h (cells s1),
          used := used s1 + n_tokens ?ub, ranges := ranges s1 @ [(h, h + n_tokens ?ub)],
          kv_n := min (kv_size s1) (max (padding s1) (ggml_pad
            (cell_max (s1\<lparr>cells := place_ubatch ?ub h (cells s1)\<rparr>)) (padding s1)))\<rparr>"
  have inv3: "kv_inv (commit s2)"
    using kv_inv_commit [OF kv_inv_find_slot [OF inv1 ub(3) fs(1)]] by (simp add: s2_def)
  have h: "h + length ps \<le> length (cells s)" using fs(2) ub(1) len by (simp add: free_at_def)
  have s3: "cells (commit s2) = place_ubatch ?ub h (cells s1)" "head (commit s2) = h" "kv_size (commit s2) = kv_size s"
    using R(4) by (simp_all add: commit_def s2_def)
  have l3: "length (cells (commit s2)) = length (cells s)" using inv3 s3(3) len by (simp add: kv_inv_def)
  have free: "seq_id (cells s1 ! j) = {}" if "h \<le> j" "j < h + length ps" for j
  proof -
    have "\<forall>k < length ps. pos (cells s1 ! (h + k)) < 0" using fs(2) ub(1) by (simp add: free_at_def)
    then have "pos (cells s1 ! (h + (j - h))) < 0" using that by (metis add_less_cancel_left le_add_diff_inverse)
    then have "pos (cells s1 ! j) < 0" using that by simp
    moreover have "cell_ok (cells s1 ! j)" using inv1 that h len by (simp add: kv_inv_def)
    ultimately show ?thesis by (auto simp: cell_ok_def is_empty_def)
  qed
  have nth: "cells (commit s2) ! j = (if h \<le> j \<and> j < h + length ps
      then (cells s1 ! j)\<lparr>pos := ps ! (j - h), seq_id := {b}\<rparr> else cells s1 ! j)" if "j < length (cells s)" for j
    using place_ubatch_nth(2) [OF ub(3), where h = h and cs = "cells s1" and j = j] that h len ub(1,2) ub(4) [of "j - h"] free [of j]
    by (auto simp: s3)
  have nob: "b \<notin> seq_id (cells s1 ! i)" if "i < length (cells s)" for i
    using occ1 that len by (auto simp: occ_def)
  have inr: "r \<in> seq_id (cells s1 ! i) \<longleftrightarrow> r \<in> seq_id (cells s ! i)" "r \<in> seq_id (cells s ! i) \<Longrightarrow> pos (cells s1 ! i) = pos (cells s ! i)"
    if "r \<noteq> b" "i < length (cells s)" for r i
    using occr [OF that(1)] that(2) len(1) by (auto simp: occ_def set_eq_iff)
  have small: "h + length ps < 2 ^ 32" using h inv by (simp add: kv_inv_def)
  have e: "u32_add h (length ps) = h + length ps" "u32_sub (h + length ps) 1 = h + (length ps - 1)"
    using small ps(1) by (simp_all add: Suc_le_eq)
  have "0 < length ps" using ps(1) by simp
  then have hl: "h < length (cells s)" "h + (length ps - 1) < length (cells s)" using h by linarith+
  have "read_meta_seq (length ps) b bs s = (Ret True rest, commit s2)"
    using rd ps(1) fs(1) s1 nth [OF hl(1)] nth [OF hl(2)] h len
    by (simp add: read_meta_seq_def then_read_def s2_def [symmetric] s3 e e(2) [simplified] Let_def has_seq_id_def
        hd_conv_nth last_conv_nth)
  then show thesis
  proof (rule that)
    fix k assume k: "k < length ps"
    then show "pos (cells (commit s2) ! (head (commit s2) + k)) = ps ! k \<and> seq_id (cells (commit s2) ! (head (commit s2) + k)) = {b}"
      using nth [of "h + k"] h by (simp add: s3(2))
  next
    fix i assume "i < length (cells (commit s2))"
    then have i: "i < length (cells s)" by (simp add: l3)
    show "b \<in> seq_id (cells (commit s2) ! i) \<longleftrightarrow> head (commit s2) \<le> i \<and> i < head (commit s2) + length ps"
      using nth [OF i] nob [OF i] by (simp add: s3(2))
    fix r assume r: "r \<noteq> b"
    show "r \<in> seq_id (cells (commit s2) ! i) \<longleftrightarrow> r \<in> seq_id (cells s ! i)"
      using nth [OF i] inr(1) [OF r i] free [of i] r by auto
    assume "r \<in> seq_id (cells s ! i)"
    then show "pos (cells (commit s2) ! i) = pos (cells s ! i) \<and> (i < head (commit s2) \<or> head (commit s2) + length ps \<le> i)"
      using nth [OF i] inr [OF r i] free [of i] by (auto simp: s3(2))
  qed (use inv3 s3 h len in auto)
qed

lemma state_roundtrip_one:
  assumes s: "store_ok s" and d: "store_ok d" and sm: "same_model s d" and ab: "a \<noteq> -1" "0 \<le> b"
    and ne: "saved_idx a (st_kv s) \<noteq> []" and rm: "\<forall>(i, p) \<in> occ (st_kv d) b. p < int32_max"
    and room: "free_at (cells (snd (seq_rm b (-1) (-1) (st_kv d)))) (length (saved_idx a (st_kv s))) h0"
  obtains chunks d' where "state_write a s = Inr chunks" "state_read b (concat chunks @ rest) d = (Inr rest, d')"
    "seq_data b d' = seq_data a s" "\<And>r. r \<noteq> b \<Longrightarrow> r \<noteq> -1 \<Longrightarrow> seq_data r d' = seq_data r d" "kv_inv (st_kv d')"
proof -
  let ?s = "st_kv s" and ?idx = "saved_idx a (st_kv s)"
  let ?ds = "map (\<lambda>i. cells ?s ! i) ?idx" and ?ps = "map (\<lambda>i. pos (cells ?s ! i)) ?idx"
  have inv: "kv_inv ?s" "kv_inv (st_kv d)" using s d by (simp_all add: store_ok_def)
  obtain rs where w: "state_write a s = Inr ([put_u32 (length ?idx)] @ state_write_meta rs a ?s @ state_write_data rs s)"
    "ranges_for rs (kv_size ?s) ?idx"
    by (rule state_write_ok [OF inv(1)])
  let ?data = "concat (state_write_data rs s) @ rest"
  have mem: "cells ?s ! i \<in> set (cells ?s)" "a \<in> seq_id (cells ?s ! i)" if "i \<in> set ?idx" for i
    using that saved_seq [OF ab(1)] by (auto simp: saved_idx_nth)
  have dsfit: "\<forall>c \<in> set ?ds. cell_fits c" using store_ok_fits [OF s] mem(1) by auto
  have "0 \<le> pos (cells ?s ! i)" if "i \<in> set ?idx" for i
    using mem [OF that] inv(1) by (auto simp: kv_inv_def cell_ok_def is_empty_def)
  then have ps: "\<forall>p \<in> set ?ps. 0 \<le> p" "?ps \<noteq> []" "length ?ps = length ?idx" using ne by auto
  have rd: "read_positions (length ?ps) (concat (state_write_meta rs a ?s) @ ?data) = Inr (Some ?ps, ?data)"
    using read_positions_ok [OF dsfit ab(1), of ?data] by (simp add: concat_write_meta [OF w(2)] o_def)
  obtain s3 where s3: "read_meta_seq (length ?ps) b (concat (state_write_meta rs a ?s) @ ?data) (st_kv d) = (Ret True ?data, s3)"
    "kv_inv s3" "kv_size s3 = kv_size (st_kv d)" "head s3 + length ?ps \<le> kv_size (st_kv d)"
    "\<And>i. i < length (cells s3) \<Longrightarrow> b \<in> seq_id (cells s3 ! i) \<longleftrightarrow> head s3 \<le> i \<and> i < head s3 + length ?ps"
    "\<And>k. k < length ?ps \<Longrightarrow> pos (cells s3 ! (head s3 + k)) = ?ps ! k \<and> seq_id (cells s3 ! (head s3 + k)) = {b}"
    "\<And>i r. i < length (cells s3) \<Longrightarrow> r \<noteq> b \<Longrightarrow> r \<in> seq_id (cells s3 ! i) \<longleftrightarrow> r \<in> seq_id (cells (st_kv d) ! i)"
    "\<And>i r. i < length (cells s3) \<Longrightarrow> r \<noteq> b \<Longrightarrow> r \<in> seq_id (cells (st_kv d) ! i) \<Longrightarrow>
        pos (cells s3 ! i) = pos (cells (st_kv d) ! i) \<and> (i < head s3 \<or> head s3 + length ?ps \<le> i)"
    by (rule read_meta_seq_ok [OF inv(2) ab(2) ps(2,1) rm rd]) (use room in auto)
  have len: "length (cells s3) = kv_size (st_kv d)" "length (cells (st_kv d)) = kv_size (st_kv d)"
    using s3(2,3) inv by (simp_all add: kv_inv_def)
  obtain d' where d': "state_read_data (length ?idx) ?data (d\<lparr>st_kv := s3\<rparr>) = (Ret True rest, d')" "st_kv d' = s3"
    "\<And>k. k < length ?idx \<Longrightarrow> cell_rows d' (head s3 + k) = cell_rows s (?idx ! k)"
    "\<And>i. i < kv_size s3 \<Longrightarrow> i < head s3 \<or> head s3 + length ?idx \<le> i \<Longrightarrow> cell_rows d' i = cell_rows (d\<lparr>st_kv := s3\<rparr>) i"
    by (rule state_read_data_ok [of s "d\<lparr>st_kv := s3\<rparr>" rs ?idx rest])
      (use s d sm w(2) s3(3,4) in \<open>auto simp: store_ok_def same_model_def\<close>)
  have rows: "cell_rows (d\<lparr>st_kv := s3\<rparr>) i = cell_rows d i" for i by (simp add: cell_rows_def s3(3))
  have b1: "b \<noteq> -1" using ab(2) by simp
  have "saved_idx b s3 = [head s3..<head s3 + length ?idx]"
    by (rule saved_idx_prefix) (use s3(4,5) len b1 in \<open>auto simp: saved_seq\<close>)
  then have "seq_data b d' = seq_data a s"
    unfolding seq_data_def using s3(6) d'(2,3) by (intro nth_equalityI) auto
  moreover have "seq_data r d' = seq_data r d" if r: "r \<noteq> b" "r \<noteq> -1" for r
  proof -
    have "saved_idx r s3 = saved_idx r (st_kv d)"
      unfolding saved_idx_def using s3(7) r len by (intro filter_cong) (auto simp: saved_seq)
    moreover have "pos (cells s3 ! i) = pos (cells (st_kv d) ! i) \<and> cell_rows d' i = cell_rows d i" if "i \<in> set (saved_idx r (st_kv d))" for i
      using that s3(3) s3(8) [of i r] d'(4) [of i] r len rows by (auto simp: saved_idx_nth saved_seq)
    ultimately show ?thesis unfolding seq_data_def d'(2) by (intro map_cong) auto
  qed
  moreover have "length ?idx < 2 ^ 32" using length_saved_idx [of a ?s] inv by (simp add: kv_inv_def)
  then have "state_read b (concat ([put_u32 (length ?idx)] @ state_write_meta rs a ?s @ state_write_data rs s) @ rest) d = (Inr rest, d')"
    using s3(1) d'(1) b1 by (simp add: state_read_def state_read_meta_def Let_def)
  ultimately show thesis using that [OF w(1), of d'] s3(2) d'(2) by simp
qed

section \<open>Failures\<close>

lemma length_read_cells: "length (snd (read_cells i k bs cs)) = length cs"
proof (induction k arbitrary: i bs cs)
  case (Suc k)
  show ?case
    by (auto simp: then_read_def Suc.IH split: sum.splits prod.splits status.splits bool.splits)
qed simp

lemma read_meta_all_frame:
  assumes "state_read_meta n (-1) bs st = (r, st')" "kv_inv (st_kv st)"
  shows "length (cells (st_kv st')) = kv_size (st_kv st') \<and> kv_size (st_kv st') = kv_size (st_kv st)
    \<and> ranges (st_kv st') = ranges (st_kv st)"
proof (cases "n > kv_size (st_kv st)")
  case True
  then show ?thesis using assms by (auto simp: state_read_meta_def read_meta_all_def kv_inv_def)
next
  case False
  obtain r1 cs where rc: "read_cells 0 n bs (cells (st_kv (store_clear st))) = (r1, cs)" by fastforce
  have "length cs = length (cells (st_kv st))"
    using length_read_cells [of 0 n bs "cells (st_kv (store_clear st))"] rc by (simp add: store_clear_def clear_def)
  moreover have "st_kv st' = (st_kv (store_clear st))\<lparr>cells := cs\<rparr> \<or> st_kv st' = (st_kv (store_clear st))\<lparr>cells := cs, head := 0, used := n\<rparr>"
    using assms(1) False rc by (auto simp: state_read_meta_def read_meta_all_def Let_def split: status.splits bool.splits)
  ultimately show ?thesis using assms(2) by (auto simp: kv_inv_def store_clear_def clear_def)
qed

lemma state_read_data_kv: "st_kv (snd (state_read_data n bs st)) = st_kv st"
  by (auto simp: state_read_data_def then_read_def Let_def split: sum.splits prod.splits status.splits bool.splits)

lemma kv_inv_clear_any:
  assumes "length (cells s) = kv_size s" "kv_size s < 2 ^ 30" "\<forall>(a, b) \<in> set (ranges s). a \<le> b \<and> b \<le> kv_size s"
  shows "kv_inv (clear s)"
  using assms by (auto simp: kv_inv_def clear_def clear_cell_def cell_ok_def is_empty_def count_if_eq_0)

section \<open>Properties\<close>

definition wit_layer :: "bytes \<Rightarrow> bytes \<Rightarrow> kv_layer" where
  "wit_layer ks vs = \<lparr>k_type = 1, k_size_row = 1, k_data = ks, v_type = 1, v_size_row = 1, v_size_el = 1,
     n_embd_v_gqa = 1, v_data = vs\<rparr>"

definition wit_src :: kv_store where
  "wit_src = \<lparr>st_kv = wit_cache, v_trans = False, layers = [wit_layer [10, 11, 12, 13] [20, 21, 22, 23]]\<rparr>"

definition wit_dst :: kv_store where
  "wit_dst = \<lparr>st_kv = wit_new, v_trans = False, layers = [wit_layer [0, 0] [0, 0]]\<rparr>"

lemma wit_new_inv: "kv_inv wit_new"
  by (simp add: wit_new_def kv_inv_def cell_ok_def is_empty_def empty_cell_def)

lemma wit_stores: "store_ok wit_src" "store_ok wit_dst" "same_model wit_src wit_dst"
  using wit_cache_inv wit_new_inv
  by (simp_all add: store_ok_def same_model_def wit_src_def wit_dst_def wit_layer_def layer_ok_def compat_def)
    (simp_all add: wit_cache_def wit_new_def wit_cell_def empty_cell_def)

text \<open>
  C19. Saving the whole cache and restoring it in a cache of the same model with enough cells: the
  reader consumes exactly what was written, and the restored cache holds the same cells in the
  same order, position, sequences and the rows of every layer, packed at its front; its
  bookkeeping is consistent. The two caches may have different sizes.
\<close>

theorem state_roundtrip:
  assumes "store_ok s" "store_ok d" "same_model s d" "used (st_kv s) \<le> kv_size (st_kv d)"
  shows "\<exists>chunks d'. state_write (-1) s = Inr chunks \<and> state_read (-1) (concat chunks @ rest) d = (Inr rest, d')
    \<and> saved_content (-1) d' = saved_content (-1) s \<and> kv_inv (st_kv d')"
  by (rule state_roundtrip_all [OF assms, of rest]) blast

theorem state_roundtrip_witness:
  "\<exists>chunks d'. state_write (-1) wit_src = Inr chunks \<and> state_read (-1) (concat chunks @ [1]) wit_dst = (Inr [1], d')
    \<and> saved_content (-1) d' = [(0, {0, 1}, [([10], [[20]])]), (1, {0}, [([12], [[22]])])]"
proof -
  have "used (st_kv wit_src) \<le> kv_size (st_kv wit_dst)" by (simp add: wit_src_def wit_dst_def wit_cache_def wit_new_def)
  moreover have "saved_content (-1) wit_src = [(0, {0, 1}, [([10], [[20]])]), (1, {0}, [([12], [[22]])])]"
    by (simp add: saved_content_def saved_idx_sel wit_src_def wit_cache_def wit_cell_def empty_cell_def saved_def is_empty_def
        has_seq_id_def cell_rows_def wit_layer_def k_row_def v_row_def tensor_get_def)
  ultimately show ?thesis using state_roundtrip [OF wit_stores, of "[1]"] by auto
qed

text \<open>
  C20. Saving one sequence with at least one cell (for an empty one see \<open>state_seq_empty\<close>) and restoring it, possibly
  under another id, not negative, and in another cache of the same model, when that cache has a free run of cells for it after the old content of that id is removed:
  \<open>state_seq_get_data\<close> with a buffer of the size \<open>state_seq_get_size\<close> returns succeeds,
  \<open>state_seq_set_data\<close> reads all of it, the restored sequence has the same positions and rows, and
  no other sequence of the cache changes.
\<close>

theorem state_seq_roundtrip:
  assumes "store_ok s" "store_ok d" "same_model s d" "a \<noteq> -1" "0 \<le> b" "saved_idx a (st_kv s) \<noteq> []"
    and "\<forall>(i, p) \<in> occ (st_kv d) b. p < int32_max"
    and "free_at (cells (snd (seq_rm b (-1) (-1) (st_kv d)))) (length (saved_idx a (st_kv s))) h"
  shows "\<exists>n bs d'. state_seq_get_size a s = Inr n \<and> state_seq_get_data a n s = Inr (n, bs)
    \<and> state_seq_set_data b bs d = (Inr n, d') \<and> seq_data b d' = seq_data a s
    \<and> (\<forall>r. r \<noteq> b \<and> r \<noteq> -1 \<longrightarrow> seq_data r d' = seq_data r d) \<and> kv_inv (st_kv d')"
proof (rule state_roundtrip_one [OF assms, of "[]"])
  fix chunks d' assume "state_write a s = Inr chunks" "state_read b (concat chunks @ []) d = (Inr [], d')"
    "seq_data b d' = seq_data a s" "\<And>r. r \<noteq> b \<Longrightarrow> r \<noteq> -1 \<Longrightarrow> seq_data r d' = seq_data r d" "kv_inv (st_kv d')"
  then show ?thesis
    by (intro exI [of _ "length (concat chunks)"] exI [of _ "concat chunks"] exI [of _ d'])
      (simp add: state_seq_get_size_def state_seq_get_data_def state_seq_set_data_def io_dummy_length io_buffer_result)
qed

theorem state_seq_roundtrip_witness:
  "\<exists>n bs d'. state_seq_get_data 0 n wit_src = Inr (n, bs) \<and> state_seq_set_data 5 bs wit_dst = (Inr n, d')
     \<and> seq_data 5 d' = [(0, [([10], [[20]])]), (1, [([12], [[22]])])]"
proof -
  have idx: "saved_idx 0 (st_kv wit_src) = [0, 2]"
    by (simp add: saved_idx_sel wit_src_def wit_cache_def wit_cell_def empty_cell_def saved_def is_empty_def has_seq_id_def)
  have data: "seq_data 0 wit_src = [(0, [([10], [[20]])]), (1, [([12], [[22]])])]"
    unfolding seq_data_def idx
    by (simp add: wit_src_def wit_cache_def wit_cell_def cell_rows_def wit_layer_def k_row_def v_row_def tensor_get_def)
  have "free_at (cells (snd (seq_rm 5 (-1) (-1) (st_kv wit_dst)))) (length (saved_idx 0 (st_kv wit_src))) 0"
    unfolding idx by (simp add: wit_dst_def wit_new_def empty_cell_def seq_rm_def seq_rm_cell_def norm_p0_def norm_p1_def
        free_at_def less_Suc_eq numeral_2_eq_2)
  moreover have "\<forall>(i, p) \<in> occ (st_kv wit_dst) 5. p < int32_max"
    by (auto simp: occ_def wit_dst_def wit_new_def empty_cell_def less_Suc_eq)
  ultimately show ?thesis
    using state_seq_roundtrip [OF wit_stores, of 0 5 0] idx data by auto
qed

text \<open>
  C21. A saved cache is not restored into a cache it does not fit. When the destination has fewer cells than were
  saved, or differs in the number of layers, the transposition of the values, or a type, row size, element size or
  embedding size of a layer, \<open>state_read\<close> of the whole state throws and leaves an empty cache: no cell
  is occupied and the bookkeeping is consistent.
\<close>

theorem state_read_rejects:
  assumes "store_ok s" "store_ok d" "kv_size (st_kv d) < used (st_kv s) \<or> \<not> same_shape s d"
  shows "\<exists>chunks d'. state_write (-1) s = Inr chunks
    \<and> state_read (-1) (concat chunks @ rest) d = (Inl (Throw ''failed to restore kv cache''), d')
    \<and> (\<forall>q. occ (st_kv d') q = {}) \<and> used (st_kv d') = 0 \<and> kv_inv (st_kv d')"
proof -
  have cleared: "(\<forall>q. occ (st_kv (store_clear st)) q = {}) \<and> used (st_kv (store_clear st)) = 0 \<and> kv_inv (st_kv (store_clear st))"
    if "length (cells (st_kv st)) = kv_size (st_kv st)" "kv_size (st_kv st) = kv_size (st_kv d)" "ranges (st_kv st) = ranges (st_kv d)" for st
    using that assms(2) kv_inv_clear_any [of "st_kv st"]
    by (auto simp: store_clear_def clear_def occ_def clear_cell_def store_ok_def kv_inv_def)
  have inv: "kv_inv (st_kv s)" "kv_inv (st_kv d)" using assms(1,2) by (simp_all add: store_ok_def)
  have sz: "length (cells (st_kv s)) = kv_size (st_kv s)" "kv_size (st_kv s) < 2 ^ 30" "length (cells (st_kv d)) = kv_size (st_kv d)"
    using inv by (simp_all add: kv_inv_def)
  show ?thesis
  proof (cases "kv_size (st_kv d) < used (st_kv s)")
    case True
    obtain rs where w: "state_write (-1) s = Inr ([put_u32 (length (saved_idx (-1) (st_kv s)))] @ state_write_meta rs (-1) (st_kv s) @ state_write_data rs s)"
      by (rule state_write_ok [OF inv(1)])
    have n: "length (saved_idx (-1) (st_kv s)) = used (st_kv s)" by (rule length_saved_used [OF assms(1)])
    have "used (st_kv s) < 2 ^ 32" using length_saved_idx [of "-1" "st_kv s"] sz n by simp
    then show ?thesis
      using w n True cleared [of d] sz(3)
      by (intro exI [of _ "[put_u32 (used (st_kv s))] @ state_write_meta rs (-1) (st_kv s) @ state_write_data rs s"] exI [of _ "store_clear d"])
        (simp add: state_read_def state_read_meta_def read_meta_all_def)
  next
    case False
    then have room: "used (st_kv s) \<le> kv_size (st_kv d)" and shape: "\<not> same_shape s d" using assms(3) by simp_all
    obtain rs kv where w: "state_write (-1) s = Inr ([put_u32 (length (saved_idx (-1) (st_kv s)))] @ state_write_meta rs (-1) (st_kv s) @ state_write_data rs s)"
      "ranges_for rs (kv_size (st_kv s)) (saved_idx (-1) (st_kv s))" and n: "length (saved_idx (-1) (st_kv s)) = used (st_kv s)"
      and meta: "\<And>bs. state_read_meta (length (saved_idx (-1) (st_kv s))) (-1) (concat (state_write_meta rs (-1) (st_kv s)) @ bs) d
        = (Ret True bs, (store_clear d)\<lparr>st_kv := kv\<rparr>)"
      and kv: "kv = (st_kv (store_clear d))\<lparr>cells := cells kv, head := 0, used := length (saved_idx (-1) (st_kv s))\<rparr>"
        "length (cells kv) = length (cells (st_kv d))"
      by (rule state_meta_all [OF assms(1,2) room]) (rule that)
    let ?d1 = "(store_clear d)\<lparr>st_kv := kv\<rparr>"
    have kvf: "kv_size kv = kv_size (st_kv d)" "head kv = 0" "ranges kv = ranges (st_kv d)"
      by (subst kv(1), simp add: store_clear_def clear_def)+
    have "k_match l (m\<lparr>k_data := x, v_data := y\<rparr>) = k_match l m" "v_match tr l (m\<lparr>k_data := x, v_data := y\<rparr>) = v_match tr l m" for tr l m x y
      by (simp_all add: k_match_def v_match_def)
    then have shape1: "\<not> same_shape s ?d1" using shape by (simp add: same_shape_def store_clear_def list_all2_map2)
    have sl: "\<forall>l \<in> set (layers s). layer_ok (v_trans s) (kv_size (st_kv s)) l" "length (layers s) < 2 ^ 32"
      using assms(1) by (simp_all add: store_ok_def)
    have dl: "\<forall>m \<in> set (layers ?d1). layer_ok (v_trans ?d1) (kv_size (st_kv ?d1)) m"
      using assms(2) by (auto simp: store_ok_def kvf store_clear_def layer_ok_def)
    obtain rest' d' where d': "state_read_data (length (saved_idx (-1) (st_kv s))) (concat (state_write_data rs s) @ rest) ?d1 = (Ret False rest', d')"
      using that state_read_data_shape [of s ?d1 rs "saved_idx (-1) (st_kv s)" rest, OF _ _ dl w(2)] sl shape1 room n kvf by auto
    have "st_kv d' = kv" using state_read_data_kv [of "length (saved_idx (-1) (st_kv s))" "concat (state_write_data rs s) @ rest" ?d1] d' by simp
    then have "(\<forall>q. occ (st_kv (store_clear d')) q = {}) \<and> used (st_kv (store_clear d')) = 0 \<and> kv_inv (st_kv (store_clear d'))"
      using kv(2) kvf sz(3) by (intro cleared) simp_all
    moreover have "length (saved_idx (-1) (st_kv s)) < 2 ^ 32" using length_saved_idx [of "-1" "st_kv s"] sz by simp
    then have "state_read (-1) (concat ([put_u32 (length (saved_idx (-1) (st_kv s)))] @ state_write_meta rs (-1) (st_kv s) @ state_write_data rs s) @ rest) d
        = (Inl (Throw ''failed to restore kv cache''), store_clear d')"
      using meta [of "concat (state_write_data rs s) @ rest"] d' by (simp add: state_read_def Let_def)
    ultimately show ?thesis using w(1) by blast
  qed
qed

theorem state_read_rejects_witness:
  "\<exists>chunks d'. state_write (-1) wit_src = Inr chunks
     \<and> state_read (-1) (concat chunks) (wit_dst\<lparr>layers := [(wit_layer [0, 0] [0, 0])\<lparr>v_type := 2\<rparr>]\<rparr>)
       = (Inl (Throw ''failed to restore kv cache''), d') \<and> used (st_kv d') = 0"
proof -
  let ?d = "wit_dst\<lparr>layers := [(wit_layer [0, 0] [0, 0])\<lparr>v_type := 2\<rparr>]\<rparr>"
  have "store_ok ?d" using wit_stores(2) by (simp add: store_ok_def wit_dst_def wit_layer_def layer_ok_def)
  moreover have "\<not> same_shape wit_src ?d" by (simp add: same_shape_def wit_src_def wit_layer_def v_match_def)
  ultimately show ?thesis using state_read_rejects [OF wit_stores(1), of ?d "[]"] by auto
qed

text \<open>
  Input that ends early is different: the exception of the reader passes through \<open>state_read\<close> without
  the cleanup. Restoring a state whose announced second cell is missing leaves the first cell
  occupied in a cache whose \<open>used\<close> counter is 0: the bookkeeping is broken.
\<close>

theorem state_read_truncated:
  "\<exists>d'. state_read (-1) (put_u32 2 @ put_i32 5 @ put_u32 1 @ put_i32 0) wit_dst
      = (Inl (Throw ''unexpectedly reached end of buffer''), d')
    \<and> occ (st_kv d') 0 = {(0, 5)} \<and> used (st_kv d') = 0 \<and> \<not> kv_inv (st_kv d')"
proof -
  let ?c = "\<lparr>pos = 5, delta = 0, seq_id = {0}\<rparr>"
  let ?d = "(store_clear wit_dst)\<lparr>st_kv := (st_kv (store_clear wit_dst))\<lparr>cells := [?c, empty_cell]\<rparr>\<rparr>"
  have cs: "cells (st_kv (store_clear wit_dst)) = [empty_cell, empty_cell]" "used (st_kv (store_clear wit_dst)) = 0"
    by (simp_all add: store_clear_def clear_def clear_cell_def wit_dst_def wit_new_def empty_cell_def)
  have sz: "kv_size (st_kv wit_dst) = Suc (Suc 0)" by (simp add: wit_dst_def wit_new_def)
  have e: "io_read 4 [] = Inl (Throw ''unexpectedly reached end of buffer'')" by (simp add: io_read_def)
  have i: "read_i32 (put_i32 0) = Inr (0, [])" using read_put_i32 [of 0 "[]"] by simp
  have "read_cells 0 (Suc (Suc 0)) (put_i32 5 @ put_u32 1 @ put_i32 0) [empty_cell, empty_cell]
      = (Thrown (Throw ''unexpectedly reached end of buffer''), [?c, empty_cell])"
    by (simp add: then_read_def i, simp add: read_i32_def e empty_cell_def)
  then have "state_read_meta 2 (-1) (put_i32 5 @ put_u32 1 @ put_i32 0) wit_dst
      = (Thrown (Throw ''unexpectedly reached end of buffer''), ?d)"
    by (simp add: state_read_meta_def read_meta_all_def cs sz numeral_2_eq_2 Let_def del: read_cells.simps)
  then have "state_read (-1) (put_u32 2 @ put_i32 5 @ put_u32 1 @ put_i32 0) wit_dst
      = (Inl (Throw ''unexpectedly reached end of buffer''), ?d)"
    by (simp add: state_read_def)
  moreover have "occ (st_kv ?d) 0 = {(0, 5)}" by (auto simp: occ_def empty_cell_def less_Suc_eq)
  moreover have "\<not> kv_inv (st_kv ?d)" using cs(2) by (simp add: kv_inv_def is_empty_def empty_cell_def)
  ultimately show ?thesis using cs(2) by (intro exI [of _ ?d]) simp
qed

text \<open>
  A sequence without cells can be saved but not restored: \<open>state_seq_get_data\<close> writes a state of zero cells,
  and reading it back writes \<open>n_seq_id[0]\<close> of a micro-batch without entries, outside its array.
\<close>

theorem state_seq_empty:
  assumes "kv_inv (st_kv s)" "a \<noteq> -1" "b \<noteq> -1" "saved_idx a (st_kv s) = []"
  shows "\<exists>chunks. state_write a s = Inr chunks \<and> fst (state_seq_set_data b (concat chunks) d) = Inl Out_of_range"
proof (rule state_write_ok [OF assms(1), of a])
  fix rs assume w: "state_write a s = Inr ([put_u32 (length (saved_idx a (st_kv s)))] @ state_write_meta rs a (st_kv s) @ state_write_data rs s)"
    "ranges_for rs (kv_size (st_kv s)) (saved_idx a (st_kv s))"
  have "read_meta_seq 0 b x kv = (Thrown Out_of_range, snd (seq_rm b (-1) (-1) kv))" for x kv
    by (simp add: read_meta_seq_def then_read_def)
  then show ?thesis
    using w assms(3,4) by (simp add: state_seq_set_data_def state_read_def state_read_meta_def Let_def)
qed

theorem state_seq_empty_witness:
  "\<exists>chunks. state_write 7 wit_src = Inr chunks \<and> fst (state_seq_set_data 7 (concat chunks) wit_dst) = Inl Out_of_range"
proof -
  have "saved_idx 7 (st_kv wit_src) = []"
    by (simp add: saved_idx_sel wit_src_def wit_cache_def wit_cell_def empty_cell_def saved_def is_empty_def has_seq_id_def)
  then show ?thesis using state_seq_empty [of wit_src 7 7 wit_dst] wit_stores(1) by (simp add: store_ok_def)
qed

text \<open>
  C24. The size that \<open>state_seq_get_size\<close> computes without writing is exactly the size that is written:
  \<open>state_seq_get_data\<close> returns that many bytes for every buffer at least that large, and 0 for
  every smaller one.
\<close>

theorem state_seq_size_exact:
  assumes "kv_inv (st_kv s)"
  shows "\<exists>n bs. state_seq_get_size q s = Inr n \<and> length bs = n
    \<and> (\<forall>buf_size. state_seq_get_data q buf_size s = Inr (if n \<le> buf_size then (n, bs) else (0, [])))"
proof (rule state_write_ok [OF assms, of q])
  fix rs assume "state_write q s = Inr ([put_u32 (length (saved_idx q (st_kv s)))] @ state_write_meta rs q (st_kv s) @ state_write_data rs s)"
  then obtain chunks where "state_write q s = Inr chunks" by blast
  then show ?thesis
    by (intro exI [of _ "length (concat chunks)"] exI [of _ "concat chunks"])
      (simp add: state_seq_get_size_def state_seq_get_data_def io_dummy_length io_buffer_result)
qed

theorem state_seq_size_exact_witness:
  "\<exists>n bs. state_seq_get_size 0 wit_src = Inr n \<and> length bs = n \<and> state_seq_get_data 0 n wit_src = Inr (n, bs)"
  using state_seq_size_exact [of wit_src 0] wit_stores(1) by (fastforce simp: store_ok_def)

text \<open>
  A saved state does not depend on pending position shifts: changing the \<open>delta\<close> of the cells in any way
  leaves what is written unchanged, although \<open>pos\<close> already includes the shift and the keys do not
  until \<open>update\<close> applies it.
\<close>

theorem state_write_ignores_shift:
  assumes "kv_inv (st_kv st)"
  shows "state_write q (st\<lparr>st_kv := (st_kv st)\<lparr>cells := map (\<lambda>c. c\<lparr>delta := f c\<rparr>) (cells (st_kv st))\<rparr>\<rparr>) = state_write q st"
proof -
  let ?s = "st_kv st" and ?g = "\<lambda>c. c\<lparr>delta := f c\<rparr>"
  let ?rs = "snd (cell_ranges (kv_size ?s) q 0 (cells ?s) (kv_size ?s) 0)"
  have r: "cell_ranges sz q i (map ?g cs) b0 cnt = cell_ranges sz q i cs b0 cnt" for sz i cs b0 cnt
    by (induction cs arbitrary: i b0 cnt) (auto simp: saved_def is_empty_def has_seq_id_def)
  have "\<forall>(a, b) \<in> set ?rs. a \<le> b \<and> b \<le> length (cells ?s)"
    using cell_ranges_correct [of "kv_size ?s" 0 "cells ?s" "kv_size ?s" 0 q] assms by (simp add: kv_inv_def)
  then have rf: "ranges_for ?rs (length (cells ?s)) (concat (map (\<lambda>(a, b). [a..<b]) ?rs))" by (simp add: ranges_for_def)
  have "write_meta_cell q (map ?g (cells ?s) ! i) = write_meta_cell q (cells ?s ! i)" if "i < length (cells ?s)" for i
    using that by (simp add: write_meta_cell_def Let_def)
  then have "map (\<lambda>i. write_meta_cell q (map ?g (cells ?s) ! i)) [a..<b] = map (\<lambda>i. write_meta_cell q (cells ?s ! i)) [a..<b]"
    if "(a, b) \<in> set ?rs" for a b
    using that rf by (intro map_cong) (auto simp: ranges_for_def)
  then have "state_write_meta ?rs q (?s\<lparr>cells := map ?g (cells ?s)\<rparr>) = state_write_meta ?rs q ?s"
    unfolding state_write_meta_def by (intro arg_cong [where f = concat] map_cong) (auto simp del: map_eq_conv)
  moreover have "state_write_data rs (st\<lparr>st_kv := ?s\<lparr>cells := map ?g (cells ?s)\<rparr>\<rparr>) = state_write_data rs st" for rs
    by (simp add: state_write_data_def)
  ultimately show ?thesis by (auto simp: state_write_def r Let_def split: prod.splits)
qed

theorem state_write_ignores_shift_witness:
  "state_write 0 (wit_src\<lparr>st_kv := wit_cache\<lparr>cells := map (\<lambda>c. c\<lparr>delta := 3\<rparr>) (cells wit_cache)\<rparr>\<rparr>) = state_write 0 wit_src"
  using state_write_ignores_shift [of wit_src 0 "\<lambda>_. 3"] wit_cache_inv by (simp add: wit_src_def)

end
