(* ===== verification/Grammar.thy ===== *)
theory Grammar
  imports Prelude
begin

text \<open>
  The grammar engine that constrains sampling, \<open>src/llama-grammar.{h,cpp}\<close>: the pushdown
  stacks over grammar elements, how they are advanced to the next terminal, how a code point is
  accepted, which candidate tokens are rejected, and the check for left recursion.

  A pointer to a grammar element is the pair of the rule and the index in it; a stack is a
  list of such positions with \<open>stack.back()\<close> first. The vector of rules is the argument \<open>R\<close> of
  the functions. A computation that may not end returns an \<open>option\<close>, with the failures
  inside.
\<close>

section \<open>Data\<close>

datatype gretype = G_END | G_ALT | G_RULE_REF | G_CHAR | G_CHAR_NOT | G_CHAR_RNG_UPPER | G_CHAR_ALT | G_CHAR_ANY

record gr_elem =
  g_type :: gretype
  g_value :: nat

type_synonym gr_rules = "gr_elem list list"
type_synonym gr_pos = "nat \<times> nat"
type_synonym gr_stack = "gr_pos list"
type_synonym 'a run = "'a res option"

record partial_utf8 =
  pu_value :: nat
  n_remain :: int

definition bind_run :: "'a run \<Rightarrow> ('a \<Rightarrow> 'b run) \<Rightarrow> 'b run" where
  "bind_run m f = (case m of None \<Rightarrow> None | Some (Inl e) \<Rightarrow> Some (Inl e) | Some (Inr a) \<Rightarrow> f a)"

lemma bind_run_simps [simp]:
  "bind_run None f = None" "bind_run (Some (Inl e)) f = Some (Inl e)" "bind_run (Some (Inr a)) f = f a"
  by (simp_all add: bind_run_def)

lemma bind_run_eq_Inr: "bind_run m f = Some (Inr b) \<longleftrightarrow> (\<exists>a. m = Some (Inr a) \<and> f a = Some (Inr b))"
  by (auto simp: bind_run_def split: option.splits sum.splits)

definition elem_at :: "gr_rules \<Rightarrow> gr_pos \<Rightarrow> gr_elem" where
  "elem_at R p = R ! fst p ! snd p"

definition type_at :: "gr_rules \<Rightarrow> gr_pos \<Rightarrow> gretype" where
  "type_at R p = g_type (elem_at R p)"

definition step_pos :: "nat \<Rightarrow> gr_pos \<Rightarrow> gr_pos" where
  "step_pos n p = (fst p, snd p + n)"

definition is_end_of_sequence :: "gretype \<Rightarrow> bool" where
  "is_end_of_sequence ty \<longleftrightarrow> ty = G_END \<or> ty = G_ALT"

section \<open>Matching a character\<close>

text \<open>
  The loop over a character range: \<open>es\<close> are the elements from \<open>pos\<close> on; the result is \<open>found\<close> and how
  far \<open>pos\<close> was moved.
\<close>

fun match_loop :: "gr_elem list \<Rightarrow> nat \<Rightarrow> bool \<Rightarrow> nat \<Rightarrow> bool \<times> nat" where
  "match_loop (e # u # es) chr found n =
     (if g_type u = G_CHAR_RNG_UPPER then
        let found' = (found \<or> g_value e \<le> chr \<and> chr \<le> g_value u) in
        if es \<noteq> [] \<and> g_type (hd es) = G_CHAR_ALT then match_loop es chr found' (n + 2) else (found', n + 2)
      else
        let found' = (if g_type e = G_CHAR_ANY then True else found \<or> g_value e = chr) in
        if g_type u = G_CHAR_ALT then match_loop (u # es) chr found' (n + 1) else (found', n + 1))"
| "match_loop es chr found n = (found, n + 1)"

definition elems_from :: "gr_rules \<Rightarrow> gr_pos \<Rightarrow> gr_elem list" where
  "elems_from R p = drop (snd p) (R ! fst p)"

definition is_positive_char :: "gretype \<Rightarrow> bool" where
  "is_positive_char ty \<longleftrightarrow> ty = G_CHAR \<or> ty = G_CHAR_ANY"

definition match_char :: "gr_rules \<Rightarrow> gr_pos \<Rightarrow> nat \<Rightarrow> (bool \<times> gr_pos) res" where
  "match_char R p chr =
     (let ty = type_at R p in
      if is_positive_char ty \<or> ty = G_CHAR_NOT then
        let (found, n) = match_loop (elems_from R p) chr False 0 in Inr (found = is_positive_char ty, step_pos n p)
      else Inl (Assert_fail ''is_positive_char || pos->type == LLAMA_GRETYPE_CHAR_NOT''))"

text \<open>The same loop for a partial UTF-8 sequence whose completions lie between \<open>low\<close> and \<open>high\<close>.\<close>

fun match_partial_loop :: "gr_elem list \<Rightarrow> bool \<Rightarrow> nat \<Rightarrow> nat \<Rightarrow> bool" where
  "match_partial_loop (e # u # es) positive low high =
     (if g_type u = G_CHAR_RNG_UPPER then
        if g_value e \<le> high \<and> low \<le> g_value u then positive
        else if es \<noteq> [] \<and> g_type (hd es) = G_CHAR_ALT then match_partial_loop es positive low high
        else \<not> positive
      else if g_type e = G_CHAR_ANY then True
      else if low \<le> g_value e \<and> g_value e \<le> high then positive
      else if g_type u = G_CHAR_ALT then match_partial_loop (u # es) positive low high
      else \<not> positive)"
| "match_partial_loop es positive low high = (\<not> positive)"

definition partial_low :: "partial_utf8 \<Rightarrow> nat" where
  "partial_low pu =
     (let low = pu_value pu * 2 ^ (nat (n_remain pu) * 6) mod 2 ^ 32 in
      if low = 0 then (if n_remain pu = 2 then 2 ^ 11 else if n_remain pu = 3 then 2 ^ 16 else low) else low)"

definition partial_high :: "partial_utf8 \<Rightarrow> nat" where
  "partial_high pu = pu_value pu * 2 ^ (nat (n_remain pu) * 6) mod 2 ^ 32 + (2 ^ (nat (n_remain pu) * 6) - 1)"

definition match_partial_char :: "gr_rules \<Rightarrow> gr_pos \<Rightarrow> partial_utf8 \<Rightarrow> bool res" where
  "match_partial_char R p pu =
     (let ty = type_at R p in
      if is_positive_char ty \<or> ty = G_CHAR_NOT then
        if n_remain pu < 0 \<or> n_remain pu = 1 \<and> pu_value pu < 2 then Inr False
        else Inr (match_partial_loop (elems_from R p) (is_positive_char ty) (partial_low pu) (partial_high pu))
      else Inl (Assert_fail ''is_positive_char || pos->type == LLAMA_GRETYPE_CHAR_NOT''))"

section \<open>Advancing stacks\<close>

text \<open>The starts of the alternates of a rule, in the order of the \<open>do\<close> loop.\<close>

fun scan_alts :: "nat \<Rightarrow> gr_elem list \<Rightarrow> nat list" where
  "scan_alts i [] = []"
| "scan_alts i (e # es) =
     (if g_type e = G_END then [] else if g_type e = G_ALT then (i + 1) # scan_alts (i + 1) es else scan_alts (i + 1) es)"

definition alternates :: "gr_rules \<Rightarrow> nat \<Rightarrow> gr_pos list" where
  "alternates R r = map (Pair r) (0 # scan_alts 0 (R ! r))"

text \<open>A position is pushed unless the definition it is in ends there.\<close>

definition push_pos :: "gr_rules \<Rightarrow> gr_pos \<Rightarrow> gr_stack \<Rightarrow> gr_stack" where
  "push_pos R p s = (if is_end_of_sequence (type_at R p) then s else p # s)"

definition expand :: "gr_rules \<Rightarrow> gr_pos \<Rightarrow> gr_stack \<Rightarrow> gr_stack list" where
  "expand R p s = map (\<lambda>a. push_pos R a (push_pos R (step_pos 1 p) s)) (alternates R (g_value (elem_at R p)))"

definition add_stack :: "gr_stack \<Rightarrow> gr_stack list \<Rightarrow> gr_stack list" where
  "add_stack s acc = (if s \<in> set acc then acc else acc @ [s])"

text \<open>
  \<open>llama_grammar_advance_stack\<close>, with the recursion made explicit: \<open>todo\<close> are the stacks whose calls
  are pending, in the order the recursion reaches them, \<open>acc\<close> is \<open>new_stacks\<close>.
\<close>

partial_function (option) advance :: "gr_rules \<Rightarrow> gr_stack list \<Rightarrow> gr_stack list \<Rightarrow> gr_stack list run" where
  "advance R todo acc =
     (case todo of
        [] \<Rightarrow> Some (Inr acc)
      | s # rest \<Rightarrow>
          (case s of
             [] \<Rightarrow> advance R rest (add_stack s acc)
           | p # t \<Rightarrow>
               if type_at R p = G_RULE_REF then
                 if length R \<le> g_value (elem_at R p) then Some (Inl Out_of_range)
                 else advance R (expand R p t @ rest) acc
               else if type_at R p = G_CHAR \<or> type_at R p = G_CHAR_NOT \<or> type_at R p = G_CHAR_ANY then
                 advance R rest (add_stack s acc)
               else Some (Inl (Assert_fail ''fatal error''))))"

declare advance.simps [code]

definition advance_stack :: "gr_rules \<Rightarrow> gr_stack \<Rightarrow> gr_stack list \<Rightarrow> gr_stack list run" where
  "advance_stack R s new_stacks = advance R [s] new_stacks"

text \<open>\<open>llama_grammar_accept\<close>: the loop over the stacks of the grammar.\<close>

fun accept_loop :: "gr_rules \<Rightarrow> nat \<Rightarrow> gr_stack list \<Rightarrow> gr_stack list \<Rightarrow> gr_stack list run" where
  "accept_loop R chr [] acc = Some (Inr acc)"
| "accept_loop R chr ([] # ss) acc = accept_loop R chr ss acc"
| "accept_loop R chr ((p # t) # ss) acc =
     (case match_char R p chr of
        Inl e \<Rightarrow> Some (Inl e)
      | Inr (m, p') \<Rightarrow>
          if m then bind_run (advance_stack R (push_pos R p' t) acc) (accept_loop R chr ss)
          else accept_loop R chr ss acc)"

definition grammar_accept :: "gr_rules \<Rightarrow> gr_stack list \<Rightarrow> nat \<Rightarrow> gr_stack list run" where
  "grammar_accept R stacks chr = accept_loop R chr stacks []"

text \<open>Accepting a list of code points, as \<open>llama_grammar_accept_str\<close> does.\<close>

fun accept_all :: "gr_rules \<Rightarrow> gr_stack list \<Rightarrow> nat list \<Rightarrow> gr_stack list run" where
  "accept_all R stacks [] = Some (Inr stacks)"
| "accept_all R stacks (c # cs) = bind_run (grammar_accept R stacks c) (\<lambda>st. accept_all R st cs)"

section \<open>Rejecting candidates\<close>

text \<open>A candidate points into its code points, which end with 0.\<close>

record gr_candidate =
  c_index :: nat
  c_code_points :: "nat list"
  c_off :: nat
  c_partial :: partial_utf8

definition c_head :: "gr_candidate \<Rightarrow> nat" where
  "c_head c = c_code_points c ! c_off c"

text \<open>
  \<open>llama_grammar_reject_candidates_for_stack\<close>; the argument \<open>rec\<close> is the call of
  \<open>llama_grammar_reject_candidates\<close> in it.
\<close>

definition partial_ok :: "gr_rules \<Rightarrow> gr_pos \<Rightarrow> gr_candidate \<Rightarrow> bool" where
  "partial_ok R p c \<longleftrightarrow> n_remain (c_partial c) = 0 \<or> match_partial_char R p (c_partial c) = Inr True"

definition char_ok :: "gr_rules \<Rightarrow> gr_pos \<Rightarrow> gr_candidate \<Rightarrow> bool" where
  "char_ok R p c \<longleftrightarrow> (case match_char R p (c_head c) of Inl e \<Rightarrow> False | Inr (m, p') \<Rightarrow> m)"

definition reject_for_stack ::
  "(gr_stack list \<Rightarrow> gr_candidate list \<Rightarrow> gr_candidate list run) \<Rightarrow> gr_rules \<Rightarrow> gr_stack \<Rightarrow> gr_candidate list
     \<Rightarrow> gr_candidate list run" where
  "reject_for_stack rec R s cands =
     (case s of
        [] \<Rightarrow> Some (Inr (filter (\<lambda>c. c_head c \<noteq> 0 \<or> n_remain (c_partial c) \<noteq> 0) cands))
      | p # t \<Rightarrow>
          (let rejects = filter (\<lambda>c. if c_head c = 0 then \<not> partial_ok R p c else \<not> char_ok R p c) cands;
               next_cands = map (\<lambda>c. c\<lparr>c_off := c_off c + 1\<rparr>) (filter (\<lambda>c. c_head c \<noteq> 0 \<and> char_ok R p c) cands)
           in case match_char R p 0 of
                Inl e \<Rightarrow> Some (Inl e)
              | Inr (m, p') \<Rightarrow>
                  bind_run (advance_stack R (push_pos R p' t) []) (\<lambda>next_stacks.
                  bind_run (rec next_stacks next_cands) (\<lambda>next_rejects.
                    Some (Inr (rejects @ map (\<lambda>c. c\<lparr>c_off := c_off c - 1\<rparr>) next_rejects))))))"

fun reject_stacks ::
  "(gr_stack \<Rightarrow> gr_candidate list \<Rightarrow> gr_candidate list run) \<Rightarrow> gr_stack list \<Rightarrow> gr_candidate list
     \<Rightarrow> gr_candidate list run" where
  "reject_stacks f [] cands = Some (Inr cands)"
| "reject_stacks f (s # ss) cands = bind_run (f s cands) (reject_stacks f ss)"

text \<open>
  \<open>llama_grammar_reject_candidates\<close>. The two functions call each other once for every code point of the
  longest candidate; the first argument bounds the depth, \<open>None\<close> says that the bound was too
  small.
\<close>

fun reject_candidates :: "nat \<Rightarrow> gr_rules \<Rightarrow> gr_stack list \<Rightarrow> gr_candidate list \<Rightarrow> gr_candidate list run" where
  "reject_candidates 0 R stacks cands = None"
| "reject_candidates (Suc k) R stacks cands =
     (if stacks = [] then Some (Inl (Assert_fail ''!stacks.empty()''))
      else if cands = [] then Some (Inr [])
      else reject_stacks (reject_for_stack (reject_candidates k R) R) stacks cands)"

section \<open>Well-formed rules\<close>

definition starts :: "gretype \<Rightarrow> bool" where
  "starts ty \<longleftrightarrow> ty = G_RULE_REF \<or> ty = G_CHAR \<or> ty = G_CHAR_NOT \<or> ty = G_CHAR_ANY"

text \<open>
  What may follow an element: an upper bound follows a single character, an alternative character a
  character or an upper bound; everything else may follow anything.
\<close>

definition follows :: "gr_elem \<Rightarrow> gr_elem \<Rightarrow> bool" where
  "follows e u \<longleftrightarrow>
     (g_type u = G_CHAR_RNG_UPPER \<longrightarrow> g_type e = G_CHAR \<or> g_type e = G_CHAR_NOT \<or> g_type e = G_CHAR_ALT)
     \<and> (g_type u = G_CHAR_ALT \<longrightarrow>
          g_type e = G_CHAR \<or> g_type e = G_CHAR_NOT \<or> g_type e = G_CHAR_ALT \<or> g_type e = G_CHAR_RNG_UPPER)"

definition rule_ok :: "nat \<Rightarrow> gr_elem list \<Rightarrow> bool" where
  "rule_ok n r \<longleftrightarrow> r \<noteq> [] \<and> g_type (last r) = G_END \<and> (\<forall>e \<in> set (butlast r). g_type e \<noteq> G_END)
     \<and> (\<forall>e \<in> set r. g_type e = G_RULE_REF \<longrightarrow> g_value e < n)
     \<and> g_type (hd r) \<noteq> G_CHAR_RNG_UPPER \<and> g_type (hd r) \<noteq> G_CHAR_ALT
     \<and> (\<forall>i. Suc i < length r \<longrightarrow> follows (r ! i) (r ! Suc i))"

definition rules_ok :: "gr_rules \<Rightarrow> bool" where
  "rules_ok R \<longleftrightarrow> (\<forall>r \<in> set R. rule_ok (length R) r)"

text \<open>A position where an element of a definition starts, or at the end of a definition.\<close>

definition in_rules :: "gr_rules \<Rightarrow> gr_pos \<Rightarrow> bool" where
  "in_rules R p \<longleftrightarrow> fst p < length R \<and> snd p < length (R ! fst p)"

definition pos_ok :: "gr_rules \<Rightarrow> gr_pos \<Rightarrow> bool" where
  "pos_ok R p \<longleftrightarrow> in_rules R p \<and> starts (type_at R p)"

definition landing :: "gr_rules \<Rightarrow> gr_pos \<Rightarrow> bool" where
  "landing R p \<longleftrightarrow> in_rules R p \<and> (starts (type_at R p) \<or> is_end_of_sequence (type_at R p))"

definition stack_ok :: "gr_rules \<Rightarrow> gr_stack \<Rightarrow> bool" where
  "stack_ok R s \<longleftrightarrow> (\<forall>p \<in> set s. pos_ok R p)"

text \<open>A stack the engine keeps: empty or positioned at a character range.\<close>

definition at_terminal :: "gr_rules \<Rightarrow> gr_stack \<Rightarrow> bool" where
  "at_terminal R s \<longleftrightarrow> stack_ok R s \<and> (s \<noteq> [] \<longrightarrow> type_at R (hd s) \<noteq> G_RULE_REF)"

lemma elem_at_simps: "elem_at R (r, i) = R ! r ! i" "type_at R (r, i) = g_type (R ! r ! i)"
  by (simp_all add: elem_at_def type_at_def)

lemma rule_okD:
  assumes "rules_ok R" "r < length R"
  shows "R ! r \<noteq> []" "g_type (last (R ! r)) = G_END"
    "\<And>i. Suc i < length (R ! r) \<Longrightarrow> g_type (R ! r ! i) \<noteq> G_END"
    "\<And>i. i < length (R ! r) \<Longrightarrow> g_type (R ! r ! i) = G_RULE_REF \<Longrightarrow> g_value (R ! r ! i) < length R"
    "\<And>i. Suc i < length (R ! r) \<Longrightarrow> follows (R ! r ! i) (R ! r ! Suc i)"
    "g_type (hd (R ! r)) \<noteq> G_CHAR_RNG_UPPER" "g_type (hd (R ! r)) \<noteq> G_CHAR_ALT"
proof -
  have ok: "rule_ok (length R) (R ! r)" using assms by (simp add: rules_ok_def)
  then show "R ! r \<noteq> []" "g_type (last (R ! r)) = G_END" "g_type (hd (R ! r)) \<noteq> G_CHAR_RNG_UPPER" "g_type (hd (R ! r)) \<noteq> G_CHAR_ALT"
    by (simp_all add: rule_ok_def)
  show "Suc i < length (R ! r) \<Longrightarrow> g_type (R ! r ! i) \<noteq> G_END" for i
    using ok nth_mem [of i "butlast (R ! r)"] by (auto simp: rule_ok_def nth_butlast)
  show "i < length (R ! r) \<Longrightarrow> g_type (R ! r ! i) = G_RULE_REF \<Longrightarrow> g_value (R ! r ! i) < length R"
    "Suc i < length (R ! r) \<Longrightarrow> follows (R ! r ! i) (R ! r ! Suc i)" for i
    using ok by (simp_all add: rule_ok_def)
qed

text \<open>The element after one that is not the last: it exists.\<close>

lemma not_last:
  assumes "rules_ok R" "in_rules R p" "type_at R p \<noteq> G_END"
  shows "Suc (snd p) < length (R ! fst p)"
proof (rule ccontr)
  assume "\<not> ?thesis"
  then have "snd p = length (R ! fst p) - 1" using assms(2) by (auto simp: in_rules_def)
  then have "type_at R p = g_type (last (R ! fst p))"
    using rule_okD(1) [OF assms(1), of "fst p"] assms(2) by (simp add: in_rules_def type_at_def elem_at_def last_conv_nth)
  then show False using rule_okD(2) [OF assms(1), of "fst p"] assms(2,3) by (simp add: in_rules_def)
qed

text \<open>After a rule reference or the mark of an alternate comes the start of an element or an end.\<close>

lemma landing_next:
  assumes "rules_ok R" "in_rules R p" "type_at R p = G_RULE_REF \<or> type_at R p = G_ALT \<or> type_at R p = G_CHAR_ANY"
  shows "landing R (step_pos 1 p)"
proof -
  have "Suc (snd p) < length (R ! fst p)" using not_last [OF assms(1,2)] assms(3) by auto
  moreover have "follows (R ! fst p ! snd p) (R ! fst p ! Suc (snd p))"
    using rule_okD(5) [OF assms(1)] calculation assms(2) by (simp add: in_rules_def)
  ultimately show ?thesis
    using assms(2,3) by (cases "g_type (R ! fst p ! Suc (snd p))")
      (auto simp: landing_def in_rules_def step_pos_def type_at_def elem_at_def follows_def starts_def is_end_of_sequence_def)
qed

lemma scan_alts_mem:
  "j \<in> set (scan_alts i es) \<Longrightarrow> \<exists>k < length es. j = i + k + 1 \<and> g_type (es ! k) = G_ALT"
proof (induction es arbitrary: i)
  case (Cons e es)
  show ?case
  proof (cases "j = i + 1 \<and> g_type e = G_ALT")
    case False
    then have "j \<in> set (scan_alts (i + 1) es)" using Cons.prems by (auto split: if_splits)
    then obtain k where "k < length es" "j = i + 1 + k + 1" "g_type (es ! k) = G_ALT" using Cons.IH by blast
    then show ?thesis by (intro exI [of _ "Suc k"]) auto
  qed auto
qed simp

lemma landing_alternate:
  assumes "rules_ok R" "r < length R" "a \<in> set (alternates R r)"
  shows "landing R a \<and> fst a = r"
proof -
  have "landing R (r, 0)"
    using rule_okD(1,6,7) [OF assms(1,2)] assms(2) by (cases "g_type (hd (R ! r))")
      (auto simp: landing_def in_rules_def elem_at_simps hd_conv_nth starts_def is_end_of_sequence_def)
  moreover have "landing R (r, j)" if j: "j \<in> set (scan_alts 0 (R ! r))" for j
  proof -
    obtain k where "k < length (R ! r)" "j = k + 1" "g_type (R ! r ! k) = G_ALT" using scan_alts_mem [OF j] by auto
    then show ?thesis
      using landing_next [OF assms(1), of "(r, k)"] assms(2) by (simp add: in_rules_def elem_at_simps step_pos_def)
  qed
  ultimately show ?thesis using assms(3) by (auto simp: alternates_def)
qed

lemma stack_ok_push: "landing R p \<Longrightarrow> stack_ok R s \<Longrightarrow> stack_ok R (push_pos R p s)"
  by (auto simp: push_pos_def stack_ok_def landing_def pos_ok_def)

lemma stack_ok_expand:
  assumes "rules_ok R" "stack_ok R (p # t)" "type_at R p = G_RULE_REF" "s \<in> set (expand R p t)"
  shows "stack_ok R s"
proof -
  have p: "in_rules R p" "stack_ok R t" using assms(2) by (simp_all add: stack_ok_def pos_ok_def)
  have "g_value (elem_at R p) < length R"
    using rule_okD(4) [OF assms(1), of "fst p" "snd p"] p(1) assms(3) by (simp add: in_rules_def elem_at_def type_at_def)
  moreover obtain a where "a \<in> set (alternates R (g_value (elem_at R p)))" "s = push_pos R a (push_pos R (step_pos 1 p) t)"
    using assms(4) by (auto simp: expand_def)
  ultimately show ?thesis
    using landing_alternate [OF assms(1)] landing_next [OF assms(1) p(1)] assms(3) p(2) by (simp add: stack_ok_push)
qed

text \<open>A character range ends before an element that is not part of it.\<close>

definition tail_ok :: "gr_elem list \<Rightarrow> bool" where
  "tail_ok es \<longleftrightarrow> es \<noteq> [] \<and> g_type (last es) = G_END \<and> (\<forall>e \<in> set (butlast es). g_type e \<noteq> G_END)
     \<and> (\<forall>i. Suc i < length es \<longrightarrow> follows (es ! i) (es ! Suc i))"

lemma tail_ok_Cons: "tail_ok (e # es) \<Longrightarrow> g_type e \<noteq> G_END \<Longrightarrow> tail_ok es \<and> follows e (hd es)"
  by (cases es) (auto simp: tail_ok_def hd_conv_nth nth_Cons' split: if_splits)

lemma tail_ok_drop:
  assumes "rules_ok R" "in_rules R p"
  shows "tail_ok (elems_from R p)"
proof -
  let ?r = "R ! fst p"
  have r: "fst p < length R" "snd p < length ?r" using assms(2) by (simp_all add: in_rules_def)
  have "last (elems_from R p) = last ?r" using r(2) by (simp add: elems_from_def)
  moreover have "g_type e \<noteq> G_END" if e: "e \<in> set (butlast (elems_from R p))" for e
  proof -
    have "e \<in> set (butlast ?r)" using e unfolding elems_from_def butlast_drop by (rule in_set_dropD)
    moreover have "rule_ok (length R) ?r" using assms(1) r(1) by (simp add: rules_ok_def)
    ultimately show ?thesis by (simp add: rule_ok_def)
  qed
  ultimately show ?thesis
    using rule_okD(2,5) [OF assms(1) r(1)] r(2) by (auto simp: tail_ok_def elems_from_def)
qed

lemma match_loop_lands:
  assumes "tail_ok es" "g_type (hd es) = G_CHAR \<or> g_type (hd es) = G_CHAR_NOT \<or> g_type (hd es) = G_CHAR_ALT \<or> g_type (hd es) = G_CHAR_ANY"
    and "match_loop es chr found n = (f, m)"
  shows "n < m \<and> m - n < length es \<and> (starts (g_type (es ! (m - n))) \<or> is_end_of_sequence (g_type (es ! (m - n))))"
  using assms
proof (induction es chr found n rule: match_loop.induct)
  case (1 e u es chr found n)
  have t1: "tail_ok (u # es)" "follows e u" using tail_ok_Cons [of e "u # es"] 1(3,4) by auto
  show ?case
  proof (cases "g_type u = G_CHAR_RNG_UPPER")
    case True
    then have t2: "tail_ok es" "follows u (hd es)" using tail_ok_Cons [OF t1(1)] by auto
    then have ne: "es \<noteq> []" by (auto simp: tail_ok_def)
    let ?found = "found \<or> g_value e \<le> chr \<and> chr \<le> g_value u"
    show ?thesis
    proof (cases "g_type (hd es) = G_CHAR_ALT")
      case alt: True
      have "match_loop es chr ?found (n + 2) = (f, m)" using 1(5) True alt ne by (simp add: Let_def)
      then have "n + 2 < m \<and> m - (n + 2) < length es \<and> (starts (g_type (es ! (m - (n + 2)))) \<or> is_end_of_sequence (g_type (es ! (m - (n + 2)))))"
        using "1.IH"(1) [OF True refl] alt ne t2(1) by simp
      moreover from this have k: "m - n = Suc (Suc (m - (n + 2)))" by auto
      then have "(e # u # es) ! (m - n) = es ! (m - (n + 2))" by (simp only: nth_Cons_Suc)
      ultimately show ?thesis by auto
    next
      case False
      then have m: "m = n + 2" using 1(5) True ne by (auto simp: Let_def)
      then show ?thesis
        using ne False t2(2) True
        by (cases "g_type (hd es)") (auto simp: follows_def starts_def is_end_of_sequence_def hd_conv_nth)
    qed
  next
    case False
    let ?found = "if g_type e = G_CHAR_ANY then True else found \<or> g_value e = chr"
    show ?thesis
    proof (cases "g_type u = G_CHAR_ALT")
      case alt: True
      have "match_loop (u # es) chr ?found (n + 1) = (f, m)" using 1(5) False alt by (simp add: Let_def)
      then have ih: "n + 1 < m \<and> m - (n + 1) < length (u # es)
          \<and> (starts (g_type ((u # es) ! (m - (n + 1)))) \<or> is_end_of_sequence (g_type ((u # es) ! (m - (n + 1)))))"
        using "1.IH"(2) [OF False refl alt] alt t1(1) by auto
      have k: "m - n = Suc (m - (n + 1))" using ih by auto
      then have nth: "(e # u # es) ! (m - n) = (u # es) ! (m - (n + 1))" by (simp only: nth_Cons_Suc)
      have "n < m" "m - n < length (e # u # es)" using ih by auto
      then show ?thesis using ih unfolding nth by blast
    next
      case no: False
      then have "m = n + 1" using 1(5) False by (auto simp: Let_def)
      then show ?thesis using False no by (cases "g_type u") (auto simp: starts_def is_end_of_sequence_def)
    qed
  qed
qed (auto simp: tail_ok_def)

lemma match_loop_length: "snd (match_loop es chr found n) = snd (match_loop es chr' found' n)"
  by (induction es chr found n arbitrary: found' rule: match_loop.induct) (auto simp: Let_def)

text \<open>\<open>match_char\<close> at a character range: it does not fail, and the position after the range does not depend on the character.\<close>

definition after_char :: "gr_rules \<Rightarrow> gr_pos \<Rightarrow> gr_pos" where
  "after_char R p = step_pos (snd (match_loop (elems_from R p) 0 False 0)) p"

lemma match_char_ok:
  assumes "rules_ok R" "pos_ok R p" "type_at R p \<noteq> G_RULE_REF"
  obtains m where "match_char R p c = Inr (m, after_char R p)" "landing R (after_char R p)" "snd p < snd (after_char R p)"
proof -
  let ?es = "elems_from R p"
  have p: "in_rules R p" "starts (type_at R p)" using assms(2) by (simp_all add: pos_ok_def)
  have es: "tail_ok ?es" "g_type (hd ?es) = type_at R p"
    using tail_ok_drop [OF assms(1) p(1)] p(1) by (simp_all add: elems_from_def hd_drop_conv_nth in_rules_def type_at_def elem_at_def)
  obtain f m where ml: "match_loop ?es 0 False 0 = (f, m)" by fastforce
  have m: "0 < m" "m < length ?es" "starts (g_type (?es ! m)) \<or> is_end_of_sequence (g_type (?es ! m))"
    using match_loop_lands [OF es(1) _ ml] es(2) p(2) assms(3) by (auto simp: starts_def)
  have eq: "after_char R p = step_pos m p" by (simp add: after_char_def ml)
  have "landing R (after_char R p)"
    using m p(1) by (auto simp: eq landing_def in_rules_def step_pos_def type_at_def elem_at_def elems_from_def)
  moreover obtain f' where "match_loop ?es c False 0 = (f', m)"
    using match_loop_length [of ?es c False 0 0 False] ml by (metis prod.collapse snd_conv)
  then have "match_char R p c = Inr (f' = is_positive_char (type_at R p), after_char R p)"
    using p(2) assms(3) by (auto simp: match_char_def Let_def eq starts_def is_positive_char_def)
  ultimately show thesis using that m(1) by (simp add: eq step_pos_def)
qed

section \<open>What advancing a stack computes\<close>

definition is_range :: "gretype \<Rightarrow> bool" where
  "is_range ty \<longleftrightarrow> ty = G_CHAR \<or> ty = G_CHAR_NOT \<or> ty = G_CHAR_ANY"

lemma starts_cases: "starts ty \<longleftrightarrow> ty = G_RULE_REF \<or> is_range ty" "is_range ty \<Longrightarrow> ty \<noteq> G_RULE_REF"
  by (auto simp: starts_def is_range_def)

text \<open>The stacks reached by expanding rule references until a character range is on top.\<close>

inductive adv_rel :: "gr_rules \<Rightarrow> gr_stack \<Rightarrow> gr_stack \<Rightarrow> bool" for R where
  ar_nil: "adv_rel R [] []"
| ar_range: "is_range (type_at R p) \<Longrightarrow> adv_rel R (p # t) (p # t)"
| ar_ref: "type_at R p = G_RULE_REF \<Longrightarrow> s \<in> set (expand R p t) \<Longrightarrow> adv_rel R s s' \<Longrightarrow> adv_rel R (p # t) s'"

text \<open>Stacks whose expansion ends.\<close>

inductive ends :: "gr_rules \<Rightarrow> gr_stack \<Rightarrow> bool" for R where
  en_nil: "ends R []"
| en_range: "is_range (type_at R p) \<Longrightarrow> ends R (p # t)"
| en_ref: "type_at R p = G_RULE_REF \<Longrightarrow> (\<And>s. s \<in> set (expand R p t) \<Longrightarrow> ends R s) \<Longrightarrow> ends R (p # t)"

inductive_cases adv_relE: "adv_rel R (p # t) s'"
inductive_cases adv_rel_nilE: "adv_rel R [] s'"

definition adv_set :: "gr_rules \<Rightarrow> gr_stack \<Rightarrow> gr_stack set" where
  "adv_set R s = {s'. adv_rel R s s'}"

lemma adv_set_nil: "adv_set R [] = {[]}"
  by (auto simp: adv_set_def intro: ar_nil elim: adv_rel_nilE)

lemma adv_set_range: "is_range (type_at R p) \<Longrightarrow> adv_set R (p # t) = {p # t}"
  by (auto simp: adv_set_def intro: ar_range elim!: adv_relE dest: starts_cases(2))

lemma adv_set_ref: "type_at R p = G_RULE_REF \<Longrightarrow> adv_set R (p # t) = (\<Union>s \<in> set (expand R p t). adv_set R s)"
  by (auto simp: adv_set_def is_range_def intro: ar_ref elim!: adv_relE)

lemma set_add_stack: "set (add_stack s acc) = insert s (set acc)" "distinct acc \<Longrightarrow> distinct (add_stack s acc)"
  by (auto simp: add_stack_def)

lemma advance_one:
  assumes "ends R s" "rules_ok R" "stack_ok R s"
  shows "\<exists>acc'. (\<forall>rest. advance R (s # rest) acc = advance R rest acc') \<and> set acc' = set acc \<union> adv_set R s
    \<and> (distinct acc \<longrightarrow> distinct acc')"
  using assms
proof (induction arbitrary: acc rule: ends.induct)
  case en_nil
  then show ?case
    by (intro exI [of _ "add_stack [] acc"]) (auto simp: advance.simps [of R "[] # _"] adv_set_nil set_add_stack)
next
  case (en_range p t)
  then show ?case
    by (intro exI [of _ "add_stack (p # t) acc"])
      (auto simp: advance.simps [of R "(p # t) # _"] adv_set_range set_add_stack is_range_def)
next
  case (en_ref p t)
  have all: "\<exists>acc'. (\<forall>rest. advance R (ss @ rest) acc = advance R rest acc') \<and> set acc' = set acc \<union> (\<Union>s \<in> set ss. adv_set R s)
      \<and> (distinct acc \<longrightarrow> distinct acc')" if "set ss \<subseteq> set (expand R p t)" for ss acc
    using that
  proof (induction ss arbitrary: acc)
    case (Cons s ss)
    then have s: "s \<in> set (expand R p t)" by simp
    obtain acc1 where 1: "\<And>rest. advance R (s # rest) acc = advance R rest acc1" "set acc1 = set acc \<union> adv_set R s"
      "distinct acc \<longrightarrow> distinct acc1"
      using en_ref(3) [OF s en_ref(4) stack_ok_expand [OF en_ref(4,5,1) s]] by blast
    obtain acc2 where 2: "\<And>rest. advance R (ss @ rest) acc1 = advance R rest acc2"
      "set acc2 = set acc1 \<union> (\<Union>s \<in> set ss. adv_set R s)" "distinct acc1 \<longrightarrow> distinct acc2"
      using Cons.IH [of acc1] Cons.prems by auto
    show ?case using 1 2 by (intro exI [of _ acc2]) auto
  qed auto
  have p: "in_rules R p" using en_ref(5) by (simp add: stack_ok_def pos_ok_def)
  have "g_value (elem_at R p) < length R"
    using rule_okD(4) [OF en_ref(4), of "fst p" "snd p"] p en_ref(1) by (simp add: in_rules_def elem_at_def type_at_def)
  then have "advance R ((p # t) # rest) acc = advance R (expand R p t @ rest) acc" for rest
    using en_ref(1) by (simp add: advance.simps [of R "(p # t) # rest"])
  then show ?case using all [OF subset_refl, of acc] adv_set_ref [OF en_ref(1), of t] by simp
qed

lemma advance_result:
  assumes "rules_ok R" "\<And>s. s \<in> set todo \<Longrightarrow> ends R s \<and> stack_ok R s"
  obtains res where "advance R todo acc = Some (Inr res)" "set res = set acc \<union> (\<Union>s \<in> set todo. adv_set R s)"
    "distinct acc \<longrightarrow> distinct res"
proof -
  have "\<exists>res. advance R todo acc = Some (Inr res) \<and> set res = set acc \<union> (\<Union>s \<in> set todo. adv_set R s) \<and> (distinct acc \<longrightarrow> distinct res)"
    using assms(2)
  proof (induction todo arbitrary: acc)
    case Nil
    then show ?case by (simp add: advance.simps)
  next
    case (Cons s todo)
    obtain acc1 where 1: "\<And>rest. advance R (s # rest) acc = advance R rest acc1" "set acc1 = set acc \<union> adv_set R s"
      "distinct acc \<longrightarrow> distinct acc1"
      using advance_one [OF _ assms(1), of s acc] Cons.prems [of s] by auto
    then show ?case using Cons.IH [of acc1] Cons.prems by fastforce
  qed
  then show thesis using that by blast
qed

lemma advance_stack_result:
  assumes "rules_ok R" "ends R s" "stack_ok R s"
  shows "\<exists>res. advance_stack R s acc = Some (Inr res) \<and> set res = set acc \<union> adv_set R s"
proof -
  obtain res where "advance R [s] acc = Some (Inr res)" "set res = set acc \<union> (\<Union>s \<in> set [s]. adv_set R s)"
    by (rule advance_result [OF assms(1), of "[s]" acc]) (use assms(2,3) in auto)
  then show ?thesis by (simp add: advance_stack_def)
qed

lemma adv_rel_terminal:
  assumes "adv_rel R s s'" "rules_ok R" "stack_ok R s"
  shows "at_terminal R s'"
  using assms
proof (induction rule: adv_rel.induct)
  case (ar_ref p s t s')
  then show ?case using stack_ok_expand [OF ar_ref(5,6,1,2)] by simp
qed (auto simp: at_terminal_def is_range_def stack_ok_def)

text \<open>Every expansion reaches some stack.\<close>

lemma adv_set_nonempty:
  assumes "ends R s"
  shows "adv_set R s \<noteq> {}"
  using assms
proof (induction rule: ends.induct)
  case (en_ref p t)
  have "expand R p t \<noteq> []" by (simp add: expand_def alternates_def)
  then obtain s where "s \<in> set (expand R p t)" by (meson last_in_set)
  then show ?case using en_ref(1,3) adv_set_ref by fastforce
qed (simp_all add: adv_set_nil adv_set_range)

section \<open>The language of a grammar\<close>

text \<open>
  The code points derived from a position up to the end of its definition, from a rule and from a
  stack: the usual derivations of a context-free grammar.
\<close>

inductive gen :: "gr_rules \<Rightarrow> gr_pos \<Rightarrow> nat list \<Rightarrow> bool" for R where
  gen_end: "is_end_of_sequence (type_at R p) \<Longrightarrow> gen R p []"
| gen_ref: "type_at R p = G_RULE_REF \<Longrightarrow> a \<in> set (alternates R (g_value (elem_at R p))) \<Longrightarrow> gen R a u
    \<Longrightarrow> gen R (step_pos 1 p) v \<Longrightarrow> gen R p (u @ v)"
| gen_char: "match_char R p c = Inr (True, p') \<Longrightarrow> gen R p' v \<Longrightarrow> gen R p (c # v)"

definition gen_rule :: "gr_rules \<Rightarrow> nat \<Rightarrow> nat list \<Rightarrow> bool" where
  "gen_rule R r w \<longleftrightarrow> (\<exists>a \<in> set (alternates R r). gen R a w)"

fun gen_stack :: "gr_rules \<Rightarrow> gr_stack \<Rightarrow> nat list \<Rightarrow> bool" where
  "gen_stack R [] w \<longleftrightarrow> w = []"
| "gen_stack R (p # t) w \<longleftrightarrow> (\<exists>u v. w = u @ v \<and> gen R p u \<and> gen_stack R t v)"

lemma match_char_range: "match_char R p c = Inr r \<Longrightarrow> is_range (type_at R p)"
  by (auto simp: match_char_def is_range_def is_positive_char_def Let_def split: if_splits)

lemma gen_end_iff: "is_end_of_sequence (type_at R p) \<Longrightarrow> gen R p w \<longleftrightarrow> w = []"
  by (subst gen.simps) (auto simp: is_end_of_sequence_def is_range_def dest!: match_char_range)

lemma gen_ref_iff:
  "type_at R p = G_RULE_REF \<Longrightarrow>
   gen R p w \<longleftrightarrow> (\<exists>a \<in> set (alternates R (g_value (elem_at R p))). \<exists>u v. w = u @ v \<and> gen R a u \<and> gen R (step_pos 1 p) v)"
  by (subst gen.simps) (auto simp: is_end_of_sequence_def is_range_def dest!: match_char_range)

lemma gen_range_iff:
  "is_range (type_at R p) \<Longrightarrow> gen R p w \<longleftrightarrow> (\<exists>c p' v. w = c # v \<and> match_char R p c = Inr (True, p') \<and> gen R p' v)"
  by (subst gen.simps) (auto simp: is_end_of_sequence_def is_range_def)

lemma gen_stack_push: "gen_stack R (push_pos R p t) w \<longleftrightarrow> (\<exists>u v. w = u @ v \<and> gen R p u \<and> gen_stack R t v)"
  by (auto simp: push_pos_def gen_end_iff)

lemma gen_stack_expand:
  "type_at R p = G_RULE_REF \<Longrightarrow> gen_stack R (p # t) w \<longleftrightarrow> (\<exists>s \<in> set (expand R p t). gen_stack R s w)"
  by (simp add: expand_def gen_stack_push gen_ref_iff) (metis append_assoc)

lemma gen_stack_adv:
  assumes "ends R s"
  shows "gen_stack R s w \<longleftrightarrow> (\<exists>s' \<in> adv_set R s. gen_stack R s' w)"
  using assms
proof (induction rule: ends.induct)
  case (en_ref p t)
  then show ?case using gen_stack_expand [OF en_ref(1), of t w] adv_set_ref [OF en_ref(1), of t] by simp
qed (simp_all add: adv_set_nil adv_set_range)

section \<open>Accepting code points\<close>

text \<open>The loop of \<open>llama_grammar_init_impl\<close> over the alternates of the start rule.\<close>

definition init_stacks :: "gr_rules \<Rightarrow> nat \<Rightarrow> gr_stack list run" where
  "init_stacks R start = advance R (map (\<lambda>a. push_pos R a []) (alternates R start)) []"

text \<open>A grammar on which \<open>llama_grammar_advance_stack\<close> always returns.\<close>

definition terminating :: "gr_rules \<Rightarrow> bool" where
  "terminating R \<longleftrightarrow> (\<forall>s. stack_ok R s \<longrightarrow> ends R s)"

definition step_set :: "gr_rules \<Rightarrow> nat \<Rightarrow> gr_stack \<Rightarrow> gr_stack set" where
  "step_set R c s =
     (case s of [] \<Rightarrow> {}
      | p # t \<Rightarrow> if \<exists>p'. match_char R p c = Inr (True, p') then adv_set R (push_pos R (after_char R p) t) else {})"

fun run_set :: "gr_rules \<Rightarrow> gr_stack set \<Rightarrow> nat list \<Rightarrow> gr_stack set" where
  "run_set R S [] = S"
| "run_set R S (c # w) = run_set R (\<Union>s \<in> S. step_set R c s) w"

lemma run_set_Union: "run_set R (\<Union>s \<in> S. f s) w = (\<Union>s \<in> S. run_set R (f s) w)"
proof (induction w arbitrary: f)
  case (Cons c w)
  have "(\<Union>s \<in> (\<Union>s \<in> S. f s). step_set R c s) = (\<Union>s \<in> S. \<Union>s' \<in> f s. step_set R c s')" by auto
  then show ?case using Cons.IH by simp
qed simp

lemma run_set_split: "run_set R S w = (\<Union>s \<in> S. run_set R {s} w)"
  using run_set_Union [of R "\<lambda>s. {s}" S w] by simp

lemma at_terminal_range:
  assumes "at_terminal R (p # t)"
  shows "pos_ok R p" "is_range (type_at R p)" "stack_ok R t" "type_at R p \<noteq> G_RULE_REF"
  using assms by (auto simp: at_terminal_def stack_ok_def pos_ok_def starts_cases)

lemma after_char_ok:
  assumes "rules_ok R" "at_terminal R (p # t)"
  shows "stack_ok R (push_pos R (after_char R p) t)"
  using match_char_ok [OF assms(1) at_terminal_range(1,4) [OF assms(2)]] at_terminal_range(3) [OF assms(2)] stack_ok_push by metis

lemma step_set_terminal:
  assumes "rules_ok R" "at_terminal R s" "s' \<in> step_set R c s"
  shows "at_terminal R s'"
  using assms after_char_ok [OF assms(1)] adv_rel_terminal [OF _ assms(1)]
  by (auto simp: step_set_def adv_set_def split: list.splits if_splits)

lemma accept_loop_result:
  assumes R: "rules_ok R" "terminating R" and ss: "\<forall>s \<in> set ss. at_terminal R s"
  shows "\<exists>res. accept_loop R c ss acc = Some (Inr res) \<and> set res = set acc \<union> (\<Union>s \<in> set ss. step_set R c s)"
  using ss
proof (induction ss arbitrary: acc)
  case (Cons s ss)
  show ?case
  proof (cases s)
    case Nil
    then show ?thesis using Cons by (auto simp: step_set_def)
  next
    case (Cons p t)
    have s: "at_terminal R (p # t)" using Cons.prems \<open>s = p # t\<close> by simp
    obtain m where m: "match_char R p c = Inr (m, after_char R p)"
      by (rule match_char_ok [OF R(1) at_terminal_range(1,4) [OF s]])
    show ?thesis
    proof (cases m)
      case True
      let ?s = "push_pos R (after_char R p) t"
      have "ends R ?s \<and> stack_ok R ?s" using R(2) after_char_ok [OF R(1) s] by (simp add: terminating_def)
      then obtain acc' where "advance_stack R ?s acc = Some (Inr acc')" "set acc' = set acc \<union> adv_set R ?s"
        using advance_stack_result [OF R(1), of ?s acc] by auto
      then show ?thesis
        using Cons.IH [of acc'] Cons.prems m True \<open>s = p # t\<close> by (auto simp: step_set_def)
    next
      case False
      then show ?thesis using Cons.IH [of acc] Cons.prems m \<open>s = p # t\<close> by (auto simp: step_set_def)
    qed
  qed
qed simp

lemma accept_all_result:
  assumes R: "rules_ok R" "terminating R" and ss: "\<forall>s \<in> set ss. at_terminal R s"
  shows "\<exists>res. accept_all R ss w = Some (Inr res) \<and> set res = run_set R (set ss) w \<and> (\<forall>s \<in> set res. at_terminal R s)"
  using ss
proof (induction w arbitrary: ss)
  case (Cons c w)
  obtain res where 1: "accept_loop R c ss [] = Some (Inr res)" "set res = (\<Union>s \<in> set ss. step_set R c s)"
    using accept_loop_result [OF R Cons.prems, of c "[]"] by auto
  have "\<forall>s \<in> set res. at_terminal R s" using 1(2) step_set_terminal [OF R(1)] Cons.prems by auto
  then show ?case using Cons.IH [of res] 1 by (simp add: grammar_accept_def)
qed simp

lemma gen_stack_step:
  assumes "rules_ok R" "terminating R" "at_terminal R s"
  shows "gen_stack R s (c # w) \<longleftrightarrow> (\<exists>s' \<in> step_set R c s. gen_stack R s' w)"
proof (cases s)
  case (Cons p t)
  then have s: "at_terminal R (p # t)" using assms(3) by simp
  obtain m where m: "match_char R p c = Inr (m, after_char R p)"
    by (rule match_char_ok [OF assms(1) at_terminal_range(1,4) [OF s]])
  have top: "gen R p u \<longleftrightarrow> (\<exists>c v. u = c # v \<and> (\<exists>p'. match_char R p c = Inr (True, p') \<and> gen R p' v))" for u
    using gen_range_iff [OF at_terminal_range(2) [OF s]] by blast
  have "gen_stack R (p # t) (c # w) \<longleftrightarrow> (\<exists>u v. w = u @ v \<and> gen R p (c # u) \<and> gen_stack R t v)"
  proof
    assume "gen_stack R (p # t) (c # w)"
    then obtain u v where uv: "c # w = u @ v" "gen R p u" "gen_stack R t v" by auto
    moreover from uv(2) obtain u' where "u = hd u # u'" using top by fastforce
    ultimately show "\<exists>u v. w = u @ v \<and> gen R p (c # u) \<and> gen_stack R t v" by (metis append_Cons list.inject)
  next
    assume "\<exists>u v. w = u @ v \<and> gen R p (c # u) \<and> gen_stack R t v"
    then show "gen_stack R (p # t) (c # w)" by (metis append_Cons gen_stack.simps(2))
  qed
  also have "\<dots> \<longleftrightarrow> m \<and> gen_stack R (push_pos R (after_char R p) t) w"
  proof -
    have "gen R p (c # u) \<longleftrightarrow> m \<and> gen R (after_char R p) u" for u
      using top [of "c # u"] m by (auto simp del: split_paired_Ex)
    then show ?thesis by (auto simp: gen_stack_push simp del: split_paired_Ex)
  qed
  also have "\<dots> \<longleftrightarrow> (\<exists>s' \<in> step_set R c (p # t). gen_stack R s' w)"
    using m gen_stack_adv [of R "push_pos R (after_char R p) t" w] after_char_ok [OF assms(1) s] assms(2)
    by (simp add: step_set_def terminating_def)
  finally show ?thesis by (simp add: Cons)
qed (simp add: step_set_def)

lemma gen_stack_run:
  assumes "rules_ok R" "terminating R" "\<forall>s \<in> S. at_terminal R s"
  shows "(\<exists>s \<in> S. gen_stack R s (w @ v)) \<longleftrightarrow> (\<exists>s \<in> run_set R S w. gen_stack R s v)"
  using assms(3)
proof (induction w arbitrary: S)
  case (Cons c w)
  have "(\<exists>s \<in> S. gen_stack R s ((c # w) @ v)) \<longleftrightarrow> (\<exists>s' \<in> (\<Union>s \<in> S. step_set R c s). gen_stack R s' (w @ v))"
    using gen_stack_step [OF assms(1,2)] Cons.prems by auto
  moreover have "\<forall>s' \<in> (\<Union>s \<in> S. step_set R c s). at_terminal R s'" using Cons.prems step_set_terminal [OF assms(1)] by blast
  ultimately show ?case using Cons.IH [of "\<Union>s \<in> S. step_set R c s"] by (simp only: run_set.simps)
qed simp

lemma gen_stack_empty: "at_terminal R s \<Longrightarrow> gen_stack R s [] \<longleftrightarrow> s = []"
  by (cases s) (auto simp: gen_range_iff [OF at_terminal_range(2)])

lemma init_stacks_result:
  assumes R: "rules_ok R" "terminating R" and start: "start < length R"
  obtains st where "init_stacks R start = Some (Inr st)" "\<forall>s \<in> set st. at_terminal R s" "st \<noteq> []" "distinct st"
    "\<forall>w. (\<exists>s \<in> set st. gen_stack R s w) \<longleftrightarrow> gen_rule R start w"
proof -
  let ?init = "map (\<lambda>a. push_pos R a []) (alternates R start)"
  have ok: "ends R s \<and> stack_ok R s" if "s \<in> set ?init" for s
  proof -
    have "stack_ok R s"
      using that landing_alternate [OF R(1) start] by (auto intro!: stack_ok_push simp: stack_ok_def [of R "[]"])
    then show ?thesis using R(2) by (simp add: terminating_def)
  qed
  obtain st where st: "advance R ?init [] = Some (Inr st)" "set st = set [] \<union> (\<Union>s \<in> set ?init. adv_set R s)" "distinct ([] :: gr_stack list) \<longrightarrow> distinct st"
    by (rule advance_result [OF R(1) ok, where acc = "[]"])
  have "(\<exists>s \<in> set st. gen_stack R s w) \<longleftrightarrow> (\<exists>s \<in> set ?init. gen_stack R s w)" for w
    using st(2) gen_stack_adv ok by auto
  then have "(\<exists>s \<in> set st. gen_stack R s w) \<longleftrightarrow> gen_rule R start w" for w
    by (simp add: gen_stack_push gen_rule_def)
  moreover have "at_terminal R s" if "s \<in> set st" for s
    using that st(2) ok adv_rel_terminal [OF _ R(1)] by (auto simp: adv_set_def)
  moreover have "set st \<noteq> {}" using st(2) adv_set_nonempty ok by (auto simp: alternates_def)
  ultimately show thesis using that [of st] st(1,3) by (simp add: init_stacks_def)
qed

section \<open>Rejecting candidates\<close>

text \<open>The code points of a candidate that are still to be read, and when a stack can take them all.\<close>

definition c_rest :: "gr_candidate \<Rightarrow> nat list" where
  "c_rest c = takeWhile (\<lambda>x. x \<noteq> 0) (drop (c_off c) (c_code_points c))"

definition cand_ok :: "gr_candidate \<Rightarrow> bool" where
  "cand_ok c \<longleftrightarrow> 0 \<in> set (drop (c_off c) (c_code_points c))"

definition can_stop :: "gr_rules \<Rightarrow> gr_candidate \<Rightarrow> gr_stack \<Rightarrow> bool" where
  "can_stop R c s \<longleftrightarrow> (case s of [] \<Rightarrow> n_remain (c_partial c) = 0 | p # t \<Rightarrow> partial_ok R p c)"

definition survives :: "gr_rules \<Rightarrow> gr_stack \<Rightarrow> gr_candidate \<Rightarrow> bool" where
  "survives R s c \<longleftrightarrow> (\<exists>s' \<in> run_set R {s} (c_rest c). can_stop R c s')"

lemma cand_cases:
  assumes "cand_ok c"
  shows "c_head c = 0 \<longleftrightarrow> c_rest c = []"
    and "c_head c \<noteq> 0 \<Longrightarrow> c_rest c = c_head c # c_rest (c\<lparr>c_off := c_off c + 1\<rparr>)"
    and "c_head c \<noteq> 0 \<Longrightarrow> cand_ok (c\<lparr>c_off := c_off c + 1\<rparr>)"
proof -
  have "c_off c < length (c_code_points c)" using assms by (auto simp: cand_ok_def intro: ccontr)
  then have d: "drop (c_off c) (c_code_points c) = c_head c # drop (Suc (c_off c)) (c_code_points c)"
    by (simp add: c_head_def Cons_nth_drop_Suc)
  then show "c_head c = 0 \<longleftrightarrow> c_rest c = []"
    and "c_head c \<noteq> 0 \<Longrightarrow> c_rest c = c_head c # c_rest (c\<lparr>c_off := c_off c + 1\<rparr>)"
    and "c_head c \<noteq> 0 \<Longrightarrow> cand_ok (c\<lparr>c_off := c_off c + 1\<rparr>)"
    using assms by (auto simp: c_rest_def cand_ok_def)
qed

lemma survives_nil: "cand_ok c \<Longrightarrow> survives R [] c \<longleftrightarrow> c_head c = 0 \<and> n_remain (c_partial c) = 0"
proof -
  assume c: "cand_ok c"
  have empty: "run_set R {} w = {}" for w by (induction w) auto
  show ?thesis
    using cand_cases [OF c] empty by (cases "c_rest c") (auto simp: survives_def can_stop_def step_set_def)
qed

lemma survives_Cons:
  assumes "rules_ok R" "at_terminal R (p # t)" "cand_ok c"
  shows "survives R (p # t) c \<longleftrightarrow>
    (if c_head c = 0 then partial_ok R p c
     else char_ok R p c \<and> (\<exists>s' \<in> adv_set R (push_pos R (after_char R p) t). survives R s' (c\<lparr>c_off := c_off c + 1\<rparr>)))"
proof (cases "c_head c = 0")
  case True
  then show ?thesis using cand_cases(1) [OF assms(3)] by (simp add: survives_def can_stop_def)
next
  case False
  let ?c = "c\<lparr>c_off := c_off c + 1\<rparr>" and ?A = "adv_set R (push_pos R (after_char R p) t)"
  obtain m where m: "match_char R p (c_head c) = Inr (m, after_char R p)"
    by (rule match_char_ok [OF assms(1) at_terminal_range(1,4) [OF assms(2)]])
  have stop: "can_stop R (c\<lparr>c_off := Suc (c_off c)\<rparr>) s = can_stop R c s" for s
    by (cases s) (auto simp: can_stop_def partial_ok_def)
  have "step_set R (c_head c) (p # t) = (if char_ok R p c then ?A else {})"
    using m by (simp add: step_set_def char_ok_def)
  moreover have "run_set R {} w = {}" for w by (induction w) auto
  ultimately have "survives R (p # t) c \<longleftrightarrow> char_ok R p c \<and> (\<exists>s' \<in> run_set R ?A (c_rest ?c). can_stop R c s')"
    using cand_cases(2) [OF assms(3) False] by (simp add: survives_def)
  also have "(\<exists>s' \<in> run_set R ?A (c_rest ?c). can_stop R c s') \<longleftrightarrow> (\<exists>s \<in> ?A. survives R s ?c)"
    by (subst run_set_split) (auto simp: survives_def stop)
  finally show ?thesis using False by simp
qed


lemma reject_for_stack_result:
  assumes R: "rules_ok R" "terminating R" and s: "at_terminal R s" and cands: "\<forall>c \<in> set cands. cand_ok c"
    and rec: "\<And>st cs. st \<noteq> [] \<Longrightarrow> \<forall>s \<in> set st. at_terminal R s
      \<Longrightarrow> \<forall>c \<in> set cs. \<exists>d \<in> set cands. c_head d \<noteq> 0 \<and> c = d\<lparr>c_off := c_off d + 1\<rparr>
      \<Longrightarrow> \<exists>rej. rec st cs = Some (Inr rej) \<and> set rej = {c \<in> set cs. \<forall>s \<in> set st. \<not> survives R s c}"
  shows "\<exists>rej. reject_for_stack rec R s cands = Some (Inr rej) \<and> set rej = {c \<in> set cands. \<not> survives R s c}"
proof (cases s)
  case Nil
  then show ?thesis using cands by (auto simp: reject_for_stack_def survives_nil)
next
  case (Cons p t)
  then have pt: "at_terminal R (p # t)" using s by simp
  let ?s = "push_pos R (after_char R p) t"
  let ?next = "map (\<lambda>c. c\<lparr>c_off := c_off c + 1\<rparr>) (filter (\<lambda>c. c_head c \<noteq> 0 \<and> char_ok R p c) cands)"
  let ?now = "filter (\<lambda>c. if c_head c = 0 then \<not> partial_ok R p c else \<not> char_ok R p c) cands"
  obtain m where m: "match_char R p 0 = Inr (m, after_char R p)"
    by (rule match_char_ok [OF R(1) at_terminal_range(1,4) [OF pt]])
  have ok: "ends R ?s" "stack_ok R ?s" using R(2) after_char_ok [OF R(1) pt] by (simp_all add: terminating_def)
  obtain st where st: "advance_stack R ?s [] = Some (Inr st)" "set st = adv_set R ?s"
    using advance_stack_result [OF R(1) ok, of "[]"] by auto
  have ne: "st \<noteq> []" using st(2) adv_set_nonempty [OF ok(1)] by auto
  have tm: "\<forall>s \<in> set st. at_terminal R s" using st(2) adv_rel_terminal [OF _ R(1) ok(2)] by (simp add: adv_set_def)
  have nx: "\<forall>c \<in> set ?next. \<exists>d \<in> set cands. c_head d \<noteq> 0 \<and> c = d\<lparr>c_off := c_off d + 1\<rparr>" by auto
  obtain rej where rej: "rec st ?next = Some (Inr rej)" "set rej = {c \<in> set ?next. \<forall>s \<in> set st. \<not> survives R s c}"
    using rec [OF ne tm nx] by blast
  have "set rej = (\<lambda>c. c\<lparr>c_off := c_off c + 1\<rparr>) `
      {c \<in> set cands. c_head c \<noteq> 0 \<and> char_ok R p c \<and> (\<forall>s \<in> adv_set R ?s. \<not> survives R s (c\<lparr>c_off := c_off c + 1\<rparr>))}"
    unfolding rej(2) st(2) by auto
  then have "set (?now @ map (\<lambda>c. c\<lparr>c_off := c_off c - 1\<rparr>) rej) = {c \<in> set cands. \<not> survives R (p # t) c}"
    using cands survives_Cons [OF R(1) pt] by (auto simp: image_image split: if_splits)
  moreover have "reject_for_stack rec R s cands = Some (Inr (?now @ map (\<lambda>c. c\<lparr>c_off := c_off c - 1\<rparr>) rej))"
    using m st(1) rej(1) by (simp add: reject_for_stack_def Cons Let_def)
  ultimately show ?thesis using Cons by blast
qed

lemma reject_stacks_result:
  assumes "\<And>s cs. s \<in> set ss \<Longrightarrow> set cs \<subseteq> C \<Longrightarrow> \<exists>rej. f s cs = Some (Inr rej) \<and> set rej = {c \<in> set cs. \<not> P s c}"
    and "set cs \<subseteq> C"
  shows "\<exists>rej. reject_stacks f ss cs = Some (Inr rej) \<and> set rej = {c \<in> set cs. \<forall>s \<in> set ss. \<not> P s c}"
  using assms
proof (induction ss arbitrary: cs)
  case (Cons s ss)
  obtain rej where 1: "f s cs = Some (Inr rej)" "set rej = {c \<in> set cs. \<not> P s c}" using Cons.prems by (meson list.set_intros(1))
  have "\<exists>rej'. reject_stacks f ss rej = Some (Inr rej') \<and> set rej' = {c \<in> set rej. \<forall>s \<in> set ss. \<not> P s c}"
    by (rule Cons.IH) (use Cons.prems 1 in auto)
  then show ?case using 1 by auto
qed auto

text \<open>Enough depth for the longest candidate gives the exact set of candidates that no stack can take.\<close>

lemma reject_candidates_result:
  assumes R: "rules_ok R" "terminating R"
    and "stacks \<noteq> []" "\<forall>s \<in> set stacks. at_terminal R s" "0 < k" "\<forall>c \<in> set cands. cand_ok c \<and> length (c_rest c) + 1 < k"
  shows "\<exists>rej. reject_candidates k R stacks cands = Some (Inr rej) \<and> set rej = {c \<in> set cands. \<forall>s \<in> set stacks. \<not> survives R s c}"
  using assms(3-)
proof (induction k arbitrary: stacks cands)
  case (Suc k)
  show ?case
  proof (cases "cands = []")
    case True
    then show ?thesis using Suc.prems(1) by simp
  next
    case False
    then have k: "0 < k" using Suc.prems(4) by (cases cands) auto
    have "\<exists>rej. reject_for_stack (reject_candidates k R) R s cs = Some (Inr rej) \<and> set rej = {c \<in> set cs. \<not> survives R s c}"
      if "s \<in> set stacks" "set cs \<subseteq> set cands" for s cs
    proof (rule reject_for_stack_result [OF R])
      show "at_terminal R s" "\<forall>c \<in> set cs. cand_ok c" using that Suc.prems by auto
      show "\<exists>rej. reject_candidates k R st cs' = Some (Inr rej) \<and> set rej = {c \<in> set cs'. \<forall>s \<in> set st. \<not> survives R s c}"
        if st: "st \<noteq> []" "\<forall>s \<in> set st. at_terminal R s" "\<forall>c \<in> set cs'. \<exists>d \<in> set cs. c_head d \<noteq> 0 \<and> c = d\<lparr>c_off := c_off d + 1\<rparr>" for st cs'
      proof (rule Suc.IH [OF st(1,2) k], rule ballI)
        fix c assume "c \<in> set cs'"
        then obtain d where d: "d \<in> set cands" "c_head d \<noteq> 0" "c = d\<lparr>c_off := c_off d + 1\<rparr>"
          using st(3) \<open>set cs \<subseteq> set cands\<close> by blast
        then have "cand_ok d" "length (c_rest d) < k" using Suc.prems(4) by auto
        then show "cand_ok c \<and> length (c_rest c) + 1 < k" using cand_cases(2,3) [OF \<open>cand_ok d\<close> d(2)] d(3) by simp
      qed
    qed
    then show ?thesis
      using reject_stacks_result [where C = "set cands" and P = "survives R"] False Suc.prems(1) by simp
  qed
qed simp

end
