(* ===== verification/GrammarLeft.thy ===== *)
theory GrammarLeft
  imports Grammar
begin

text \<open>
  The check for left recursion, \<open>llama_grammar_detect_left_recursion\<close> in
  \<open>src/llama-grammar.cpp\<close>, and the construction of a grammar from its rules,
  \<open>llama_grammar_init_impl\<close>. The lemmas show what the check decides, when passing it makes the
  engine of theory \<open>Grammar\<close> terminate, and a grammar that passes it and on which the engine does
  not terminate.
\<close>

section \<open>The check\<close>

record left_state =
  rules_visited :: "bool list"
  rules_in_progress :: "bool list"
  rules_may_be_empty :: "bool list"

text \<open>The first loop: is there an end of sequence at the start of an alternate?\<close>

fun has_empty_alt :: "gr_elem list \<Rightarrow> bool \<Rightarrow> bool" where
  "has_empty_alt [] at_rule_start = False"
| "has_empty_alt (e # es) at_rule_start =
     (if is_end_of_sequence (g_type e) then at_rule_start \<or> has_empty_alt es True else has_empty_alt es False)"

text \<open>The second loop; \<open>rec\<close> is the recursive call.\<close>

fun detect_loop ::
  "(nat \<Rightarrow> left_state \<Rightarrow> (bool \<times> left_state) run) \<Rightarrow> gr_elem list \<Rightarrow> bool \<Rightarrow> left_state \<Rightarrow> (bool \<times> left_state) run" where
  "detect_loop rec [] recurse_into_nonterminal st = Some (Inr (False, st))"
| "detect_loop rec (e # es) recurse_into_nonterminal st =
     (if g_type e = G_RULE_REF \<and> recurse_into_nonterminal then
        bind_run (rec (g_value e) st) (\<lambda>(b, st').
          if b then Some (Inr (True, st')) else detect_loop rec es (rules_may_be_empty st' ! g_value e) st')
      else if is_end_of_sequence (g_type e) then detect_loop rec es True st
      else detect_loop rec es False st)"

text \<open>
  \<open>llama_grammar_detect_left_recursion\<close>. The recursion goes at most one level deeper for every rule that is
  not in progress; the first argument bounds the depth.
\<close>

fun detect_left_recursion :: "nat \<Rightarrow> gr_rules \<Rightarrow> nat \<Rightarrow> left_state \<Rightarrow> (bool \<times> left_state) run" where
  "detect_left_recursion 0 R r st = None"
| "detect_left_recursion (Suc k) R r st =
     (if length R \<le> r then Some (Inl Out_of_range)
      else if rules_in_progress st ! r then Some (Inr (True, st))
      else
        let st1 = st\<lparr>rules_in_progress := (rules_in_progress st)[r := True]\<rparr>;
            st2 = (if has_empty_alt (R ! r) True then st1\<lparr>rules_may_be_empty := (rules_may_be_empty st1)[r := True]\<rparr> else st1)
        in bind_run (detect_loop (detect_left_recursion k R) (R ! r) True st2) (\<lambda>(b, st3).
             if b then Some (Inr (True, st3))
             else Some (Inr (False, st3\<lparr>rules_in_progress := (rules_in_progress st3)[r := False],
                                        rules_visited := (rules_visited st3)[r := True]\<rparr>))))"

text \<open>The loop of \<open>llama_grammar_init_impl\<close> over the rules; \<open>True\<close> says that left recursion was detected.\<close>

fun check_rules :: "gr_rules \<Rightarrow> nat list \<Rightarrow> left_state \<Rightarrow> bool run" where
  "check_rules R [] st = Some (Inr False)"
| "check_rules R (i # is) st =
     (if rules_visited st ! i then check_rules R is st
      else bind_run (detect_left_recursion (length R + 1) R i st) (\<lambda>(b, st').
             if b then Some (Inr True) else check_rules R is st'))"

definition no_left_state :: "nat \<Rightarrow> left_state" where
  "no_left_state n = \<lparr>rules_visited = replicate n False, rules_in_progress = replicate n False, rules_may_be_empty = replicate n False\<rparr>"

definition left_recursive :: "gr_rules \<Rightarrow> bool run" where
  "left_recursive R = check_rules R [0..<length R] (no_left_state (length R))"

text \<open>
  \<open>llama_grammar_init_impl\<close> from rules: every rule is copied up to its first \<open>END\<close>; the result is the rules
  and the stacks of the grammar, or \<open>nullptr\<close>.
\<close>

definition copy_rule :: "gr_elem list \<Rightarrow> gr_elem list" where
  "copy_rule r = takeWhile (\<lambda>e. g_type e \<noteq> G_END) r @ [\<lparr>g_type = G_END, g_value = 0\<rparr>]"

definition grammar_init :: "gr_rules \<Rightarrow> nat \<Rightarrow> (gr_rules \<times> gr_stack list) option run" where
  "grammar_init rules start_rule_index =
     (let vec_rules = map copy_rule rules in
      bind_run (left_recursive vec_rules) (\<lambda>b.
        if b then Some (Inr None)
        else if length vec_rules \<le> start_rule_index then Some (Inl Out_of_range)
        else bind_run (init_stacks vec_rules start_rule_index) (\<lambda>stacks. Some (Inr (Some (vec_rules, stacks))))))"

section \<open>What the check decides\<close>

text \<open>
  The rules the second loop recurses into, when \<open>N\<close> says which rules may be empty, and the relation
  between rules and the rules their alternates start with.
\<close>

fun left_refs :: "(nat \<Rightarrow> bool) \<Rightarrow> gr_elem list \<Rightarrow> bool \<Rightarrow> nat list" where
  "left_refs N [] recurse = []"
| "left_refs N (e # es) recurse =
     (if g_type e = G_RULE_REF \<and> recurse then g_value e # left_refs N es (N (g_value e))
      else left_refs N es (is_end_of_sequence (g_type e)))"

definition directly_empty :: "gr_rules \<Rightarrow> nat \<Rightarrow> bool" where
  "directly_empty R r \<longleftrightarrow> has_empty_alt (R ! r) True"

definition left_call :: "gr_rules \<Rightarrow> nat \<Rightarrow> nat \<Rightarrow> bool" where
  "left_call R r r' \<longleftrightarrow> r < length R \<and> r' \<in> set (left_refs (directly_empty R) (R ! r) True)"

text \<open>A rule from which no chain of left calls is infinite.\<close>

abbreviation left_acc :: "gr_rules \<Rightarrow> nat \<Rightarrow> bool" where
  "left_acc R \<equiv> Wellfounded.accp (\<lambda>r' r. left_call R r r')"

text \<open>The flags that are set are right, and all vectors have one entry for every rule.\<close>

definition left_ok :: "gr_rules \<Rightarrow> left_state \<Rightarrow> bool" where
  "left_ok R st \<longleftrightarrow> length (rules_visited st) = length R \<and> length (rules_in_progress st) = length R
     \<and> length (rules_may_be_empty st) = length R \<and> (\<forall>r < length R. rules_may_be_empty st ! r \<longrightarrow> directly_empty R r)
     \<and> (\<forall>r < length R. rules_visited st ! r \<longrightarrow> left_acc R r)"

text \<open>A left call from \<open>r\<close> leads into a cycle or to a rule in progress.\<close>

definition left_cycle :: "gr_rules \<Rightarrow> bool list \<Rightarrow> nat \<Rightarrow> bool" where
  "left_cycle R busy r \<longleftrightarrow> (\<exists>q. (left_call R)\<^sup>*\<^sup>* r q \<and> (busy ! q \<or> (left_call R)\<^sup>+\<^sup>+ q q))"

text \<open>
  What a call or a loop leaves behind: if it found nothing, the rules in progress are as before and flags were
  only added.
\<close>

definition left_keeps :: "gr_rules \<Rightarrow> left_state \<Rightarrow> bool \<Rightarrow> left_state \<Rightarrow> bool" where
  "left_keeps R st b st' \<longleftrightarrow> left_ok R st' \<and> (\<not> b \<longrightarrow> rules_in_progress st' = rules_in_progress st
     \<and> (\<forall>q < length R. rules_may_be_empty st ! q \<longrightarrow> rules_may_be_empty st' ! q))"

definition left_post :: "gr_rules \<Rightarrow> nat \<Rightarrow> left_state \<Rightarrow> bool \<Rightarrow> left_state \<Rightarrow> bool" where
  "left_post R r st b st' \<longleftrightarrow> left_keeps R st b st' \<and> (if b then left_cycle R (rules_in_progress st) r
     else left_acc R r \<and> rules_visited st' ! r \<and> (rules_may_be_empty st' ! r \<longleftrightarrow> directly_empty R r))"

lemma rules_ok_refs: "rules_ok R \<Longrightarrow> r < length R \<Longrightarrow> \<forall>e \<in> set (R ! r). g_type e = G_RULE_REF \<longrightarrow> g_value e < length R"
  unfolding rules_ok_def rule_ok_def by (meson nth_mem)

lemma left_call_range: "rules_ok R \<Longrightarrow> left_call R r r' \<Longrightarrow> r < length R \<and> r' < length R"
proof -
  have "r' \<in> set (left_refs N es b) \<Longrightarrow> \<exists>e \<in> set es. g_type e = G_RULE_REF \<and> g_value e = r'" for N es b
    by (induction N es b rule: left_refs.induct) (auto split: if_splits)
  then show "rules_ok R \<Longrightarrow> left_call R r r' \<Longrightarrow> r < length R \<and> r' < length R"
    unfolding left_call_def rules_ok_def rule_ok_def by (metis nth_mem)
qed

lemma left_keeps_trans: "left_keeps R st False st1 \<Longrightarrow> left_keeps R st1 b st2 \<Longrightarrow> left_keeps R st b st2"
  by (auto simp: left_keeps_def)

lemma detect_loop_result:
  assumes rec: "\<And>r st. r < length R \<Longrightarrow> left_ok R st \<Longrightarrow> rules_in_progress st = busy
      \<Longrightarrow> \<exists>b st'. rec r st = Some (Inr (b, st')) \<and> left_post R r st b st'"
    and "\<forall>e \<in> set es. g_type e = G_RULE_REF \<longrightarrow> g_value e < length R" "left_ok R st" "rules_in_progress st = busy"
  shows "\<exists>b st'. detect_loop rec es recurse st = Some (Inr (b, st')) \<and> left_keeps R st b st'
    \<and> (if b then \<exists>r \<in> set (left_refs (directly_empty R) es recurse). left_cycle R busy r
       else \<forall>r \<in> set (left_refs (directly_empty R) es recurse). left_acc R r)"
  using assms(2-)
proof (induction es arbitrary: recurse st)
  case Nil
  then show ?case by (intro exI [of _ False]) (simp add: left_keeps_def)
next
  case (Cons e es)
  show ?case
  proof (cases "g_type e = G_RULE_REF \<and> recurse")
    case True
    then have e: "g_value e < length R" using Cons.prems(1) by simp
    obtain b st1 where 1: "rec (g_value e) st = Some (Inr (b, st1))" "left_post R (g_value e) st b st1"
      using rec [OF e Cons.prems(2,3)] by blast
    show ?thesis
    proof (cases b)
      case b: True
      then show ?thesis using 1 True Cons.prems(3) by (auto simp: left_post_def)
    next
      case False
      then have st1: "left_ok R st1" "rules_in_progress st1 = busy" "left_keeps R st False st1"
          "rules_may_be_empty st1 ! g_value e \<longleftrightarrow> directly_empty R (g_value e)" "left_acc R (g_value e)"
        using 1(2) Cons.prems(3) by (auto simp: left_post_def left_keeps_def)
      obtain b2 st2 where 2: "detect_loop rec es (directly_empty R (g_value e)) st1 = Some (Inr (b2, st2))" "left_keeps R st1 b2 st2"
        "if b2 then \<exists>r \<in> set (left_refs (directly_empty R) es (directly_empty R (g_value e))). left_cycle R busy r
         else \<forall>r \<in> set (left_refs (directly_empty R) es (directly_empty R (g_value e))). left_acc R r"
        using Cons.IH [OF _ st1(1,2)] Cons.prems(1) by (metis list.set_intros(2))
      have "detect_loop rec (e # es) recurse st = Some (Inr (b2, st2))" using True False 1(1) 2(1) st1(4) by simp
      moreover have "left_keeps R st b2 st2" by (rule left_keeps_trans [OF st1(3) 2(2)])
      ultimately show ?thesis using 2(3) True st1(5) by (intro exI [of _ b2] exI [of _ st2]) (auto split: if_splits)
    qed
  next
    case False
    then show ?thesis
      using Cons.IH [OF _ Cons.prems(2,3), of "is_end_of_sequence (g_type e)"] Cons.prems(1) by (auto split: if_splits)
  qed
qed


lemma filter_Not_update:
  assumes "r < length xs" "\<not> xs ! r"
  shows "length (filter Not (xs[r := True])) < length (filter Not xs)"
proof -
  have "xs = take r xs @ False # drop (Suc r) xs" using assms by (metis (full_types) id_take_nth_drop)
  then have "filter Not xs = filter Not (take r xs) @ False # filter Not (drop (Suc r) xs)" by (metis filter.simps(2) filter_append)
  then show ?thesis using assms(1) by (simp add: upd_conv_take_nth_drop)
qed

lemma left_cycle_step:
  assumes "left_call R r r'" "left_cycle R (busy[r := True]) r'" "r < length busy"
  shows "left_cycle R busy r"
proof -
  obtain q where q: "(left_call R)\<^sup>*\<^sup>* r' q" "busy[r := True] ! q \<or> (left_call R)\<^sup>+\<^sup>+ q q"
    using assms(2) by (auto simp: left_cycle_def)
  have rq: "(left_call R)\<^sup>+\<^sup>+ r q" using assms(1) q(1) by (metis rtranclp_into_tranclp2)
  show ?thesis
  proof (cases "q = r")
    case True
    then show ?thesis using rq by (auto simp: left_cycle_def)
  next
    case False
    then show ?thesis using q(2) rq unfolding left_cycle_def by (metis nth_list_update_neq tranclp_into_rtranclp)
  qed
qed

lemma detect_result:
  assumes "rules_ok R" "r < length R" "left_ok R st" "length (filter Not (rules_in_progress st)) < k"
  shows "\<exists>b st'. detect_left_recursion k R r st = Some (Inr (b, st')) \<and> left_post R r st b st'"
  using assms(2-)
proof (induction k arbitrary: r st)
  case (Suc k)
  let ?busy = "rules_in_progress st"
  show ?case
  proof (cases "?busy ! r")
    case True
    then have "left_cycle R ?busy r" by (auto simp: left_cycle_def)
    then show ?thesis using True Suc.prems by (auto simp: left_post_def left_keeps_def)
  next
    case False
    have len: "length ?busy = length R" using Suc.prems(2) by (simp add: left_ok_def)
    define st1 where "st1 = st\<lparr>rules_in_progress := ?busy[r := True]\<rparr>"
    define st2 where "st2 = (if has_empty_alt (R ! r) True then st1\<lparr>rules_may_be_empty := (rules_may_be_empty st1)[r := True]\<rparr> else st1)"
    have unf: "detect_left_recursion (Suc k) R r st = bind_run (detect_loop (detect_left_recursion k R) (R ! r) True st2)
        (\<lambda>(b, st3). if b then Some (Inr (True, st3))
          else Some (Inr (False, st3\<lparr>rules_in_progress := (rules_in_progress st3)[r := False],
                                     rules_visited := (rules_visited st3)[r := True]\<rparr>)))"
      using False Suc.prems(1) by (simp add: st1_def st2_def Let_def)
    have st2: "left_ok R st2" "rules_in_progress st2 = ?busy[r := True]" "directly_empty R r \<Longrightarrow> rules_may_be_empty st2 ! r"
        "\<forall>q < length R. rules_may_be_empty st ! q \<longrightarrow> rules_may_be_empty st2 ! q"
      using Suc.prems(1,2) by (auto simp: left_ok_def st1_def st2_def directly_empty_def nth_list_update)
    have "\<exists>b st'. detect_loop (detect_left_recursion k R) (R ! r) True st2 = Some (Inr (b, st')) \<and> left_keeps R st2 b st'
      \<and> (if b then \<exists>r' \<in> set (left_refs (directly_empty R) (R ! r) True). left_cycle R (?busy[r := True]) r'
         else \<forall>r' \<in> set (left_refs (directly_empty R) (R ! r) True). left_acc R r')"
    proof (rule detect_loop_result [OF _ _ st2(1,2)])
      show "\<exists>b st'. detect_left_recursion k R q s = Some (Inr (b, st')) \<and> left_post R q s b st'"
        if "q < length R" "left_ok R s" "rules_in_progress s = ?busy[r := True]" for q s
        using Suc.IH [OF that(1,2)] that(3) filter_Not_update [of r ?busy] False Suc.prems(1,3) len by simp
      show "\<forall>e \<in> set (R ! r). g_type e = G_RULE_REF \<longrightarrow> g_value e < length R"
        by (rule rules_ok_refs [OF assms(1) Suc.prems(1)])
    qed
    then obtain b st3 where 3: "detect_loop (detect_left_recursion k R) (R ! r) True st2 = Some (Inr (b, st3))" "left_keeps R st2 b st3"
      "if b then \<exists>r' \<in> set (left_refs (directly_empty R) (R ! r) True). left_cycle R (?busy[r := True]) r'
       else \<forall>r' \<in> set (left_refs (directly_empty R) (R ! r) True). left_acc R r'"
      by blast
    show ?thesis
    proof (cases b)
      case True
      then have "left_cycle R ?busy r" using 3(3) left_cycle_step Suc.prems(1) len by (metis left_call_def)
      then have "left_post R r st b st3" using 3(2) True by (simp add: left_post_def left_keeps_def)
      moreover have "detect_left_recursion (Suc k) R r st = Some (Inr (b, st3))"
        using 3(1) True unfolding unf by simp
      ultimately show ?thesis by blast
    next
      case nb: False
      let ?st = "st3\<lparr>rules_in_progress := (rules_in_progress st3)[r := False], rules_visited := (rules_visited st3)[r := True]\<rparr>"
      have acc: "left_acc R r" by (rule accp.intros) (use 3(3) nb in \<open>simp add: left_call_def\<close>)
      have k3: "left_ok R st3" "rules_in_progress st3 = ?busy[r := True]" 
          "\<forall>q < length R. rules_may_be_empty st2 ! q \<longrightarrow> rules_may_be_empty st3 ! q"
        using 3(2) nb st2(2) by (auto simp: left_keeps_def)
      have "left_ok R ?st" using k3(1) acc Suc.prems(1) by (auto simp: left_ok_def nth_list_update)
      moreover have "rules_in_progress ?st = ?busy" using k3(2) False by (simp add: list_update_same_conv Suc.prems(1) len)
      moreover have "rules_may_be_empty ?st ! r \<longleftrightarrow> directly_empty R r" "rules_visited ?st ! r"
        using k3(1,3) st2(3) Suc.prems(1) by (auto simp: left_ok_def)
      ultimately have "left_post R r st False ?st"
        using acc st2(4) k3(3) by (auto simp: left_post_def left_keeps_def)
      moreover have "detect_left_recursion (Suc k) R r st = Some (Inr (False, ?st))"
        using 3(1) nb unfolding unf by simp
      ultimately show ?thesis by blast
    qed
  qed
qed simp

lemma check_rules_result:
  assumes "rules_ok R" "set is \<subseteq> {..<length R}" "left_ok R st" "\<forall>r < length R. \<not> rules_in_progress st ! r"
  shows "\<exists>b. check_rules R is st = Some (Inr b)
    \<and> (if b then \<exists>q. (left_call R)\<^sup>+\<^sup>+ q q else \<forall>r \<in> set is. left_acc R r)"
  using assms(2-)
proof (induction "is" arbitrary: st)
  case (Cons i "is")
  show ?case
  proof (cases "rules_visited st ! i")
    case True
    then have "left_acc R i" using Cons.prems(1,2) by (simp add: left_ok_def)
    then show ?thesis using Cons.IH [of st] Cons.prems True by (auto split: if_splits)
  next
    case False
    have "length (filter Not (rules_in_progress st)) < length R + 1"
      using length_filter_le [of Not "rules_in_progress st"] Cons.prems(2) unfolding left_ok_def by linarith
    then obtain b st' where d: "detect_left_recursion (length R + 1) R i st = Some (Inr (b, st'))" "left_post R i st b st'"
      using detect_result [OF assms(1) _ Cons.prems(2)] Cons.prems(1) by (metis insert_subset lessThan_iff list.simps(15))
    show ?thesis
    proof (cases b)
      case True
      have "\<not> rules_in_progress st ! q" if "(left_call R)\<^sup>*\<^sup>* i q" for q
        using that Cons.prems(1,3) left_call_range [OF assms(1)] by (induction rule: rtranclp_induct) auto
      then have "\<exists>q. (left_call R)\<^sup>+\<^sup>+ q q" using d(2) True by (auto simp: left_post_def left_cycle_def)
      then show ?thesis using d(1) True False by (auto simp del: detect_left_recursion.simps)
    next
      case b: False
      then have "left_ok R st'" "rules_in_progress st' = rules_in_progress st" "left_acc R i"
        using d(2) by (auto simp: left_post_def left_keeps_def)
      then show ?thesis using Cons.IH [of st'] Cons.prems d(1) b False
        by (auto split: if_splits simp del: detect_left_recursion.simps)
    qed
  qed
qed (auto intro: exI [of _ False])

lemma left_acc_no_cycle: "left_acc R r \<Longrightarrow> \<not> (left_call R)\<^sup>+\<^sup>+ r r"
proof (induction rule: accp.induct)
  case (accI r)
  show ?case
  proof
    assume "(left_call R)\<^sup>+\<^sup>+ r r"
    then obtain y where "left_call R r y" "(left_call R)\<^sup>*\<^sup>* y r" by (meson tranclpD)
    then show False using accI by (metis rtranclp_into_tranclp1)
  qed
qed

text \<open>The check always returns, and it finds exactly the cycles of left calls.\<close>

lemma left_recursive_result:
  assumes "rules_ok R"
  shows "left_recursive R = Some (Inr (\<exists>q. (left_call R)\<^sup>+\<^sup>+ q q))"
    and "left_recursive R = Some (Inr False) \<Longrightarrow> r < length R \<Longrightarrow> left_acc R r"
proof -
  have "left_ok R (no_left_state (length R))" "\<forall>r < length R. \<not> rules_in_progress (no_left_state (length R)) ! r"
    by (simp_all add: left_ok_def no_left_state_def)
  then obtain b where b: "left_recursive R = Some (Inr b)" "if b then \<exists>q. (left_call R)\<^sup>+\<^sup>+ q q else \<forall>r < length R. left_acc R r"
    using check_rules_result [OF assms, of "[0..<length R]" "no_left_state (length R)"]
    unfolding left_recursive_def by (fastforce split: if_splits)
  have "q < length R" if "(left_call R)\<^sup>+\<^sup>+ q q" for q using that left_call_range [OF assms] by (meson tranclpD)
  then show "left_recursive R = Some (Inr (\<exists>q. (left_call R)\<^sup>+\<^sup>+ q q))" using b left_acc_no_cycle by (auto split: if_splits)
  show "left_recursive R = Some (Inr False) \<Longrightarrow> r < length R \<Longrightarrow> left_acc R r" using b by simp
qed


section \<open>When passing the check makes the engine terminate\<close>

text \<open>
  The check knows that a rule may be empty only when one of its alternates has no elements. It is
  right about all rules when every rule that derives the empty string is of this kind.
\<close>

definition empty_known :: "gr_rules \<Rightarrow> bool" where
  "empty_known R \<longleftrightarrow> (\<forall>r < length R. gen_rule R r [] \<longrightarrow> directly_empty R r)"

text \<open>
  Left calls when \<open>E\<close> says which rules may be empty; a grammar is without left recursion if no rule calls itself
  on the left through rules that derive the empty string.
\<close>

definition left_step :: "(nat \<Rightarrow> bool) \<Rightarrow> gr_rules \<Rightarrow> nat \<Rightarrow> nat \<Rightarrow> bool" where
  "left_step E R r r' \<longleftrightarrow> r < length R \<and> r' \<in> set (left_refs E (R ! r) True)"

definition no_left_recursion :: "gr_rules \<Rightarrow> bool" where
  "no_left_recursion R \<longleftrightarrow> \<not> (\<exists>q. (left_step (\<lambda>r. gen_rule R r []) R)\<^sup>+\<^sup>+ q q)"

lemma left_call_step: "left_call R = left_step (directly_empty R) R"
  by (simp add: fun_eq_iff left_call_def left_step_def)

lemma tranclp_le:
  assumes "tranclp r x y" "r \<le> s"
  shows "tranclp s x y"
  using assms(1) by (induction rule: tranclp_induct) (use assms(2) in \<open>blast intro: tranclp.intros\<close>)+

lemma left_refs_mono:
  "(\<And>e. e \<in> set es \<Longrightarrow> g_type e = G_RULE_REF \<Longrightarrow> N (g_value e) \<Longrightarrow> N' (g_value e)) \<Longrightarrow> b \<le> b' \<Longrightarrow>
   set (left_refs N es b) \<subseteq> set (left_refs N' es b')"
proof (induction es arbitrary: b b')
  case (Cons e es)
  have sub: "set (left_refs N es x) \<subseteq> set (left_refs N' es x')" if "x \<le> x'" for x x'
    using Cons.IH [OF _ that] Cons.prems(1) by simp
  show ?case
  proof (cases "g_type e = G_RULE_REF \<and> b")
    case True
    then show ?thesis using sub [of "N (g_value e)" "N' (g_value e)"] Cons.prems by auto
  next
    case False
    then show ?thesis
      using sub [of "is_end_of_sequence (g_type e)" "is_end_of_sequence (g_type e)"] sub [of False "N' (g_value e)"]
      by (auto simp: is_end_of_sequence_def)
  qed
qed simp

lemma left_step_mono:
  assumes "rules_ok R" "\<And>q. q < length R \<Longrightarrow> N q \<Longrightarrow> N' q" "left_step N R r r'"
  shows "left_step N' R r r'"
  using left_refs_mono [of "R ! r" N N' True True] rules_ok_refs [OF assms(1)] assms(2,3) by (auto simp: left_step_def)

lemma left_step_range: "rules_ok R \<Longrightarrow> left_step E R r r' \<Longrightarrow> r < length R \<and> r' < length R"
proof -
  have "r' \<in> set (left_refs N es b) \<Longrightarrow> \<exists>e \<in> set es. g_type e = G_RULE_REF \<and> g_value e = r'" for N es b
    by (induction N es b rule: left_refs.induct) (auto split: if_splits)
  then show "rules_ok R \<Longrightarrow> left_step E R r r' \<Longrightarrow> r < length R \<and> r' < length R"
    using rules_ok_refs by (fastforce simp: left_step_def)
qed

lemma left_step_acc:
  assumes "rules_ok R" "\<not> (\<exists>q. (left_step E R)\<^sup>+\<^sup>+ q q)"
  shows "Wellfounded.accp (\<lambda>r' r. left_step E R r r') r"
proof -
  let ?S = "{(y, x). left_step E R x y}"
  have "finite ?S"
    by (rule finite_subset [of _ "{..<length R} \<times> {..<length R}"]) (use left_step_range [OF assms(1)] in auto)
  moreover have "acyclic ?S"
  proof -
    have "(x, x) \<notin> {(x, y). left_step E R x y}\<^sup>+" for x using assms(2) by (simp add: tranclp_unfold)
    moreover have "?S = {(x, y). left_step E R x y}\<inverse>" by auto
    ultimately show ?thesis by (simp add: acyclic_def trancl_converse)
  qed
  ultimately have "wf ?S" by (rule finite_acyclic_wf)
  then have "wfp (\<lambda>r' r. left_step E R r r')" by (simp add: wfp_def)
  then show ?thesis by (rule accp_wfpD)
qed

text \<open>A rule with an empty alternate derives the empty string, so the check never reports a grammar without left recursion.\<close>

lemma empty_alt_scan:
  "has_empty_alt es b \<Longrightarrow> \<forall>e \<in> set (butlast es). g_type e \<noteq> G_END \<Longrightarrow>
   b \<and> es \<noteq> [] \<and> is_end_of_sequence (g_type (hd es))
   \<or> (\<exists>k. Suc k < length es \<and> i + Suc k \<in> set (scan_alts i es) \<and> is_end_of_sequence (g_type (es ! Suc k)))"
proof (induction es arbitrary: b i)
  case (Cons e es)
  show ?case
  proof (cases "es = [] \<or> is_end_of_sequence (g_type e) \<and> b")
    case False
    then have e: "g_type e \<noteq> G_END" and es: "\<forall>x \<in> set (butlast es). g_type x \<noteq> G_END" using Cons.prems(2) by auto
    have *: "has_empty_alt es (g_type e = G_ALT)" using Cons.prems(1) False e by (auto simp: is_end_of_sequence_def split: if_splits)
    show ?thesis
      using Cons.IH [OF * es, of "i + 1"]
    proof (elim disjE exE conjE)
      assume "g_type e = G_ALT" "es \<noteq> []" "is_end_of_sequence (g_type (hd es))"
      then show ?thesis using e by (intro disjI2 exI [of _ 0]) (simp add: hd_conv_nth)
    next
      fix k assume "Suc k < length es" "i + 1 + Suc k \<in> set (scan_alts (i + 1) es)" "is_end_of_sequence (g_type (es ! Suc k))"
      then show ?thesis using e by (intro disjI2 exI [of _ "Suc k"]) simp
    qed
  qed (use Cons.prems in \<open>auto split: if_splits\<close>)
qed simp

lemma directly_empty_derives:
  assumes "rules_ok R" "r < length R" "directly_empty R r"
  shows "gen_rule R r []"
proof -
  have "rule_ok (length R) (R ! r)" using assms(1,2) by (simp add: rules_ok_def)
  then have "R ! r \<noteq> [] \<and> is_end_of_sequence (g_type (hd (R ! r)))
     \<or> (\<exists>k. 0 + Suc k \<in> set (scan_alts 0 (R ! r)) \<and> is_end_of_sequence (g_type (R ! r ! Suc k)))"
    using empty_alt_scan [of "R ! r" True 0] assms(3) by (auto simp: directly_empty_def rule_ok_def)
  then obtain i where "i = 0 \<or> i \<in> set (scan_alts 0 (R ! r))" "is_end_of_sequence (g_type (R ! r ! i))"
    by (metis add_0 hd_conv_nth)
  then have "(r, i) \<in> set (alternates R r)" "is_end_of_sequence (type_at R (r, i))"
    by (auto simp: alternates_def elem_at_simps)
  then show ?thesis unfolding gen_rule_def using gen_end by blast
qed

lemma no_left_recursion_checked:
  assumes "rules_ok R" "no_left_recursion R"
  shows "left_recursive R = Some (Inr False)"
proof -
  have "left_call R \<le> left_step (\<lambda>r. gen_rule R r []) R"
    unfolding left_call_step by (rule predicate2I, rule left_step_mono [OF assms(1) directly_empty_derives [OF assms(1)]])
  then have "tranclp (left_call R) q q \<Longrightarrow> tranclp (left_step (\<lambda>r. gen_rule R r []) R) q q" for q
    by (rule tranclp_le [rotated])
  then show ?thesis using left_recursive_result(1) [OF assms(1)] assms(2) by (auto simp: no_left_recursion_def)
qed

lemma checked_no_left_recursion:
  assumes "rules_ok R" "empty_known R" "left_recursive R = Some (Inr False)"
  shows "no_left_recursion R"
proof -
  have "left_step (\<lambda>r. gen_rule R r []) R \<le> left_call R"
    unfolding left_call_step by (rule predicate2I, rule left_step_mono [OF assms(1)]) (use assms(2) in \<open>simp_all add: empty_known_def\<close>)
  then have "tranclp (left_step (\<lambda>r. gen_rule R r []) R) q q \<Longrightarrow> tranclp (left_call R) q q" for q
    by (rule tranclp_le [rotated])
  then show ?thesis using left_recursive_result(1) [OF assms(1)] assms(3) by (auto simp: no_left_recursion_def)
qed

text \<open>The positions of a rule that can be reached without reading a character.\<close>

inductive left_pos :: "(nat \<Rightarrow> bool) \<Rightarrow> gr_rules \<Rightarrow> nat \<Rightarrow> nat \<Rightarrow> bool" for E R r where
  lp_alt: "(r, i) \<in> set (alternates R r) \<Longrightarrow> left_pos E R r i"
| lp_next: "left_pos E R r i \<Longrightarrow> i < length (R ! r) \<Longrightarrow> type_at R (r, i) = G_RULE_REF \<Longrightarrow> E (g_value (elem_at R (r, i)))
    \<Longrightarrow> left_pos E R r (Suc i)"

lemma left_refs_drop: "\<exists>b'. set (left_refs N (drop k es) b') \<subseteq> set (left_refs N es b)"
proof (induction k arbitrary: es b)
  case (Suc k)
  show ?case
  proof (cases es)
    case (Cons e es')
    let ?b = "if g_type e = G_RULE_REF \<and> b then N (g_value e) else is_end_of_sequence (g_type e)"
    have "set (left_refs N es' ?b) \<subseteq> set (left_refs N es b)" by (auto simp: Cons)
    moreover obtain b' where "set (left_refs N (drop k es') b') \<subseteq> set (left_refs N es' ?b)" using Suc.IH by blast
    ultimately show ?thesis using Cons by (metis drop_Suc_Cons subset_trans)
  qed auto
qed auto

lemma left_pos_refs: "left_pos E R r i \<Longrightarrow> set (left_refs E (drop i (R ! r)) True) \<subseteq> set (left_refs E (R ! r) True)"
proof (induction rule: left_pos.induct)
  case (lp_alt i)
  show ?case
  proof (cases "i = 0")
    case False
    then obtain k where k: "k < length (R ! r)" "i = Suc k" "g_type (R ! r ! k) = G_ALT"
      using lp_alt scan_alts_mem [of i 0 "R ! r"] by (auto simp: alternates_def)
    have "left_refs E (drop k (R ! r)) b = left_refs E (drop i (R ! r)) True" for b
      using k by (simp add: Cons_nth_drop_Suc [symmetric] is_end_of_sequence_def)
    then show ?thesis using left_refs_drop [of E k "R ! r" True] by simp
  qed simp
next
  case (lp_next i)
  have "drop i (R ! r) = elem_at R (r, i) # drop (Suc i) (R ! r)" using lp_next(2) by (simp add: elem_at_def Cons_nth_drop_Suc)
  then show ?case using lp_next by (auto simp: type_at_def)
qed

lemma left_pos_call:
  assumes "r < length R" "left_pos E R r i" "i < length (R ! r)" "type_at R (r, i) = G_RULE_REF"
  shows "left_step E R r (g_value (elem_at R (r, i)))"
proof -
  have "drop i (R ! r) = elem_at R (r, i) # drop (Suc i) (R ! r)" using assms(3) by (simp add: elem_at_def Cons_nth_drop_Suc)
  then show ?thesis using left_pos_refs [OF assms(2)] assms(1,4) by (auto simp: left_step_def type_at_def)
qed

text \<open>
  An alternate put on a stack is expanded in finitely many steps, if the stack below is whenever the
  alternate may be erased.
\<close>

lemma left_acc_ends:
  assumes R: "rules_ok R" "\<And>q. q < length R \<Longrightarrow> gen_rule R q [] \<Longrightarrow> E q" and "Wellfounded.accp (\<lambda>r' r. left_step E R r r') r"
    and "r < length R" "left_pos E R r i" "landing R (r, i)" "gen R (r, i) [] \<Longrightarrow> ends R t"
  shows "ends R (push_pos R (r, i) t)"
  using assms(3-)
proof (induction arbitrary: i t rule: accp.induct)
  case (accI r)
  note outer = accI(2)
  show ?case using accI(3-)
  proof (induction "length (R ! r) - i" arbitrary: i rule: less_induct)
    case less
    have i: "i < length (R ! r)" using less.prems(3) by (simp add: landing_def in_rules_def)
    consider "is_end_of_sequence (type_at R (r, i))" | "is_range (type_at R (r, i))" | (ref) "type_at R (r, i) = G_RULE_REF"
      using less.prems(3) by (auto simp: landing_def starts_cases)
    then show ?case
    proof cases
      case 1
      then show ?thesis using less.prems(4) by (simp add: push_pos_def gen_end_iff)
    next
      case 2
      then show ?thesis by (auto simp: push_pos_def is_range_def is_end_of_sequence_def intro!: en_range)
    next
      case ref
      let ?q = "g_value (elem_at R (r, i))"
      have q: "left_step E R r ?q" by (rule left_pos_call [OF less.prems(1,2) i ref])
      then have len: "?q < length R" using left_step_range [OF R(1)] by blast
      have nxt: "landing R (r, Suc i)"
        using landing_next [OF R(1), of "(r, i)"] less.prems(3) ref by (simp add: landing_def step_pos_def)
      have "ends R (push_pos R (?q, j) (push_pos R (r, Suc i) t))" if j: "(?q, j) \<in> set (alternates R ?q)" for j
      proof (rule outer [OF q len])
        show "left_pos E R ?q j" using j by (rule lp_alt)
        show "landing R (?q, j)" using landing_alternate [OF R(1) len j] by simp
        assume e: "gen R (?q, j) []"
        then have "E ?q" using R(2) len j by (auto simp: gen_rule_def)
        then have "left_pos E R r (Suc i)" using less.prems(2) i ref by (intro lp_next)
        moreover have "ends R t" if "gen R (r, Suc i) []"
          using less.prems(4) gen_ref [OF ref j e, of "[]"] that by (simp add: step_pos_def)
        ultimately show "ends R (push_pos R (r, Suc i) t)" using less.hyps [of "Suc i"] less.prems(1) nxt i by auto
      qed
      then have "ends R s" if "s \<in> set (expand R (r, i) t)" for s
        using that landing_alternate [OF R(1) len] by (force simp: expand_def step_pos_def)
      then show ?thesis using ref by (auto simp: push_pos_def is_end_of_sequence_def intro: en_ref)
    qed
  qed
qed

lemma push_ends:
  assumes R: "rules_ok R" "no_left_recursion R"
    and "landing R p" "ends R t"
  shows "ends R (push_pos R p t)"
  using assms(3)
proof (induction "length (R ! fst p) - snd p" arbitrary: p rule: less_induct)
  case less
  have p: "in_rules R p" using less.prems by (simp add: landing_def)
  consider "is_end_of_sequence (type_at R p)" | "is_range (type_at R p)" | (ref) "type_at R p = G_RULE_REF"
    using less.prems by (auto simp: landing_def starts_cases)
  then show ?case
  proof cases
    case 1
    then show ?thesis using assms(4) by (simp add: push_pos_def)
  next
    case 2
    then show ?thesis by (auto simp: push_pos_def is_range_def is_end_of_sequence_def intro!: en_range)
  next
    case ref
    let ?q = "g_value (elem_at R p)"
    have len: "?q < length R"
      using rule_okD(4) [OF R(1), of "fst p" "snd p"] p ref by (simp add: in_rules_def elem_at_def type_at_def)
    have "ends R (push_pos R (step_pos 1 p) t)"
    proof (rule less.hyps)
      show "length (R ! fst (step_pos 1 p)) - snd (step_pos 1 p) < length (R ! fst p) - snd p"
        using p by (auto simp: step_pos_def in_rules_def)
      show "landing R (step_pos 1 p)" using landing_next [OF R(1) p] ref by simp
    qed
    then have "ends R (push_pos R (?q, j) (push_pos R (step_pos 1 p) t))" if j: "(?q, j) \<in> set (alternates R ?q)" for j
      using left_acc_ends [OF R(1) _ left_step_acc [OF R [unfolded no_left_recursion_def]] len lp_alt [OF j]] landing_alternate [OF R(1) len j] by simp
    then have "ends R s" if "s \<in> set (expand R p t)" for s
      using that landing_alternate [OF R(1) len] by (force simp: expand_def)
    then show ?thesis using ref by (auto simp: push_pos_def is_end_of_sequence_def intro: en_ref)
  qed
qed

lemma no_left_recursion_terminating:
  assumes R: "rules_ok R" "no_left_recursion R"
  shows "terminating R"
  unfolding terminating_def
proof (intro allI impI)
  fix s assume "stack_ok R s"
  then show "ends R s"
  proof (induction s)
    case (Cons p s)
    then have "landing R p" "ends R s" "\<not> is_end_of_sequence (type_at R p)"
      by (auto simp: stack_ok_def pos_ok_def landing_def starts_def is_end_of_sequence_def)
    then show ?case using push_ends [OF R] by (metis push_pos_def)
  qed (rule en_nil)
qed

lemma left_check_terminating:
  assumes "rules_ok R" "empty_known R" "left_recursive R = Some (Inr False)"
  shows "terminating R"
  by (rule no_left_recursion_terminating [OF assms(1) checked_no_left_recursion [OF assms]])

section \<open>When the engine does not terminate\<close>

text \<open>A set of stacks each of which expands into one of the set again: the expansion does not end.\<close>

definition expand_cycle :: "gr_rules \<Rightarrow> gr_stack set \<Rightarrow> bool" where
  "expand_cycle R X \<longleftrightarrow> (\<forall>s \<in> X. \<exists>p t. s = p # t \<and> type_at R p = G_RULE_REF \<and> set (expand R p t) \<inter> X \<noteq> {})"

lemma expand_cycleI:
  assumes "\<forall>s \<in> X. s \<noteq> [] \<and> type_at R (hd s) = G_RULE_REF \<and> (\<exists>s' \<in> set (expand R (hd s) (tl s)). s' \<in> X)"
  shows "expand_cycle R X"
  unfolding expand_cycle_def
proof
  fix s assume "s \<in> X"
  then show "\<exists>p t. s = p # t \<and> type_at R p = G_RULE_REF \<and> set (expand R p t) \<inter> X \<noteq> {}"
    using assms by (intro exI [of _ "hd s"] exI [of _ "tl s"]) (auto simp: disjoint_iff)
qed

lemma advance_returns_outside:
  assumes "advance R todo acc = Some y"
  shows "rules_ok R \<longrightarrow> (\<forall>s \<in> set todo. stack_ok R s) \<longrightarrow> expand_cycle R X \<longrightarrow> set todo \<inter> X = {}"
proof (rule advance.raw_induct [where P = "\<lambda>R todo acc y. rules_ok R \<longrightarrow> (\<forall>s \<in> set todo. stack_ok R s) \<longrightarrow> expand_cycle R X \<longrightarrow> set todo \<inter> X = {}", OF _ assms], intro impI)
  fix f R todo acc y
  assume IH: "\<And>R todo (acc :: gr_stack list) y. f R todo acc = Some y
      \<Longrightarrow> rules_ok R \<longrightarrow> (\<forall>s \<in> set todo. stack_ok R s) \<longrightarrow> expand_cycle R X \<longrightarrow> set todo \<inter> X = {}"
    and body: "(case todo of [] \<Rightarrow> Some (Inr acc)
      | s # rest \<Rightarrow>
          (case s of [] \<Rightarrow> f R rest (add_stack s acc)
           | p # t \<Rightarrow>
               if type_at R p = G_RULE_REF then
                 if length R \<le> g_value (elem_at R p) then Some (Inl Out_of_range) else f R (expand R p t @ rest) acc
               else if type_at R p = G_CHAR \<or> type_at R p = G_CHAR_NOT \<or> type_at R p = G_CHAR_ANY then
                 f R rest (add_stack s acc)
               else Some (Inl (Assert_fail ''fatal error'')))) = Some y"
    and ok: "rules_ok R" "\<forall>s \<in> set todo. stack_ok R s" and X: "expand_cycle R X"
  show "set todo \<inter> X = {}"
  proof (cases todo)
    case (Cons s rest)
    show ?thesis
    proof (cases "s \<noteq> [] \<and> type_at R (hd s) = G_RULE_REF")
      case True
      then obtain p t where s: "s = p # t" "type_at R p = G_RULE_REF" by (cases s) auto
      have st: "stack_ok R (p # t)" using ok(2) Cons s(1) by simp
      then have "in_rules R p" by (simp add: stack_ok_def pos_ok_def)
      then have "g_value (elem_at R p) < length R"
        using rule_okD(4) [OF ok(1), of "fst p" "snd p"] s(2) by (simp add: in_rules_def elem_at_def type_at_def)
      then have f: "f R (expand R p t @ rest) acc = Some y" using body Cons s by simp
      have "\<forall>s \<in> set (expand R p t @ rest). stack_ok R s" using stack_ok_expand [OF ok(1) st s(2)] ok(2) Cons by auto
      then have "set (expand R p t @ rest) \<inter> X = {}" using IH [OF f] ok(1) X by simp
      then show ?thesis using X Cons s(1) unfolding expand_cycle_def by fastforce
    next
      case False
      then have "s \<notin> X" using X unfolding expand_cycle_def by fastforce
      moreover have "f R rest (add_stack s acc) = Some y"
        using body Cons False ok(2) by (cases s) (auto simp: stack_ok_def pos_ok_def starts_def)
      then have "set rest \<inter> X = {}" using IH ok X Cons by simp
      ultimately show ?thesis using Cons by simp
    qed
  qed simp
qed

lemma advance_diverges:
  assumes "rules_ok R" "\<forall>s \<in> set todo. stack_ok R s" "expand_cycle R X" "set todo \<inter> X \<noteq> {}"
  shows "advance R todo acc = None"
  using advance_returns_outside [of R todo acc _ X] assms by (meson option.exhaust)


section \<open>Properties of the engine\<close>

text \<open>The grammar \<open>root ::= "a" root | x "c"\<close> with \<open>x ::= "b" | \<close> for the examples.\<close>

definition demo_rules :: gr_rules where
  "demo_rules =
     [[\<lparr>g_type = G_CHAR, g_value = 97\<rparr>, \<lparr>g_type = G_RULE_REF, g_value = 0\<rparr>, \<lparr>g_type = G_ALT, g_value = 0\<rparr>,
       \<lparr>g_type = G_RULE_REF, g_value = 1\<rparr>, \<lparr>g_type = G_CHAR, g_value = 99\<rparr>, \<lparr>g_type = G_END, g_value = 0\<rparr>],
      [\<lparr>g_type = G_CHAR, g_value = 98\<rparr>, \<lparr>g_type = G_ALT, g_value = 0\<rparr>, \<lparr>g_type = G_END, g_value = 0\<rparr>]]"

lemma demo_ok: "rules_ok demo_rules" "left_recursive demo_rules = Some (Inr False)"
proof -
  have "follows (r ! i) (r ! Suc i)" if "r \<in> set demo_rules" "Suc i < length r" for r i
    using that by (auto simp: demo_rules_def follows_def less_Suc_eq)
  then show "rules_ok demo_rules"
    by (simp add: rules_ok_def rule_ok_def) (simp add: demo_rules_def)
  show "left_recursive demo_rules = Some (Inr False)" by code_simp
qed

lemma demo_length: "length demo_rules = 2"
  by (simp add: demo_rules_def)

lemma gen_range_nonempty: "is_range (type_at R p) \<Longrightarrow> \<not> gen R p []"
  by (simp add: gen_range_iff)

lemma demo_empty_known: "empty_known demo_rules"
proof -
  have ty: "type_at demo_rules (0, 0) = G_CHAR" "type_at demo_rules (0, 3) = G_RULE_REF" "type_at demo_rules (0, 4) = G_CHAR"
    by (simp_all add: type_at_def elem_at_def demo_rules_def)
  have "\<not> gen demo_rules (0, 0) []" "\<not> gen demo_rules (0, 4) []" by (simp_all add: gen_range_nonempty ty is_range_def)
  moreover from this(2) have "\<not> gen demo_rules (0, 3) []" by (simp add: gen_ref_iff [OF ty(2)] step_pos_def)
  moreover have "alternates demo_rules 0 = [(0, 0), (0, 3)]" by (simp add: alternates_def demo_rules_def)
  ultimately have "\<not> gen_rule demo_rules 0 []" by (simp add: gen_rule_def)
  moreover have "directly_empty demo_rules 1" by (simp add: directly_empty_def demo_rules_def is_end_of_sequence_def)
  ultimately show ?thesis by (auto simp: empty_known_def demo_length less_Suc_eq numeral_2_eq_2)
qed

lemma demo_no_left_recursion: "no_left_recursion demo_rules"
  by (rule checked_no_left_recursion [OF demo_ok(1) demo_empty_known demo_ok(2)])

text \<open>
  The grammar \<open>root ::= "a" ws\<close> with \<open>ws ::= [ \t\n]*\<close>: the check does not know that \<open>ws\<close> may be empty, but there is no
  left recursion.
\<close>

definition blank_rules :: gr_rules where
  "blank_rules =
     [[\<lparr>g_type = G_CHAR, g_value = 97\<rparr>, \<lparr>g_type = G_RULE_REF, g_value = 1\<rparr>, \<lparr>g_type = G_END, g_value = 0\<rparr>],
      [\<lparr>g_type = G_RULE_REF, g_value = 2\<rparr>, \<lparr>g_type = G_END, g_value = 0\<rparr>],
      [\<lparr>g_type = G_CHAR, g_value = 32\<rparr>, \<lparr>g_type = G_CHAR_ALT, g_value = 9\<rparr>, \<lparr>g_type = G_CHAR_ALT, g_value = 10\<rparr>,
       \<lparr>g_type = G_RULE_REF, g_value = 2\<rparr>, \<lparr>g_type = G_ALT, g_value = 0\<rparr>, \<lparr>g_type = G_END, g_value = 0\<rparr>]]"

lemma blank_rules_ok: "rules_ok blank_rules" "no_left_recursion blank_rules" "\<not> empty_known blank_rules"
proof -
  have "follows (r ! i) (r ! Suc i)" if "r \<in> set blank_rules" "Suc i < length r" for r i
    using that by (auto simp: blank_rules_def follows_def less_Suc_eq)
  then show ok: "rules_ok blank_rules" by (simp add: rules_ok_def rule_ok_def) (simp add: blank_rules_def)
  have step: "q = 1 \<and> q' = 2" if "left_step E blank_rules q q'" for E q q'
    using that by (auto simp: left_step_def blank_rules_def less_Suc_eq numeral_2_eq_2 is_end_of_sequence_def)
  have "q = 1 \<and> q' = 2" if "tranclp (left_step E blank_rules) q q'" for E q q'
    using that by (induction rule: tranclp_induct) (auto dest: step)
  then show "no_left_recursion blank_rules" by (force simp: no_left_recursion_def)
  have "gen_rule blank_rules 2 []"
    by (rule directly_empty_derives [OF ok]) (simp_all add: blank_rules_def directly_empty_def is_end_of_sequence_def)
  then obtain a where a: "a \<in> set (alternates blank_rules 2)" "gen blank_rules a []" by (auto simp: gen_rule_def)
  have "gen blank_rules (1, 0) ([] @ [])"
    by (rule gen_ref [OF _ _ a(2)])
      (use a(1) in \<open>auto intro!: gen_end simp: step_pos_def type_at_def elem_at_def blank_rules_def is_end_of_sequence_def\<close>)
  then have "gen_rule blank_rules 1 []" by (auto simp: gen_rule_def alternates_def)
  then show "\<not> empty_known blank_rules"
    by (auto simp: empty_known_def directly_empty_def blank_rules_def is_end_of_sequence_def intro!: exI [of _ 1])
qed

text \<open>
  C26. The engine recognises the language of the grammar. For well-formed rules that pass the check for left
  recursion, when the rules that derive the empty string have an empty alternate, the initial stacks are built,
  every list of code points is accepted or rejected in finite time, and after any list of code points the
  empty stack, which allows the end of the generation, is among the stacks exactly when the list is
  derived from the start rule.
\<close>

theorem grammar_language:
  assumes "rules_ok R" "empty_known R" "left_recursive R = Some (Inr False)" "start < length R"
  shows "\<exists>st. init_stacks R start = Some (Inr st) \<and> st \<noteq> [] \<and> distinct st
    \<and> (\<forall>w. \<exists>res. accept_all R st w = Some (Inr res) \<and> ([] \<in> set res \<longleftrightarrow> gen_rule R start w))"
proof -
  have R: "terminating R" by (rule left_check_terminating [OF assms(1-3)])
  obtain st where st: "init_stacks R start = Some (Inr st)" "\<forall>s \<in> set st. at_terminal R s" "st \<noteq> []" "distinct st"
      "\<forall>w. (\<exists>s \<in> set st. gen_stack R s w) \<longleftrightarrow> gen_rule R start w"
    by (rule init_stacks_result [OF assms(1) R assms(4)])
  have "\<exists>res. accept_all R st w = Some (Inr res) \<and> ([] \<in> set res \<longleftrightarrow> gen_rule R start w)" for w
  proof -
    obtain res where res: "accept_all R st w = Some (Inr res)" "set res = run_set R (set st) w" "\<forall>s \<in> set res. at_terminal R s"
      using accept_all_result [OF assms(1) R st(2)] by blast
    have "gen_rule R start w \<longleftrightarrow> (\<exists>s \<in> set res. gen_stack R s [])"
      using gen_stack_run [OF assms(1) R st(2), of w "[]"] st(5) res(2) by simp
    then show ?thesis using res(1,3) gen_stack_empty by blast
  qed
  then show ?thesis using st(1,3,4) by blast
qed

theorem grammar_language_witness:
  "\<exists>st. init_stacks demo_rules 0 = Some (Inr st) \<and> st \<noteq> [] \<and> gen_rule demo_rules 0 [97, 98, 99] \<and> \<not> gen_rule demo_rules 0 [97]"
proof -
  have st: "init_stacks demo_rules 0 = Some (Inr [[(0, 0)], [(1, 0), (0, 4)], [(0, 4)]])" by code_simp
  have 1: "accept_all demo_rules [[(0, 0)], [(1, 0), (0, 4)], [(0, 4)]] [97, 98, 99] = Some (Inr [[]])" by code_simp
  have 2: "accept_all demo_rules [[(0, 0)], [(1, 0), (0, 4)], [(0, 4)]] [97]
    = Some (Inr [[(0, 0)], [(1, 0), (0, 4)], [(0, 4)]])" by code_simp
  have L: "\<forall>w. \<exists>res. accept_all demo_rules [[(0, 0)], [(1, 0), (0, 4)], [(0, 4)]] w = Some (Inr res)
      \<and> ([] \<in> set res \<longleftrightarrow> gen_rule demo_rules 0 w)"
    using grammar_language [OF demo_ok(1) demo_empty_known demo_ok(2), of 0] st by (simp add: demo_length)
  have "gen_rule demo_rules 0 [97, 98, 99]" using 1 L [rule_format, of "[97, 98, 99]"] by simp
  moreover have "\<not> gen_rule demo_rules 0 [97]" using 2 L [rule_format, of "[97]"] by simp
  ultimately show ?thesis using st by simp
qed

text \<open>
  C27. Rejecting a candidate agrees with accepting its code points. For well-formed rules without left recursion
  (no rule calls itself before it reads a character, through rules that may be empty) and stacks
  the engine keeps, with a depth beyond the longest candidate, \<open>llama_grammar_reject_candidates\<close> returns exactly the candidates after whose complete code points no stack is
  left on which the candidate can stop; for a candidate that does not end inside a UTF-8 sequence these are
  the candidates whose code points leave no stack.
\<close>

theorem reject_matches_accept:
  assumes "rules_ok R" "no_left_recursion R"
    and "stacks \<noteq> []" "\<forall>s \<in> set stacks. at_terminal R s" "0 < k" "\<forall>c \<in> set cands. cand_ok c \<and> length (c_rest c) + 1 < k"
  shows "\<exists>rej. reject_candidates k R stacks cands = Some (Inr rej) \<and> set rej \<subseteq> set cands
    \<and> (\<forall>c \<in> set cands. \<exists>res. accept_all R stacks (c_rest c) = Some (Inr res)
         \<and> (c \<in> set rej \<longleftrightarrow> (\<forall>s \<in> set res. \<not> can_stop R c s))
         \<and> (n_remain (c_partial c) = 0 \<longrightarrow> (c \<in> set rej \<longleftrightarrow> res = [])))"
proof -
  have R: "terminating R" by (rule no_left_recursion_terminating [OF assms(1,2)])
  obtain rej where rej: "reject_candidates k R stacks cands = Some (Inr rej)"
      "set rej = {c \<in> set cands. \<forall>s \<in> set stacks. \<not> survives R s c}"
    using reject_candidates_result [OF assms(1) R assms(3-)] by blast
  have "\<exists>res. accept_all R stacks (c_rest c) = Some (Inr res) \<and> (c \<in> set rej \<longleftrightarrow> (\<forall>s \<in> set res. \<not> can_stop R c s))
      \<and> (n_remain (c_partial c) = 0 \<longrightarrow> (c \<in> set rej \<longleftrightarrow> res = []))" if c: "c \<in> set cands" for c
  proof -
    obtain res where res: "accept_all R stacks (c_rest c) = Some (Inr res)" "set res = run_set R (set stacks) (c_rest c)"
      using accept_all_result [OF assms(1) R assms(4)] by blast
    have "c \<in> set rej \<longleftrightarrow> (\<forall>s \<in> set res. \<not> can_stop R c s)"
      using c unfolding rej(2) res(2) run_set_split [of R "set stacks"] by (auto simp: survives_def)
    moreover have "can_stop R c s" if "n_remain (c_partial c) = 0" for s
      using that by (auto simp: can_stop_def partial_ok_def split: list.split)
    ultimately show ?thesis using res(1) by (intro exI [of _ res]) auto
  qed
  then show ?thesis using rej by blast
qed

definition demo_cand :: "nat \<Rightarrow> nat list \<Rightarrow> gr_candidate" where
  "demo_cand i w = \<lparr>c_index = i, c_code_points = w @ [0], c_off = 0, c_partial = \<lparr>pu_value = 0, n_remain = 0\<rparr>\<rparr>"

theorem reject_matches_accept_witness:
  "\<exists>rej. reject_candidates 4 demo_rules [[(0, 0)], [(1, 0), (0, 4)], [(0, 4)]] [demo_cand 0 [97, 99], demo_cand 1 [98, 97]] = Some (Inr rej)
    \<and> demo_cand 1 [98, 97] \<in> set rej \<and> demo_cand 0 [97, 99] \<notin> set rej"
proof -
  let ?st = "[[(0, 0)], [(1, 0), (0, 4)], [(0, 4)]]" and ?cs = "[demo_cand 0 [97, 99], demo_cand 1 [98, 97]]"
  have "\<forall>s \<in> set ?st. at_terminal demo_rules s" by code_simp
  moreover have "\<forall>c \<in> set ?cs. cand_ok c \<and> length (c_rest c) + 1 < 4" by (simp add: cand_ok_def c_rest_def demo_cand_def)
  moreover have "accept_all demo_rules ?st (c_rest (demo_cand 0 [97, 99])) = Some (Inr [[]])"
    "accept_all demo_rules ?st (c_rest (demo_cand 1 [98, 97])) = Some (Inr [])" by code_simp+
  moreover have "n_remain (c_partial (demo_cand i w)) = 0" for i w by (simp add: demo_cand_def)
  ultimately show ?thesis
    using reject_matches_accept [OF demo_ok(1) demo_no_left_recursion, of ?st 4 ?cs] by fastforce
qed

text \<open>
  C28. The check for left recursion always returns, for every well-formed grammar, within one level of
  recursion more than there are rules, and its answer is exact with respect to the rules it regards as
  possibly empty: it reports left recursion if and only if some rule is reached again from itself by
  left calls.
\<close>

theorem left_recursive_exact:
  assumes "rules_ok R"
  shows "left_recursive R = Some (Inr (\<exists>q. (left_call R)\<^sup>+\<^sup>+ q q))"
  by (rule left_recursive_result(1) [OF assms])

theorem left_recursive_exact_witness: "\<not> (\<exists>q. (left_call demo_rules)\<^sup>+\<^sup>+ q q)"
  using left_recursive_exact [OF demo_ok(1)] demo_ok(2) by simp

text \<open>The grammar \<open>root ::= ("a"*) root | "b"\<close>, whose group becomes a rule of its own.\<close>

definition missed_rules :: gr_rules where
  "missed_rules =
     [[\<lparr>g_type = G_RULE_REF, g_value = 1\<rparr>, \<lparr>g_type = G_RULE_REF, g_value = 0\<rparr>, \<lparr>g_type = G_ALT, g_value = 0\<rparr>,
       \<lparr>g_type = G_CHAR, g_value = 98\<rparr>, \<lparr>g_type = G_END, g_value = 0\<rparr>],
      [\<lparr>g_type = G_RULE_REF, g_value = 2\<rparr>, \<lparr>g_type = G_END, g_value = 0\<rparr>],
      [\<lparr>g_type = G_CHAR, g_value = 97\<rparr>, \<lparr>g_type = G_RULE_REF, g_value = 2\<rparr>, \<lparr>g_type = G_ALT, g_value = 0\<rparr>, \<lparr>g_type = G_END, g_value = 0\<rparr>]]"

lemma missed_rules_ok: "rules_ok missed_rules"
proof -
  have "follows (r ! i) (r ! Suc i)" if "r \<in> set missed_rules" "Suc i < length r" for r i
    using that by (auto simp: missed_rules_def follows_def less_Suc_eq)
  then show ?thesis by (simp add: rules_ok_def rule_ok_def) (simp add: missed_rules_def)
qed

lemma missed_rules_diverge: "init_stacks missed_rules 0 = None"
proof -
  let ?X = "[[(0, 0)], [(1, 0), (0, 1)], [(0, 1)]]"
  have "\<forall>s \<in> set ?X. s \<noteq> [] \<and> type_at missed_rules (hd s) = G_RULE_REF
      \<and> (\<exists>s' \<in> set (expand missed_rules (hd s) (tl s)). s' \<in> set ?X)" by code_simp
  then have "expand_cycle missed_rules (set ?X)" by (rule expand_cycleI)
  moreover have "map (\<lambda>a. push_pos missed_rules a []) (alternates missed_rules 0) = [[(0, 0)], [(0, 3)]]" by code_simp
  moreover have "\<forall>s \<in> set [[(0, 0)], [(0, 3)]]. stack_ok missed_rules s" by code_simp
  ultimately show ?thesis unfolding init_stacks_def using advance_diverges [OF missed_rules_ok] by auto
qed

text \<open>
  C29. The check misses left recursion through a rule that is empty only through another one. The grammar
  \<open>root ::= ("a"*) root | "b"\<close> passes the check, and building its
  initial stacks does not terminate.
\<close>

theorem left_recursion_missed:
  "rules_ok missed_rules \<and> left_recursive missed_rules = Some (Inr False) \<and> grammar_init missed_rules 0 = None"
proof -
  have "left_recursive missed_rules = Some (Inr False)" by code_simp
  moreover have "map copy_rule missed_rules = missed_rules" "length missed_rules = 3" by code_simp+
  ultimately show ?thesis using missed_rules_ok missed_rules_diverge by (simp add: grammar_init_def Let_def)
qed

end
