(* ===== verification/GrammarUtf8.thy ===== *)
theory GrammarUtf8
  imports GrammarLeft
begin

text \<open>
  Grammars and text, \<open>src/llama-grammar.{h,cpp}\<close>: the decoding of UTF-8 that may stop inside a sequence,
  the completions of such a partial sequence, and the grammar object itself with \<open>llama_grammar_accept_str\<close>,
  \<open>llama_grammar_apply_impl\<close> and \<open>llama_grammar_accept_impl\<close>, which constrain the sampling of tokens.

  A byte of a string is a number below 256; the vocabulary and the regular expressions are parameters.
\<close>

section \<open>Decoding UTF-8\<close>

definition utf8_add :: "nat \<Rightarrow> nat \<Rightarrow> nat" where
  "utf8_add v b = (v * 64 + b mod 64) mod 2 ^ 32"

text \<open>\<open>*pos != 0\<close> at the end of the string reads its terminating 0.\<close>

definition at_nul :: "nat list \<Rightarrow> bool" where
  "at_nul bs \<longleftrightarrow> bs = [] \<or> hd bs = 0"

text \<open>The loop that continues the previous decode; \<open>None\<close> is an invalid sequence.\<close>

fun utf8_continue :: "nat list \<Rightarrow> nat \<Rightarrow> int \<Rightarrow> (nat \<times> int \<times> nat list) option" where
  "utf8_continue [] v n = Some (v, n, [])"
| "utf8_continue (b # bs) v n =
     (if b \<noteq> 0 \<and> n > 0 then
        if b div 64 \<noteq> 2 then None else utf8_continue bs (utf8_add v b) (n - 1)
      else Some (v, n, b # bs))"

text \<open>The inner loop over the bytes that follow a first byte.\<close>

fun utf8_fill :: "nat list \<Rightarrow> nat \<Rightarrow> int \<Rightarrow> nat \<times> int \<times> nat list" where
  "utf8_fill [] v n = (v, n, [])"
| "utf8_fill (b # bs) v n = (if b \<noteq> 0 \<and> n > 0 then utf8_fill bs (utf8_add v b) (n - 1) else (v, n, b # bs))"

definition utf8_lookup :: "nat list" where
  "utf8_lookup = [1, 1, 1, 1, 1, 1, 1, 1, 0, 0, 0, 0, 2, 2, 3, 4]"

lemma utf8_fill_length: "utf8_fill bs v n = (v', n', bs') \<Longrightarrow> length bs' \<le> length bs"
  by (induction bs v n rule: utf8_fill.induct) (auto split: if_splits)

function utf8_loop :: "nat list \<Rightarrow> nat list \<Rightarrow> nat \<Rightarrow> int \<Rightarrow> nat list \<times> partial_utf8" where
  "utf8_loop bs code_points value n =
     (if at_nul bs then (code_points @ [0], \<lparr>pu_value = value, n_remain = n\<rparr>)
      else
        let n1 = int (utf8_lookup ! (hd bs div 16)) - 1 in
        if n1 < 0 then ([0], \<lparr>pu_value = 0, n_remain = n1\<rparr>)
        else
          let (value', n', bs') = utf8_fill (tl bs) (hd bs mod 2 ^ nat (7 - n1)) n1 in
          utf8_loop bs' (if n' = 0 then code_points @ [value'] else code_points) value' n')"
  by auto
termination
  by (relation "measure (\<lambda>(bs, _). length bs)")
    (auto simp: at_nul_def neq_Nil_conv dest!: utf8_fill_length [OF sym])

declare utf8_loop.simps [simp del]

definition decode_utf8 :: "nat list \<Rightarrow> partial_utf8 \<Rightarrow> nat list \<times> partial_utf8" where
  "decode_utf8 src partial_start =
     (case utf8_continue src (pu_value partial_start) (n_remain partial_start) of
        None \<Rightarrow> ([0], \<lparr>pu_value = 0, n_remain = -1\<rparr>)
      | Some (value, n, pos) \<Rightarrow>
          utf8_loop pos (if n_remain partial_start > 0 \<and> n = 0 then [value] else []) value n)"

section \<open>The grammar object\<close>

type_synonym token = int

record 'p llama_grammar =
  gm_rules :: gr_rules
  gm_stacks :: "gr_stack list"
  gm_partial :: partial_utf8
  gm_lazy :: bool
  awaiting_trigger :: bool
  trigger_buffer :: "nat list"
  trigger_tokens :: "token list"
  trigger_patterns :: "'p list"

text \<open>
  \<open>llama_grammar_accept_str\<close>: the result and the grammar after it, which has changed also when it throws.
\<close>

definition accept_str :: "'p llama_grammar \<Rightarrow> nat list \<Rightarrow> (unit res \<times> 'p llama_grammar) option" where
  "accept_str g piece =
     (let (code_points, partial) = decode_utf8 piece (gm_partial g) in
      case accept_all (gm_rules g) (gm_stacks g) (butlast code_points) of
        None \<Rightarrow> None
      | Some (Inl e) \<Rightarrow> Some (Inl e, g)
      | Some (Inr stacks) \<Rightarrow>
          let g' = g\<lparr>gm_stacks := stacks, gm_partial := partial\<rparr> in
          if stacks = [] then Some (Inl (Throw ''Unexpected empty grammar stack after accepting piece''), g')
          else Some (Inr (), g'))"

text \<open>
  \<open>llama_grammar_accept_impl\<close>. Parameters: \<open>piece\<close> is \<open>token_to_piece\<close>, \<open>eog\<close> is \<open>is_eog\<close> of the vocabulary;
  \<open>rx p s\<close> is \<open>match.position(1)\<close> if \<open>std::regex_match\<close> of the pattern \<open>p\<close> succeeds on the string \<open>s\<close>.
\<close>

fun first_trigger :: "('p \<Rightarrow> nat list \<Rightarrow> nat option) \<Rightarrow> nat list \<Rightarrow> 'p list \<Rightarrow> nat option" where
  "first_trigger rx buf [] = None"
| "first_trigger rx buf (p # ps) = (case rx p buf of Some i \<Rightarrow> Some i | None \<Rightarrow> first_trigger rx buf ps)"

definition accept_impl ::
  "(token \<Rightarrow> nat list) \<Rightarrow> (token \<Rightarrow> bool) \<Rightarrow> ('p \<Rightarrow> nat list \<Rightarrow> nat option) \<Rightarrow> 'p llama_grammar \<Rightarrow> token
     \<Rightarrow> (unit res \<times> 'p llama_grammar) option" where
  "accept_impl piece eog rx g tok =
     (if awaiting_trigger g then
        if tok \<in> set (trigger_tokens g) then
          accept_str (g\<lparr>awaiting_trigger := False, trigger_buffer := []\<rparr>) (piece tok)
        else
          let buf = trigger_buffer g @ piece tok in
          (case first_trigger rx buf (trigger_patterns g) of
             Some i \<Rightarrow>
               if length buf < i then Some (Inl Out_of_range, g\<lparr>awaiting_trigger := False, trigger_buffer := buf\<rparr>)
               else accept_str (g\<lparr>awaiting_trigger := False, trigger_buffer := []\<rparr>) (drop i buf)
           | None \<Rightarrow> Some (Inr (), g\<lparr>trigger_buffer := buf\<rparr>))
      else if eog tok then
        if [] \<in> set (gm_stacks g) then Some (Inr (), g) else Some (Inl (Assert_fail ''fatal error''), g)
      else accept_str g (piece tok))"

text \<open>\<open>llama_grammar_apply_impl\<close> over an array of tokens with logits; \<open>ninf\<close> is \<open>-INFINITY\<close>.\<close>

record 'l token_data =
  td_id :: token
  td_logit :: 'l
  td_p :: 'l

definition is_candidate :: "(token \<Rightarrow> nat list) \<Rightarrow> (token \<Rightarrow> bool) \<Rightarrow> token \<Rightarrow> bool" where
  "is_candidate piece eog tok \<longleftrightarrow> \<not> eog tok \<and> \<not> at_nul (piece tok)"

definition mask_special :: "(token \<Rightarrow> nat list) \<Rightarrow> (token \<Rightarrow> bool) \<Rightarrow> 'l \<Rightarrow> bool \<Rightarrow> 'l token_data \<Rightarrow> 'l token_data" where
  "mask_special piece eog ninf allow_eog d =
     (if eog (td_id d) then if allow_eog then d else d\<lparr>td_logit := ninf\<rparr>
      else if at_nul (piece (td_id d)) then d\<lparr>td_logit := ninf\<rparr> else d)"

definition grammar_candidates ::
  "(token \<Rightarrow> nat list) \<Rightarrow> (token \<Rightarrow> bool) \<Rightarrow> partial_utf8 \<Rightarrow> 'l token_data list \<Rightarrow> gr_candidate list" where
  "grammar_candidates piece eog pu data =
     map (\<lambda>i. let (cps, p) = decode_utf8 (piece (td_id (data ! i))) pu in
              \<lparr>c_index = i, c_code_points = cps, c_off = 0, c_partial = p\<rparr>)
       (filter (\<lambda>i. is_candidate piece eog (td_id (data ! i))) [0..<length data])"

definition reject_depth :: "gr_candidate list \<Rightarrow> nat" where
  "reject_depth cands = foldr (\<lambda>c m. max (length (c_code_points c)) m) cands 0 + 1"

definition apply_impl ::
  "(token \<Rightarrow> nat list) \<Rightarrow> (token \<Rightarrow> bool) \<Rightarrow> 'l \<Rightarrow> 'p llama_grammar \<Rightarrow> 'l token_data list \<Rightarrow> 'l token_data list run" where
  "apply_impl piece eog ninf g data =
     (if awaiting_trigger g then Some (Inr data)
      else
        let data1 = map (mask_special piece eog ninf ([] \<in> set (gm_stacks g))) data;
            cands = grammar_candidates piece eog (gm_partial g) data
        in bind_run (reject_candidates (reject_depth cands) (gm_rules g) (gm_stacks g) cands) (\<lambda>rejects.
             Some (Inr (foldl (\<lambda>d r. d[c_index r := (d ! c_index r)\<lparr>td_logit := ninf\<rparr>]) data1 rejects))))"

text \<open>
  \<open>llama_grammar_clone_impl\<close>. Here it matters whose elements a stack points to: a pointer is the address of the
  grammar that owns the element with the position of the element. The stacks are copied and every
  pointer to an element of the rules of the original is replaced by one to the same element of the
  copied rules.
\<close>

type_synonym elem_ptr = "nat \<times> gr_pos"

definition all_pos :: "gr_rules \<Rightarrow> gr_pos list" where
  "all_pos R = concat (map (\<lambda>ir0. map (Pair ir0) [0..<length (R ! ir0)]) [0..<length R])"

definition redirect :: "nat \<Rightarrow> nat \<Rightarrow> gr_rules \<Rightarrow> elem_ptr \<Rightarrow> elem_ptr" where
  "redirect old new R ptr = foldl (\<lambda>q p. if ptr = (old, p) then (new, p) else q) ptr (all_pos R)"

definition clone_stacks :: "nat \<Rightarrow> nat \<Rightarrow> gr_rules \<Rightarrow> elem_ptr list list \<Rightarrow> elem_ptr list list" where
  "clone_stacks old new R stacks = map (map (redirect old new R)) stacks"

section \<open>Candidates\<close>

lemma utf8_loop_last: "fst (utf8_loop bs cps v n) \<noteq> [] \<and> last (fst (utf8_loop bs cps v n)) = 0"
proof (induction bs cps v n rule: utf8_loop.induct)
  case (1 bs cps v n)
  then show ?case by (subst (1 2) utf8_loop.simps) (auto simp: Let_def split: prod.splits)
qed

lemma decode_utf8_last: "fst (decode_utf8 src p) \<noteq> []" "last (fst (decode_utf8 src p)) = 0"
  using utf8_loop_last by (auto simp: decode_utf8_def split: option.split)

lemma decode_utf8_split: "fst (decode_utf8 src p) = butlast (fst (decode_utf8 src p)) @ [0]"
  using decode_utf8_last append_butlast_last_id by metis

text \<open>A grammar on which the engine works.\<close>

definition grammar_ok :: "'p llama_grammar \<Rightarrow> bool" where
  "grammar_ok g \<longleftrightarrow> rules_ok (gm_rules g) \<and> terminating (gm_rules g) \<and> gm_stacks g \<noteq> []
     \<and> (\<forall>s \<in> set (gm_stacks g). at_terminal (gm_rules g) s)"

definition piece_cand :: "nat \<Rightarrow> nat list \<Rightarrow> partial_utf8 \<Rightarrow> gr_candidate" where
  "piece_cand i bs pu = \<lparr>c_index = i, c_code_points = fst (decode_utf8 bs pu), c_off = 0, c_partial = snd (decode_utf8 bs pu)\<rparr>"

lemma grammar_candidates_eq:
  "grammar_candidates piece eog pu data =
     map (\<lambda>i. piece_cand i (piece (td_id (data ! i))) pu) (filter (\<lambda>i. is_candidate piece eog (td_id (data ! i))) [0..<length data])"
  by (simp add: grammar_candidates_def piece_cand_def split_def Let_def)

lemma piece_cand_ok: "cand_ok (piece_cand i bs pu)" "length (c_rest (piece_cand i bs pu)) < length (c_code_points (piece_cand i bs pu))"
proof -
  let ?cps = "fst (decode_utf8 bs pu)"
  have 0: "0 \<in> set ?cps" using decode_utf8_last [of bs pu] last_in_set by metis
  then show "cand_ok (piece_cand i bs pu)" by (simp add: cand_ok_def piece_cand_def)
  have "takeWhile (\<lambda>x. x \<noteq> 0) ?cps \<noteq> ?cps" using 0 by (metis set_takeWhileD)
  then have "length (takeWhile (\<lambda>x. x \<noteq> 0) ?cps) < length ?cps"
    by (metis length_takeWhile_le le_neq_implies_less takeWhile_eq_take take_all_iff order_refl)
  then show "length (c_rest (piece_cand i bs pu)) < length (c_code_points (piece_cand i bs pu))"
    by (simp add: c_rest_def piece_cand_def)
qed

lemma reject_depth_enough: "c \<in> set cands \<Longrightarrow> length (c_code_points c) < reject_depth cands"
  unfolding reject_depth_def by (induction cands) auto

text \<open>The candidates the grammar object rejects.\<close>

definition piece_allowed :: "'p llama_grammar \<Rightarrow> nat list \<Rightarrow> bool" where
  "piece_allowed g bs \<longleftrightarrow> (\<exists>s \<in> set (gm_stacks g). survives (gm_rules g) s (piece_cand 0 bs (gm_partial g)))"

lemma survives_index: "survives R s (c\<lparr>c_index := i\<rparr>) = survives R s c"
  by (simp add: survives_def can_stop_def partial_ok_def c_rest_def cong: list.case_cong)

lemma piece_cand_index: "piece_cand i bs pu = (piece_cand 0 bs pu)\<lparr>c_index := i\<rparr>"
  by (simp add: piece_cand_def)

lemma reject_grammar_candidates:
  assumes "grammar_ok g" and cands_def: "cands = grammar_candidates piece eog (gm_partial g) data"
  shows "\<exists>rej. reject_candidates (reject_depth cands) (gm_rules g) (gm_stacks g) cands = Some (Inr rej)
    \<and> c_index ` set rej = {i. i < length data \<and> is_candidate piece eog (td_id (data ! i)) \<and> \<not> piece_allowed g (piece (td_id (data ! i)))}"
proof -
  have "\<forall>c \<in> set cands. cand_ok c \<and> length (c_rest c) + 1 < reject_depth cands"
  proof
    fix c assume c: "c \<in> set cands"
    then obtain i bs where "c = piece_cand i bs (gm_partial g)" by (auto simp: cands_def grammar_candidates_eq)
    then show "cand_ok c \<and> length (c_rest c) + 1 < reject_depth cands"
      using piece_cand_ok [of i bs "gm_partial g"] reject_depth_enough [OF c] by auto
  qed
  then obtain rej where rej: "reject_candidates (reject_depth cands) (gm_rules g) (gm_stacks g) cands = Some (Inr rej)"
      "set rej = {c \<in> set cands. \<forall>s \<in> set (gm_stacks g). \<not> survives (gm_rules g) s c}"
    using reject_candidates_result [of "gm_rules g" "gm_stacks g" "reject_depth cands" cands] assms(1)
    by (auto simp: grammar_ok_def reject_depth_def)
  define sv where "sv R s bs pu = survives R s (piece_cand 0 bs pu)" for R s bs pu
  have idx: "survives R s (piece_cand i bs pu) = sv R s bs pu" "c_index (piece_cand i bs pu) = i" for R s i bs pu
    using survives_index [of R s i "piece_cand 0 bs pu"] piece_cand_index [of i bs pu] by (simp_all add: piece_cand_def sv_def)
  let ?cand = "\<lambda>i. piece_cand i (piece (td_id (data ! i))) (gm_partial g)"
  have "set rej = ?cand ` {i. i < length data \<and> is_candidate piece eog (td_id (data ! i)) \<and> \<not> piece_allowed g (piece (td_id (data ! i)))}"
    unfolding rej(2) cands_def grammar_candidates_eq piece_allowed_def by (auto simp: idx)
  then have "c_index ` set rej = {i. i < length data \<and> is_candidate piece eog (td_id (data ! i)) \<and> \<not> piece_allowed g (piece (td_id (data ! i)))}"
    by (simp add: image_image idx)
  then show ?thesis using rej(1) by blast
qed

definition mask_at :: "'l \<Rightarrow> 'l token_data list \<Rightarrow> gr_candidate \<Rightarrow> 'l token_data list" where
  "mask_at ninf d r = d[c_index r := (d ! c_index r)\<lparr>td_logit := ninf\<rparr>]"

lemma foldl_mask_length: "length (foldl (mask_at ninf) data rejects) = length data"
  by (induction rejects arbitrary: data) (simp_all add: mask_at_def)

lemma foldl_mask_nth:
  "i < length data \<Longrightarrow> foldl (mask_at ninf) data rejects ! i
     = (if i \<in> c_index ` set rejects then (data ! i)\<lparr>td_logit := ninf\<rparr> else data ! i)"
proof (induction rejects arbitrary: data)
  case (Cons r rejects)
  then show ?case by (cases "c_index r = i") (auto simp: mask_at_def)
qed simp

text \<open>What \<open>apply\<close> does to every token.\<close>

lemma apply_impl_result:
  assumes "grammar_ok g" "\<not> awaiting_trigger g"
  shows "\<exists>data'. apply_impl piece eog ninf g data = Some (Inr data') \<and> length data' = length data
    \<and> (\<forall>i < length data. data' ! i = (if if eog (td_id (data ! i)) then [] \<in> set (gm_stacks g)
           else \<not> at_nul (piece (td_id (data ! i))) \<and> piece_allowed g (piece (td_id (data ! i)))
         then data ! i else (data ! i)\<lparr>td_logit := ninf\<rparr>))"
proof -
  let ?cands = "grammar_candidates piece eog (gm_partial g) data"
  let ?data1 = "map (mask_special piece eog ninf ([] \<in> set (gm_stacks g))) data"
  obtain rej where rej: "reject_candidates (reject_depth ?cands) (gm_rules g) (gm_stacks g) ?cands = Some (Inr rej)"
    "c_index ` set rej = {i. i < length data \<and> is_candidate piece eog (td_id (data ! i)) \<and> \<not> piece_allowed g (piece (td_id (data ! i)))}"
    using reject_grammar_candidates [OF assms(1) refl, of piece eog data] by blast
  have "apply_impl piece eog ninf g data = Some (Inr (foldl (mask_at ninf) ?data1 rej))"
    using rej(1) assms(2) by (simp add: apply_impl_def Let_def mask_at_def [abs_def])
  moreover have "foldl (mask_at ninf) ?data1 rej ! i = (if if eog (td_id (data ! i)) then [] \<in> set (gm_stacks g)
           else \<not> at_nul (piece (td_id (data ! i))) \<and> piece_allowed g (piece (td_id (data ! i)))
         then data ! i else (data ! i)\<lparr>td_logit := ninf\<rparr>)" if "i < length data" for i
    using that unfolding foldl_mask_nth [of i ?data1, simplified, OF that] rej(2)
    by (auto simp: mask_special_def is_candidate_def)
  ultimately show ?thesis using foldl_mask_length [of ninf ?data1 rej] by auto
qed

text \<open>What the grammar object does with a piece, in terms of its code points.\<close>

lemma accept_str_result:
  assumes "grammar_ok g"
  obtains res where "accept_all (gm_rules g) (gm_stacks g) (butlast (fst (decode_utf8 bs (gm_partial g)))) = Some (Inr res)"
    "set res = run_set (gm_rules g) (set (gm_stacks g)) (butlast (fst (decode_utf8 bs (gm_partial g))))"
    "\<forall>s \<in> set res. at_terminal (gm_rules g) s"
    "accept_str g bs = Some (if res = [] then Inl (Throw ''Unexpected empty grammar stack after accepting piece'') else Inr (),
       g\<lparr>gm_stacks := res, gm_partial := snd (decode_utf8 bs (gm_partial g))\<rparr>)"
proof -
  obtain res where "accept_all (gm_rules g) (gm_stacks g) (butlast (fst (decode_utf8 bs (gm_partial g)))) = Some (Inr res)"
    "set res = run_set (gm_rules g) (set (gm_stacks g)) (butlast (fst (decode_utf8 bs (gm_partial g))))"
    "\<forall>s \<in> set res. at_terminal (gm_rules g) s"
    using accept_all_result [of "gm_rules g" "gm_stacks g" "butlast (fst (decode_utf8 bs (gm_partial g)))"] assms
    unfolding grammar_ok_def by blast
  then show thesis using that [of res] by (simp add: accept_str_def Let_def split_def)
qed


text \<open>A piece is allowed when it can stop on one of the stacks after its code points.\<close>

lemma piece_rest:
  assumes "0 \<notin> set (butlast (fst (decode_utf8 bs pu)))"
  shows "c_rest (piece_cand i bs pu) = butlast (fst (decode_utf8 bs pu))"
proof -
  have "takeWhile (\<lambda>x. x \<noteq> 0) (butlast (fst (decode_utf8 bs pu)) @ [0]) = butlast (fst (decode_utf8 bs pu))"
    by (subst takeWhile_append2) (use assms in metis, simp)
  then show ?thesis using decode_utf8_split [of bs pu] by (simp add: c_rest_def piece_cand_def)
qed

lemma piece_allowed_accept:
  assumes "grammar_ok g" "0 \<notin> set (butlast (fst (decode_utf8 bs (gm_partial g))))"
  shows "\<exists>res. (piece_allowed g bs \<longleftrightarrow> (\<exists>s \<in> set res. can_stop (gm_rules g) (piece_cand 0 bs (gm_partial g)) s))
    \<and> (\<forall>s \<in> set res. at_terminal (gm_rules g) s)
    \<and> accept_str g bs = Some (if res = [] then Inl (Throw ''Unexpected empty grammar stack after accepting piece'') else Inr (),
        g\<lparr>gm_stacks := res, gm_partial := snd (decode_utf8 bs (gm_partial g))\<rparr>)"
proof -
  obtain res where r: "set res = run_set (gm_rules g) (set (gm_stacks g)) (butlast (fst (decode_utf8 bs (gm_partial g))))"
    "\<forall>s \<in> set res. at_terminal (gm_rules g) s"
    "accept_str g bs = Some (if res = [] then Inl (Throw ''Unexpected empty grammar stack after accepting piece'') else Inr (),
       g\<lparr>gm_stacks := res, gm_partial := snd (decode_utf8 bs (gm_partial g))\<rparr>)"
    by (rule accept_str_result [OF assms(1)])
  have "piece_allowed g bs \<longleftrightarrow> (\<exists>s \<in> set res. can_stop (gm_rules g) (piece_cand 0 bs (gm_partial g)) s)"
    unfolding piece_allowed_def survives_def piece_rest [OF assms(2)] r(1) run_set_split [of _ "set (gm_stacks g)"] by auto
  then show ?thesis using r(2,3) by blast
qed

section \<open>Completions of a partial sequence\<close>

text \<open>The lower bound of every range is at most its upper bound.\<close>

fun ordered :: "gr_elem list \<Rightarrow> bool" where
  "ordered (e # u # es) \<longleftrightarrow> (g_type u = G_CHAR_RNG_UPPER \<longrightarrow> g_value e \<le> g_value u) \<and> ordered (u # es)"
| "ordered es \<longleftrightarrow> True"

definition in_class :: "gr_elem list \<Rightarrow> nat \<Rightarrow> bool" where
  "in_class es c = fst (match_loop es c False 0)"

lemma match_loop_found: "fst (match_loop es c found n) \<longleftrightarrow> found \<or> in_class es c"
proof (induction es arbitrary: found n rule: length_induct)
  case (1 es)
  have IH: "fst (match_loop xs c f m) \<longleftrightarrow> f \<or> in_class xs c" if "length xs < length es" for xs f m using 1 that by blast
  show ?case
  proof (cases "(es, c, found, n)" rule: match_loop.cases)
    case (1 e u xs c found n)
    then show ?thesis using IH [of xs] IH [of "u # xs"] by (auto simp: in_class_def [of "e # u # xs"] Let_def)
  qed (auto simp: in_class_def)
qed

lemma in_class_Cons:
  "in_class (e # u # es) c \<longleftrightarrow>
     (if g_type u = G_CHAR_RNG_UPPER then (g_value e \<le> c \<and> c \<le> g_value u) \<or> (es \<noteq> [] \<and> g_type (hd es) = G_CHAR_ALT \<and> in_class es c)
      else g_type e = G_CHAR_ANY \<or> g_value e = c \<or> (g_type u = G_CHAR_ALT \<and> in_class (u # es) c))"
  by (auto simp: in_class_def [of "e # u # es"] Let_def match_loop_found)

text \<open>The loop over a class asks whether some code point between \<open>low\<close> and \<open>high\<close> is in it.\<close>

lemma match_partial_loop_result:
  assumes "low \<le> high" "ordered es" "tail_ok es" "is_range (g_type (hd es)) \<or> g_type (hd es) = G_CHAR_ALT" "g_type (hd es) = G_CHAR_ANY \<longrightarrow> positive"
  shows "match_partial_loop es positive low high = ((\<exists>c \<in> {low..high}. in_class es c) = positive)"
  using assms
proof (induction es positive low high rule: match_partial_loop.induct)
  case (1 e u es positive low high)
  have t1: "tail_ok (u # es)" "follows e u" using tail_ok_Cons [of e "u # es"] 1(4,5,6) by (auto simp: is_range_def)
  show ?case
  proof (cases "g_type u = G_CHAR_RNG_UPPER")
    case True
    let ?a = "max low (g_value e)"
    have t2: "tail_ok es" using tail_ok_Cons [OF t1(1)] True by auto
    then have ne: "es \<noteq> []" by (auto simp: tail_ok_def)
    have le: "g_value e \<le> g_value u" "ordered es" using 1(4) True ne by (cases es; simp)+
    have hit: "(\<exists>c \<in> {low..high}. g_value e \<le> c \<and> c \<le> g_value u) \<longleftrightarrow> g_value e \<le> high \<and> low \<le> g_value u"
      using le(1) 1(3) by (auto intro!: bexI [of _ ?a])
    show ?thesis
    proof (cases "g_value e \<le> high \<and> low \<le> g_value u")
      case h: True
      then show ?thesis using hit True by (auto simp: in_class_Cons)
    next
      case False
      then have no: "\<not> (g_value e \<le> c \<and> c \<le> g_value u)" if "c \<in> {low..high}" for c using hit that by blast
      show ?thesis
      proof (cases "g_type (hd es) = G_CHAR_ALT")
        case alt: True
        then have "match_partial_loop es positive low high = ((\<exists>c \<in> {low..high}. in_class es c) = positive)"
          using "1.IH"(1) [OF True False] ne 1(3) le(2) t2 by auto
        then show ?thesis using True False alt ne no by (auto simp: in_class_Cons)
      next
        case na: False
        then show ?thesis using True False no by (auto simp: in_class_Cons)
      qed
    qed
  next
    case False
    show ?thesis
    proof (cases "g_type e = G_CHAR_ANY")
      case True
      then show ?thesis using False 1(3,7) by (auto simp: in_class_Cons)
    next
      case ne: False
      show ?thesis
      proof (cases "low \<le> g_value e \<and> g_value e \<le> high")
        case True
        then show ?thesis using False ne by (auto simp: in_class_Cons)
      next
        case no: False
        have "ordered (u # es)" using 1(4) by simp
        then show ?thesis using "1.IH"(2) [OF False ne no] 1(3) t1(1) False ne no by (auto simp: in_class_Cons)
      qed
    qed
  qed
qed (auto simp: tail_ok_def is_range_def)

definition matches :: "gr_rules \<Rightarrow> gr_pos \<Rightarrow> nat \<Rightarrow> bool" where
  "matches R p c \<longleftrightarrow> (\<exists>p'. match_char R p c = Inr (True, p'))"

lemma matches_class:
  assumes "is_range (type_at R p)"
  shows "matches R p c \<longleftrightarrow> (in_class (elems_from R p) c = is_positive_char (type_at R p))"
  using assms by (auto simp: matches_def match_char_def Let_def in_class_def is_range_def is_positive_char_def split: prod.splits)

text \<open>A partial sequence that can still become a code point: its bits fit the number of bytes that remain.\<close>

definition partial_wf :: "partial_utf8 \<Rightarrow> bool" where
  "partial_wf pu \<longleftrightarrow> n_remain pu \<in> {0..3} \<and> pu_value pu * 2 ^ (nat (n_remain pu) * 6) < 2 ^ 31 \<and> \<not> (n_remain pu = 1 \<and> pu_value pu < 2)"

lemma partial_low_le_high:
  assumes "partial_wf pu"
  shows "partial_low pu \<le> partial_high pu"
proof -
  have "n_remain pu = 0 \<or> n_remain pu = 1 \<or> n_remain pu = 2 \<or> n_remain pu = 3" using assms by (auto simp: partial_wf_def)
  then show ?thesis by (elim disjE) (simp_all add: partial_low_def partial_high_def Let_def)
qed

lemma match_partial_char_result:
  assumes "rules_ok R" "pos_ok R p" "is_range (type_at R p)" "ordered (elems_from R p)" "partial_wf pu"
  shows "match_partial_char R p pu =
    Inr ((\<exists>c \<in> {partial_low pu..partial_high pu}. in_class (elems_from R p) c) = is_positive_char (type_at R p))"
proof -
  have p: "in_rules R p" using assms(2) by (simp add: pos_ok_def)
  have es: "tail_ok (elems_from R p)" "g_type (hd (elems_from R p)) = type_at R p"
    using tail_ok_drop [OF assms(1) p] p by (simp_all add: elems_from_def hd_drop_conv_nth in_rules_def type_at_def elem_at_def)
  have "match_partial_loop (elems_from R p) (is_positive_char (type_at R p)) (partial_low pu) (partial_high pu)
    = ((\<exists>c \<in> {partial_low pu..partial_high pu}. in_class (elems_from R p) c) = is_positive_char (type_at R p))"
    by (rule match_partial_loop_result [OF partial_low_le_high [OF assms(5)] assms(4) es(1)])
      (use es(2) assms(3) in \<open>auto simp: is_positive_char_def\<close>)
  then show ?thesis using assms(3,5) by (auto simp: match_partial_char_def Let_def partial_wf_def is_range_def is_positive_char_def)
qed


section \<open>UTF-8 in pieces\<close>

text \<open>The encoding of a code point.\<close>

definition utf8_encode :: "nat \<Rightarrow> nat list" where
  "utf8_encode c =
     (if c < 128 then [c]
      else if c < 2048 then [192 + c div 64, 128 + c mod 64]
      else if c < 65536 then [224 + c div 4096, 128 + c div 64 mod 64, 128 + c mod 64]
      else [240 + c div 262144, 128 + c div 4096 mod 64, 128 + c div 64 mod 64, 128 + c mod 64])"

text \<open>
  A reference decoder that reads byte by byte: the code points it completes, with the value and the number
  of bytes that remain; \<open>None\<close> when a byte is not the one expected.
\<close>

fun feed :: "nat list \<Rightarrow> nat \<Rightarrow> int \<Rightarrow> (nat list \<times> nat \<times> int) option" where
  "feed [] v n = Some ([], v, n)"
| "feed (b # bs) v n =
     (if b = 0 then None
      else if n > 0 then
        if b div 64 \<noteq> 2 then None
        else map_option (\<lambda>(out, r). ((if n = 1 then [utf8_add v b] else []) @ out, r)) (feed bs (utf8_add v b) (n - 1))
      else
        let n1 = int (utf8_lookup ! (b div 16)) - 1; v1 = b mod 2 ^ nat (7 - n1) in
        if n1 < 0 then None
        else map_option (\<lambda>(out, r). ((if n1 = 0 then [v1] else []) @ out, r)) (feed bs v1 n1))"

lemma feed_append:
  "feed (a @ b) v n = Some (out, r) \<Longrightarrow>
     \<exists>o1 v1 n1 o2. feed a v n = Some (o1, v1, n1) \<and> feed b v1 n1 = Some (o2, r) \<and> out = o1 @ o2"
proof (induction a arbitrary: v n out)
  case (Cons x a)
  show ?case
  proof (cases "n > 0")
    case True
    then obtain out' where o: "feed (a @ b) (utf8_add v x) (n - 1) = Some (out', r)" "x \<noteq> 0" "x div 64 = 2"
      "out = (if n = 1 then [utf8_add v x] else []) @ out'"
      using Cons.prems by (auto split: if_splits)
    then show ?thesis using Cons.IH [OF o(1)] True by fastforce
  next
    case False
    let ?n = "int (utf8_lookup ! (x div 16)) - 1"
    obtain out' where o: "feed (a @ b) (x mod 2 ^ nat (7 - ?n)) ?n = Some (out', r)" "x \<noteq> 0" "\<not> ?n < 0"
      "out = (if ?n = 0 then [x mod 2 ^ nat (7 - ?n)] else []) @ out'"
      using Cons.prems False by (auto simp: Let_def split: if_splits)
    then show ?thesis using Cons.IH [OF o(1)] False by (fastforce simp: Let_def)
  qed
qed auto

lemma feed_nonneg: "feed bs v n = Some (out, v', n') \<Longrightarrow> 0 \<le> n \<Longrightarrow> 0 \<le> n'"
  by (induction bs v n arbitrary: out rule: feed.induct) (auto simp: Let_def split: if_splits)

lemma feed_fill:
  assumes "feed bs v n = Some (out, v', n')" "0 < n" "utf8_fill bs v n = (v2, n2, bs2)"
  shows "if n2 = 0 then \<exists>out2. feed bs2 v2 0 = Some (out2, v', n') \<and> out = v2 # out2 else bs2 = [] \<and> out = [] \<and> v2 = v' \<and> n2 = n'"
  using assms
proof (induction bs v n arbitrary: out rule: utf8_fill.induct)
  case (2 b bs v n)
  then obtain out' where o: "feed bs (utf8_add v b) (n - 1) = Some (out', v', n')" "b \<noteq> 0" "out = (if n = 1 then [utf8_add v b] else []) @ out'"
    by (auto split: if_splits)
  show ?case
  proof (cases "n = 1")
    case True
    then have "(v2, n2, bs2) = (utf8_add v b, 0, bs)" using 2(4) o(2) by (cases bs) auto
    then show ?thesis using o True by auto
  next
    case False
    then show ?thesis using "2.IH" [OF _ o(1)] 2(3,4) o(2,3) by auto
  qed
qed auto

lemma feed_continue:
  assumes "feed bs v n = Some (out, v', n')" "0 < n"
  shows "utf8_continue bs v n = Some (utf8_fill bs v n)"
  using assms
proof (induction bs v n arbitrary: out rule: utf8_fill.induct)
  case (2 b bs v n)
  then obtain out' where o: "feed bs (utf8_add v b) (n - 1) = Some (out', v', n')" "b \<noteq> 0" "b div 64 = 2"
    by (auto split: if_splits)
  show ?case
  proof (cases "n = 1")
    case True
    then show ?thesis using o by (cases bs) auto
  next
    case False
    then show ?thesis using "2.IH" [OF _ o(1)] 2(3) o by auto
  qed
qed auto

lemma feed_loop:
  assumes "feed bs v 0 = Some (out, v', n')"
  shows "utf8_loop bs cps v 0 = (cps @ out @ [0], \<lparr>pu_value = v', n_remain = n'\<rparr>)"
  using assms
proof (induction bs arbitrary: v out cps rule: length_induct)
  case (1 bs)
  show ?case
  proof (cases bs)
    case Nil
    then show ?thesis using 1(2) by (simp add: utf8_loop.simps [of "[]"] at_nul_def)
  next
    case (Cons b bs1)
    let ?n = "int (utf8_lookup ! (b div 16)) - 1"
    let ?v = "b mod 2 ^ nat (7 - ?n)"
    obtain out' where o: "feed bs1 ?v ?n = Some (out', v', n')" "b \<noteq> 0" "\<not> ?n < 0" "out = (if ?n = 0 then [?v] else []) @ out'"
      using 1(2) Cons by (auto simp: Let_def split: if_splits)
    obtain v2 n2 bs2 where f: "utf8_fill bs1 ?v ?n = (v2, n2, bs2)" by (metis prod_cases3)
    have step: "utf8_loop bs cps v 0 = utf8_loop bs2 (if n2 = 0 then cps @ [v2] else cps) v2 n2"
      using o(2,3) f by (subst utf8_loop.simps) (simp add: Cons at_nul_def Let_def)
    have shorter: "length bs2 < length bs" using utf8_fill_length [OF f] Cons by simp
    show ?thesis
    proof (cases "?n = 0")
      case True
      then have "v2 = ?v" "n2 = 0" "bs2 = bs1" using f by (cases bs1; simp)+
      then show ?thesis using 1(1) shorter o(1,4) True step by simp
    next
      case False
      then have "0 < ?n" using o(3) by linarith
      show ?thesis
      proof (cases "n2 = 0")
        case z: True
        then obtain out2 where "feed bs2 v2 0 = Some (out2, v', n')" "out' = v2 # out2"
          using feed_fill [OF o(1) \<open>0 < ?n\<close> f] by auto
        then show ?thesis using 1(1) shorter o(4) False step z by simp
      next
        case nz: False
        then have "bs2 = []" "out' = []" "v2 = v'" "n2 = n'" using feed_fill [OF o(1) \<open>0 < ?n\<close> f] by auto
        then show ?thesis using step nz o(4) False by (simp add: utf8_loop.simps [of "[]"] at_nul_def)
      qed
    qed
  qed
qed

text \<open>On bytes it can read, the decoder of the program is the reference decoder.\<close>

lemma decode_feed:
  assumes "feed bs (pu_value pu) (n_remain pu) = Some (out, v', n')" "0 \<le> n_remain pu"
  shows "decode_utf8 bs pu = (out @ [0], \<lparr>pu_value = v', n_remain = n'\<rparr>)"
proof (cases "n_remain pu = 0")
  case True
  then have "utf8_continue bs (pu_value pu) 0 = Some (pu_value pu, 0, bs)" by (cases bs) auto
  then show ?thesis using feed_loop [of bs "pu_value pu" out v' n' "[]"] assms(1) True by (simp add: decode_utf8_def)
next
  case False
  then have n: "0 < n_remain pu" using assms(2) by simp
  obtain v2 n2 bs2 where f: "utf8_fill bs (pu_value pu) (n_remain pu) = (v2, n2, bs2)" by (metis prod_cases3)
  have c: "utf8_continue bs (pu_value pu) (n_remain pu) = Some (v2, n2, bs2)" using feed_continue [OF assms(1) n] f by simp
  show ?thesis
  proof (cases "n2 = 0")
    case True
    then obtain out2 where "feed bs2 v2 0 = Some (out2, v', n')" "out = v2 # out2" using feed_fill [OF assms(1) n f] by auto
    then show ?thesis using c n True feed_loop [of bs2 v2 out2 v' n' "[v2]"] by (simp add: decode_utf8_def)
  next
    case nz: False
    then have "bs2 = []" "out = []" "v2 = v'" "n2 = n'" using feed_fill [OF assms(1) n f] by auto
    then show ?thesis using c n nz by (simp add: decode_utf8_def utf8_loop.simps [of "[]"] at_nul_def)
  qed
qed


lemma utf8_add_small: "v < 2 ^ 26 \<Longrightarrow> x < 64 \<Longrightarrow> utf8_add v (128 + x) = v * 64 + x"
  unfolding utf8_add_def using mod_add_self2 [of x 64] mod_mult_self3 [of 2 64 x] by simp

lemma lookup_simps:
  "b < 128 \<Longrightarrow> utf8_lookup ! (b div 16) = 1" "192 \<le> b \<Longrightarrow> b < 224 \<Longrightarrow> utf8_lookup ! (b div 16) = 2"
  "224 \<le> b \<Longrightarrow> b < 240 \<Longrightarrow> utf8_lookup ! (b div 16) = 3" "240 \<le> b \<Longrightarrow> b < 256 \<Longrightarrow> utf8_lookup ! (b div 16) = 4"
proof -
  show "b < 128 \<Longrightarrow> utf8_lookup ! (b div 16) = 1"
  proof -
    assume "b < 128"
    then have "b div 16 \<in> {0, 1, 2, 3, 4, 5, 6, 7}" by (simp, linarith)
    then show ?thesis by (auto simp: utf8_lookup_def)
  qed
  show "192 \<le> b \<Longrightarrow> b < 224 \<Longrightarrow> utf8_lookup ! (b div 16) = 2"
  proof -
    assume "192 \<le> b" "b < 224"
    then have "b div 16 = 12 \<or> b div 16 = 13" by linarith
    then show ?thesis by (auto simp: utf8_lookup_def)
  qed
  show "224 \<le> b \<Longrightarrow> b < 240 \<Longrightarrow> utf8_lookup ! (b div 16) = 3"
  proof -
    assume "224 \<le> b" "b < 240"
    then have "b div 16 = 14" by linarith
    then show ?thesis by (simp add: utf8_lookup_def)
  qed
  show "240 \<le> b \<Longrightarrow> b < 256 \<Longrightarrow> utf8_lookup ! (b div 16) = 4"
  proof -
    assume "240 \<le> b" "b < 256"
    then have "b div 16 = 15" by linarith
    then show ?thesis by (simp add: utf8_lookup_def)
  qed
qed

lemma feed_cont:
  assumes "x < 64" "0 < n" "v < 2 ^ 26"
  shows "feed ((128 + x) # bs) v n = map_option (\<lambda>(out, r). ((if n = 1 then [v * 64 + x] else []) @ out, r)) (feed bs (v * 64 + x) (n - 1))"
proof -
  have "(128 + x) div 64 = 2" using assms(1) by linarith
  then show ?thesis using assms utf8_add_small by simp
qed

lemma feed_start:
  assumes "b \<noteq> 0" "utf8_lookup ! (b div 16) = Suc k" "v1 = b mod 2 ^ (7 - k)"
  shows "feed (b # bs) v 0 = map_option (\<lambda>(out, r). ((if k = 0 then [v1] else []) @ out, r)) (feed bs v1 (int k))"
  using assms by (simp add: Let_def nat_diff_distrib' flip: of_nat_diff)

text \<open>The reference decoder reads an encoded code point.\<close>

lemma feed_bytes:
  assumes "x < 64" "y < 64" "z < 64"
  shows "q < 32 \<Longrightarrow> feed ((192 + q) # (128 + x) # bs) v 0 = map_option (\<lambda>(out, r). ((q * 64 + x) # out, r)) (feed bs (q * 64 + x) 0)"
    and "q < 16 \<Longrightarrow> feed ((224 + q) # (128 + x) # (128 + y) # bs) v 0
      = map_option (\<lambda>(out, r). (((q * 64 + x) * 64 + y) # out, r)) (feed bs ((q * 64 + x) * 64 + y) 0)"
    and "q < 8 \<Longrightarrow> feed ((240 + q) # (128 + x) # (128 + y) # (128 + z) # bs) v 0
      = map_option (\<lambda>(out, r). ((((q * 64 + x) * 64 + y) * 64 + z) # out, r)) (feed bs (((q * 64 + x) * 64 + y) * 64 + z) 0)"
proof -
  assume q: "q < 32"
  have "(192 + q) mod 2 ^ (7 - 1) = q" using q by (simp add: mod_if)
  then show "feed ((192 + q) # (128 + x) # bs) v 0 = map_option (\<lambda>(out, r). ((q * 64 + x) # out, r)) (feed bs (q * 64 + x) 0)"
    using feed_start [of "192 + q" 1 q] lookup_simps(2) [of "192 + q"] feed_cont [OF assms(1), of 1 q bs] q
    by (simp add: option.map_comp comp_def split_def del: feed.simps)
next
  assume q: "q < 16"
  have "(224 + q) mod 2 ^ (7 - 2) = q" using q by (simp add: mod_if)
  then show "feed ((224 + q) # (128 + x) # (128 + y) # bs) v 0
      = map_option (\<lambda>(out, r). (((q * 64 + x) * 64 + y) # out, r)) (feed bs ((q * 64 + x) * 64 + y) 0)"
    using feed_start [of "224 + q" 2 q] lookup_simps(3) [of "224 + q"] feed_cont [OF assms(1), of 2 q] feed_cont [OF assms(2), of 1 "q * 64 + x" bs] q assms
    by (simp add: option.map_comp comp_def split_def del: feed.simps)
next
  assume q: "q < 8"
  have "(240 + q) mod 2 ^ (7 - 3) = q" using q by (simp add: mod_if)
  then show "feed ((240 + q) # (128 + x) # (128 + y) # (128 + z) # bs) v 0
      = map_option (\<lambda>(out, r). ((((q * 64 + x) * 64 + y) * 64 + z) # out, r)) (feed bs (((q * 64 + x) * 64 + y) * 64 + z) 0)"
    using feed_start [of "240 + q" 3 q] lookup_simps(4) [of "240 + q"] feed_cont [OF assms(1), of 3 q] feed_cont [OF assms(2), of 2 "q * 64 + x"]
      feed_cont [OF assms(3), of 1 "(q * 64 + x) * 64 + y" bs] q assms
    by (simp add: option.map_comp comp_def split_def del: feed.simps)
qed

lemma feed_encode:
  assumes "0 < c" "c < 2 ^ 21"
  shows "feed (utf8_encode c @ bs) v 0 = map_option (\<lambda>(out, r). (c # out, r)) (feed bs c 0)"
proof -
  have m: "c mod 64 < 64" "c div 64 mod 64 < 64" "c div 4096 mod 64 < 64" by simp_all
  have d: "c = c div 64 * 64 + c mod 64" "c div 64 = c div 4096 * 64 + c div 64 mod 64" "c div 4096 = c div 262144 * 64 + c div 4096 mod 64"
    using div_mult_mod_eq [of c 64] div_mult_mod_eq [of "c div 64" 64] div_mult_mod_eq [of "c div 4096" 64] by (simp_all add: div_mult2_eq [symmetric])
  consider "c < 128" | "128 \<le> c" "c < 2048" | "2048 \<le> c" "c < 65536" | "65536 \<le> c" by linarith
  then show ?thesis
  proof cases
    case 1
    then show ?thesis using feed_start [of c 0 c bs v] lookup_simps(1) [of c] assms(1) by (simp add: utf8_encode_def del: feed.simps)
  next
    case 2
    then have "c div 64 < 32" by (simp add: less_mult_imp_div_less)
    from feed_bytes(1) [OF m(1,1,1) this, of bs v] show ?thesis
      using 2 d(1) by (simp add: utf8_encode_def del: feed.simps)
  next
    case 3
    then have q: "c div 4096 < 16" by (simp add: less_mult_imp_div_less)
    have "(c div 4096 * 64 + c div 64 mod 64) * 64 + c mod 64 = c" using d by presburger
    with feed_bytes(2) [OF m(2,1,1) q, of bs v] show ?thesis using 3 by (simp add: utf8_encode_def del: feed.simps)
  next
    case 4
    have q: "c div 262144 < 8" using assms(2) by (simp add: less_mult_imp_div_less)
    have "((c div 262144 * 64 + c div 4096 mod 64) * 64 + c div 64 mod 64) * 64 + c mod 64 = c" using d by presburger
    with feed_bytes(3) [OF m(3,2,1) q, of bs v] show ?thesis using 4 by (simp add: utf8_encode_def del: feed.simps)
  qed
qed

lemma feed_text:
  assumes "\<forall>c \<in> set cs. 0 < c \<and> c < 2 ^ 21"
  shows "\<exists>v'. feed (concat (map utf8_encode cs)) v 0 = Some (cs, v', 0)"
  using assms
proof (induction cs arbitrary: v)
  case (Cons c cs)
  then obtain v' where "feed (concat (map utf8_encode cs)) c 0 = Some (cs, v', 0)" by force
  then show ?case using feed_encode [of c "concat (map utf8_encode cs)" v] Cons.prems by (auto simp del: feed.simps)
qed simp

text \<open>Decoding the pieces of a text one after another, as tokens are accepted.\<close>

fun decode_pieces :: "nat list list \<Rightarrow> partial_utf8 \<Rightarrow> nat list \<times> partial_utf8" where
  "decode_pieces [] pu = ([], pu)"
| "decode_pieces (b # bs) pu =
     (let (cps, pu1) = decode_utf8 b pu; (cps', pu2) = decode_pieces bs pu1 in (butlast cps @ cps', pu2))"

lemma decode_pieces_feed:
  assumes "feed (concat pieces) (pu_value pu) (n_remain pu) = Some (out, v', n')" "0 \<le> n_remain pu"
  shows "decode_pieces pieces pu = (out, \<lparr>pu_value = v', n_remain = n'\<rparr>)"
  using assms
proof (induction pieces arbitrary: pu out)
  case (Cons b bs)
  obtain o1 v1 n1 o2 where o: "feed b (pu_value pu) (n_remain pu) = Some (o1, v1, n1)" "feed (concat bs) v1 n1 = Some (o2, v', n')" "out = o1 @ o2"
    using feed_append [of b "concat bs"] Cons.prems(1) by (metis concat.simps(2))
  have "decode_pieces bs \<lparr>pu_value = v1, n_remain = n1\<rparr> = (o2, \<lparr>pu_value = v', n_remain = n'\<rparr>)"
    using Cons.IH [of "\<lparr>pu_value = v1, n_remain = n1\<rparr>"] o(2) feed_nonneg [OF o(1) Cons.prems(2)] by simp
  then show ?case using decode_feed [OF o(1) Cons.prems(2)] o(3) by simp
qed simp


text \<open>
  The code points a partial sequence can be completed to: those whose encoding begins with bytes that leave the
  decoder in this state.
\<close>

definition completes :: "partial_utf8 \<Rightarrow> nat \<Rightarrow> bool" where
  "completes pu c \<longleftrightarrow> 0 < c \<and> c < 2 ^ 21
     \<and> (\<exists>u v. utf8_encode c = u @ v \<and> u \<noteq> [] \<and> v \<noteq> [] \<and> snd (decode_utf8 u \<lparr>pu_value = 0, n_remain = 0\<rparr>) = pu)"

lemma utf8_length: "length (utf8_encode c) = (if c < 128 then 1 else if c < 2048 then 2 else if c < 65536 then 3 else 4)"
  by (simp add: utf8_encode_def)

text \<open>Decoding the first bytes of a code point.\<close>

lemma feed_first:
  assumes "x < 64" "y < 64"
  shows "q < 32 \<Longrightarrow> feed [192 + q] 0 0 = Some ([], q, 1)"
    and "q < 16 \<Longrightarrow> feed [224 + q] 0 0 = Some ([], q, 2)"
    and "q < 16 \<Longrightarrow> feed [224 + q, 128 + x] 0 0 = Some ([], q * 64 + x, 1)"
    and "q < 8 \<Longrightarrow> feed [240 + q] 0 0 = Some ([], q, 3)"
    and "q < 8 \<Longrightarrow> feed [240 + q, 128 + x] 0 0 = Some ([], q * 64 + x, 2)"
    and "q < 8 \<Longrightarrow> feed [240 + q, 128 + x, 128 + y] 0 0 = Some ([], (q * 64 + x) * 64 + y, 1)"
proof -
  assume q: "q < 32"
  have "(192 + q) mod 2 ^ (7 - 1) = q" using q by (simp add: mod_if)
  then show "feed [192 + q] 0 0 = Some ([], q, 1)"
    using feed_start [of "192 + q" 1 q "[]" 0] lookup_simps(2) [of "192 + q"] q by simp
next
  assume q: "q < 16"
  have m: "(224 + q) mod 2 ^ (7 - 2) = q" using q by (simp add: mod_if)
  note s = feed_start [of "224 + q" 2 q, OF _ _ m [symmetric]] lookup_simps(3) [of "224 + q"]
  show "feed [224 + q] 0 0 = Some ([], q, 2)" using s(1) [of "[]" 0] s(2) q by simp
  show "feed [224 + q, 128 + x] 0 0 = Some ([], q * 64 + x, 1)"
    using s(1) [of "[128 + x]" 0] s(2) feed_cont [OF assms(1), of 2 q "[]"] q by (simp del: feed.simps(2))
next
  assume q: "q < 8"
  have m: "(240 + q) mod 2 ^ (7 - 3) = q" using q by (simp add: mod_if)
  note s = feed_start [of "240 + q" 3 q, OF _ _ m [symmetric]] lookup_simps(4) [of "240 + q"]
  show "feed [240 + q] 0 0 = Some ([], q, 3)" using s(1) [of "[]" 0] s(2) q by simp
  show "feed [240 + q, 128 + x] 0 0 = Some ([], q * 64 + x, 2)"
    using s(1) [of "[128 + x]" 0] s(2) feed_cont [OF assms(1), of 3 q "[]"] q by (simp del: feed.simps(2))
  show "feed [240 + q, 128 + x, 128 + y] 0 0 = Some ([], (q * 64 + x) * 64 + y, 1)"
    using s(1) [of "[128 + x, 128 + y]" 0] s(2) feed_cont [OF assms(1), of 3 q "[128 + y]"]
      feed_cont [OF assms(2), of 2 "q * 64 + x" "[]"] q assms by (simp del: feed.simps(2))
qed

lemma feed_prefix:
  assumes "c < 2 ^ 21" "0 < k" "k < length (utf8_encode c)"
  shows "feed (take k (utf8_encode c)) 0 0
    = Some ([], c div 64 ^ (length (utf8_encode c) - k), int (length (utf8_encode c) - k))"
proof -
  have m: "c mod 64 < 64" "c div 64 mod 64 < 64" "c div 4096 mod 64 < 64" by simp_all
  have d: "c div 64 = c div 4096 * 64 + c div 64 mod 64" "c div 4096 = c div 262144 * 64 + c div 4096 mod 64"
    using div_mult_mod_eq [of "c div 64" 64] div_mult_mod_eq [of "c div 4096" 64] by (simp_all add: div_mult2_eq [symmetric])
  have L: "128 \<le> c" using assms(2,3) by (simp add: utf8_length split: if_splits)
  consider "c < 2048" | "2048 \<le> c" "c < 65536" | "65536 \<le> c" by linarith
  then show ?thesis
  proof cases
    case 1
    then have "k = 1" "c div 64 < 32" using assms(2,3) L by (simp_all add: utf8_length less_mult_imp_div_less)
    then show ?thesis using feed_first(1) [OF m(1,1)] 1 L by (simp add: utf8_encode_def del: feed.simps)
  next
    case 2
    then have "k = 1 \<or> k = 2" "c div 4096 < 16" using assms(2,3) by (auto simp: utf8_length less_mult_imp_div_less)
    then show ?thesis
      using feed_first(2,3) [OF m(2,2), of "c div 4096"] 2 d(1) by (auto simp: utf8_encode_def power2_eq_square numeral_2_eq_2 simp del: feed.simps)
  next
    case 3
    then have k: "k = 1 \<or> k = 2 \<or> k = 3" "c div 262144 < 8" using assms by (auto simp: utf8_length less_mult_imp_div_less)
    have "(c div 262144 * 64 + c div 4096 mod 64) * 64 + c div 64 mod 64 = c div 64" using d by presburger
    then show ?thesis
      using k feed_first(4,5,6) [OF m(3,2), of "c div 262144"] 3 d(2)
      by (auto simp: utf8_encode_def power2_eq_square power3_eq_cube numeral_2_eq_2 numeral_3_eq_3 simp del: feed.simps)
  qed
qed

lemma decode_prefix:
  assumes "c < 2 ^ 21" "utf8_encode c = u @ v" "u \<noteq> []" "v \<noteq> []"
  shows "snd (decode_utf8 u \<lparr>pu_value = 0, n_remain = 0\<rparr>) = \<lparr>pu_value = c div 64 ^ length v, n_remain = int (length v)\<rparr>"
proof -
  have "take (length u) (utf8_encode c) = u" "length (utf8_encode c) - length u = length v" using assms(2) by simp_all
  then have "feed u 0 0 = Some ([], c div 64 ^ length v, int (length v))"
    using feed_prefix [OF assms(1), of "length u"] assms(2-4) by simp
  then show ?thesis using decode_feed [of u "\<lparr>pu_value = 0, n_remain = 0\<rparr>"] by simp
qed

lemma completes_iff:
  "completes pu c \<longleftrightarrow> 0 < c \<and> c < 2 ^ 21 \<and> 0 < n_remain pu \<and> nat (n_remain pu) < length (utf8_encode c)
     \<and> c div 64 ^ nat (n_remain pu) = pu_value pu"
proof
  assume "completes pu c"
  then show "0 < c \<and> c < 2 ^ 21 \<and> 0 < n_remain pu \<and> nat (n_remain pu) < length (utf8_encode c) \<and> c div 64 ^ nat (n_remain pu) = pu_value pu"
    using decode_prefix by (fastforce simp: completes_def)
next
  let ?L = "length (utf8_encode c)" and ?n = "nat (n_remain pu)"
  assume *: "0 < c \<and> c < 2 ^ 21 \<and> 0 < n_remain pu \<and> ?n < ?L \<and> c div 64 ^ ?n = pu_value pu"
  let ?u = "take (?L - ?n) (utf8_encode c)" and ?v = "drop (?L - ?n) (utf8_encode c)"
  have "utf8_encode c = ?u @ ?v" "?u \<noteq> []" "?v \<noteq> []" "length ?v = ?n" using * by auto
  moreover from this have "snd (decode_utf8 ?u \<lparr>pu_value = 0, n_remain = 0\<rparr>) = pu"
    using decode_prefix [of c ?u ?v] * by simp
  ultimately show "completes pu c" using * unfolding completes_def by blast
qed

lemma completes_bounds:
  assumes "0 < n_remain pu" "n_remain pu \<le> 3" "pu_value pu * 2 ^ (6 * nat (n_remain pu)) < 2 ^ 21" "\<not> (n_remain pu = 1 \<and> pu_value pu < 2)"
  shows "completes pu c \<longleftrightarrow> c \<in> {partial_low pu..partial_high pu}"
proof -
  obtain v n where pu: "pu = \<lparr>pu_value = v, n_remain = n\<rparr>" by (cases pu)
  have "n = 1 \<or> n = 2 \<or> n = 3" using assms(1,2) by (auto simp: pu)
  then show ?thesis
  proof (elim disjE)
    assume n: "n = 1"
    then have "2 \<le> v" "v < 32768" using assms(3,4) by (simp_all add: pu)
    moreover from this have "c div 64 = v \<longleftrightarrow> 64 * v \<le> c \<and> c \<le> 64 * v + 63" by linarith
    ultimately show ?thesis unfolding completes_iff by (auto simp: pu n utf8_length partial_low_def partial_high_def Let_def)
  next
    assume n: "n = 2"
    then have "v < 512" using assms(3) by (simp add: pu)
    moreover have "c div 4096 = v \<longleftrightarrow> 4096 * v \<le> c \<and> c \<le> 4096 * v + 4095" by linarith
    ultimately show ?thesis unfolding completes_iff by (auto simp: pu n utf8_length partial_low_def partial_high_def Let_def)
  next
    assume n: "n = 3"
    then have "v < 8" using assms(3) by (simp add: pu)
    moreover have "c div 262144 = v \<longleftrightarrow> 262144 * v \<le> c \<and> c \<le> 262144 * v + 262143" by linarith
    ultimately show ?thesis unfolding completes_iff by (auto simp: pu n utf8_length partial_low_def partial_high_def Let_def)
  qed
qed

section \<open>Accepting text\<close>

lemma accept_all_append: "accept_all R st (a @ b) = bind_run (accept_all R st a) (\<lambda>st'. accept_all R st' b)"
proof (induction a arbitrary: st)
  case (Cons c a)
  then show ?case by (cases "grammar_accept R st c" rule: option.exhaust) (auto simp: bind_run_def split: option.splits sum.splits)
qed simp

lemma accept_all_none: "accept_all R [] w = Some (Inr [])"
  by (induction w) (simp_all add: grammar_accept_def)

text \<open>Accepting the pieces of a text one after another, up to the first exception.\<close>

fun accept_pieces :: "'p llama_grammar \<Rightarrow> nat list list \<Rightarrow> (unit res \<times> 'p llama_grammar) option" where
  "accept_pieces g [] = Some (Inr (), g)"
| "accept_pieces g (b # bs) =
     (case accept_str g b of Some (Inr u, g') \<Rightarrow> accept_pieces g' bs | r \<Rightarrow> r)"

lemma accept_pieces_result:
  assumes "grammar_ok g" "feed (concat pieces) (pu_value (gm_partial g)) (n_remain (gm_partial g)) = Some (out, v', n')" "0 \<le> n_remain (gm_partial g)"
  shows "\<exists>res. accept_all (gm_rules g) (gm_stacks g) out = Some (Inr res)
    \<and> (if res = [] then \<exists>e g'. accept_pieces g pieces = Some (Inl e, g')
       else accept_pieces g pieces = Some (Inr (), g\<lparr>gm_stacks := res, gm_partial := \<lparr>pu_value = v', n_remain = n'\<rparr>\<rparr>))"
  using assms
proof (induction pieces arbitrary: g out)
  case Nil
  then show ?case by (simp add: grammar_ok_def)
next
  case (Cons b bs)
  let ?R = "gm_rules g"
  obtain o1 v1 n1 o2 where o: "feed b (pu_value (gm_partial g)) (n_remain (gm_partial g)) = Some (o1, v1, n1)"
    "feed (concat bs) v1 n1 = Some (o2, v', n')" "out = o1 @ o2"
    using feed_append [of b "concat bs"] Cons.prems(2) by (metis concat.simps(2))
  have d: "decode_utf8 b (gm_partial g) = (o1 @ [0], \<lparr>pu_value = v1, n_remain = n1\<rparr>)" by (rule decode_feed [OF o(1) Cons.prems(3)])
  obtain res1 where r: "accept_all ?R (gm_stacks g) o1 = Some (Inr res1)" "\<forall>s \<in> set res1. at_terminal ?R s"
    "accept_str g b = Some (if res1 = [] then Inl (Throw ''Unexpected empty grammar stack after accepting piece'') else Inr (),
       g\<lparr>gm_stacks := res1, gm_partial := \<lparr>pu_value = v1, n_remain = n1\<rparr>\<rparr>)"
    using accept_str_result [OF Cons.prems(1), of b] d by (metis butlast_snoc fst_conv snd_conv)
  show ?case
  proof (cases "res1 = []")
    case True
    then show ?thesis using r o(3) by (auto simp: accept_all_append accept_all_none)
  next
    case False
    let ?g = "g\<lparr>gm_stacks := res1, gm_partial := \<lparr>pu_value = v1, n_remain = n1\<rparr>\<rparr>"
    have "grammar_ok ?g" using Cons.prems(1) r(2) False by (simp add: grammar_ok_def)
    moreover have "0 \<le> n1" by (rule feed_nonneg [OF o(1) Cons.prems(3)])
    ultimately obtain res where res: "accept_all ?R res1 o2 = Some (Inr res)"
        "if res = [] then \<exists>e g'. accept_pieces ?g bs = Some (Inl e, g')
         else accept_pieces ?g bs = Some (Inr (), ?g\<lparr>gm_stacks := res, gm_partial := \<lparr>pu_value = v', n_remain = n'\<rparr>\<rparr>)"
      using Cons.IH [of ?g o2] o(2) by auto
    have "accept_pieces g (b # bs) = accept_pieces ?g bs" using r(3) False by simp
    moreover have "accept_all ?R (gm_stacks g) out = Some (Inr res)" using r(1) res(1) o(3) by (simp add: accept_all_append)
    ultimately show ?thesis using res(2) by (cases "res = []") simp_all
  qed
qed

section \<open>Properties of text and tokens\<close>

text \<open>
  C30. A partial UTF-8 sequence at a character class that is not negated: \<open>llama_grammar_match_partial_char\<close> holds
  exactly when some code point whose encoding begins with such a sequence is in the class. The bounds of the
  ranges of the class are in order, one to three bytes are missing, and the bits read so far are not
  beyond the last code point.
\<close>

theorem partial_char_positive:
  assumes "rules_ok R" "pos_ok R p" "is_positive_char (type_at R p)" "ordered (elems_from R p)"
    and "0 < n_remain pu" "n_remain pu \<le> 3" "pu_value pu * 2 ^ (6 * nat (n_remain pu)) < 2 ^ 21"
  shows "match_partial_char R p pu = Inr (\<exists>c. completes pu c \<and> matches R p c)"
proof (cases "n_remain pu = 1 \<and> pu_value pu < 2")
  case True
  then have "\<not> completes pu c" for c using completes_iff [of pu c] by (auto simp: utf8_length)
  then show ?thesis using assms(3) True by (simp add: match_partial_char_def)
next
  case False
  have r: "is_range (type_at R p)" using assms(3) by (auto simp: is_positive_char_def is_range_def)
  have wf: "partial_wf pu" using assms(5-7) False by (simp add: partial_wf_def mult.commute)
  have "completes pu c \<longleftrightarrow> c \<in> {partial_low pu..partial_high pu}" for c
    by (rule completes_bounds [OF assms(5-7) False])
  then show ?thesis using match_partial_char_result [OF assms(1,2) r assms(4) wf] matches_class [OF r] assms(3) by auto
qed

definition range_rules :: "gretype \<Rightarrow> gr_rules" where
  "range_rules ty = [[\<lparr>g_type = ty, g_value = 233\<rparr>, \<lparr>g_type = G_CHAR_RNG_UPPER, g_value = 240\<rparr>, \<lparr>g_type = G_END, g_value = 0\<rparr>]]"

lemma range_rules_ok:
  assumes "ty = G_CHAR \<or> ty = G_CHAR_NOT"
  shows "rules_ok (range_rules ty)" "pos_ok (range_rules ty) (0, 0)" "ordered (elems_from (range_rules ty) (0, 0))" "type_at (range_rules ty) (0, 0) = ty"
  using assms by (auto simp: range_rules_def rules_ok_def rule_ok_def follows_def less_Suc_eq pos_ok_def in_rules_def starts_def
      elem_at_def type_at_def elems_from_def)

theorem partial_char_positive_witness:
  "\<exists>c. completes \<lparr>pu_value = 3, n_remain = 1\<rparr> c \<and> matches (range_rules G_CHAR) (0, 0) c"
proof -
  let ?pu = "\<lparr>pu_value = 3, n_remain = 1\<rparr>"
  have b: "partial_low ?pu = 192" "partial_high ?pu = 255" by (simp_all add: partial_low_def partial_high_def)
  then have "match_partial_char (range_rules G_CHAR) (0, 0) ?pu = Inr True"
    by (simp add: match_partial_char_def range_rules_def type_at_def elem_at_def elems_from_def is_positive_char_def)
  with b show ?thesis
    using partial_char_positive [of "range_rules G_CHAR" "(0, 0)" ?pu] range_rules_ok [of G_CHAR]
    by (simp add: is_positive_char_def)
qed

text \<open>
  At a negated class the answer is not the one the comment gives: \<open>llama_grammar_match_partial_char\<close> holds exactly
  when every completion of the sequence is outside the excluded ranges, not when some completion is, so
  a token that ends inside a sequence is rejected although its completion may be allowed.
\<close>

theorem partial_char_negated:
  assumes "rules_ok R" "pos_ok R p" "type_at R p = G_CHAR_NOT" "ordered (elems_from R p)" "partial_wf pu"
  shows "match_partial_char R p pu = Inr (\<forall>c \<in> {partial_low pu..partial_high pu}. matches R p c)"
proof -
  have r: "is_range (type_at R p)" using assms(3) by (auto simp: is_range_def)
  show ?thesis
    using match_partial_char_result [OF assms(1,2) r assms(4,5)] matches_class [OF r] assms(3) by (simp add: is_positive_char_def)
qed

theorem partial_char_negated_witness:
  "match_partial_char (range_rules G_CHAR_NOT) (0, 0) \<lparr>pu_value = 3, n_remain = 1\<rparr> = Inr False
   \<and> 232 \<in> {192..255::nat} \<and> matches (range_rules G_CHAR_NOT) (0, 0) 232"
proof -
  let ?R = "range_rules G_CHAR_NOT" and ?pu = "\<lparr>pu_value = 3, n_remain = 1\<rparr>"
  have "match_char ?R (0, 0) 233 = Inr (False, 0, 2)" "match_char ?R (0, 0) 232 = Inr (True, 0, 2)" by code_simp+
  then have m: "\<not> matches ?R (0, 0) 233" "matches ?R (0, 0) 232" by (auto simp: matches_def)
  have "partial_low ?pu = 192" "partial_high ?pu = 255" by (simp_all add: partial_low_def partial_high_def)
  moreover have "\<not> (\<forall>c \<in> {192..255}. matches ?R (0, 0) c)" using m(1) by (auto intro!: bexI [of _ 233])
  ultimately show ?thesis
    using partial_char_negated [of ?R "(0, 0)" ?pu] range_rules_ok [of G_CHAR_NOT] m(2) by (simp add: partial_wf_def)
qed

text \<open>
  C32. UTF-8 text is decoded correctly however it is cut into pieces: decoding the pieces one after another, each
  from the partial sequence the previous one left, gives the code points of the text and leaves no
  partial sequence.
\<close>

theorem utf8_pieces:
  assumes "\<forall>c \<in> set cs. 0 < c \<and> c < 2 ^ 21" "concat pieces = concat (map utf8_encode cs)" "n_remain pu = 0"
  shows "fst (decode_pieces pieces pu) = cs \<and> n_remain (snd (decode_pieces pieces pu)) = 0"
proof -
  obtain v' where "feed (concat pieces) (pu_value pu) 0 = Some (cs, v', 0)" using feed_text [OF assms(1)] assms(2) by metis
  then show ?thesis using decode_pieces_feed [of pieces pu cs v' 0] assms(3) by simp
qed

theorem utf8_pieces_witness:
  "fst (decode_pieces [[226, 130], [172, 97, 195], [169]] \<lparr>pu_value = 0, n_remain = 0\<rparr>) = [8364, 97, 233]"
  using utf8_pieces [of "[8364, 97, 233]" "[[226, 130], [172, 97, 195], [169]]" "\<lparr>pu_value = 0, n_remain = 0\<rparr>"]
  by (simp add: utf8_encode_def)

text \<open>The grammar object that \<open>llama_grammar_init_impl\<close> returns.\<close>

definition new_grammar :: "gr_rules \<Rightarrow> gr_stack list \<Rightarrow> 'p llama_grammar" where
  "new_grammar R st = \<lparr>gm_rules = R, gm_stacks = st, gm_partial = \<lparr>pu_value = 0, n_remain = 0\<rparr>, gm_lazy = False,
     awaiting_trigger = False, trigger_buffer = [], trigger_tokens = [], trigger_patterns = []\<rparr>"

text \<open>
  C33. From the rules to the text: a grammar built from well-formed rules without left recursion (no rule calls
  itself before it reads a character, through rules that may be empty) passes the check of the
  constructor and accepts the pieces of a UTF-8 text, whatever the pieces are, without an exception and ends
  with the empty stack among its stacks, so that the end of the generation is allowed, if and only if
  the start rule derives the code points of the text.
\<close>

theorem text_language:
  assumes "rules_ok R" "no_left_recursion R" "start < length R"
    and "\<forall>c \<in> set cs. 0 < c \<and> c < 2 ^ 21" "concat pieces = concat (map utf8_encode cs)"
  shows "\<exists>st r g'. left_recursive R = Some (Inr False) \<and> init_stacks R start = Some (Inr st)
    \<and> accept_pieces (new_grammar R st :: 'p llama_grammar) pieces = Some (r, g')
    \<and> (gen_rule R start cs \<longleftrightarrow> r = Inr () \<and> [] \<in> set (gm_stacks g'))"
proof -
  have R: "terminating R" by (rule no_left_recursion_terminating [OF assms(1,2)])
  obtain st where init: "init_stacks R start = Some (Inr st)"
    and st: "\<forall>s \<in> set st. at_terminal R s" "st \<noteq> []" "\<forall>w. (\<exists>s \<in> set st. gen_stack R s w) \<longleftrightarrow> gen_rule R start w"
    by (rule init_stacks_result [OF assms(1) R assms(3)])
  let ?g = "new_grammar R st :: 'p llama_grammar"
  have ok: "grammar_ok ?g" using assms(1) R st by (simp add: grammar_ok_def new_grammar_def)
  obtain v' where f: "feed (concat pieces) 0 0 = Some (cs, v', 0)" using feed_text [OF assms(4)] assms(5) by metis
  obtain res where res: "accept_all R st cs = Some (Inr res)"
      "if res = [] then \<exists>e g'. accept_pieces ?g pieces = Some (Inl e, g')
       else accept_pieces ?g pieces = Some (Inr (), ?g\<lparr>gm_stacks := res, gm_partial := \<lparr>pu_value = v', n_remain = 0\<rparr>\<rparr>)"
    using accept_pieces_result [OF ok, of pieces cs v' 0] f by (auto simp: new_grammar_def)
  obtain res' where "accept_all R st cs = Some (Inr res')" "set res' = run_set R (set st) cs" "\<forall>s \<in> set res'. at_terminal R s"
    using accept_all_result [OF assms(1) R st(1)] by blast
  then have "gen_rule R start cs \<longleftrightarrow> [] \<in> set res"
    using gen_stack_run [OF assms(1) R st(1), of cs "[]"] st(3) res(1) gen_stack_empty by fastforce
  then show ?thesis
    using res(2) init no_left_recursion_checked [OF assms(1,2)] by (intro exI [of _ st]) (cases "res = []"; auto)
qed

theorem text_language_witness:
  "\<exists>g'. accept_pieces (new_grammar demo_rules [[(0, 0)], [(1, 0), (0, 4)], [(0, 4)]] :: nat llama_grammar) [[97, 98], [99]] = Some (Inr (), g')
     \<and> gen_rule demo_rules 0 [97, 98, 99]"
proof -
  let ?g = "new_grammar demo_rules [[(0, 0)], [(1, 0), (0, 4)], [(0, 4)]] :: nat llama_grammar"
  have st: "init_stacks demo_rules 0 = Some (Inr [[(0, 0)], [(1, 0), (0, 4)], [(0, 4)]])" by code_simp
  have "accept_all demo_rules [[(0, 0)], [(1, 0), (0, 4)], [(0, 4)]] [97, 98] = Some (Inr [[(0, 4)]])"
    "accept_all demo_rules [[(0, 4)]] [99] = Some (Inr [[]])" by code_simp+
  moreover have "decode_utf8 [97, 98] \<lparr>pu_value = 0, n_remain = 0\<rparr> = ([97, 98, 0], \<lparr>pu_value = 98, n_remain = 0\<rparr>)"
    "decode_utf8 [99] \<lparr>pu_value = 98, n_remain = 0\<rparr> = ([99, 0], \<lparr>pu_value = 99, n_remain = 0\<rparr>)"
    using decode_feed [of "[97, 98]" "\<lparr>pu_value = 0, n_remain = 0\<rparr>" "[97, 98]" 98 0]
      decode_feed [of "[99]" "\<lparr>pu_value = 98, n_remain = 0\<rparr>" "[99]" 99 0] by (simp_all add: utf8_lookup_def)
  ultimately have a: "accept_pieces ?g [[97, 98], [99]]
      = Some (Inr (), ?g\<lparr>gm_stacks := [[]], gm_partial := \<lparr>pu_value = 99, n_remain = 0\<rparr>\<rparr>)"
    by (simp add: accept_str_def new_grammar_def)
  have "\<exists>st r g'. left_recursive demo_rules = Some (Inr False) \<and> init_stacks demo_rules 0 = Some (Inr st)
      \<and> accept_pieces (new_grammar demo_rules st :: nat llama_grammar) [[97, 98], [99]] = Some (r, g')
      \<and> (gen_rule demo_rules 0 [97, 98, 99] \<longleftrightarrow> r = Inr () \<and> [] \<in> set (gm_stacks g'))"
    by (rule text_language [OF demo_ok(1) demo_no_left_recursion]) (simp_all add: demo_length utf8_encode_def)
  then show ?thesis using a st by auto
qed

text \<open>
  C34. What masking leaves possible. \<open>llama_grammar_apply_impl\<close> always returns and changes nothing but logits. An
  end-of-generation token keeps its logit if and only if the empty stack is among the stacks. Any other token whose
  piece decodes without a code point 0 keeps it if and only if its piece is not empty, \<open>llama_grammar_accept_str\<close>
  accepts it, and, when it ends inside a UTF-8 sequence, \<open>llama_grammar_match_partial_char\<close> holds at the top of a
  remaining stack. All the others get the logit minus infinity.
\<close>

theorem apply_exact:
  assumes "grammar_ok g" "\<not> awaiting_trigger g"
  shows "\<exists>data'. apply_impl piece eog ninf g data = Some (Inr data') \<and> length data' = length data
    \<and> (\<forall>i < length data. let tok = td_id (data ! i); (cps, pu) = decode_utf8 (piece tok) (gm_partial g) in
         0 \<notin> set (butlast cps) \<longrightarrow>
         data' ! i = (if if eog tok then [] \<in> set (gm_stacks g)
                         else \<not> at_nul (piece tok) \<and> (\<exists>g'. accept_str g (piece tok) = Some (Inr (), g')
                           \<and> (n_remain pu = 0 \<or> (\<exists>p t. p # t \<in> set (gm_stacks g') \<and> match_partial_char (gm_rules g) p pu = Inr True)))
                      then data ! i else (data ! i)\<lparr>td_logit := ninf\<rparr>))"
proof -
  obtain data' where d: "apply_impl piece eog ninf g data = Some (Inr data')" "length data' = length data"
    "\<forall>i < length data. data' ! i = (if if eog (td_id (data ! i)) then [] \<in> set (gm_stacks g)
           else \<not> at_nul (piece (td_id (data ! i))) \<and> piece_allowed g (piece (td_id (data ! i)))
         then data ! i else (data ! i)\<lparr>td_logit := ninf\<rparr>)"
    using apply_impl_result [OF assms, of piece eog ninf data] by blast
  have allowed: "piece_allowed g bs \<longleftrightarrow> (\<exists>g'. accept_str g bs = Some (Inr (), g')
      \<and> (n_remain (snd (decode_utf8 bs (gm_partial g))) = 0
         \<or> (\<exists>p t. p # t \<in> set (gm_stacks g') \<and> match_partial_char (gm_rules g) p (snd (decode_utf8 bs (gm_partial g))) = Inr True)))"
    if nul: "0 \<notin> set (butlast (fst (decode_utf8 bs (gm_partial g))))" for bs
  proof -
    let ?pu = "snd (decode_utf8 bs (gm_partial g))"
    obtain res where res: "piece_allowed g bs \<longleftrightarrow> (\<exists>s \<in> set res. can_stop (gm_rules g) (piece_cand 0 bs (gm_partial g)) s)"
      "accept_str g bs = Some (if res = [] then Inl (Throw ''Unexpected empty grammar stack after accepting piece'') else Inr (),
         g\<lparr>gm_stacks := res, gm_partial := ?pu\<rparr>)"
      using piece_allowed_accept [OF assms(1) nul] by blast
    have stop: "can_stop (gm_rules g) (piece_cand 0 bs (gm_partial g)) s \<longleftrightarrow>
        n_remain ?pu = 0 \<or> (\<exists>p t. s = p # t \<and> match_partial_char (gm_rules g) p ?pu = Inr True)" for s
      by (cases s) (auto simp: can_stop_def partial_ok_def piece_cand_def)
    have "piece_allowed g bs \<longleftrightarrow>
        res \<noteq> [] \<and> (n_remain ?pu = 0 \<or> (\<exists>p t. p # t \<in> set res \<and> match_partial_char (gm_rules g) p ?pu = Inr True))"
    proof (cases "n_remain ?pu = 0")
      case True
      then show ?thesis by (simp add: res(1) stop ex_in_conv)
    next
      case False
      have "(\<exists>s \<in> set res. \<exists>p t. s = p # t \<and> match_partial_char (gm_rules g) p ?pu = Inr True)
          \<longleftrightarrow> (\<exists>p t. p # t \<in> set res \<and> match_partial_char (gm_rules g) p ?pu = Inr True)" by blast
      then show ?thesis using False by (auto simp: res(1) stop)
    qed
    then show ?thesis using res(2) by (cases "res = []") simp_all
  qed
  show ?thesis
  proof (rule exI [of _ data'], intro conjI d(1,2), unfold Let_def split_def, intro allI impI)
    fix i assume i: "i < length data" and nul: "0 \<notin> set (butlast (fst (decode_utf8 (piece (td_id (data ! i))) (gm_partial g))))"
    show "data' ! i = (if if eog (td_id (data ! i)) then [] \<in> set (gm_stacks g)
          else \<not> at_nul (piece (td_id (data ! i))) \<and> (\<exists>g'. accept_str g (piece (td_id (data ! i))) = Some (Inr (), g')
            \<and> (n_remain (snd (decode_utf8 (piece (td_id (data ! i))) (gm_partial g))) = 0
               \<or> (\<exists>p t. p # t \<in> set (gm_stacks g')
                    \<and> match_partial_char (gm_rules g) p (snd (decode_utf8 (piece (td_id (data ! i))) (gm_partial g))) = Inr True)))
        then data ! i else (data ! i)\<lparr>td_logit := ninf\<rparr>)"
      unfolding allowed [OF nul, symmetric] by (rule d(3) [rule_format, OF i])
  qed
qed

definition demo_grammar :: "nat llama_grammar" where
  "demo_grammar = new_grammar demo_rules [[(0, 0)], [(1, 0), (0, 4)], [(0, 4)]]"

definition demo_piece :: "token \<Rightarrow> nat list" where
  "demo_piece tok = (if tok = 1 then [192, 128] else [nat tok])"

definition demo_data :: "int token_data list" where
  "demo_data = [\<lparr>td_id = 97, td_logit = 5, td_p = 0\<rparr>, \<lparr>td_id = 122, td_logit = 7, td_p = 0\<rparr>, \<lparr>td_id = 1, td_logit = 3, td_p = 0\<rparr>]"

lemma demo_grammar_simps [simp]:
  "gm_rules demo_grammar = demo_rules" "gm_stacks demo_grammar = [[(0, 0)], [(1, 0), (0, 4)], [(0, 4)]]"
  "gm_partial demo_grammar = \<lparr>pu_value = 0, n_remain = 0\<rparr>" "\<not> awaiting_trigger demo_grammar"
  by (simp_all add: demo_grammar_def new_grammar_def)

lemma demo_grammar_ok: "grammar_ok demo_grammar"
proof -
  have "\<forall>s \<in> set [[(0, 0)], [(1, 0), (0, 4)], [(0, 4)]]. at_terminal demo_rules s" by code_simp
  then show ?thesis using demo_ok(1) left_check_terminating [OF demo_ok(1) demo_empty_known demo_ok(2)] by (simp add: grammar_ok_def)
qed

lemma demo_decode:
  "decode_utf8 [97] \<lparr>pu_value = 0, n_remain = 0\<rparr> = ([97, 0], \<lparr>pu_value = 97, n_remain = 0\<rparr>)"
  "decode_utf8 [122] \<lparr>pu_value = 0, n_remain = 0\<rparr> = ([122, 0], \<lparr>pu_value = 122, n_remain = 0\<rparr>)"
  "decode_utf8 [192, 128] \<lparr>pu_value = 0, n_remain = 0\<rparr> = ([0, 0], \<lparr>pu_value = 0, n_remain = 0\<rparr>)"
  using decode_feed [of "[97]" "\<lparr>pu_value = 0, n_remain = 0\<rparr>" "[97]" 97 0]
    decode_feed [of "[122]" "\<lparr>pu_value = 0, n_remain = 0\<rparr>" "[122]" 122 0]
    decode_feed [of "[192, 128]" "\<lparr>pu_value = 0, n_remain = 0\<rparr>" "[0]" 0 0] by (simp_all add: utf8_lookup_def utf8_add_def)

lemma demo_accept:
  "accept_str demo_grammar [97] = Some (Inr (), demo_grammar\<lparr>gm_partial := \<lparr>pu_value = 97, n_remain = 0\<rparr>\<rparr>)"
  "accept_str demo_grammar [122] = Some (Inl (Throw ''Unexpected empty grammar stack after accepting piece''),
     demo_grammar\<lparr>gm_stacks := [], gm_partial := \<lparr>pu_value = 122, n_remain = 0\<rparr>\<rparr>)"
  "accept_str demo_grammar [192, 128] = Some (Inl (Throw ''Unexpected empty grammar stack after accepting piece''),
     demo_grammar\<lparr>gm_stacks := []\<rparr>)"
proof -
  have "accept_all demo_rules [[(0, 0)], [(1, 0), (0, 4)], [(0, 4)]] [97] = Some (Inr [[(0, 0)], [(1, 0), (0, 4)], [(0, 4)]])"
    "accept_all demo_rules [[(0, 0)], [(1, 0), (0, 4)], [(0, 4)]] [122] = Some (Inr [])"
    "accept_all demo_rules [[(0, 0)], [(1, 0), (0, 4)], [(0, 4)]] [0] = Some (Inr [])" by code_simp+
  then show "accept_str demo_grammar [97] = Some (Inr (), demo_grammar\<lparr>gm_partial := \<lparr>pu_value = 97, n_remain = 0\<rparr>\<rparr>)"
    "accept_str demo_grammar [122] = Some (Inl (Throw ''Unexpected empty grammar stack after accepting piece''),
     demo_grammar\<lparr>gm_stacks := [], gm_partial := \<lparr>pu_value = 122, n_remain = 0\<rparr>\<rparr>)"
    "accept_str demo_grammar [192, 128] = Some (Inl (Throw ''Unexpected empty grammar stack after accepting piece''),
     demo_grammar\<lparr>gm_stacks := []\<rparr>)"
    by (simp_all add: accept_str_def demo_decode demo_grammar_def new_grammar_def)
qed

lemma demo_applied:
  "\<exists>data'. apply_impl demo_piece (\<lambda>tok. tok = 2) (-99) demo_grammar demo_data = Some (Inr data')
     \<and> td_logit (data' ! 0) = 5 \<and> td_logit (data' ! 2) = 3"
proof -
  obtain data' where d: "apply_impl demo_piece (\<lambda>tok. tok = 2) (-99) demo_grammar demo_data = Some (Inr data')"
    "\<forall>i < length demo_data. data' ! i = (if if td_id (demo_data ! i) = 2 then [] \<in> set (gm_stacks demo_grammar)
           else \<not> at_nul (demo_piece (td_id (demo_data ! i))) \<and> piece_allowed demo_grammar (demo_piece (td_id (demo_data ! i)))
         then demo_data ! i else (demo_data ! i)\<lparr>td_logit := -99\<rparr>)"
    using apply_impl_result [OF demo_grammar_ok demo_grammar_simps(4), of demo_piece "\<lambda>tok. tok = 2" "-99" demo_data] by blast
  have "piece_allowed demo_grammar [192, 128]"
    by (auto simp: piece_allowed_def survives_def piece_cand_def demo_decode c_rest_def can_stop_def partial_ok_def)
  moreover have "piece_allowed demo_grammar [97]"
    using piece_allowed_accept [OF demo_grammar_ok, of "[97]"] demo_accept(1)
    by (auto simp: demo_decode can_stop_def partial_ok_def piece_cand_def split: list.splits if_splits)
  ultimately have "data' ! 0 = demo_data ! 0" "data' ! 2 = demo_data ! 2"
    using d(2) [rule_format, of 0] d(2) [rule_format, of 2] by (simp_all add: demo_data_def demo_piece_def at_nul_def)
  then show ?thesis using d(1) by (simp add: demo_data_def)
qed

theorem apply_exact_witness:
  "\<exists>data'. apply_impl demo_piece (\<lambda>tok. tok = 2) (-99) demo_grammar demo_data = Some (Inr data')
     \<and> td_logit (data' ! 0) = 5 \<and> td_logit (data' ! 1) = -99"
proof -
  obtain data' where d: "apply_impl demo_piece (\<lambda>tok. tok = 2) (-99) demo_grammar demo_data = Some (Inr data')"
    "\<forall>i < length demo_data. let tok = td_id (demo_data ! i); (cps, pu) = decode_utf8 (demo_piece tok) (gm_partial demo_grammar) in
         0 \<notin> set (butlast cps) \<longrightarrow>
         data' ! i = (if if tok = 2 then [] \<in> set (gm_stacks demo_grammar)
                         else \<not> at_nul (demo_piece tok) \<and> (\<exists>g'. accept_str demo_grammar (demo_piece tok) = Some (Inr (), g')
                           \<and> (n_remain pu = 0 \<or> (\<exists>p t. p # t \<in> set (gm_stacks g') \<and> match_partial_char (gm_rules demo_grammar) p pu = Inr True)))
                      then demo_data ! i else (demo_data ! i)\<lparr>td_logit := -99\<rparr>)"
    using apply_exact [OF demo_grammar_ok demo_grammar_simps(4), of demo_piece "\<lambda>tok. tok = 2" "-99" demo_data] by blast
  have "data' ! 0 = demo_data ! 0" using d(2) [rule_format, of 0]
    by (simp add: demo_data_def demo_piece_def demo_decode demo_accept at_nul_def)
  moreover have "data' ! 1 = (demo_data ! 1)\<lparr>td_logit := -99\<rparr>" using d(2) [rule_format, of 1]
    by (simp add: demo_data_def demo_piece_def demo_decode demo_accept at_nul_def)
  ultimately show ?thesis using d(1) by (simp add: demo_data_def)
qed

text \<open>
  C35. A token whose piece decodes without a code point 0 and that masking leaves possible can be accepted: if its logit
  is not minus infinity after \<open>llama_grammar_apply_impl\<close>, then \<open>llama_grammar_accept_impl\<close> neither aborts nor throws, whether or not the token ends inside a
  UTF-8 sequence, and the grammar is again one on which both can be used. (Pieces with a code point 0 are an
  exception, see \<open>overlong_nul\<close>.)
\<close>

theorem apply_safe:
  assumes "grammar_ok g" "\<not> awaiting_trigger g" "apply_impl piece eog ninf g data = Some (Inr data')"
    and "i < length data" "td_logit (data' ! i) \<noteq> ninf" "0 \<notin> set (butlast (fst (decode_utf8 (piece (td_id (data ! i))) (gm_partial g))))"
  shows "\<exists>g'. accept_impl piece eog rx g (td_id (data ! i)) = Some (Inr (), g') \<and> grammar_ok g' \<and> \<not> awaiting_trigger g'"
proof -
  let ?tok = "td_id (data ! i)"
  have allowed: "if eog ?tok then [] \<in> set (gm_stacks g) else \<not> at_nul (piece ?tok) \<and> piece_allowed g (piece ?tok)"
    using apply_impl_result [OF assms(1,2), of piece eog ninf data] assms(3-5) by (auto split: if_splits)
  show ?thesis
  proof (cases "eog ?tok")
    case True
    then show ?thesis using allowed assms(1,2) by (simp add: accept_impl_def)
  next
    case False
    then obtain res where "piece_allowed g (piece ?tok) \<longleftrightarrow> (\<exists>s \<in> set res. can_stop (gm_rules g) (piece_cand 0 (piece ?tok) (gm_partial g)) s)"
      "\<forall>s \<in> set res. at_terminal (gm_rules g) s"
      "accept_str g (piece ?tok) = Some (if res = [] then Inl (Throw ''Unexpected empty grammar stack after accepting piece'') else Inr (),
         g\<lparr>gm_stacks := res, gm_partial := snd (decode_utf8 (piece ?tok) (gm_partial g))\<rparr>)"
      using piece_allowed_accept [OF assms(1,6)] by blast
    then show ?thesis using allowed assms(1,2) False by (auto simp: accept_impl_def grammar_ok_def)
  qed
qed

theorem apply_safe_witness:
  "\<exists>data' g'. apply_impl demo_piece (\<lambda>tok. tok = 2) (-99) demo_grammar demo_data = Some (Inr data')
     \<and> accept_impl demo_piece (\<lambda>tok. tok = 2) (\<lambda>p s. None) demo_grammar 97 = Some (Inr (), g')"
proof -
  obtain data' where d: "apply_impl demo_piece (\<lambda>tok. tok = 2) (-99) demo_grammar demo_data = Some (Inr data')"
    "td_logit (data' ! 0) = 5"
    using demo_applied by auto
  have "td_id (demo_data ! 0) = 97" "0 < length demo_data" by (simp_all add: demo_data_def)
  then show ?thesis
    using apply_safe [OF demo_grammar_ok demo_grammar_simps(4) d(1), of 0 "\<lambda>p s. None"] d
    by (auto simp: demo_piece_def demo_decode)
qed

text \<open>
  The restriction to pieces without a code point 0 is needed. The two bytes C0 80 decode to the code point 0, which
  \<open>llama_grammar_reject_candidates\<close> takes for the end of the token: masking leaves such a token possible, and accepting
  it throws.
\<close>

theorem overlong_nul:
  "\<exists>data' g'. apply_impl demo_piece (\<lambda>tok. tok = 2) (-99) demo_grammar demo_data = Some (Inr data')
     \<and> td_logit (data' ! 2) = 3
     \<and> accept_impl demo_piece (\<lambda>tok. tok = 2) (\<lambda>p s. None) demo_grammar 1
         = Some (Inl (Throw ''Unexpected empty grammar stack after accepting piece''), g')"
  using demo_applied demo_accept(3) by (auto simp: accept_impl_def demo_piece_def)

text \<open>
  A cloned grammar does not point into the original: when every pointer of the stacks is to an element of the
  rules of the original, every pointer of the copied stacks is to the same element of the copied rules.
\<close>

theorem clone_redirects:
  assumes "\<forall>st \<in> set stacks. \<forall>ptr \<in> set st. fst ptr = old \<and> in_rules R (snd ptr)"
  shows "clone_stacks old new R stacks = map (map (\<lambda>ptr. (new, snd ptr))) stacks"
proof -
  have fold: "foldl (\<lambda>q p'. if ptr = (old, p') then (new, p') else q) q ps = (if \<exists>p \<in> set ps. ptr = (old, p) then (new, snd ptr) else q)" for q ptr ps
    by (induction ps arbitrary: q) auto
  have "redirect old new R ptr = (new, snd ptr)" if "fst ptr = old" "in_rules R (snd ptr)" for ptr
  proof -
    have "snd ptr \<in> set (all_pos R)" using that(2) by (cases "snd ptr") (force simp: all_pos_def in_rules_def)
    moreover have "ptr = (old, snd ptr)" using that(1) by auto
    ultimately show ?thesis unfolding redirect_def fold by metis
  qed
  then show ?thesis using assms by (simp add: clone_stacks_def)
qed

theorem clone_redirects_witness: "clone_stacks 1 2 demo_rules [[(1, 1, 0), (1, 0, 4)]] = [[(2, 1, 0), (2, 0, 4)]]"
  using clone_redirects [of "[[(1, 1, 0), (1, 0, 4)]]" 1 demo_rules 2] by (simp add: in_rules_def demo_rules_def)

end
