(* ===== verification/GrammarParser.thy ===== *)
theory GrammarParser
  imports GrammarUtf8 "HOL-Library.AList"
begin

text \<open>
  The parser of GBNF grammars, \<open>llama_grammar_parser\<close> in \<open>src/llama-grammar.{h,cpp}\<close>, and the construction of a grammar from
  its text. A \<open>const char *\<close> is the rest of the string before its terminating 0, which is read as the end of
  the list. An exception is the failure of the result. The functions that call each other recursively
  take a bound on their depth; \<open>None\<close> says that the bound was too small, and the lemmas show that it never
  is.
\<close>

section \<open>Characters\<close>

definition is_digit_char :: "char \<Rightarrow> bool" where
  "is_digit_char c \<longleftrightarrow> 48 \<le> (of_char c :: nat) \<and> (of_char c :: nat) \<le> 57"

definition is_word_char :: "char \<Rightarrow> bool" where
  "is_word_char c \<longleftrightarrow> (97 \<le> (of_char c :: nat) \<and> (of_char c :: nat) \<le> 122) \<or> (65 \<le> (of_char c :: nat) \<and> (of_char c :: nat) \<le> 90)
     \<or> c = CHR ''-'' \<or> is_digit_char c"

text \<open>The value of a hexadecimal digit.\<close>

definition hex_digit :: "char \<Rightarrow> nat option" where
  "hex_digit c =
     (let n = of_char c in
      if 97 \<le> n \<and> n \<le> 102 then Some (n - 97 + 10)
      else if 65 \<le> n \<and> n \<le> 70 then Some (n - 65 + 10)
      else if 48 \<le> n \<and> n \<le> 57 then Some (n - 48) else None)"

fun hex_loop :: "nat \<Rightarrow> string \<Rightarrow> nat \<Rightarrow> (nat \<times> string) res" where
  "hex_loop 0 pos v = Inr (v, pos)"
| "hex_loop (Suc k) [] v = Inl (Throw ''expecting hex chars'')"
| "hex_loop (Suc k) (c # pos) v =
     (case hex_digit c of None \<Rightarrow> Inl (Throw ''expecting hex chars'')
      | Some d \<Rightarrow> hex_loop k pos ((v * 16 + d) mod 2 ^ 32))"

definition parse_hex :: "string \<Rightarrow> nat \<Rightarrow> (nat \<times> string) res" where
  "parse_hex src n = hex_loop n src 0"

text \<open>\<open>decode_utf8(const char *)\<close>: one code point of a string assumed to be valid.\<close>

fun char_loop :: "nat \<Rightarrow> string \<Rightarrow> nat \<Rightarrow> nat \<times> string" where
  "char_loop (Suc k) (c # pos) v = char_loop k pos (utf8_add v (of_char c))"
| "char_loop k pos v = (v, pos)"

definition char_lookup :: "nat list" where
  "char_lookup = [1, 1, 1, 1, 1, 1, 1, 1, 1, 1, 1, 1, 2, 2, 3, 4]"

definition decode_char :: "char \<Rightarrow> string \<Rightarrow> nat \<times> string" where
  "decode_char c pos =
     (let len = char_lookup ! (of_char c div 16) in char_loop (len - 1) pos (of_char c mod 2 ^ (8 - len)))"

definition parse_char :: "string \<Rightarrow> (nat \<times> string) res" where
  "parse_char src =
     (case src of
        [] \<Rightarrow> Inl (Throw ''unexpected end of input'')
      | c # rest \<Rightarrow>
          if c = CHR 0x5C then
            (case rest of
               [] \<Rightarrow> Inl (Throw ''unknown escape'')
             | d # pos \<Rightarrow>
                 if d = CHR ''x'' then parse_hex pos 2
                 else if d = CHR ''u'' then parse_hex pos 4
                 else if d = CHR ''U'' then parse_hex pos 8
                 else if d = CHR ''t'' then Inr (9, pos)
                 else if d = CHR ''r'' then Inr (13, pos)
                 else if d = CHR ''n'' then Inr (10, pos)
                 else if d = CHR 0x5C \<or> d = CHR 0x22 \<or> d = CHR ''['' \<or> d = CHR '']'' then Inr (of_char d, pos)
                 else Inl (Throw ''unknown escape''))
          else Inr (decode_char c rest))"

definition is_newline :: "char \<Rightarrow> bool" where
  "is_newline c \<longleftrightarrow> c = CHR 0x0D \<or> c = CHR 0x0A"

function parse_space :: "bool \<Rightarrow> string \<Rightarrow> string" where
  "parse_space newline_ok pos =
     (case pos of
        [] \<Rightarrow> []
      | c # rest \<Rightarrow>
          if c = CHR ''#'' then parse_space newline_ok (dropWhile (\<lambda>d. \<not> is_newline d) pos)
          else if c = CHR '' '' \<or> c = CHR 0x09 \<or> newline_ok \<and> is_newline c then parse_space newline_ok rest
          else pos)"
  by auto
termination
proof (relation "measure (\<lambda>(_, pos). length pos)", goal_cases)
  case (2 newline_ok pos c rest)
  then show ?case using length_dropWhile_le [of "\<lambda>d. \<not> is_newline d" rest] by (simp add: is_newline_def)
qed auto

declare parse_space.simps [simp del]

definition parse_name :: "string \<Rightarrow> (string \<times> string) res" where
  "parse_name src =
     (let name = takeWhile is_word_char src in
      if name = [] then Inl (Throw ''expecting name'') else Inr (name, dropWhile is_word_char src))"

definition parse_int :: "string \<Rightarrow> (string \<times> string) res" where
  "parse_int src =
     (let ds = takeWhile is_digit_char src in
      if ds = [] then Inl (Throw ''expecting integer'') else Inr (ds, dropWhile is_digit_char src))"

text \<open>\<open>int x = std::stoul(s)\<close> of a string of digits.\<close>

definition digits_value :: "string \<Rightarrow> int" where
  "digits_value ds = foldl (\<lambda>v d. v * 10 + (of_char d - 48)) 0 ds"

definition stoul_int :: "string \<Rightarrow> int res" where
  "stoul_int ds =
     (let n = digits_value ds in
      if 2 ^ 64 \<le> n then Inl (Throw ''stoul'')
      else Inr (if n mod 2 ^ 32 < 2 ^ 31 then n mod 2 ^ 32 else n mod 2 ^ 32 - 2 ^ 32))"

section \<open>The state of the parser\<close>

record grammar_parser =
  symbol_ids :: "(string \<times> nat) list"
  p_rules :: gr_rules

definition get_symbol_id :: "string \<Rightarrow> grammar_parser \<Rightarrow> nat \<times> grammar_parser" where
  "get_symbol_id name p =
     (case map_of (symbol_ids p) name of
        Some i \<Rightarrow> (i, p)
      | None \<Rightarrow> (length (symbol_ids p), p\<lparr>symbol_ids := AList.update name (length (symbol_ids p)) (symbol_ids p)\<rparr>))"

fun to_string :: "nat \<Rightarrow> string" where
  "to_string n = (if n < 10 then [char_of (48 + n)] else to_string (n div 10) @ [char_of (48 + n mod 10)])"

declare to_string.simps [simp del]

definition generate_symbol_id :: "string \<Rightarrow> grammar_parser \<Rightarrow> nat \<times> grammar_parser" where
  "generate_symbol_id base_name p =
     (let next_id = length (symbol_ids p) in
      (next_id, p\<lparr>symbol_ids := AList.update (base_name @ CHR ''_'' # to_string next_id) next_id (symbol_ids p)\<rparr>))"

definition add_rule :: "nat \<Rightarrow> gr_elem list \<Rightarrow> grammar_parser \<Rightarrow> grammar_parser" where
  "add_rule rule_id rule p =
     (let rs = (if length (p_rules p) \<le> rule_id then p_rules p @ replicate (rule_id + 1 - length (p_rules p)) [] else p_rules p)
      in p\<lparr>p_rules := rs[rule_id := rule]\<rparr>)"

section \<open>Parsing\<close>

text \<open>The characters of a literal up to the closing quote, and those of a class up to the closing bracket.\<close>

lemma parse_hex_length: "parse_hex src n = Inr (v, pos) \<Longrightarrow> length pos \<le> length src"
proof -
  have "hex_loop n src a = Inr (v, pos) \<Longrightarrow> length pos \<le> length src" for a
    by (induction n src a rule: hex_loop.induct) (auto split: option.splits)
  then show "parse_hex src n = Inr (v, pos) \<Longrightarrow> length pos \<le> length src" by (simp add: parse_hex_def)
qed

lemma decode_char_length: "decode_char c src = (v, pos) \<Longrightarrow> length pos \<le> length src"
proof -
  have "char_loop k src a = (v, pos) \<Longrightarrow> length pos \<le> length src" for k a
    by (induction k src a rule: char_loop.induct) auto
  then show "decode_char c src = (v, pos) \<Longrightarrow> length pos \<le> length src" by (simp add: decode_char_def Let_def)
qed

lemma parse_char_length: "parse_char src = Inr (v, pos) \<Longrightarrow> length pos < length src"
  unfolding parse_char_def
  by (fastforce split: list.splits if_splits dest: parse_hex_length decode_char_length simp: less_Suc_eq_le)

function literal_loop :: "string \<Rightarrow> gr_elem list \<Rightarrow> (string \<times> gr_elem list) res" where
  "literal_loop pos rule =
     (case pos of
        [] \<Rightarrow> Inl (Throw ''unexpected end of input'')
      | c # rest \<Rightarrow>
          if c = CHR 0x22 then Inr (rest, rule)
          else (case parse_char pos of
                  Inl e \<Rightarrow> Inl e
                | Inr (v, pos') \<Rightarrow> literal_loop pos' (rule @ [\<lparr>g_type = G_CHAR, g_value = v\<rparr>])))"
  by auto
termination
  by (relation "measure (\<lambda>(pos, _). length pos)") (auto dest: parse_char_length)

declare literal_loop.simps [simp del]

text \<open>After a character of a class: an upper bound if a \<open>-\<close> follows that does not end the class.\<close>

definition range_upper :: "string \<Rightarrow> gr_elem list \<Rightarrow> (string \<times> gr_elem list) res" where
  "range_upper pos rule =
     (if pos \<noteq> [] \<and> hd pos = CHR ''-'' \<and> \<not> (tl pos \<noteq> [] \<and> hd (tl pos) = CHR '']'') then
        if tl pos = [] then Inl (Throw ''unexpected end of input'')
        else (case parse_char (tl pos) of
                Inl e \<Rightarrow> Inl e
              | Inr (v, pos') \<Rightarrow> Inr (pos', rule @ [\<lparr>g_type = G_CHAR_RNG_UPPER, g_value = v\<rparr>]))
      else Inr (pos, rule))"

lemma range_upper_length: "range_upper pos rule = Inr (pos', rule') \<Longrightarrow> length pos' \<le> length pos"
  by (cases pos) (auto simp: range_upper_def split: if_splits sum.splits dest!: parse_char_length)

function class_loop :: "gretype \<Rightarrow> nat \<Rightarrow> string \<Rightarrow> gr_elem list \<Rightarrow> (string \<times> gr_elem list) res" where
  "class_loop start_type last_sym_start pos rule =
     (case pos of
        [] \<Rightarrow> Inl (Throw ''unexpected end of input'')
      | c # rest \<Rightarrow>
          if c = CHR '']'' then Inr (rest, rule)
          else (case parse_char pos of
                  Inl e \<Rightarrow> Inl e
                | Inr (v, pos1) \<Rightarrow>
                    let ty = (if last_sym_start < length rule then G_CHAR_ALT else start_type) in
                    (case range_upper pos1 (rule @ [\<lparr>g_type = ty, g_value = v\<rparr>]) of
                       Inl e \<Rightarrow> Inl e
                     | Inr (pos2, rule2) \<Rightarrow> class_loop start_type last_sym_start pos2 rule2)))"
  by auto
termination
  by (relation "measure (\<lambda>(_, _, pos, _). length pos)") (fastforce dest!: parse_char_length range_upper_length)+

declare class_loop.simps [simp del]


text \<open>
  \<open>handle_repetitions\<close>: the loop that makes the rules for the optional repetitions, from \<open>i\<close> on, and the whole
  transformation of the last symbol.
\<close>

fun opt_rules :: "string \<Rightarrow> gr_elem list \<Rightarrow> bool \<Rightarrow> nat \<Rightarrow> nat \<Rightarrow> nat \<Rightarrow> grammar_parser \<Rightarrow> nat \<times> grammar_parser" where
  "opt_rules name prev unbounded i 0 last_rec p = (last_rec, p)"
| "opt_rules name prev unbounded i (Suc k) last_rec p =
     (let (rec_id, p1) = generate_symbol_id name p;
          ref = (if 0 < i \<or> unbounded then [\<lparr>g_type = G_RULE_REF, g_value = if unbounded then rec_id else last_rec\<rparr>] else []);
          rec_rule = prev @ ref @ [\<lparr>g_type = G_ALT, g_value = 0\<rparr>, \<lparr>g_type = G_END, g_value = 0\<rparr>]
      in opt_rules name prev unbounded (i + 1) k rec_id (add_rule rec_id rec_rule p1))"

text \<open>The difference of two 32-bit \<open>int\<close>s; where it overflows, which C++ leaves undefined, it wraps around here.\<close>

definition int_minus :: "int \<Rightarrow> int \<Rightarrow> int" where
  "int_minus a b = (a - b + 2 ^ 31) mod 2 ^ 32 - 2 ^ 31"

definition handle_repetitions ::
  "string \<Rightarrow> nat \<Rightarrow> int \<Rightarrow> int \<Rightarrow> gr_elem list \<Rightarrow> grammar_parser \<Rightarrow> (gr_elem list \<times> grammar_parser) res" where
  "handle_repetitions name last_sym_start min_times max_times rule p =
     (if last_sym_start = length rule then Inl (Throw ''expecting preceding item to */+/?/{'')
      else
        let prev_rule = drop last_sym_start rule;
            rule1 = (if min_times = 0 then take last_sym_start rule
                     else rule @ concat (replicate (nat (min_times - 1)) prev_rule));
            n_opt = (if max_times < 0 then 1 else int_minus max_times min_times);
            (last_rec, p1) = opt_rules name prev_rule (max_times < 0) 0 (nat n_opt) 0 p
        in Inr (if 0 < n_opt then rule1 @ [\<lparr>g_type = G_RULE_REF, g_value = last_rec\<rparr>] else rule1, p1))"

text \<open>What follows a \<open>{\<close>: the bounds of the repetition.\<close>

definition parse_bounds :: "bool \<Rightarrow> string \<Rightarrow> (int \<times> int \<times> string) res" where
  "parse_bounds is_nested src =
     (let pos = parse_space is_nested src in
      if pos = [] \<or> \<not> is_digit_char (hd pos) then Inl (Throw ''expecting an int'')
      else
        bind_res (parse_int pos) (\<lambda>(ds, pos1).
        bind_res (stoul_int ds) (\<lambda>min_times.
          let pos2 = parse_space is_nested pos1 in
          if pos2 \<noteq> [] \<and> hd pos2 = CHR ''}'' then Inr (min_times, min_times, parse_space is_nested (tl pos2))
          else if pos2 \<noteq> [] \<and> hd pos2 = CHR '','' then
            let pos3 = parse_space is_nested (tl pos2) in
            bind_res
              (if pos3 \<noteq> [] \<and> is_digit_char (hd pos3) then
                 bind_res (parse_int pos3) (\<lambda>(ds', pos4). bind_res (stoul_int ds') (\<lambda>m. Inr (m, parse_space is_nested pos4)))
               else Inr (-1, pos3))
              (\<lambda>(max_times, pos5).
                 if pos5 = [] \<or> hd pos5 \<noteq> CHR ''}'' then Inl (Throw ''expecting }'')
                 else Inr (min_times, max_times, parse_space is_nested (tl pos5)))
          else Inl (Throw ''expecting ,''))))"

text \<open>A repetition operator at \<open>c\<close>: its bounds and the position after it; \<open>None\<close> if \<open>c\<close> is not one.\<close>

definition repetition :: "bool \<Rightarrow> char \<Rightarrow> string \<Rightarrow> (int \<times> int \<times> string) res option" where
  "repetition is_nested c rest =
     (if c = CHR ''*'' then Some (Inr (0, -1, parse_space is_nested rest))
      else if c = CHR ''+'' then Some (Inr (1, -1, parse_space is_nested rest))
      else if c = CHR ''?'' then Some (Inr (0, 1, parse_space is_nested rest))
      else if c = CHR ''{'' then Some (parse_bounds is_nested rest)
      else None)"

text \<open>A class after its opening bracket: its type and where its characters start.\<close>

definition class_start :: "string \<Rightarrow> gretype \<times> string" where
  "class_start pos = (if pos \<noteq> [] \<and> hd pos = CHR ''^'' then (G_CHAR_NOT, tl pos) else (G_CHAR, pos))"

text \<open>
  The loop of \<open>parse_alternates\<close> over the alternates after the first one, and the whole of it; \<open>seq\<close> is \<open>parse_sequence\<close>.
\<close>

type_synonym sequence_parser =
  "string \<Rightarrow> bool \<Rightarrow> nat \<Rightarrow> string \<Rightarrow> gr_elem list \<Rightarrow> grammar_parser \<Rightarrow> (string \<times> gr_elem list \<times> grammar_parser) run"

primrec parse_more :: "nat \<Rightarrow> sequence_parser \<Rightarrow> string \<Rightarrow> nat \<Rightarrow> bool \<Rightarrow> string \<Rightarrow> gr_elem list \<Rightarrow> grammar_parser \<Rightarrow> (string \<times> grammar_parser) run" where
  "parse_more 0 seq name rule_id is_nested pos rule p = None"
| "parse_more (Suc k) seq name rule_id is_nested pos rule p =
     (if pos \<noteq> [] \<and> hd pos = CHR ''|'' then
        let rule1 = rule @ [\<lparr>g_type = G_ALT, g_value = 0\<rparr>] in
        bind_run (seq name is_nested (length rule1) (parse_space True (tl pos)) rule1 p) (\<lambda>(pos1, rule2, p1).
          parse_more k seq name rule_id is_nested pos1 rule2 p1)
      else Some (Inr (pos, add_rule rule_id (rule @ [\<lparr>g_type = G_END, g_value = 0\<rparr>]) p)))"

definition parse_alternates :: "nat \<Rightarrow> sequence_parser \<Rightarrow> string \<Rightarrow> nat \<Rightarrow> bool \<Rightarrow> string \<Rightarrow> grammar_parser \<Rightarrow> (string \<times> grammar_parser) run" where
  "parse_alternates k seq name rule_id is_nested src p =
     bind_run (seq name is_nested 0 src [] p) (\<lambda>(pos, rule, p1). parse_more k seq name rule_id is_nested pos rule p1)"

text \<open>
  One step of the loop of \<open>parse_sequence\<close>, where \<open>seq\<close> is the rest of the loop and the parser of nested
  sequences, and the loop.
\<close>

definition sequence_step :: "nat \<Rightarrow> sequence_parser \<Rightarrow> sequence_parser" where
  "sequence_step k seq name is_nested last_sym_start pos rule p =
     (case pos of
        [] \<Rightarrow> Some (Inr (pos, rule, p))
      | c # rest \<Rightarrow>
          if c = CHR 0x22 then
            bind_run (Some (literal_loop rest rule)) (\<lambda>(pos1, rule1).
              seq name is_nested (length rule) (parse_space is_nested pos1) rule1 p)
          else if c = CHR ''['' then
            (let (start_type, pos0) = class_start rest in
             bind_run (Some (class_loop start_type (length rule) pos0 rule)) (\<lambda>(pos1, rule1).
               seq name is_nested (length rule) (parse_space is_nested pos1) rule1 p))
          else if is_word_char c then
            bind_run (Some (parse_name pos)) (\<lambda>(ref, pos1).
              let (ref_id, p1) = get_symbol_id ref p in
              seq name is_nested (length rule) (parse_space is_nested pos1)
                (rule @ [\<lparr>g_type = G_RULE_REF, g_value = ref_id\<rparr>]) p1)
          else if c = CHR ''('' then
            (let (sub_id, p1) = generate_symbol_id name p in
             bind_run (parse_alternates k seq name sub_id True (parse_space True rest) p1) (\<lambda>(pos1, p2).
               if pos1 = [] \<or> hd pos1 \<noteq> CHR '')'' then Some (Inl (Throw ''expecting )''))
               else seq name is_nested (length rule) (parse_space is_nested (tl pos1))
                      (rule @ [\<lparr>g_type = G_RULE_REF, g_value = sub_id\<rparr>]) p2))
          else if c = CHR ''.'' then
            seq name is_nested (length rule) (parse_space is_nested rest) (rule @ [\<lparr>g_type = G_CHAR_ANY, g_value = 0\<rparr>]) p
          else
            (case repetition is_nested c rest of
               None \<Rightarrow> Some (Inr (pos, rule, p))
             | Some r \<Rightarrow>
                 bind_run (Some r) (\<lambda>(min_times, max_times, pos1).
                 bind_run (Some (handle_repetitions name last_sym_start min_times max_times rule p)) (\<lambda>(rule1, p1).
                   seq name is_nested last_sym_start pos1 rule1 p1))))"

primrec parse_sequence :: "nat \<Rightarrow> sequence_parser" where
  "parse_sequence 0 = (\<lambda>name is_nested last_sym_start pos rule p. None)"
| "parse_sequence (Suc k) = sequence_step k (parse_sequence k)"

definition parse_rule :: "string \<Rightarrow> grammar_parser \<Rightarrow> (string \<times> grammar_parser) run" where
  "parse_rule src p =
     bind_run (Some (parse_name src)) (\<lambda>(name, pos0).
       let pos = parse_space False pos0; (rule_id, p1) = get_symbol_id name p in
       if take 3 pos \<noteq> ''::='' then Some (Inl (Throw ''expecting ::=''))
       else
         let src1 = parse_space True (drop 3 pos) in
         bind_run (parse_alternates (length src1 + 1) (parse_sequence (length src1 + 1)) name rule_id False src1 p1) (\<lambda>(pos1, p2).
           bind_run (Some
             (if pos1 = [] then Inr []
              else if hd pos1 = CHR 0x0D then Inr (if tl pos1 \<noteq> [] \<and> hd (tl pos1) = CHR 0x0A then tl (tl pos1) else tl pos1)
              else if hd pos1 = CHR 0x0A then Inr (tl pos1)
              else Inl (Throw ''expecting newline or end'')))
             (\<lambda>pos2. Some (Inr (parse_space True pos2, p2)))))"

fun parse_rules :: "nat \<Rightarrow> string \<Rightarrow> grammar_parser \<Rightarrow> grammar_parser run" where
  "parse_rules 0 pos p = None"
| "parse_rules (Suc k) pos p =
     (if pos = [] then Some (Inr p) else bind_run (parse_rule pos p) (\<lambda>(pos1, p1). parse_rules k pos1 p1))"

text \<open>The validation of the rules at the end of \<open>parse\<close>.\<close>

definition undefined_ref :: "grammar_parser \<Rightarrow> gr_elem \<Rightarrow> bool" where
  "undefined_ref p e \<longleftrightarrow> g_type e = G_RULE_REF \<and> (length (p_rules p) \<le> g_value e \<or> p_rules p ! g_value e = [])
     \<and> g_value e \<in> set (map snd (symbol_ids p))"

definition validate :: "grammar_parser \<Rightarrow> grammar_parser res" where
  "validate p =
     (if list_ex (\<lambda>r. r = [] \<or> list_ex (undefined_ref p) r) (p_rules p) then Inl (Throw ''Undefined rule'') else Inr p)"

text \<open>
  \<open>parse\<close> catches the exceptions, clears the rules and returns false. The table of symbols that a failed
  parse leaves behind, which no caller reads, is not represented.
\<close>

definition parse :: "string \<Rightarrow> (bool \<times> grammar_parser) option" where
  "parse text =
     (let src = takeWhile (\<lambda>c. c \<noteq> CHR 0x00) text; p0 = \<lparr>symbol_ids = [], p_rules = []\<rparr>; pos = parse_space True src in
      case bind_run (parse_rules (length pos + 1) pos p0) (\<lambda>p. Some (validate p)) of
        None \<Rightarrow> None
      | Some (Inl e) \<Rightarrow> Some (False, p0)
      | Some (Inr p) \<Rightarrow> Some (True, p))"

text \<open>\<open>llama_grammar_init_impl\<close> from text; \<open>Some (Inr None)\<close> is a null pointer.\<close>

definition grammar_init_text ::
  "string \<Rightarrow> string \<Rightarrow> bool \<Rightarrow> 'p list \<Rightarrow> token list \<Rightarrow> 'p llama_grammar option run" where
  "grammar_init_text grammar_str grammar_root lazy patterns toks =
     (case parse grammar_str of
        None \<Rightarrow> None
      | Some (parsed, p) \<Rightarrow>
          if \<not> parsed \<or> p_rules p = [] then Some (Inr None)
          else if map_of (symbol_ids p) ''root'' = None then Some (Inr None)
          else
            (case map_of (symbol_ids p) grammar_root of
               None \<Rightarrow> Some (Inl Out_of_range)
             | Some start \<Rightarrow>
                 bind_run (grammar_init (p_rules p) start) (\<lambda>r.
                   Some (Inr (map_option (\<lambda>(R, stacks). (new_grammar R stacks)\<lparr>gm_lazy := lazy, awaiting_trigger := lazy,
                     trigger_tokens := toks, trigger_patterns := patterns\<rparr>) r)))))"


section \<open>The parser always returns\<close>

lemma parse_space_simps:
  "parse_space nl [] = []"
  "parse_space nl (c # rest) =
     (if c = CHR ''#'' then parse_space nl (dropWhile (\<lambda>d. \<not> is_newline d) rest)
      else if c = CHR '' '' \<or> c = CHR 0x09 \<or> nl \<and> is_newline c then parse_space nl rest else c # rest)"
  by (subst parse_space.simps, simp add: is_newline_def)+

lemma parse_space_length: "length (parse_space nl pos) \<le> length pos"
proof (induction pos rule: length_induct)
  case (1 pos)
  show ?case
  proof (cases pos)
    case (Cons c rest)
    have "length (dropWhile (\<lambda>d. \<not> is_newline d) rest) \<le> length rest" by (rule length_dropWhile_le)
    then show ?thesis using 1 [rule_format, of "dropWhile (\<lambda>d. \<not> is_newline d) rest"] 1 [rule_format, of rest] Cons
      by (simp add: parse_space_simps)
  qed (simp add: parse_space_simps)
qed

lemma parse_name_length: "parse_name src = Inr (name, pos) \<Longrightarrow> length pos < length src"
proof -
  assume "parse_name src = Inr (name, pos)"
  then have "name \<noteq> []" "src = name @ pos" by (auto simp: parse_name_def Let_def split: if_splits)
  then show ?thesis by simp
qed

lemma parse_int_length: "parse_int src = Inr (ds, pos) \<Longrightarrow> length pos \<le> length src"
  by (auto simp: parse_int_def Let_def length_dropWhile_le split: if_splits)

lemma literal_loop_simps:
  "literal_loop [] rule = Inl (Throw ''unexpected end of input'')"
  "literal_loop (c # rest) rule = (if c = CHR 0x22 then Inr (rest, rule)
     else bind_res (parse_char (c # rest)) (\<lambda>(v, pos'). literal_loop pos' (rule @ [\<lparr>g_type = G_CHAR, g_value = v\<rparr>])))"
  by (subst literal_loop.simps, simp add: bind_res_def)+

lemma literal_loop_length: "literal_loop pos rule = Inr (pos', rule') \<Longrightarrow> length pos' < length pos"
proof (induction pos arbitrary: rule rule: length_induct)
  case (1 pos)
  show ?case
  proof (cases pos)
    case (Cons c rest)
    show ?thesis
    proof (cases "c = CHR 0x22")
      case True
      then show ?thesis using 1(2) Cons by (simp add: literal_loop_simps)
    next
      case False
      then obtain v pos1 where s: "parse_char pos = Inr (v, pos1)" "literal_loop pos1 (rule @ [\<lparr>g_type = G_CHAR, g_value = v\<rparr>]) = Inr (pos', rule')"
        using 1(2) Cons by (auto simp: literal_loop_simps bind_res_eq_Inr)
      then show ?thesis using 1(1) parse_char_length [OF s(1)] by (meson less_trans)
    qed
  qed (use 1(2) in \<open>simp add: literal_loop_simps\<close>)
qed

lemma class_loop_simps:
  "class_loop ty l [] rule = Inl (Throw ''unexpected end of input'')"
  "class_loop ty l (c # rest) rule = (if c = CHR '']'' then Inr (rest, rule)
     else bind_res (parse_char (c # rest)) (\<lambda>(v, pos1).
       bind_res (range_upper pos1 (rule @ [\<lparr>g_type = if l < length rule then G_CHAR_ALT else ty, g_value = v\<rparr>])) (\<lambda>(pos2, rule2).
         class_loop ty l pos2 rule2)))"
  by (subst class_loop.simps, auto simp: bind_res_def Let_def split: sum.split)+

lemma class_loop_step:
  assumes "class_loop ty l (c # rest) rule = Inr (pos', rule')" "c \<noteq> CHR '']''"
  obtains v pos1 pos2 rule2 where "parse_char (c # rest) = Inr (v, pos1)"
    "range_upper pos1 (rule @ [\<lparr>g_type = if l < length rule then G_CHAR_ALT else ty, g_value = v\<rparr>]) = Inr (pos2, rule2)"
    "class_loop ty l pos2 rule2 = Inr (pos', rule')" "length pos2 < length (c # rest)"
proof -
  obtain v pos1 pos2 rule2 where s: "parse_char (c # rest) = Inr (v, pos1)"
    "range_upper pos1 (rule @ [\<lparr>g_type = if l < length rule then G_CHAR_ALT else ty, g_value = v\<rparr>]) = Inr (pos2, rule2)"
    "class_loop ty l pos2 rule2 = Inr (pos', rule')"
    using assms by (auto simp: class_loop_simps bind_res_eq_Inr)
  then show thesis using that parse_char_length [OF s(1)] range_upper_length [OF s(2)] by (meson le_less_trans)
qed

lemma class_loop_length: "class_loop ty l pos rule = Inr (pos', rule') \<Longrightarrow> length pos' < length pos"
proof (induction pos arbitrary: rule rule: length_induct)
  case (1 pos)
  show ?case
  proof (cases pos)
    case (Cons c rest)
    show ?thesis
    proof (cases "c = CHR '']''")
      case True
      then show ?thesis using 1(2) Cons by (simp add: class_loop_simps)
    next
      case False
      then obtain pos2 rule2 where "class_loop ty l pos2 rule2 = Inr (pos', rule')" "length pos2 < length pos"
        using 1(2) Cons class_loop_step by metis
      then show ?thesis using 1(1) by (meson less_trans)
    qed
  qed (use 1(2) in \<open>simp add: class_loop_simps\<close>)
qed

lemma tl_length_le: "length (tl xs) \<le> length xs"
  by simp

lemma parse_bounds_length: "parse_bounds nested src = Inr (a, b, pos) \<Longrightarrow> length pos \<le> length src"
proof -
  assume r: "parse_bounds nested src = Inr (a, b, pos)"
  let ?sp = "parse_space nested"
  obtain ds pos1 where 1: "parse_int (?sp src) = Inr (ds, pos1)"
    using r by (auto simp: parse_bounds_def Let_def bind_res_eq_Inr split: if_splits)
  then have l1: "length (?sp pos1) \<le> length src" using parse_space_length parse_int_length le_trans by meson
  show ?thesis
  proof (cases "?sp pos1 \<noteq> [] \<and> hd (?sp pos1) = CHR ''}''")
    case True
    then have "pos = ?sp (tl (?sp pos1))" using r 1 by (auto simp: parse_bounds_def Let_def bind_res_eq_Inr split: if_splits)
    then show ?thesis using l1 parse_space_length tl_length_le le_trans by metis
  next
    case False
    let ?p3 = "?sp (tl (?sp pos1))"
    obtain m pos5 where 5: "(if ?p3 \<noteq> [] \<and> is_digit_char (hd ?p3) then
          bind_res (parse_int ?p3) (\<lambda>(ds', pos4). bind_res (stoul_int ds') (\<lambda>m. Inr (m, ?sp pos4)))
        else Inr (-1, ?p3)) = Inr (m, pos5)" "pos = ?sp (tl pos5)"
      using r 1 False by (auto simp: parse_bounds_def Let_def bind_res_eq_Inr split: if_splits)
    have "length pos5 \<le> length ?p3"
    proof (cases "?p3 \<noteq> [] \<and> is_digit_char (hd ?p3)")
      case True
      then obtain ds' pos4 where "parse_int ?p3 = Inr (ds', pos4)" "pos5 = ?sp pos4" using 5(1) by (auto simp: bind_res_eq_Inr)
      then show ?thesis using parse_int_length parse_space_length le_trans by metis
    next
      case False
      then have "pos5 = ?p3" using 5(1) by (simp split: if_splits)
      then show ?thesis by simp
    qed
    then show ?thesis using 5(2) l1 parse_space_length tl_length_le le_trans by metis
  qed
qed

lemma repetition_length: "repetition nested c rest = Some (Inr (a, b, pos)) \<Longrightarrow> length pos \<le> length rest"
  by (auto simp: repetition_def parse_space_length parse_bounds_length split: if_splits)

text \<open>A parser of sequences that returns on every source of at most \<open>n\<close> characters, with a rest of it.\<close>

definition seq_total :: "nat \<Rightarrow> sequence_parser \<Rightarrow> bool" where
  "seq_total n seq \<longleftrightarrow> (\<forall>name nested l pos rule p. length pos \<le> n \<longrightarrow>
     (\<exists>r. seq name nested l pos rule p = Some r \<and> (\<forall>pos' x. r = Inr (pos', x) \<longrightarrow> length pos' \<le> length pos)))"

lemma parse_more_total:
  assumes "seq_total n seq" "length pos \<le> n" "length pos < k"
  shows "\<exists>r. parse_more k seq name i nested pos rule p = Some r \<and> (\<forall>pos' p'. r = Inr (pos', p') \<longrightarrow> length pos' \<le> length pos)"
  using assms(2,3)
proof (induction k arbitrary: pos rule p)
  case (Suc k)
  show ?case
  proof (cases "pos \<noteq> [] \<and> hd pos = CHR ''|''")
    case True
    let ?src = "parse_space True (tl pos)" and ?rule = "rule @ [\<lparr>g_type = G_ALT, g_value = 0\<rparr>]"
    have src: "length ?src < length pos" using True parse_space_length [of True "tl pos"] by (cases pos) auto
    then obtain r where r: "seq name nested (length ?rule) ?src ?rule p = Some r" "\<forall>pos' x. r = Inr (pos', x) \<longrightarrow> length pos' \<le> length ?src"
      using assms(1) Suc.prems(1) unfolding seq_total_def by (meson less_imp_le_nat le_trans)
    show ?thesis
    proof (cases r)
      case (Inl e)
      then show ?thesis using True r(1) by simp
    next
      case (Inr x)
      obtain pos1 rule1 p1 where x: "x = (pos1, rule1, p1)" by (metis prod_cases3)
      have l: "length pos1 < length pos" using r(2) Inr x src by fastforce
      obtain r' where "parse_more k seq name i nested pos1 rule1 p1 = Some r'" "\<forall>pos' p'. r' = Inr (pos', p') \<longrightarrow> length pos' \<le> length pos1"
        using Suc.IH [of pos1 rule1 p1] l Suc.prems by auto
      then show ?thesis using True r(1) Inr x l by fastforce
    qed
  qed auto
qed simp

lemma parse_alternates_total:
  assumes "seq_total n seq" "length src \<le> n" "length src < k"
  shows "\<exists>r. parse_alternates k seq name i nested src p = Some r \<and> (\<forall>pos' p'. r = Inr (pos', p') \<longrightarrow> length pos' \<le> length src)"
proof -
  obtain r where r: "seq name nested 0 src [] p = Some r" "\<forall>pos' x. r = Inr (pos', x) \<longrightarrow> length pos' \<le> length src"
    using assms(1,2) unfolding seq_total_def by blast
  show ?thesis
  proof (cases r)
    case (Inl e)
    then show ?thesis using r(1) by (simp add: parse_alternates_def)
  next
    case (Inr x)
    obtain pos1 rule1 p1 where x: "x = (pos1, rule1, p1)" by (metis prod_cases3)
    have l: "length pos1 \<le> length src" using r(2) Inr x by blast
    obtain r' where r': "parse_more k seq name i nested pos1 rule1 p1 = Some r'" "\<forall>pos' p'. r' = Inr (pos', p') \<longrightarrow> length pos' \<le> length pos1"
      using parse_more_total [OF assms(1) le_trans [OF l assms(2)] le_less_trans [OF l assms(3)]] by blast
    then have "parse_alternates k seq name i nested src p = Some r'" using r(1) Inr x by (simp add: parse_alternates_def)
    then show ?thesis using r'(2) l le_trans by blast
  qed
qed


lemma bind_run_Some:
  assumes "\<And>x. r = Inr x \<Longrightarrow> \<exists>r'. f x = Some r' \<and> Q r'" "\<And>e. Q (Inl e)"
  shows "\<exists>r'. bind_run (Some r) f = Some r' \<and> Q r'"
  using assms by (cases r) auto

lemma sequence_step_total:
  assumes seq: "seq_total n seq" "n < k"
  shows "seq_total (Suc n) (sequence_step k seq)"
  unfolding seq_total_def
proof (intro allI impI)
  fix name nested l and pos :: string and rule p
  assume len: "length pos \<le> Suc n"
  let ?Q = "\<lambda>m r. \<forall>(pos' :: string) (x :: gr_elem list \<times> grammar_parser). r = Inr (pos', x) \<longrightarrow> length pos' \<le> (m :: nat)"
  show "\<exists>r. sequence_step k seq name nested l pos rule p = Some r \<and> ?Q (length pos) r"
  proof (cases pos)
    case Nil
    then show ?thesis by (simp add: sequence_step_def)
  next
    case (Cons c rest)
    have sub: "\<exists>r. seq name nested l' pos1 rule1 p1 = Some r \<and> ?Q (length pos) r" if "length pos1 < length pos" for l' pos1 rule1 p1
    proof -
      have "length pos1 \<le> n" using that len by simp
      then obtain r where "seq name nested l' pos1 rule1 p1 = Some r" "?Q (length pos1) r"
        using seq(1) unfolding seq_total_def by blast
      then show ?thesis using that by fastforce
    qed
    have space: "length (parse_space b xs) < length pos" if "length xs < length pos" for b xs using parse_space_length [of b xs] that by simp
    note go = bind_run_Some [where Q = "?Q (length pos)"]
    consider "c = CHR 0x22" | "c = CHR ''[''" | "is_word_char c" "c \<noteq> CHR 0x22" "c \<noteq> CHR ''[''"
      | "c = CHR ''(''" "\<not> is_word_char c" | "c = CHR ''.''" "\<not> is_word_char c"
      | "c \<noteq> CHR 0x22" "c \<noteq> CHR ''[''" "\<not> is_word_char c" "c \<noteq> CHR ''(''" "c \<noteq> CHR ''.''"
      by blast
    then show ?thesis
    proof cases
      case 1
      have "\<exists>r. bind_run (Some (literal_loop rest rule)) (\<lambda>(pos1, rule1). seq name nested (length rule) (parse_space nested pos1) rule1 p) = Some r
          \<and> ?Q (length pos) r"
        by (rule go) (use literal_loop_length [of rest rule] sub space Cons in fastforce)+
      then show ?thesis using 1 Cons by (simp add: sequence_step_def)
    next
      case 2
      obtain ty pos0 where cs: "class_start rest = (ty, pos0)" by fastforce
      then have "length pos0 \<le> length rest" by (auto simp: class_start_def split: if_splits)
      then have "\<exists>r. bind_run (Some (class_loop ty (length rule) pos0 rule)) (\<lambda>(pos1, rule1). seq name nested (length rule) (parse_space nested pos1) rule1 p) = Some r
          \<and> ?Q (length pos) r"
        by (intro go) (use class_loop_length [of ty "length rule" pos0 rule] sub space Cons in fastforce)+
      then show ?thesis using 2 Cons cs by (simp add: sequence_step_def)
    next
      case 3
      have "\<exists>r. bind_run (Some (parse_name pos)) (\<lambda>(ref, pos1). let (ref_id, p1) = get_symbol_id ref p in
            seq name nested (length rule) (parse_space nested pos1) (rule @ [\<lparr>g_type = G_RULE_REF, g_value = ref_id\<rparr>]) p1) = Some r
          \<and> ?Q (length pos) r"
        by (rule go) (use parse_name_length [of pos] sub space in \<open>fastforce simp: Let_def split_def\<close>)+
      then show ?thesis using 3 Cons by (simp add: sequence_step_def)
    next
      case 4
      obtain i p1 where g: "generate_symbol_id name p = (i, p1)" by fastforce
      have "length (parse_space True rest) \<le> n" using space [of rest True] Cons len by simp
      then obtain r where r: "parse_alternates k seq name i True (parse_space True rest) p1 = Some r"
          "\<forall>pos' p'. r = Inr (pos', p') \<longrightarrow> length pos' \<le> length (parse_space True rest)"
        using parse_alternates_total [OF seq(1), of "parse_space True rest" k] seq(2) by (meson le_less_trans)
      have "\<exists>r'. bind_run (Some r) (\<lambda>(pos1, p2).
            if pos1 = [] \<or> hd pos1 \<noteq> CHR '')'' then Some (Inl (Throw ''expecting )''))
            else seq name nested (length rule) (parse_space nested (tl pos1)) (rule @ [\<lparr>g_type = G_RULE_REF, g_value = i\<rparr>]) p2) = Some r'
          \<and> ?Q (length pos) r'"
      proof (rule go)
        fix x assume x: "r = Inr x"
        obtain pos1 p2 where [simp]: "x = (pos1, p2)" by fastforce
        have "length pos1 \<le> length (parse_space True rest)" using r(2) x by simp
        then have "length (tl pos1) < length pos" using space [of rest True] Cons by simp
        then show "\<exists>r'. (case x of (pos1, p2) \<Rightarrow> if pos1 = [] \<or> hd pos1 \<noteq> CHR '')'' then Some (Inl (Throw ''expecting )''))
            else seq name nested (length rule) (parse_space nested (tl pos1)) (rule @ [\<lparr>g_type = G_RULE_REF, g_value = i\<rparr>]) p2) = Some r'
          \<and> ?Q (length pos) r'" using sub space by simp
      qed simp
      then show ?thesis using 4 Cons g r(1) by (simp add: sequence_step_def)
    next
      case 5
      then show ?thesis using Cons sub [OF space [of rest nested]] by (simp add: sequence_step_def)
    next
      case 6
      show ?thesis
      proof (cases "repetition nested c rest")
        case None
        then show ?thesis using 6 Cons by (simp add: sequence_step_def)
      next
        case (Some r)
        have "\<exists>r'. bind_run (Some r) (\<lambda>(min_times, max_times, pos1).
              bind_run (Some (handle_repetitions name l min_times max_times rule p)) (\<lambda>(rule1, p1). seq name nested l pos1 rule1 p1)) = Some r'
            \<and> ?Q (length pos) r'"
        proof (rule go)
          fix x assume x: "r = Inr x"
          obtain a b pos1 where [simp]: "x = (a, b, pos1)" by (metis prod_cases3)
          have "length pos1 < length pos" using repetition_length [of nested c rest a b pos1] Some x Cons by simp
          then show "\<exists>r'. (case x of (min_times, max_times, pos1) \<Rightarrow>
              bind_run (Some (handle_repetitions name l min_times max_times rule p)) (\<lambda>(rule1, p1). seq name nested l pos1 rule1 p1)) = Some r'
            \<and> ?Q (length pos) r'"
            unfolding \<open>x = _\<close> prod.case by (intro go) (use sub in auto)
        qed simp
        then show ?thesis using 6 Cons Some by (simp add: sequence_step_def)
      qed
    qed
  qed
qed

lemma parse_sequence_total: "seq_total n (parse_sequence (Suc n))"
proof (induction n)
  case 0
  show ?case by (simp add: seq_total_def sequence_step_def)
next
  case (Suc n)
  have "seq_total (Suc n) (sequence_step (Suc n) (parse_sequence (Suc n)))" by (rule sequence_step_total [OF Suc]) simp
  then show ?case by simp
qed


lemma parse_alternates_enough:
  "\<exists>r. parse_alternates (length src + 1) (parse_sequence (length src + 1)) name i nested src p = Some r
     \<and> (\<forall>pos' p'. r = Inr (pos', p') \<longrightarrow> length pos' \<le> length src)"
  using parse_alternates_total [OF parse_sequence_total order_refl] by (metis Suc_eq_plus1 lessI)

lemma parse_rule_total:
  "\<exists>r. parse_rule src p = Some r \<and> (\<forall>pos' p'. r = Inr (pos', p') \<longrightarrow> length pos' < length src)"
  unfolding parse_rule_def
proof (rule bind_run_Some)
  fix x assume x: "parse_name src = Inr x"
  obtain name pos0 where [simp]: "x = (name, pos0)" by fastforce
  obtain i p1 where [simp]: "get_symbol_id name p = (i, p1)" by fastforce
  let ?pos = "parse_space False pos0"
  let ?src = "parse_space True (drop 3 ?pos)"
  have len: "length ?pos < length src" "length ?src \<le> length ?pos"
    using parse_name_length [of src name pos0] parse_space_length [of False pos0] parse_space_length [of True "drop 3 ?pos"] x by auto
  obtain r where r: "parse_alternates (length ?src + 1) (parse_sequence (length ?src + 1)) name i False ?src p1 = Some r"
      "\<forall>pos' p'. r = Inr (pos', p') \<longrightarrow> length pos' \<le> length ?src"
    using parse_alternates_enough by blast
  let ?fin = "\<lambda>pos1 p2. bind_run (Some
        (if pos1 = [] then Inr []
         else if hd pos1 = CHR 0x0D then Inr (if tl pos1 \<noteq> [] \<and> hd (tl pos1) = CHR 0x0A then tl (tl pos1) else tl pos1)
         else if hd pos1 = CHR 0x0A then Inr (tl pos1) else Inl (Throw ''expecting newline or end'')))
        (\<lambda>pos2. Some (Inr (parse_space True pos2, p2)))"
  have "\<exists>r'. bind_run (Some r) (\<lambda>(pos1, p2). ?fin pos1 p2) = Some r' \<and> (\<forall>pos' p'. r' = Inr (pos', p') \<longrightarrow> length pos' < length src)"
  proof (rule bind_run_Some)
    fix y assume y: "r = Inr y"
    obtain pos1 p2 where [simp]: "y = (pos1, p2)" by fastforce
    have "length pos1 < length src" using r(2) y len by simp
    then have "length (parse_space True pos2) < length src" if "length pos2 \<le> length pos1" for pos2
      using parse_space_length [of True pos2] that by simp
    then show "\<exists>r'. (case y of (pos1, p2) \<Rightarrow> ?fin pos1 p2) = Some r' \<and> (\<forall>pos' p'. r' = Inr (pos', p') \<longrightarrow> length pos' < length src)"
      by (simp add: bind_run_def)
  qed simp
  then show "\<exists>r'. (case x of (name, pos0) \<Rightarrow>
         let pos = parse_space False pos0; (rule_id, p1) = get_symbol_id name p in
         if take 3 pos \<noteq> ''::='' then Some (Inl (Throw ''expecting ::=''))
         else let src1 = parse_space True (drop 3 pos) in
           bind_run (parse_alternates (length src1 + 1) (parse_sequence (length src1 + 1)) name rule_id False src1 p1) (\<lambda>(pos1, p2). ?fin pos1 p2))
       = Some r' \<and> (\<forall>pos' p'. r' = Inr (pos', p') \<longrightarrow> length pos' < length src)"
    using r(1) by (simp add: Let_def)
qed simp

lemma parse_rules_total: "length pos < k \<Longrightarrow> \<exists>r. parse_rules k pos p = Some r"
proof (induction k arbitrary: pos p)
  case (Suc k)
  obtain r where r: "parse_rule pos p = Some r" "\<forall>pos' p'. r = Inr (pos', p') \<longrightarrow> length pos' < length pos" using parse_rule_total by blast
  have "\<exists>r'. bind_run (Some r) (\<lambda>(pos1, p1). parse_rules k pos1 p1) = Some r' \<and> True"
    by (rule bind_run_Some) (use r(2) Suc in fastforce)+
  then show ?case using r(1) by simp
qed simp

lemma parse_returns: "\<exists>b p. parse src = Some (b, p)"
proof -
  let ?pos = "parse_space True (takeWhile (\<lambda>c. c \<noteq> CHR 0x00) src)"
  obtain r where "parse_rules (length ?pos + 1) ?pos \<lparr>symbol_ids = [], p_rules = []\<rparr> = Some r" using parse_rules_total by (meson less_add_one)
  then show ?thesis by (cases r) (auto simp: parse_def Let_def bind_run_def split: sum.split)
qed

section \<open>The rules of a parsed grammar are well-formed\<close>

text \<open>The names of the symbols determine their ids, and the ids are numbered consecutively.\<close>

lemma digit_char:
  assumes "d < 10"
  shows "(of_char (char_of (48 + d) :: char) :: int) = 48 + int d" "(char_of (48 + d) :: char) \<noteq> CHR ''_''"
proof -
  have n: "(of_char (char_of (48 + d) :: char) :: nat) = 48 + d" using assms by simp
  then show "(of_char (char_of (48 + d) :: char) :: int) = 48 + int d" by (metis of_nat_add of_nat_numeral of_nat_of_char)
  show "(char_of (48 + d) :: char) \<noteq> CHR ''_''"
  proof
    assume "(char_of (48 + d) :: char) = CHR ''_''"
    then have "48 + d = (of_char CHR ''_'' :: nat)" using n by simp
    then show False using assms by simp
  qed
qed

lemma to_string_value: "digits_value (to_string n) = int n"
proof (induction n rule: to_string.induct)
  case (1 n)
  show ?case
  proof (cases "n < 10")
    case True
    then show ?thesis using digit_char(1) [OF True] by (simp add: to_string.simps [of n] digits_value_def)
  next
    case False
    have "digits_value (to_string n) = digits_value (to_string (n div 10)) * 10 + (of_char (char_of (48 + n mod 10) :: char) - 48)"
      using False by (simp add: to_string.simps [of n] digits_value_def)
    moreover have "int (n div 10) * 10 + int (n mod 10) = int n" by (metis div_mult_mod_eq of_nat_add of_nat_mult of_nat_numeral)
    ultimately show ?thesis using 1 False digit_char(1) [of "n mod 10"] by simp
  qed
qed

lemma underscore_key:
  assumes "CHR ''_'' \<notin> set a" "CHR ''_'' \<notin> set b" "a @ CHR ''_'' # to_string m = b @ CHR ''_'' # to_string n"
  shows "m = n"
proof -
  have "takeWhile (\<lambda>c. c \<noteq> CHR ''_'') (a @ CHR ''_'' # x) = a" if "CHR ''_'' \<notin> set a" for a x
    using that by (induction a) auto
  then have "a = b" using assms by metis
  then have "to_string m = to_string n" using assms(3) by simp
  then show ?thesis by (metis of_nat_eq_iff to_string_value)
qed

text \<open>The table of symbols numbers them consecutively, and a generated name ends with the id.\<close>

definition ids_ok :: "(string \<times> nat) list \<Rightarrow> bool" where
  "ids_ok ids \<longleftrightarrow> snd ` set ids = {..<length ids}
     \<and> (\<forall>(k, v) \<in> set ids. CHR ''_'' \<in> set k \<longrightarrow> (\<exists>b. CHR ''_'' \<notin> set b \<and> k = b @ CHR ''_'' # to_string v))"

lemma update_fresh: "k \<notin> fst ` set ids \<Longrightarrow> AList.update k v ids = ids @ [(k, v)]"
  by (induction ids) auto

lemma get_symbol_id_ok:
  assumes "ids_ok (symbol_ids p)" "CHR ''_'' \<notin> set name" "get_symbol_id name p = (i, p')"
  shows "ids_ok (symbol_ids p')" "i < length (symbol_ids p')" "length (symbol_ids p) \<le> length (symbol_ids p')" "p_rules p' = p_rules p"
proof -
  have "ids_ok (symbol_ids p') \<and> i < length (symbol_ids p') \<and> length (symbol_ids p) \<le> length (symbol_ids p') \<and> p_rules p' = p_rules p"
  proof (cases "map_of (symbol_ids p) name")
    case None
    then have "name \<notin> fst ` set (symbol_ids p)" by (simp add: map_of_eq_None_iff)
    then have "symbol_ids p' = symbol_ids p @ [(name, length (symbol_ids p))]" "i = length (symbol_ids p)" "p_rules p' = p_rules p"
      using assms(3) None update_fresh by (auto simp: get_symbol_id_def)
    then show ?thesis using assms(1,2) by (auto simp: ids_ok_def)
  next
    case (Some j)
    then have "(name, j) \<in> set (symbol_ids p)" by (rule map_of_SomeD)
    then have "j < length (symbol_ids p)" using assms(1) unfolding ids_ok_def by force
    then show ?thesis using assms(1,3) Some by (simp add: get_symbol_id_def)
  qed
  then show "ids_ok (symbol_ids p')" "i < length (symbol_ids p')" "length (symbol_ids p) \<le> length (symbol_ids p')" "p_rules p' = p_rules p"
    by simp_all
qed

lemma generate_symbol_id_ok:
  assumes "ids_ok (symbol_ids p)" "CHR ''_'' \<notin> set name" "generate_symbol_id name p = (i, p')"
  shows "ids_ok (symbol_ids p')" "i < length (symbol_ids p')" "length (symbol_ids p) \<le> length (symbol_ids p')" "p_rules p' = p_rules p"
proof -
  let ?n = "length (symbol_ids p)"
  let ?key = "name @ CHR ''_'' # to_string ?n"
  have "?key \<notin> fst ` set (symbol_ids p)"
  proof
    assume "?key \<in> fst ` set (symbol_ids p)"
    then obtain v where v: "(?key, v) \<in> set (symbol_ids p)" by auto
    then have lt: "v < ?n" using assms(1) unfolding ids_ok_def by force
    obtain b where b: "CHR ''_'' \<notin> set b" "?key = b @ CHR ''_'' # to_string v"
      using assms(1) v unfolding ids_ok_def by fastforce
    have "?n = v" by (rule underscore_key [OF assms(2) b])
    then show False using lt by simp
  qed
  then have s: "symbol_ids p' = symbol_ids p @ [(?key, ?n)]" "i = ?n" "p_rules p' = p_rules p"
    using assms(3) update_fresh by (auto simp: generate_symbol_id_def Let_def)
  show "ids_ok (symbol_ids p')" using assms(1,2) by (auto simp: s ids_ok_def)
  show "i < length (symbol_ids p')" "length (symbol_ids p) \<le> length (symbol_ids p')" "p_rules p' = p_rules p" by (simp_all add: s)
qed


text \<open>A part of a rule that can stand anywhere in it, whose references are below \<open>n\<close>; a finished rule; the parser state.\<close>

definition free_elem :: "gr_elem \<Rightarrow> bool" where
  "free_elem u \<longleftrightarrow> g_type u \<noteq> G_CHAR_RNG_UPPER \<and> g_type u \<noteq> G_CHAR_ALT"

definition elem_ok :: "nat \<Rightarrow> gr_elem \<Rightarrow> bool" where
  "elem_ok n e \<longleftrightarrow> g_type e \<noteq> G_END \<and> (g_type e = G_RULE_REF \<longrightarrow> g_value e < n)"

definition part_ok :: "nat \<Rightarrow> gr_elem list \<Rightarrow> bool" where
  "part_ok n es \<longleftrightarrow> (\<forall>e \<in> set es. elem_ok n e) \<and> (es \<noteq> [] \<longrightarrow> free_elem (hd es)) \<and> successively follows es"

definition finished :: "nat \<Rightarrow> gr_elem list \<Rightarrow> bool" where
  "finished n r \<longleftrightarrow> (\<exists>es. part_ok n es \<and> r = es @ [\<lparr>g_type = G_END, g_value = 0\<rparr>])"

definition parser_ok :: "grammar_parser \<Rightarrow> bool" where
  "parser_ok p \<longleftrightarrow> ids_ok (symbol_ids p) \<and> (\<forall>r \<in> set (p_rules p). r \<noteq> [] \<longrightarrow> finished (length (symbol_ids p)) r)"

abbreviation n_ids :: "grammar_parser \<Rightarrow> nat" where
  "n_ids p \<equiv> length (symbol_ids p)"

lemma free_follows: "free_elem u \<Longrightarrow> follows e u"
  by (simp add: free_elem_def follows_def)

lemma part_ok_Nil [simp]: "part_ok n []"
  by (simp add: part_ok_def)

lemma part_ok_mono: "part_ok n es \<Longrightarrow> n \<le> m \<Longrightarrow> part_ok m es"
  by (auto simp: part_ok_def elem_ok_def)

lemma part_ok_append: "part_ok n a \<Longrightarrow> part_ok n b \<Longrightarrow> part_ok n (a @ b)"
  by (cases "b = []") (auto simp: part_ok_def successively_append_iff free_follows hd_append)

lemma part_ok_single: "part_ok n [e] \<longleftrightarrow> elem_ok n e \<and> free_elem e"
  by (auto simp: part_ok_def)

lemma part_ok_take: "part_ok n es \<Longrightarrow> part_ok n (take l es)"
proof -
  assume "part_ok n es"
  then have "part_ok n (take l es @ drop l es)" by simp
  then show ?thesis by (cases "take l es = []") (auto simp: part_ok_def successively_append_iff simp del: append_take_drop_id)
qed

definition start_ok :: "nat \<Rightarrow> gr_elem list \<Rightarrow> bool" where
  "start_ok l es \<longleftrightarrow> (l < length es \<longrightarrow> free_elem (es ! l))"

lemma part_ok_drop: "part_ok n es \<Longrightarrow> start_ok l es \<Longrightarrow> part_ok n (drop l es)"
proof -
  assume es: "part_ok n es" "start_ok l es"
  then have "successively follows (take l es @ drop l es)" by (simp add: part_ok_def)
  then have "successively follows (drop l es)" by (simp only: successively_append_iff)
  then show ?thesis using es by (auto simp: part_ok_def start_ok_def hd_drop_conv_nth dest: in_set_dropD)
qed

lemma start_ok_append: "part_ok n es \<Longrightarrow> start_ok (length rule) (rule @ es)"
  by (cases es) (auto simp: start_ok_def part_ok_def)

lemma part_ok_concat: "part_ok n es \<Longrightarrow> part_ok n (concat (replicate k es))"
  by (induction k) (auto intro: part_ok_append)

lemma parser_ok_add_rule:
  assumes "parser_ok p" "finished (n_ids p) rule"
  shows "parser_ok (add_rule i rule p)" "n_ids (add_rule i rule p) = n_ids p"
proof -
  have "\<forall>r \<in> set ((p_rules p @ replicate m [])[i := rule]). r \<noteq> [] \<longrightarrow> finished (n_ids p) r" for m
    using assms set_update_subset_insert [of "p_rules p @ replicate m []" i rule] by (auto simp: parser_ok_def)
  from this [of 0] this [of "i + 1 - length (p_rules p)"] show "parser_ok (add_rule i rule p)"
    using assms(1) by (simp add: parser_ok_def add_rule_def Let_def)
qed (simp add: add_rule_def Let_def)

lemma finished_mono: "finished n r \<Longrightarrow> n \<le> m \<Longrightarrow> finished m r"
  using part_ok_mono by (auto simp: finished_def)

lemma parser_ok_new_id:
  assumes "parser_ok p" "CHR ''_'' \<notin> set name" "generate_symbol_id name p = (i, p') \<or> get_symbol_id name p = (i, p')"
  shows "parser_ok p'" "i < n_ids p'" "n_ids p \<le> n_ids p'"
proof -
  have ids: "ids_ok (symbol_ids p)" using assms(1) by (simp add: parser_ok_def)
  have s: "ids_ok (symbol_ids p')" "i < n_ids p'" "n_ids p \<le> n_ids p'" "p_rules p' = p_rules p"
    using assms(3) generate_symbol_id_ok [OF ids assms(2)] get_symbol_id_ok [OF ids assms(2)] by blast+
  then show "parser_ok p'" "i < n_ids p'" "n_ids p \<le> n_ids p'" using assms(1) finished_mono by (auto simp: parser_ok_def)
qed

lemma literal_loop_part: "literal_loop pos rule = Inr (pos', rule') \<Longrightarrow> \<exists>es. rule' = rule @ es \<and> part_ok n es"
proof (induction pos arbitrary: rule rule: length_induct)
  case (1 pos)
  show ?case
  proof (cases pos)
    case (Cons c rest)
    show ?thesis
    proof (cases "c = CHR 0x22")
      case True
      then show ?thesis using 1(2) Cons by (auto simp: literal_loop_simps intro: exI [of _ "[]"])
    next
      case False
      then obtain v pos1 where s: "parse_char pos = Inr (v, pos1)" "literal_loop pos1 (rule @ [\<lparr>g_type = G_CHAR, g_value = v\<rparr>]) = Inr (pos', rule')"
        using 1(2) Cons by (auto simp: literal_loop_simps bind_res_eq_Inr)
      then obtain es where es: "rule' = rule @ [\<lparr>g_type = G_CHAR, g_value = v\<rparr>] @ es" "part_ok n es"
        using 1(1) parse_char_length [OF s(1)] by fastforce
      have "part_ok n [\<lparr>g_type = G_CHAR, g_value = v\<rparr>]" by (simp add: part_ok_single elem_ok_def free_elem_def)
      then show ?thesis using es part_ok_append by blast
    qed
  qed (use 1(2) in \<open>simp add: literal_loop_simps\<close>)
qed

text \<open>The elements of a class so far: another character may follow them.\<close>

definition class_part :: "nat \<Rightarrow> gr_elem list \<Rightarrow> bool" where
  "class_part n es \<longleftrightarrow> part_ok n es \<and> (es \<noteq> [] \<longrightarrow> g_type (last es) \<in> {G_CHAR, G_CHAR_NOT, G_CHAR_ALT, G_CHAR_RNG_UPPER})"

lemma class_part_add:
  assumes "class_part n es" "ty = G_CHAR \<or> ty = G_CHAR_NOT" "e = \<lparr>g_type = if es = [] then ty else G_CHAR_ALT, g_value = v\<rparr>"
  shows "class_part n (es @ [e])" "class_part n (es @ [e, \<lparr>g_type = G_CHAR_RNG_UPPER, g_value = u\<rparr>])"
  using assms by (auto simp: class_part_def part_ok_def elem_ok_def successively_append_iff free_elem_def follows_def hd_append)

lemma class_loop_part:
  assumes "ty = G_CHAR \<or> ty = G_CHAR_NOT"
  shows "class_loop ty (length rule) pos (rule @ es) = Inr (pos', rule') \<Longrightarrow> class_part n es \<Longrightarrow> \<exists>es'. rule' = rule @ es' \<and> part_ok n es'"
proof (induction pos arbitrary: es rule: length_induct)
  case (1 pos)
  show ?case
  proof (cases pos)
    case (Cons c rest)
    show ?thesis
    proof (cases "c = CHR '']''")
      case True
      then show ?thesis using 1(2,3) Cons by (auto simp: class_loop_simps class_part_def)
    next
      case False
      let ?ty = "if es = [] then ty else G_CHAR_ALT"
      obtain v pos1 pos2 rule2 where s:
        "range_upper pos1 ((rule @ es) @ [\<lparr>g_type = if length rule < length (rule @ es) then G_CHAR_ALT else ty, g_value = v\<rparr>]) = Inr (pos2, rule2)"
        "class_loop ty (length rule) pos2 rule2 = Inr (pos', rule')" "length pos2 < length pos"
        using class_loop_step [OF 1(2) [unfolded Cons] False] Cons by metis
      have ty: "(if length rule < length (rule @ es) then G_CHAR_ALT else ty) = ?ty" by simp
      obtain es2 where es2: "rule2 = rule @ es2" "class_part n es2"
      proof -
        have "rule2 = rule @ (es @ [\<lparr>g_type = ?ty, g_value = v\<rparr>]) \<or> (\<exists>u. rule2 = rule @ (es @ [\<lparr>g_type = ?ty, g_value = v\<rparr>, \<lparr>g_type = G_CHAR_RNG_UPPER, g_value = u\<rparr>]))"
          using s(1) unfolding ty by (auto simp: range_upper_def split: if_splits sum.splits)
        then show thesis using that class_part_add [OF 1(3) assms refl] by blast
      qed
      then show ?thesis using 1(1) s(2,3) by blast
    qed
  qed (use 1(2) in \<open>simp add: class_loop_simps\<close>)
qed


lemma ref_part: "i < n \<Longrightarrow> part_ok n [\<lparr>g_type = G_RULE_REF, g_value = i\<rparr>]"
  by (simp add: part_ok_single elem_ok_def free_elem_def)

lemma opt_rules_ok:
  assumes "parser_ok p" "CHR ''_'' \<notin> set name" "part_ok (n_ids p) prev" "i = 0 \<or> last_rec < n_ids p" "opt_rules name prev unbounded i k last_rec p = (r, p')"
  shows "parser_ok p'" "n_ids p \<le> n_ids p'" "0 < k \<or> 0 < i \<Longrightarrow> r < n_ids p'"
proof -
  have "parser_ok p' \<and> n_ids p \<le> n_ids p' \<and> (0 < k \<or> 0 < i \<longrightarrow> r < n_ids p')"
    using assms
  proof (induction k arbitrary: i last_rec p)
    case (Suc k)
    obtain j p1 where g: "generate_symbol_id name p = (j, p1)" by fastforce
    have p1: "parser_ok p1" "j < n_ids p1" "n_ids p \<le> n_ids p1" using parser_ok_new_id [OF Suc.prems(1,2)] g by blast+
    let ?ref = "if 0 < i \<or> unbounded then [\<lparr>g_type = G_RULE_REF, g_value = if unbounded then j else last_rec\<rparr>] else []"
    let ?p2 = "add_rule j (prev @ ?ref @ [\<lparr>g_type = G_ALT, g_value = 0\<rparr>, \<lparr>g_type = G_END, g_value = 0\<rparr>]) p1"
    have prev: "part_ok (n_ids p1) prev" by (rule part_ok_mono [OF Suc.prems(3) p1(3)])
    have "part_ok (n_ids p1) ?ref" using p1(2,3) Suc.prems(4) by (auto intro!: ref_part)
    moreover have "part_ok (n_ids p1) [\<lparr>g_type = G_ALT, g_value = 0\<rparr>]" by (simp add: part_ok_single elem_ok_def free_elem_def)
    ultimately have "part_ok (n_ids p1) (prev @ ?ref @ [\<lparr>g_type = G_ALT, g_value = 0\<rparr>])" using prev part_ok_append by blast
    then have "finished (n_ids p1) (prev @ ?ref @ [\<lparr>g_type = G_ALT, g_value = 0\<rparr>, \<lparr>g_type = G_END, g_value = 0\<rparr>])"
      unfolding finished_def by (intro exI [of _ "prev @ ?ref @ [\<lparr>g_type = G_ALT, g_value = 0\<rparr>]"]) simp
    then have p2: "parser_ok ?p2" "n_ids ?p2 = n_ids p1" using parser_ok_add_rule [OF p1(1)] by blast+
    have o: "opt_rules name prev unbounded (i + 1) k j ?p2 = (r, p')" using Suc.prems(5) g by (simp add: Let_def)
    have "parser_ok p' \<and> n_ids ?p2 \<le> n_ids p' \<and> (0 < k \<or> 0 < i + 1 \<longrightarrow> r < n_ids p')"
      using Suc.IH [OF p2(1) Suc.prems(2) _ _ o] prev p2(2) p1(2) by simp
    then show ?case using p2(2) p1(3) by simp
  qed auto
  then show "parser_ok p'" "n_ids p \<le> n_ids p'" "0 < k \<or> 0 < i \<Longrightarrow> r < n_ids p'" by simp_all
qed

lemma handle_repetitions_ok:
  assumes "parser_ok p" "CHR ''_'' \<notin> set name" "part_ok (n_ids p) rule" "start_ok l rule"
    and "handle_repetitions name l a b rule p = Inr (rule', p')"
  shows "parser_ok p'" "n_ids p \<le> n_ids p'" "part_ok (n_ids p') rule'" "start_ok l rule'"
proof -
  let ?prev = "drop l rule" and ?n = "if b < 0 then 1 else int_minus b a"
  let ?rule = "if a = 0 then take l rule else rule @ concat (replicate (nat (a - 1)) ?prev)"
  obtain r p1 where o: "opt_rules name ?prev (b < 0) 0 (nat ?n) 0 p = (r, p1)" by fastforce
  have prev: "part_ok (n_ids p) ?prev" by (rule part_ok_drop [OF assms(3,4)])
  have p1: "parser_ok p1" "n_ids p \<le> n_ids p1" "0 < nat ?n \<Longrightarrow> r < n_ids p1"
    using opt_rules_ok [OF assms(1,2) prev _ o] by simp_all
  have res: "l \<noteq> length rule" "p' = p1" "rule' = (if 0 < ?n then ?rule @ [\<lparr>g_type = G_RULE_REF, g_value = r\<rparr>] else ?rule)"
    using assms(5) o by (auto simp: handle_repetitions_def Let_def split: if_splits prod.splits)
  have rule: "part_ok (n_ids p) ?rule" using assms(3) prev by (auto intro!: part_ok_append part_ok_take part_ok_concat)
  then have "part_ok (n_ids p1) ?rule" using part_ok_mono p1(2) by blast
  then show "part_ok (n_ids p') rule'" using p1(3) ref_part part_ok_append by (auto simp: res)
  show "parser_ok p'" "n_ids p \<le> n_ids p'" using p1 res(2) by simp_all
  show "start_ok l rule'" using assms(4) res(1) by (auto simp: res start_ok_def nth_append free_elem_def)
qed

text \<open>A parser of sequences that keeps the parser state and the rule well-formed.\<close>

definition seq_keeps :: "sequence_parser \<Rightarrow> bool" where
  "seq_keeps seq \<longleftrightarrow> (\<forall>name nested l pos rule p pos' rule' p'.
     CHR ''_'' \<notin> set name \<and> parser_ok p \<and> part_ok (n_ids p) rule \<and> start_ok l rule
     \<and> seq name nested l pos rule p = Some (Inr (pos', rule', p'))
     \<longrightarrow> parser_ok p' \<and> part_ok (n_ids p') rule' \<and> n_ids p \<le> n_ids p')"

lemma seq_keepsD:
  assumes "seq_keeps seq" "seq name nested l pos rule p = Some (Inr (pos', rule', p'))"
    and "CHR ''_'' \<notin> set name" "parser_ok p" "part_ok (n_ids p) rule" "start_ok l rule"
  shows "parser_ok p'" "part_ok (n_ids p') rule'" "n_ids p \<le> n_ids p'"
  using assms unfolding seq_keeps_def by blast+

lemma parse_more_keeps:
  assumes "seq_keeps seq" "CHR ''_'' \<notin> set name"
  shows "parse_more k seq name i nested pos rule p = Some (Inr (pos', p')) \<Longrightarrow> parser_ok p \<Longrightarrow> part_ok (n_ids p) rule
    \<Longrightarrow> parser_ok p' \<and> n_ids p \<le> n_ids p'"
proof (induction k arbitrary: pos rule p)
  case (Suc k)
  show ?case
  proof (cases "pos \<noteq> [] \<and> hd pos = CHR ''|''")
    case True
    let ?rule = "rule @ [\<lparr>g_type = G_ALT, g_value = 0\<rparr>]"
    obtain pos1 rule1 p1 where s: "seq name nested (length ?rule) (parse_space True (tl pos)) ?rule p = Some (Inr (pos1, rule1, p1))"
      "parse_more k seq name i nested pos1 rule1 p1 = Some (Inr (pos', p'))"
      using Suc.prems(1) True by (auto simp: bind_run_eq_Inr)
    have "part_ok (n_ids p) ?rule" using Suc.prems(3) by (intro part_ok_append) (auto simp: part_ok_single elem_ok_def free_elem_def)
    moreover have "start_ok (length ?rule) ?rule" by (simp add: start_ok_def)
    ultimately have "parser_ok p1" "part_ok (n_ids p1) rule1" "n_ids p \<le> n_ids p1"
      using seq_keepsD [OF assms(1) s(1) assms(2) Suc.prems(2)] by blast+
    then show ?thesis using Suc.IH [OF s(2)] by simp
  next
    case False
    have "finished (n_ids p) (rule @ [\<lparr>g_type = G_END, g_value = 0\<rparr>])" using Suc.prems(3) by (auto simp: finished_def)
    then show ?thesis using Suc.prems(1,2) False parser_ok_add_rule by auto
  qed
qed simp

lemma parse_alternates_keeps:
  assumes "seq_keeps seq" "CHR ''_'' \<notin> set name" "parse_alternates k seq name i nested src p = Some (Inr (pos', p'))" "parser_ok p"
  shows "parser_ok p'" "n_ids p \<le> n_ids p'"
proof -
  obtain pos rule p1 where s: "seq name nested 0 src [] p = Some (Inr (pos, rule, p1))" "parse_more k seq name i nested pos rule p1 = Some (Inr (pos', p'))"
    using assms(3) by (auto simp: parse_alternates_def bind_run_eq_Inr)
  have "parser_ok p1" "part_ok (n_ids p1) rule" "n_ids p \<le> n_ids p1"
    using seq_keepsD [OF assms(1) s(1) assms(2,4)] by (simp_all add: start_ok_def)
  then show "parser_ok p'" "n_ids p \<le> n_ids p'" using parse_more_keeps [OF assms(1,2) s(2)] by simp_all
qed

lemma name_no_underscore: "parse_name src = Inr (name, pos) \<Longrightarrow> CHR ''_'' \<notin> set name"
  by (auto simp: parse_name_def Let_def is_word_char_def is_digit_char_def split: if_splits dest!: set_takeWhileD)


lemma sequence_step_keeps:
  assumes seq: "seq_keeps seq"
  shows "seq_keeps (sequence_step k seq)"
  unfolding seq_keeps_def
proof (intro allI impI, elim conjE)
  fix name nested l and pos :: string and rule p pos' rule' p'
  assume name: "CHR ''_'' \<notin> set name" and p: "parser_ok p" and rule: "part_ok (n_ids p) rule" and l: "start_ok l rule"
    and step: "sequence_step k seq name nested l pos rule p = Some (Inr (pos', rule', p'))"
  have cont: "parser_ok p' \<and> part_ok (n_ids p') rule' \<and> n_ids p \<le> n_ids p'"
    if "seq name nested (length rule) pos1 (rule @ es) p1 = Some (Inr (pos', rule', p'))" "parser_ok p1" "n_ids p \<le> n_ids p1" "part_ok (n_ids p1) es"
    for pos1 es p1
  proof -
    have "part_ok (n_ids p1) (rule @ es)" using part_ok_append [OF part_ok_mono [OF rule that(3)] that(4)] .
    then show ?thesis using seq_keepsD [OF seq that(1) name that(2) _ start_ok_append [OF that(4)]] that(3) by auto
  qed
  show "parser_ok p' \<and> part_ok (n_ids p') rule' \<and> n_ids p \<le> n_ids p'"
  proof (cases pos)
    case Nil
    then show ?thesis using step p rule by (simp add: sequence_step_def)
  next
    case (Cons c rest)
    consider "c = CHR 0x22" | "c = CHR ''[''" | "is_word_char c" "c \<noteq> CHR 0x22" "c \<noteq> CHR ''[''"
      | "c = CHR ''(''" "\<not> is_word_char c" | "c = CHR ''.''" "\<not> is_word_char c"
      | "c \<noteq> CHR 0x22" "c \<noteq> CHR ''[''" "\<not> is_word_char c" "c \<noteq> CHR ''(''" "c \<noteq> CHR ''.''"
      by blast
    then show ?thesis
    proof cases
      case 1
      then obtain pos1 rule1 where s: "literal_loop rest rule = Inr (pos1, rule1)"
        "seq name nested (length rule) (parse_space nested pos1) rule1 p = Some (Inr (pos', rule', p'))"
        using step Cons by (auto simp: sequence_step_def bind_run_eq_Inr)
      then show ?thesis using literal_loop_part [OF s(1), of "n_ids p"] cont p by blast
    next
      case 2
      then obtain pos1 rule1 where s: "class_loop (fst (class_start rest)) (length rule) (snd (class_start rest)) (rule @ []) = Inr (pos1, rule1)"
        "seq name nested (length rule) (parse_space nested pos1) rule1 p = Some (Inr (pos', rule', p'))"
        using step Cons by (auto simp: sequence_step_def bind_run_eq_Inr split_def Let_def)
      have "fst (class_start rest) = G_CHAR \<or> fst (class_start rest) = G_CHAR_NOT" by (simp add: class_start_def)
      then show ?thesis using class_loop_part [OF _ s(1), of "n_ids p"] s(2) cont p by (auto simp: class_part_def)
    next
      case 3
      then obtain ref pos1 where s: "parse_name pos = Inr (ref, pos1)"
        "(let (ref_id, p1) = get_symbol_id ref p in
          seq name nested (length rule) (parse_space nested pos1) (rule @ [\<lparr>g_type = G_RULE_REF, g_value = ref_id\<rparr>]) p1) = Some (Inr (pos', rule', p'))"
        using step Cons by (auto simp: sequence_step_def bind_run_eq_Inr)
      obtain i p1 where g: "get_symbol_id ref p = (i, p1)" by fastforce
      have "parser_ok p1" "i < n_ids p1" "n_ids p \<le> n_ids p1" using parser_ok_new_id [OF p name_no_underscore [OF s(1)]] g by blast+
      then show ?thesis using cont [of "parse_space nested pos1"] s(2) g ref_part by simp
    next
      case 4
      obtain i p1 where g: "generate_symbol_id name p = (i, p1)" by fastforce
      have p1: "parser_ok p1" "i < n_ids p1" "n_ids p \<le> n_ids p1" using parser_ok_new_id [OF p name] g by blast+
      obtain pos1 p2 where s: "parse_alternates k seq name i True (parse_space True rest) p1 = Some (Inr (pos1, p2))"
        "seq name nested (length rule) (parse_space nested (tl pos1)) (rule @ [\<lparr>g_type = G_RULE_REF, g_value = i\<rparr>]) p2 = Some (Inr (pos', rule', p'))"
        using step Cons 4 g by (auto simp: sequence_step_def bind_run_eq_Inr split: if_splits)
      have "parser_ok p2" "n_ids p1 \<le> n_ids p2" by (rule parse_alternates_keeps [OF seq name s(1) p1(1)])+
      then show ?thesis using cont [OF s(2)] p1(2,3) ref_part by simp
    next
      case 5
      then have "seq name nested (length rule) (parse_space nested rest) (rule @ [\<lparr>g_type = G_CHAR_ANY, g_value = 0\<rparr>]) p = Some (Inr (pos', rule', p'))"
        using step Cons by (simp add: sequence_step_def)
      then show ?thesis using cont p by (simp add: part_ok_single elem_ok_def free_elem_def)
    next
      case 6
      show ?thesis
      proof (cases "repetition nested c rest")
        case None
        then show ?thesis using step Cons 6 p rule by (simp add: sequence_step_def)
      next
        case (Some r)
        then obtain a b pos1 rule1 p1 where s: "handle_repetitions name l a b rule p = Inr (rule1, p1)"
          "seq name nested l pos1 rule1 p1 = Some (Inr (pos', rule', p'))"
          using step Cons 6 by (auto simp: sequence_step_def bind_run_eq_Inr)
        then show ?thesis using handle_repetitions_ok [OF p name rule l s(1)] seq_keepsD [OF seq s(2) name] by auto
      qed
    qed
  qed
qed

lemma parse_sequence_keeps: "seq_keeps (parse_sequence k)"
proof (induction k)
  case 0
  show ?case by (simp add: seq_keeps_def)
next
  case (Suc k)
  then show ?case using sequence_step_keeps by simp
qed

lemma parse_rule_keeps:
  assumes "parse_rule src p = Some (Inr (pos', p'))" "parser_ok p"
  shows "parser_ok p'"
proof -
  obtain name pos0 where n: "parse_name src = Inr (name, pos0)" using assms(1) by (auto simp: parse_rule_def bind_run_eq_Inr)
  obtain i p1 where g: "get_symbol_id name p = (i, p1)" by fastforce
  have p1: "parser_ok p1" using parser_ok_new_id [OF assms(2) name_no_underscore [OF n]] g by blast
  let ?src = "parse_space True (drop 3 (parse_space False pos0))"
  obtain pos1 where "parse_alternates (length ?src + 1) (parse_sequence (length ?src + 1)) name i False ?src p1 = Some (Inr (pos1, p'))"
    using assms(1) n g by (auto simp: parse_rule_def bind_run_eq_Inr Let_def simp del: parse_sequence.simps split: if_splits)
  then show ?thesis using parse_alternates_keeps(1) [OF parse_sequence_keeps name_no_underscore [OF n] _ p1] by blast
qed

lemma parse_rules_keeps: "parse_rules k pos p = Some (Inr p') \<Longrightarrow> parser_ok p \<Longrightarrow> parser_ok p'"
proof (induction k arbitrary: pos p)
  case (Suc k)
  then show ?case using parse_rule_keeps by (auto simp: bind_run_eq_Inr split: if_splits)
qed simp

lemma finished_rule_ok:
  assumes "finished n r" "\<forall>e \<in> set r. g_type e = G_RULE_REF \<longrightarrow> g_value e < m"
  shows "rule_ok m r"
proof -
  obtain es where es: "part_ok n es" "r = es @ [\<lparr>g_type = G_END, g_value = 0\<rparr>]" using assms(1) by (auto simp: finished_def)
  have "successively follows r" using es by (auto simp: part_ok_def successively_append_iff follows_def)
  then have "follows (r ! i) (r ! Suc i)" if "Suc i < length r" for i using that by (simp add: successively_conv_nth)
  moreover have "free_elem (hd r)" using es by (cases es) (auto simp: part_ok_def free_elem_def)
  ultimately show ?thesis using assms(2) es by (auto simp: rule_ok_def free_elem_def part_ok_def elem_ok_def)
qed

lemma parser_ok_validate:
  assumes "parser_ok p" "validate p = Inr p'"
  shows "p' = p" "rules_ok (p_rules p)"
proof -
  have v: "p' = p" "\<And>r. r \<in> set (p_rules p) \<Longrightarrow> r \<noteq> [] \<and> (\<forall>e \<in> set r. \<not> undefined_ref p e)"
    using assms(2) by (auto simp: validate_def list_ex_iff split: if_splits)
  have "rule_ok (length (p_rules p)) r" if r: "r \<in> set (p_rules p)" for r
  proof -
    have f: "finished (n_ids p) r" using assms(1) r v(2) by (auto simp: parser_ok_def)
    have "g_value e < length (p_rules p)" if e: "e \<in> set r" "g_type e = G_RULE_REF" for e
    proof -
      have "g_value e < n_ids p" using f e by (auto simp: finished_def part_ok_def elem_ok_def)
      then have "g_value e \<in> set (map snd (symbol_ids p))" using assms(1) by (simp add: parser_ok_def ids_ok_def)
      moreover have "\<not> undefined_ref p e" using v(2) [OF r] e(1) by blast
      ultimately show ?thesis using e(2) unfolding undefined_ref_def by (meson not_le_imp_less)
    qed
    then show ?thesis using finished_rule_ok [OF f] by blast
  qed
  then show "p' = p" "rules_ok (p_rules p)" using v(1) by (simp_all add: rules_ok_def)
qed

section \<open>Properties of the parser\<close>

text \<open>
  C38. Parsing terminates on every text: \<open>parse\<close> returns true with the parsed grammar or false, with the rules
  cleared, and the depth of its recursion stays within the length of the text.
\<close>

theorem parse_total: "\<exists>p. parse src = Some (True, p) \<or> parse src = Some (False, \<lparr>symbol_ids = [], p_rules = []\<rparr>)"
proof -
  obtain b p where r: "parse src = Some (b, p)" using parse_returns by blast
  then show ?thesis by (auto simp: parse_def Let_def split: option.splits sum.splits)
qed

text \<open>
  C39. A grammar that is parsed is well-formed: every rule ends with its only \<open>END\<close>, every reference is to a rule
  that exists, upper bounds and alternative characters stand only inside a class. This is what the
  engine assumes of its rules.
\<close>

theorem parse_wellformed:
  assumes "parse src = Some (True, p)"
  shows "rules_ok (p_rules p)"
proof -
  obtain p0 pos k p1 where s: "parse_rules k pos p0 = Some (Inr p1)" "validate p1 = Inr p" "p0 = \<lparr>symbol_ids = [], p_rules = []\<rparr>"
    using assms by (auto simp: parse_def Let_def bind_run_def simp del: parse_rules.simps split: option.splits sum.splits)
  have "parser_ok p0" by (simp add: s(3) parser_ok_def ids_ok_def)
  then show ?thesis using parser_ok_validate [OF parse_rules_keeps [OF s(1)] s(2)] by simp
qed


text \<open>The text of \<open>root ::= "a" root | x "c"\<close> with \<open>x ::= "b"?\<close> on a second line.\<close>

definition demo_text :: string where
  "demo_text = ''root ::= '' @ [CHR 0x22, CHR ''a'', CHR 0x22] @ '' root | x '' @ [CHR 0x22, CHR ''c'', CHR 0x22, CHR 0x0A]
     @ ''x ::= [b-b]? # optional''"

theorem parse_wellformed_witness:
  "\<exists>p. parse demo_text = Some (True, p) \<and> length (p_rules p) = 3 \<and> rules_ok (p_rules p)"
proof -
  have "map_option (\<lambda>(b, p). (b, length (p_rules p))) (parse demo_text) = Some (True, 3)" by code_simp
  then obtain p where p: "parse demo_text = Some (True, p)" "length (p_rules p) = 3" by auto
  then show ?thesis using parse_wellformed [OF p(1)] by blast
qed

text \<open>
  A grammar without a rule for its start symbol can pass all checks. In \<open>foo ::= root{0} [a]\<close> the repetition
  zero times removes the only reference to \<open>root\<close>, so that its missing definition is not noticed; \<open>root\<close> is
  still a known symbol, and the construction of the grammar reads a rule beyond the end of the rules.
\<close>

theorem undefined_root:
  "grammar_init_text ''foo ::= root{0} [a]'' ''root'' False ([] :: nat list) [] = Some (Inl Out_of_range)"
  by code_simp

end
