(* ===== verification/BatchSplit.thy ===== *)
theory BatchSplit
  imports Batch
begin

text \<open>
  Correctness of the splitting of batches (\<open>src/llama-batch.cpp\<close>): no assertion of
  \<open>add_seq_to_ubatch\<close> and of the three splits fires on a well-formed batch, the micro-batches
  carry every token of the batch exactly once, and the loop that drains an \<open>sbatch\<close> ends. The
  loop is proved once, in the locale \<open>ubatch_source\<close>, and the splits are its instances.
\<close>

section \<open>What a micro-batch carries\<close>

type_synonym row = "int option \<times> real list option \<times> int \<times> int set"

definition batch_row :: "llama_batch \<Rightarrow> nat \<Rightarrow> row" where
  "batch_row b j =
     (map_option (\<lambda>t. t ! j) (b_token b), map_option (\<lambda>e. e ! j) (b_embd b), the (b_pos b) ! j,
      set (take (nat (the (b_n_seq_id b) ! j)) (the (b_seq_id b) ! j)))"

definition ub_row :: "llama_ubatch \<Rightarrow> nat \<Rightarrow> row" where
  "ub_row ub k =
     (map_option (\<lambda>t. t ! k) (ub_token ub), map_option (\<lambda>e. e ! k) (ub_embd ub), ub_pos ub ! k,
      token_seqs ub k)"

text \<open>Whether the token at index \<open>j\<close> of the batch is an output.\<close>

definition is_output :: "bool \<Rightarrow> llama_batch \<Rightarrow> nat \<Rightarrow> bool" where
  "is_output lall b j \<longleftrightarrow>
     lall \<or> (case b_logits b of Some lg \<Rightarrow> lg ! j \<noteq> 0 | None \<Rightarrow> j = nat (b_n_tokens b) - 1)"

text \<open>
  A batch as \<open>llama_batch_allocr\<close> leaves it: exactly one of \<open>token\<close> and \<open>embd\<close>, arrays of at
  least \<open>n_tokens\<close> entries, every token in at least one sequence.
\<close>

definition batch_wf :: "llama_batch \<Rightarrow> bool" where
  "batch_wf b \<longleftrightarrow>
     (let n = nat (b_n_tokens b) in
      0 \<le> b_n_tokens b \<and> (b_token b = None) \<noteq> (b_embd b = None)
      \<and> b_pos b \<noteq> None \<and> b_n_seq_id b \<noteq> None \<and> b_seq_id b \<noteq> None
      \<and> n \<le> length (the (b_pos b)) \<and> n \<le> length (the (b_n_seq_id b)) \<and> n \<le> length (the (b_seq_id b))
      \<and> (\<forall>t. b_token b = Some t \<longrightarrow> n \<le> length t) \<and> (\<forall>e. b_embd b = Some e \<longrightarrow> n \<le> length e)
      \<and> (\<forall>lg. b_logits b = Some lg \<longrightarrow> n \<le> length lg)
      \<and> (\<forall>j < n. 1 \<le> the (b_n_seq_id b) ! j
                 \<and> nat (the (b_n_seq_id b) ! j) \<le> length (the (b_seq_id b) ! j)))"

text \<open>The micro-batch holds exactly the tokens of the batch at the indices \<open>js\<close>, in this order.\<close>

definition built :: "bool \<Rightarrow> llama_batch \<Rightarrow> nat list \<Rightarrow> llama_ubatch \<Rightarrow> bool" where
  "built lall b js ub \<longleftrightarrow>
     n_tokens ub = length js \<and> n_tokens ub = n_seq_tokens ub * n_seqs ub
     \<and> n_tokens ub \<le> length (ub_pos ub) \<and> n_tokens ub \<le> length (ub_output ub)
     \<and> n_seqs ub \<le> length (ub_n_seq_id ub) \<and> n_seqs ub \<le> length (ub_seq_id ub)
     \<and> (\<forall>k < length js. ub_row ub k = batch_row b (js ! k)
          \<and> (ub_output ub ! k \<noteq> 0 \<longleftrightarrow> is_output lall b (js ! k)))
     \<and> (\<forall>q < n_seqs ub. 1 \<le> ub_n_seq_id ub ! q
          \<and> nat (ub_n_seq_id ub ! q) \<le> length (ub_seq_id ub ! q))"

lemma built_length: "built lall b js ub \<Longrightarrow> length js = n_tokens ub"
  by (simp add: built_def)

lemma built_ubatch_ok:
  assumes "built lall b js ub" "\<forall>j \<in> set js. 0 \<le> the (b_pos b) ! j"
  shows "ubatch_ok ub"
proof -
  have "ub_pos ub ! k = the (b_pos b) ! (js ! k)" if "k < length js" for k
    using assms(1) that by (simp add: built_def ub_row_def batch_row_def)
  then have "\<forall>p \<in> set (take (n_tokens ub) (ub_pos ub)). 0 \<le> p"
    using assms by (force simp: built_def in_set_conv_nth)
  then show ?thesis
    using assms(1) by (auto simp: built_def ubatch_ok_def mult.commute)
qed

text \<open>The parts of an \<open>sbatch\<close> that cutting a micro-batch does not change.\<close>

definition same_source :: "llama_sbatch \<Rightarrow> llama_sbatch \<Rightarrow> bool" where
  "same_source sb sb' \<longleftrightarrow>
     sb_ids sb' = sb_ids sb \<and> sb_batch sb' = sb_batch sb \<and> logits_all sb' = logits_all sb"

section \<open>The simple split\<close>

lemma add_seq_simple:
  assumes wf: "batch_wf b" and sb: "sb_batch sb = Some b" "sb_ids sb = [0..<nat (b_n_tokens b)]"
    and ub: "n_tokens ub = 0" "n_seqs ub = 0" "\<not> equal_seqs ub" "len \<le> length (ub_output ub)"
    and sq: "sq_n_seq_id sq = 0" "len \<le> sq_length sq" "sq_offset sq + sq_length sq \<le> nat (b_n_tokens b)"
  obtains sb' ub' where
    "add_seq_to_ubatch sb ub sq len = Inr (sb', ub',
       sq\<lparr>sq_offset := sq_offset sq + len, sq_length := sq_length sq - len\<rparr>)"
    "built (logits_all sb) b [sq_offset sq..<sq_offset sq + len] ub'"
    "same_source sb sb'" "sb_n_tokens sb' = sb_n_tokens sb - len"
    "out_ids sb' = out_ids sb @ filter (is_output (logits_all sb) b) [sq_offset sq..<sq_offset sq + len]"
proof -
  let ?off = "sq_offset sq" and ?n = "nat (b_n_tokens b)"
  obtain ps ns ss where b: "b_pos b = Some ps" "b_n_seq_id b = Some ns" "b_seq_id b = Some ss"
    using wf by (auto simp: batch_wf_def Let_def)
  have len: "?off + len \<le> ?n" using sq by simp
  have guard: "add_seq_guard sb ub sq len = Inr b"
    using wf sb ub sq len b by (auto simp: add_seq_guard_def batch_wf_def Let_def)
  have sel: "take len (drop ?off (sb_ids sb)) = [?off..<?off + len]"
    using len by (simp add: sb)
  obtain out oids where o: "add_seq_output sb ub b sq len = (out, oids)" by fastforce
  have shift: "map (\<lambda>i. ?off + i) (filter (\<lambda>i. P (?off + i)) [0..<len]) = filter P [?off..<?off + len]" for P
    using filter_map [of P "\<lambda>i. ?off + i" "[0..<len]"] map_add_upt [of ?off len]
    by (simp add: o_def add.commute)
  have out: "len \<le> length out" "\<forall>k < len. out ! k \<noteq> 0 \<longleftrightarrow> is_output (logits_all sb) b (?off + k)"
    "oids = out_ids sb @ filter (is_output (logits_all sb) b) [?off..<?off + len]"
    using o ub sb len wf sel shift [of "\<lambda>j. the (b_logits b) ! j \<noteq> 0"]
    by (auto simp: add_seq_output_def Let_def is_output_def nth_write_at batch_wf_def
        split: if_splits option.splits cong: filter_cong)
  obtain sb' ub' where res: "add_seq_to_ubatch sb ub sq len = Inr (sb', ub',
       sq\<lparr>sq_offset := ?off + len, sq_length := sq_length sq - len\<rparr>)"
    and ub': "ub_token ub' = map_option (drop ?off) (b_token b)"
      "ub_embd ub' = map_option (drop ?off) (b_embd b)" "ub_pos ub' = drop ?off ps"
      "ub_n_seq_id ub' = drop ?off ns" "ub_seq_id ub' = drop ?off ss" "ub_output ub' = out"
      "n_seq_tokens ub' = 1" "n_tokens ub' = len" "n_seqs ub' = len"
    and sb': "same_source sb sb'" "sb_n_tokens sb' = sb_n_tokens sb - len" "out_ids sb' = oids"
    using ub by (auto simp: add_seq_to_ubatch_def guard o b same_source_def Let_def split: option.splits)
  have "ub_row ub' k = batch_row b (?off + k)" if "k < len" for k
    using wf b that len
    by (auto simp: ub_row_def batch_row_def ub' token_seqs_def batch_wf_def Let_def option.map_comp o_def
        intro: option.map_cong0)
  then have "built (logits_all sb) b [?off..<?off + len] ub'"
    using wf b len out by (auto simp: built_def ub' batch_wf_def Let_def)
  with res sb' show thesis unfolding out(3) by (rule_tac that) auto
qed

text \<open>An \<open>sbatch\<close> made for simple splits, with \<open>n_tokens\<close> tokens to go.\<close>

definition wf_simple :: "llama_sbatch \<Rightarrow> bool" where
  "wf_simple sb \<longleftrightarrow>
     (\<exists>b. sb_batch sb = Some b \<and> batch_wf b \<and> sb_ids sb = [0..<nat (b_n_tokens b)]
        \<and> (sb_seq sb = [] \<and> sb_n_tokens sb = 0
           \<or> (\<exists>q. sb_seq sb = [q] \<and> sq_n_seq_id q = 0 \<and> sb_n_tokens sb = sq_length q
                \<and> sq_offset q + sq_length q = nat (b_n_tokens b))))"

text \<open>The indices of the batch that are not in a micro-batch yet.\<close>

definition seq_ids_of :: "llama_sbatch \<Rightarrow> llama_sbatch_seq \<Rightarrow> nat list" where
  "seq_ids_of sb q = take (sq_length q) (drop (sq_offset q) (sb_ids sb))"

definition pending_ids :: "llama_sbatch \<Rightarrow> nat list" where
  "pending_ids sb = concat (map (seq_ids_of sb) (sb_seq sb))"

lemma pop_empty_seqs_single: "pop_empty_seqs [q] = (if sq_length q = 0 then [] else [q])"
  by (simp add: pop_empty_seqs_def)

lemma split_simple_step:
  assumes "wf_simple sb" "0 < n_ubatch" "0 < sb_n_tokens sb" "sb_batch sb = Some b"
  obtains sb' ub js where
    "split_simple n_ubatch sb = Inr (sb', ub)" "wf_simple sb'" "built (logits_all sb) b js ub"
    "same_source sb sb'" "js \<noteq> []" "length js \<le> n_ubatch" "pending_ids sb = js @ pending_ids sb'"
    "sb_n_tokens sb' = sb_n_tokens sb - length js"
    "out_ids sb' = out_ids sb @ filter (is_output (logits_all sb) b) js"
proof -
  let ?n = "nat (b_n_tokens b)"
  obtain q where q: "sb_seq sb = [q]" "sq_n_seq_id q = 0" "sb_n_tokens sb = sq_length q"
      "sq_offset q + sq_length q = ?n" and wf: "batch_wf b" and ids: "sb_ids sb = [0..<?n]"
    using assms(1,3,4) by (auto simp: wf_simple_def)
  define nu where "nu = (if sb_n_tokens sb < n_ubatch then sb_n_tokens sb else n_ubatch)"
  have nu: "0 < nu" "nu \<le> sq_length q" "nu \<le> n_ubatch" using assms(2,3) q(3) by (auto simp: nu_def)
  obtain sb1 ub1 where r: "reserve_ubatch nu (has_embd_batch sb) sb = (sb1, ub1)" by fastforce
  have r': "sb_seq sb1 = [q]" "same_source sb sb1" "sb_n_tokens sb1 = sb_n_tokens sb" "out_ids sb1 = out_ids sb"
      "n_tokens ub1 = 0" "n_seqs ub1 = 0" "length (ub_output ub1) = nu"
    using r q nu by (auto simp: reserve_ubatch_def Let_def pop_empty_seqs_single same_source_def)
  let ?js = "[sq_offset q..<sq_offset q + nu]"
  let ?q' = "q\<lparr>sq_offset := sq_offset q + nu, sq_length := sq_length q - nu\<rparr>"
  obtain sb2 ub2 where a: "add_seq_to_ubatch sb1 (ub1\<lparr>equal_seqs := False\<rparr>) q nu = Inr (sb2, ub2, ?q')"
    "built (logits_all sb1) b ?js ub2" "same_source sb1 sb2" "sb_n_tokens sb2 = sb_n_tokens sb1 - nu"
    "out_ids sb2 = out_ids sb1 @ filter (is_output (logits_all sb1) b) ?js"
    by (rule add_seq_simple [OF wf, of sb1 "ub1\<lparr>equal_seqs := False\<rparr>" nu q])
      (use r' nu q ids assms(4) in \<open>auto simp: same_source_def\<close>)
  have len: "(if sq_length q < nu then sq_length q else nu) = nu" using nu by simp
  have res: "split_simple n_ubatch sb = Inr (sb2\<lparr>sb_seq := [?q']\<rparr>, ub2)"
    unfolding split_simple_def Let_def nu_def [symmetric] r using r'(1) q(2) a(1) len by simp
  have pend: "pending_ids sb = ?js @ pending_ids (sb2\<lparr>sb_seq := [?q']\<rparr>)"
    using q nu ids r'(2) a(3) upt_add_eq_append [of "sq_offset q" "sq_offset q + nu" "sq_length q - nu"]
    by (simp add: pending_ids_def seq_ids_of_def same_source_def)
  show thesis
    by (rule that [OF res _ _ _ _ _ pend])
      (use a r' nu q ids wf assms(4) in \<open>auto simp: wf_simple_def same_source_def\<close>)
qed

section \<open>Draining an sbatch\<close>

text \<open>
  The loop \<open>while (sbatch.n_tokens > 0) { ubatch = split(sbatch, n_ubatch); ... }\<close>; \<open>None\<close> is a
  loop that does not end.
\<close>

partial_function (option) drain_loop ::
  "('s \<Rightarrow> nat) \<Rightarrow> ('s \<Rightarrow> ('s \<times> 'u) res) \<Rightarrow> 's \<Rightarrow> ('u list \<times> 's) res option" where
  "drain_loop remaining split s =
     (if remaining s = 0 then Some (Inr ([], s))
      else case split s of
             Inl f \<Rightarrow> Some (Inl f)
           | Inr p \<Rightarrow> Option.bind (drain_loop remaining split (fst p))
               (\<lambda>r. case r of Inl f \<Rightarrow> Some (Inl f) | Inr q \<Rightarrow> Some (Inr (snd p # fst q, snd q))))"

locale ubatch_source =
  fixes wf :: "'s \<Rightarrow> bool"
    and remaining :: "'s \<Rightarrow> nat"
    and pending :: "'s \<Rightarrow> nat list"
    and split :: "'s \<Rightarrow> ('s \<times> 'u) res"
    and carries :: "'s \<Rightarrow> nat list \<Rightarrow> 'u \<Rightarrow> bool"
    and outs :: "'s \<Rightarrow> nat list"
    and is_out :: "'s \<Rightarrow> nat \<Rightarrow> bool"
  assumes step: "wf s \<Longrightarrow> 0 < remaining s \<Longrightarrow>
      \<exists>s' u js. split s = Inr (s', u) \<and> wf s' \<and> carries s js u \<and> js \<noteq> []
        \<and> mset (pending s) = mset js + mset (pending s')
        \<and> outs s' = outs s @ filter (is_out s) js \<and> carries s' = carries s \<and> is_out s' = is_out s"
    and remaining_pending: "wf s \<Longrightarrow> remaining s = length (pending s)"
begin

lemma drain_total:
  assumes "wf s"
  shows "\<exists>us jss s'. drain_loop remaining split s = Some (Inr (us, s'))
    \<and> wf s' \<and> list_all2 (carries s) jss us \<and> mset (concat jss) = mset (pending s)
    \<and> outs s' = outs s @ filter (is_out s) (concat jss)"
  using assms
proof (induction "remaining s" arbitrary: s rule: less_induct)
  case less
  show ?case
  proof (cases "remaining s = 0")
    case True
    then show ?thesis
      using remaining_pending [OF less.prems] less.prems
      by (intro exI [of _ "[]"] exI [of _ s]) (simp add: drain_loop.simps)
  next
    case False
    then obtain s1 u js where s1: "split s = Inr (s1, u)" "wf s1" "carries s js u" "js \<noteq> []"
      "mset (pending s) = mset js + mset (pending s1)"
      "outs s1 = outs s @ filter (is_out s) js" "carries s1 = carries s" "is_out s1 = is_out s"
      using step [OF less.prems] by auto
    have "length (pending s) = length js + length (pending s1)"
      using s1(5) by (metis size_mset size_union)
    then have "remaining s1 < remaining s"
      using s1(4) remaining_pending [OF less.prems] remaining_pending [OF s1(2)] by simp
    from less.hyps [OF this s1(2)] obtain us jss s' where
      "drain_loop remaining split s1 = Some (Inr (us, s'))" "wf s'" "list_all2 (carries s) jss us"
      "mset (concat jss) = mset (pending s1)" "outs s' = outs s1 @ filter (is_out s) (concat jss)"
      using s1(7,8) by auto
    then show ?thesis
      using False s1 by (intro exI [of _ "u # us"] exI [of _ "js # jss"] exI [of _ s'])
        (simp add: drain_loop.simps [of remaining split s])
  qed
qed

end

lemma length_pending_simple: "wf_simple sb \<Longrightarrow> sb_n_tokens sb = length (pending_ids sb)"
  by (auto simp: wf_simple_def pending_ids_def seq_ids_of_def)

section \<open>The splits by sequence\<close>

text \<open>The buffers of a micro-batch of capacity \<open>nu\<close> that collects whole sequences.\<close>

definition buf_ok :: "llama_batch \<Rightarrow> nat \<Rightarrow> llama_ubatch \<Rightarrow> bool" where
  "buf_ok b nu ub \<longleftrightarrow> equal_seqs ub
     \<and> length (ub_pos ub) = nu \<and> length (ub_n_seq_id ub) = nu \<and> length (ub_seq_id ub) = nu
     \<and> length (ub_output ub) = nu
     \<and> map_option length (ub_token ub) = map_option (\<lambda>_. nu) (b_token b)
     \<and> map_option length (ub_embd ub) = map_option (\<lambda>_. nu) (b_embd b)"

text \<open>A sequence of the \<open>sbatch\<close>: a block of sorted indices that share their sequence ids.\<close>

definition seq_ok :: "llama_sbatch \<Rightarrow> llama_batch \<Rightarrow> llama_sbatch_seq \<Rightarrow> bool" where
  "seq_ok sb b q \<longleftrightarrow> 0 < sq_n_seq_id q \<and> sq_offset q + sq_length q \<le> length (sb_ids sb)
     \<and> (\<exists>qs. sq_seq_id q = Some qs \<and> nat (sq_n_seq_id q) \<le> length qs
          \<and> (\<forall>j \<in> set (seq_ids_of sb q).
               set (take (nat (the (b_n_seq_id b) ! j)) (the (b_seq_id b) ! j)) = set (take (nat (sq_n_seq_id q)) qs)))"

definition source_ok :: "llama_sbatch \<Rightarrow> llama_batch \<Rightarrow> bool" where
  "source_ok sb b \<longleftrightarrow> sb_batch sb = Some b \<and> batch_wf b \<and> length (sb_ids sb) = nat (b_n_tokens b)
     \<and> (\<forall>j \<in> set (sb_ids sb). j < nat (b_n_tokens b))"

definition advance :: "nat \<Rightarrow> llama_sbatch_seq \<Rightarrow> llama_sbatch_seq" where
  "advance len q = q\<lparr>sq_offset := sq_offset q + len, sq_length := sq_length q - len\<rparr>"

lemma seq_ids_of_split:
  "len \<le> sq_length q \<Longrightarrow> seq_ids_of sb q
     = take len (drop (sq_offset q) (sb_ids sb)) @ seq_ids_of sb (advance len q)"
  using take_add [of len "sq_length q - len" "drop (sq_offset q) (sb_ids sb)"]
  by (simp add: seq_ids_of_def advance_def add.commute)

lemma seq_ok_advance: "seq_ok sb b q \<Longrightarrow> len \<le> sq_length q \<Longrightarrow> seq_ok sb b (advance len q)"
  using seq_ids_of_split [of len q sb] by (auto simp: seq_ok_def advance_def)

lemma add_seq_output_equal:
  assumes src: "source_ok sb b" and ub: "equal_seqs ub" "n_tokens ub + len \<le> length (ub_output ub)"
    and o: "add_seq_output sb ub b sq len = (out, oids)" and off: "sq_offset sq + len \<le> length (sb_ids sb)"
  shows "length out = length (ub_output ub)" "k < n_tokens ub \<Longrightarrow> out ! k = ub_output ub ! k"
    and "i < len \<Longrightarrow> out ! (n_tokens ub + i) \<noteq> 0
           \<longleftrightarrow> is_output (logits_all sb) b (sb_ids sb ! (sq_offset sq + i))"
    and "oids = out_ids sb @ filter (is_output (logits_all sb) b) (take len (drop (sq_offset sq) (sb_ids sb)))"
  using assms
  by (auto simp: add_seq_output_def Let_def is_output_def nth_write_at source_ok_def gather_def
      split: if_splits option.splits cong: filter_cong)

lemma nth_option_write:
  assumes "map_option length t = map_option (\<lambda>_. nu) tb" "k + length sel \<le> nu"
  shows "i < k \<Longrightarrow> map_option (\<lambda>t. t ! i)
      (case tb of None \<Rightarrow> None | Some tk \<Rightarrow> map_option (write_at k (gather tk sel)) t)
      = map_option (\<lambda>t. t ! i) t"
    and "i < length sel \<Longrightarrow> map_option (\<lambda>t. t ! (k + i))
      (case tb of None \<Rightarrow> None | Some tk \<Rightarrow> map_option (write_at k (gather tk sel)) t)
      = map_option (\<lambda>t. t ! (sel ! i)) tb"
    and "map_option length (case tb of None \<Rightarrow> None | Some tk \<Rightarrow> map_option (write_at k (gather tk sel)) t)
      = map_option (\<lambda>_. nu) tb"
  using assms by (auto simp: gather_def nth_write_at split: option.splits)

lemma add_seq_equal:
  assumes src: "source_ok sb b" and buf: "buf_ok b nu ub" and blt: "built (logits_all sb) b js ub"
    and len: "0 < len" "n_tokens ub + len \<le> nu" "n_seqs ub \<noteq> 0 \<longrightarrow> n_seq_tokens ub = len"
    and sq: "seq_ok sb b sq" "len \<le> sq_length sq"
  obtains sb' ub' where
    "add_seq_to_ubatch sb ub sq len = Inr (sb', ub', advance len sq)"
    "built (logits_all sb) b (js @ take len (drop (sq_offset sq) (sb_ids sb))) ub'"
    "buf_ok b nu ub'" "n_seqs ub' \<noteq> 0" "n_seq_tokens ub' = len" "n_tokens ub' = n_tokens ub + len"
    "same_source sb sb'" "sb_n_tokens sb' = sb_n_tokens sb - len"
    "out_ids sb' = out_ids sb
       @ filter (is_output (logits_all sb) b) (take len (drop (sq_offset sq) (sb_ids sb)))"
proof -
  let ?k = "n_tokens ub" and ?q = "n_seqs ub"
  let ?sel = "take len (drop (sq_offset sq) (sb_ids sb))"
  obtain ps where ps: "b_pos b = Some ps" using src by (auto simp: source_ok_def batch_wf_def Let_def)
  obtain qs where qs: "sq_seq_id sq = Some qs" "nat (sq_n_seq_id sq) \<le> length qs"
    "\<forall>j \<in> set (seq_ids_of sb sq).
       set (take (nat (the (b_n_seq_id b) ! j)) (the (b_seq_id b) ! j)) = set (take (nat (sq_n_seq_id sq)) qs)"
    using sq(1) by (auto simp: seq_ok_def)
  have off: "sq_offset sq + len \<le> length (sb_ids sb)" "sq_n_seq_id sq > 0"
    using sq by (auto simp: seq_ok_def)
  then have lsel: "length ?sel = len" by simp
  have k: "?k = len * ?q" "?k = length js"
    using blt len(3) by (cases "?q = 0"; simp add: built_def)+
  have "?q \<le> len * ?q" using len(1) by simp
  then have "?q < nu" using k(1) len(1,2) by linarith
  have guard: "add_seq_guard sb ub sq len = Inr b"
    using src sq off buf k(1) len(1) ps by (auto simp: add_seq_guard_def source_ok_def buf_ok_def)
  obtain out oids where o: "add_seq_output sb ub b sq len = (out, oids)" by fastforce
  have eq: "equal_seqs ub" "?k + len \<le> length (ub_output ub)" using buf len(2) by (auto simp: buf_ok_def)
  note out = add_seq_output_equal [OF src eq o off(1)]
  obtain sb' ub' where res: "add_seq_to_ubatch sb ub sq len = Inr (sb', ub', advance len sq)"
    and ub': "ub_token ub' = (case b_token b of None \<Rightarrow> None
        | Some tk \<Rightarrow> map_option (write_at ?k (gather tk ?sel)) (ub_token ub))"
      "ub_embd ub' = (case b_embd b of None \<Rightarrow> None
        | Some tk \<Rightarrow> map_option (write_at ?k (gather tk ?sel)) (ub_embd ub))"
      "ub_pos ub' = write_at ?k (gather ps ?sel) (ub_pos ub)"
      "ub_n_seq_id ub' = (ub_n_seq_id ub)[?q := sq_n_seq_id sq]" "ub_seq_id ub' = (ub_seq_id ub)[?q := qs]"
      "ub_output ub' = out" "equal_seqs ub'" "n_seq_tokens ub' = len" "n_tokens ub' = ?k + len" "n_seqs ub' = ?q + 1"
    and sb': "same_source sb sb'" "sb_n_tokens sb' = sb_n_tokens sb - len" "out_ids sb' = oids"
    using len(3) k(1)
    by (atomize_elim, cases "?q = 0") (simp_all add: add_seq_to_ubatch_def guard o ps qs(1) eq(1)
        same_source_def advance_def Let_def cong: option.case_cong)
  have old: "ub_row ub' i = ub_row ub i" if "i < ?k" for i
  proof -
    have "i div len < ?q" using that k(1) by (metis less_mult_imp_div_less mult.commute)
    then have "token_seqs ub' i = token_seqs ub i"
      using len(3) by (auto simp: token_seqs_def ub' Let_def)
    then show ?thesis
      using that nth_option_write(1) [of "ub_token ub" nu "b_token b" ?k ?sel i]
        nth_option_write(1) [of "ub_embd ub" nu "b_embd b" ?k ?sel i] buf len(2) lsel
      by (auto simp: ub_row_def ub' buf_ok_def nth_write_at gather_def)
  qed
  have new: "ub_row ub' (?k + i) = batch_row b (?sel ! i)" if "i < len" for i
  proof -
    have "(?k + i) div len = ?q" using that k(1) by simp
    moreover have "?sel ! i \<in> set (seq_ids_of sb sq)"
      using that lsel seq_ids_of_split [OF sq(2), of sb] by (metis Un_iff nth_mem set_append)
    ultimately have "token_seqs ub' (?k + i)
        = set (take (nat (the (b_n_seq_id b) ! (?sel ! i))) (the (b_seq_id b) ! (?sel ! i)))"
      using qs(3) \<open>?q < nu\<close> buf by (simp add: token_seqs_def ub' Let_def buf_ok_def)
    then show ?thesis
      using that nth_option_write(2) [of "ub_token ub" nu "b_token b" ?k ?sel i]
        nth_option_write(2) [of "ub_embd ub" nu "b_embd b" ?k ?sel i] buf len(2) lsel ps
      by (auto simp: ub_row_def batch_row_def ub' buf_ok_def nth_write_at gather_def simp del: nth_take)
  qed
  have rows: "ub_row ub' i = batch_row b ((js @ ?sel) ! i)
      \<and> (out ! i \<noteq> 0 \<longleftrightarrow> is_output (logits_all sb) b ((js @ ?sel) ! i))" if "i < ?k + len" for i
  proof (cases "i < ?k")
    case True
    then show ?thesis using old blt out(2) k(2) by (simp add: built_def nth_append)
  next
    case False
    then have "i = ?k + (i - ?k)" "i - ?k < len" using that by simp_all
    then obtain i' where "i = ?k + i'" "i' < len" by blast
    then show ?thesis using new [of i'] out(3) [of i'] k(2) off(1) by (simp add: nth_append)
  qed
  have "built (logits_all sb) b (js @ ?sel) ub'"
    using rows lsel k \<open>?q < nu\<close> buf len(2) blt out(1) qs(2) off(2)
    by (auto simp: built_def ub' buf_ok_def nth_list_update less_Suc_eq)
  moreover have "buf_ok b nu ub'"
    using buf out(1) nth_option_write(3) [of "ub_token ub" nu "b_token b" ?k ?sel]
        nth_option_write(3) [of "ub_embd ub" nu "b_embd b" ?k ?sel] len(2) lsel by (auto simp: buf_ok_def ub')
  ultimately show thesis
    using res sb' ub' unfolding out(4) by (intro that) auto
qed

text \<open>
  The order of the sequences: shared prompts last, longer sequences first; a sequence is only
  exhausted once every later one is.
\<close>

definition seq_before :: "llama_sbatch_seq \<Rightarrow> llama_sbatch_seq \<Rightarrow> bool" where
  "seq_before x y \<longleftrightarrow> sq_n_seq_id x < sq_n_seq_id y \<and> 0 < sq_length x
     \<or> sq_n_seq_id x = sq_n_seq_id y \<and> sq_length y \<le> sq_length x"

definition wf_equal :: "llama_sbatch \<Rightarrow> bool" where
  "wf_equal sb \<longleftrightarrow>
     (\<exists>b. source_ok sb b \<and> (\<forall>q \<in> set (sb_seq sb). seq_ok sb b q) \<and> sorted_wrt seq_before (sb_seq sb)
        \<and> sb_n_tokens sb = sum_list (map sq_length (sb_seq sb)))"

lemma pop_empty_seqs_append:
  obtains zs where "xs = pop_empty_seqs xs @ zs" "\<forall>q \<in> set zs. sq_length q = 0"
proof -
  have "xs = pop_empty_seqs xs @ rev (takeWhile (\<lambda>q. sq_length q = 0) (rev xs))"
    unfolding pop_empty_seqs_def by (metis rev_append rev_rev_ident takeWhile_dropWhile_id)
  then show thesis by (rule that) (auto dest: set_takeWhileD)
qed

lemma pop_empty_seqs_pos:
  assumes "sorted_wrt seq_before xs"
  shows "\<forall>q \<in> set (pop_empty_seqs xs). 0 < sq_length q"
proof (cases "pop_empty_seqs xs" rule: rev_cases)
  case (snoc ys y)
  then have "dropWhile (\<lambda>q. sq_length q = 0) (rev xs) = y # rev ys"
    by (simp add: pop_empty_seqs_def rev_eq_append_conv)
  then have y: "0 < sq_length y"
    using hd_dropWhile [of "\<lambda>q. sq_length q = 0" "rev xs"] by simp
  obtain zs where "xs = (ys @ [y]) @ zs"
    using pop_empty_seqs_append [of xs] snoc by metis
  then have "sorted_wrt seq_before (ys @ [y])"
    using assms sorted_wrt_append by blast
  then show ?thesis using y by (auto simp: snoc sorted_wrt_append seq_before_def)
qed simp

text \<open>The part of a sequence that goes into a micro-batch.\<close>

definition cut_ids :: "llama_sbatch \<Rightarrow> nat \<Rightarrow> llama_sbatch_seq \<Rightarrow> nat list" where
  "cut_ids sb len q = take len (drop (sq_offset q) (sb_ids sb))"

lemma same_source_cut: "same_source sb sb' \<Longrightarrow> cut_ids sb' = cut_ids sb"
  by (auto simp: cut_ids_def same_source_def fun_eq_iff)

lemma same_source_ok:
  "same_source sb sb' \<Longrightarrow> source_ok sb' b = source_ok sb b"
  "same_source sb sb' \<Longrightarrow> seq_ok sb' b q = seq_ok sb b q"
  "same_source sb sb' \<Longrightarrow> seq_ids_of sb' q = seq_ids_of sb q"
  by (auto simp: source_ok_def seq_ok_def seq_ids_of_def same_source_def)

lemma same_source_trans: "same_source a b \<Longrightarrow> same_source b c \<Longrightarrow> same_source a c"
  by (simp add: same_source_def)

text \<open>The iterations of \<open>split_equal\<close> after the first: the length is fixed.\<close>

lemma split_equal_more:
  assumes "source_ok sb b" "buf_ok b nu ub" "built (logits_all sb) b js ub"
    and "0 < len" "n_seq_tokens ub = len" "rs \<noteq> [] \<longrightarrow> len + n_tokens ub \<le> nu"
    and "\<forall>q \<in> set rs. seq_ok sb b q \<and> len \<le> sq_length q"
  shows "\<exists>k sb' ub'. split_equal_loop nu rs len (n_tokens ub) sb ub
      = Inr (sb', ub', map (advance len) (take k rs) @ drop k rs)
    \<and> k \<le> length rs \<and> built (logits_all sb) b (js @ concat (map (cut_ids sb len) (take k rs))) ub'
    \<and> n_tokens ub' \<le> max nu (n_tokens ub)
    \<and> same_source sb sb' \<and> sb_n_tokens sb' = sb_n_tokens sb - k * len
    \<and> out_ids sb' = out_ids sb
        @ filter (is_output (logits_all sb) b) (concat (map (cut_ids sb len) (take k rs)))"
  using assms
proof (induction rs arbitrary: sb ub js)
  case Nil
  from Nil.prems(3) show ?case
    by (intro exI [of _ 0] exI [of _ sb] exI [of _ ub]) (simp add: same_source_def)
next
  case (Cons q rs)
  have ok: "seq_ok sb b q" "len \<le> sq_length q" using Cons.prems(7) by auto
  obtain sb1 ub1 where a: "add_seq_to_ubatch sb ub q len = Inr (sb1, ub1, advance len q)"
    "built (logits_all sb) b (js @ cut_ids sb len q) ub1" "buf_ok b nu ub1" "n_seq_tokens ub1 = len"
    "n_tokens ub1 = n_tokens ub + len" "same_source sb sb1" "sb_n_tokens sb1 = sb_n_tokens sb - len"
    "out_ids sb1 = out_ids sb @ filter (is_output (logits_all sb) b) (cut_ids sb len q)"
    by (rule add_seq_equal [OF Cons.prems(1-4) _ _ ok]) (use Cons.prems(5,6) in \<open>auto simp: cut_ids_def\<close>)
  show ?case
  proof (cases "sq_n_seq_id (advance len q) > 1 \<or> len + (n_tokens ub + len) > nu")
    case True
    then have "split_equal_loop nu (q # rs) len (n_tokens ub) sb ub
      = Inr (sb1, ub1, map (advance len) (take 1 (q # rs)) @ drop 1 (q # rs))"
      using ok Cons.prems(4) a(1) by auto
    then show ?thesis
      using a Cons.prems(6) by (intro exI [of _ 1] exI [of _ sb1] exI [of _ ub1]) simp
  next
    case False
    have lall: "logits_all sb1 = logits_all sb" using a(6) by (simp add: same_source_def)
    have src1: "source_ok sb1 b" and oks: "\<forall>q \<in> set rs. seq_ok sb1 b q \<and> len \<le> sq_length q"
      using Cons.prems(1,7) same_source_ok [OF a(6)] by auto
    have blt1: "built (logits_all sb1) b (js @ cut_ids sb len q) ub1" using a(2) lall by simp
    have room: "rs \<noteq> [] \<longrightarrow> len + n_tokens ub1 \<le> nu" using False a(5) by simp
    obtain k sb' ub' where r: "split_equal_loop nu rs len (n_tokens ub1) sb1 ub1
        = Inr (sb', ub', map (advance len) (take k rs) @ drop k rs)" "k \<le> length rs"
      "built (logits_all sb) b ((js @ cut_ids sb len q) @ concat (map (cut_ids sb len) (take k rs))) ub'"
      "n_tokens ub' \<le> max nu (n_tokens ub1)" "same_source sb1 sb'" "sb_n_tokens sb' = sb_n_tokens sb1 - k * len"
      "out_ids sb' = out_ids sb1
        @ filter (is_output (logits_all sb) b) (concat (map (cut_ids sb len) (take k rs)))"
      using Cons.IH [OF src1 a(3) blt1 Cons.prems(4) a(4) room oks]
      unfolding lall same_source_cut [OF a(6)] by blast
    have "split_equal_loop nu (q # rs) len (n_tokens ub) sb ub
        = Inr (sb', ub', map (advance len) (take (Suc k) (q # rs)) @ drop (Suc k) (q # rs))"
      using ok Cons.prems(4) a(1,5) False r(1) by auto
    then show ?thesis
      using r a(5-8) Cons.prems(6) same_source_trans [OF a(6) r(5)]
      by (intro exI [of _ "Suc k"] exI [of _ sb'] exI [of _ ub']) auto
  qed
qed

text \<open>Taking \<open>len\<close> tokens out of the last \<open>k\<close> sequences, listed from the end.\<close>

definition cut_seqs :: "nat \<Rightarrow> nat \<Rightarrow> llama_sbatch_seq list \<Rightarrow> llama_sbatch_seq list" where
  "cut_seqs len k rs = map (advance len) (take k rs) @ drop k rs"

lemma sorted_cut:
  assumes "sorted_wrt (\<lambda>x y. seq_before y x) rs" "\<forall>q \<in> set rs. 0 < sq_length q"
    and "k \<le> 1 \<or> (\<forall>q \<in> set rs. sq_n_seq_id q = 1)"
  shows "sorted_wrt (\<lambda>x y. seq_before y x) (cut_seqs len k rs)"
proof -
  have pair: "seq_before y (advance len x)" if "seq_before y x" for x y
    using that by (auto simp: seq_before_def advance_def)
  have both: "seq_before (advance len y) (advance len x)" if "seq_before y x" "sq_n_seq_id y = sq_n_seq_id x" for x y
    using that by (auto simp: seq_before_def advance_def)
  show ?thesis
  proof (cases "k \<le> 1")
    case True
    then show ?thesis
      using assms(1) pair by (cases rs; cases k) (auto simp: cut_seqs_def)
  next
    case False
    then have one: "\<forall>q \<in> set rs. sq_n_seq_id q = 1" using assms(3) by simp
    have "sorted_wrt (\<lambda>x y. seq_before (advance len y) (advance len x)) (take k rs)"
    proof (rule sorted_wrt_mono_rel [OF _ sorted_wrt_take [OF assms(1), of k]])
      fix x y assume "x \<in> set (take k rs)" "y \<in> set (take k rs)" "seq_before y x"
      then show "seq_before (advance len y) (advance len x)"
        using one by (intro both) (auto dest!: in_set_takeD)
    qed
    moreover have "seq_before y (advance len x)" if "x \<in> set (take k rs)" "y \<in> set (drop k rs)" for x y
      using that assms(1) sorted_wrt_append [of "\<lambda>x y. seq_before y x" "take k rs" "drop k rs"] pair by simp
    ultimately show ?thesis
      using sorted_wrt_drop [OF assms(1), of k] by (auto simp: cut_seqs_def sorted_wrt_append sorted_wrt_map)
  qed
qed

lemma cut_pending:
  assumes "\<forall>q \<in> set (take k rs). len \<le> sq_length q"
  shows "mset (concat (map (seq_ids_of sb) rs))
    = mset (concat (map (cut_ids sb len) (take k rs))) + mset (concat (map (seq_ids_of sb) (cut_seqs len k rs)))"
    and "k \<le> length rs \<Longrightarrow> sum_list (map sq_length (cut_seqs len k rs)) = sum_list (map sq_length rs) - k * len"
proof -
  have *: "mset (concat (map (seq_ids_of sb) ys))
      = mset (concat (map (cut_ids sb len) ys)) + mset (concat (map (seq_ids_of sb) (map (advance len) ys)))
    \<and> sum_list (map sq_length (map (advance len) ys)) + length ys * len = sum_list (map sq_length ys)"
    if "\<forall>q \<in> set ys. len \<le> sq_length q" for ys
    using that
  proof (induction ys)
    case (Cons q ys)
    then show ?case
      using seq_ids_of_split [of len q sb] by (simp add: cut_ids_def advance_def)
  qed simp
  have rs: "rs = take k rs @ drop k rs" by simp
  show "mset (concat (map (seq_ids_of sb) rs))
    = mset (concat (map (cut_ids sb len) (take k rs))) + mset (concat (map (seq_ids_of sb) (cut_seqs len k rs)))"
    using * [OF assms] by (subst rs) (simp add: cut_seqs_def del: append_take_drop_id)
  have "sum_list (map sq_length rs) = sum_list (map sq_length (take k rs)) + sum_list (map sq_length (drop k rs))"
    by (subst rs) (simp del: append_take_drop_id)
  then show "sum_list (map sq_length (cut_seqs len k rs)) = sum_list (map sq_length rs) - k * len"
    if "k \<le> length rs"
    using conjunct2 [OF * [OF assms]] that by (simp add: cut_seqs_def min_absorb2)
qed

lemma cut_step:
  assumes wf: "wf_equal sb" and rs: "rs = rev (pop_empty_seqs (sb_seq sb))"
    and k: "k \<le> length rs" "k \<le> 1 \<or> (\<forall>q \<in> set rs. sq_n_seq_id q = 1)"
    and len: "\<forall>q \<in> set (take k rs). len \<le> sq_length q"
    and sb2: "same_source sb sb2" "sb_n_tokens sb2 = sb_n_tokens sb - k * len"
  shows "wf_equal (sb2\<lparr>sb_seq := rev (cut_seqs len k rs)\<rparr>)"
    and "mset (pending_ids sb) = mset (concat (map (cut_ids sb len) (take k rs)))
           + mset (pending_ids (sb2\<lparr>sb_seq := rev (cut_seqs len k rs)\<rparr>))"
proof -
  let ?sb' = "sb2\<lparr>sb_seq := rev (cut_seqs len k rs)\<rparr>"
  obtain b where b: "source_ok sb b" "\<forall>q \<in> set (sb_seq sb). seq_ok sb b q"
    "sorted_wrt seq_before (sb_seq sb)" "sb_n_tokens sb = sum_list (map sq_length (sb_seq sb))"
    using wf by (auto simp: wf_equal_def)
  obtain zs where zs: "sb_seq sb = rev rs @ zs" "\<forall>q \<in> set zs. sq_length q = 0"
    using pop_empty_seqs_append [of "sb_seq sb"] rs by (metis rev_rev_ident)
  have src: "same_source sb ?sb'" using sb2(1) by (simp add: same_source_def)
  have pos: "\<forall>q \<in> set rs. 0 < sq_length q" using pop_empty_seqs_pos [OF b(3)] rs by simp
  have srt: "sorted_wrt (\<lambda>x y. seq_before y x) rs"
    using b(3) zs(1) by (simp add: sorted_wrt_append sorted_wrt_rev)
  have "sorted_wrt seq_before (rev (cut_seqs len k rs))"
    using sorted_cut [OF srt pos k(2), of len] by (simp add: sorted_wrt_rev)
  moreover have "\<forall>q \<in> set (cut_seqs len k rs). seq_ok sb b q"
    using b(2) zs(1) len by (auto simp: cut_seqs_def dest: in_set_takeD in_set_dropD intro!: seq_ok_advance)
  moreover have sums: "sum_list (map sq_length zs) = 0" using zs(2) by simp
  moreover have "sum_list (map sq_length rs) = sb_n_tokens sb"
    using b(4) zs(1) sums by (simp add: rev_map [symmetric] sum_list_rev)
  ultimately show "wf_equal ?sb'"
    using b(1) cut_pending(2) [OF len k(1)] sb2(2) same_source_ok [OF src]
    by (auto simp: wf_equal_def rev_map [symmetric] sum_list_rev)
  have "concat (map (seq_ids_of sb) zs) = []" using zs(2) by (simp add: seq_ids_of_def)
  moreover have "seq_ids_of ?sb' = seq_ids_of sb" using same_source_ok(3) [OF src] by (rule ext)
  ultimately show "mset (pending_ids sb) = mset (concat (map (cut_ids sb len) (take k rs)))
           + mset (pending_ids ?sb')"
    using cut_pending(1) [OF len, of sb] by (simp add: pending_ids_def zs(1) mset_concat_map mset_rev del: mset_concat)
qed

lemma reserve_equal:
  assumes "wf_equal sb" "sb_batch sb = Some b" "reserve_ubatch nu (has_embd_batch sb) sb = (sb1, ub1)"
  shows "same_source sb sb1" "sb_n_tokens sb1 = sb_n_tokens sb" "out_ids sb1 = out_ids sb"
    "sb_seq sb1 = pop_empty_seqs (sb_seq sb)" "source_ok sb1 b" "buf_ok b nu ub1" "built lall b [] ub1"
    "n_tokens ub1 = 0" "n_seqs ub1 = 0"
proof -
  have src: "source_ok sb b" using assms(1,2) by (auto simp: wf_equal_def source_ok_def)
  then have "(b_token b = None) \<noteq> (b_embd b = None)" by (auto simp: source_ok_def batch_wf_def Let_def)
  moreover show ss: "same_source sb sb1" using assms(3) by (auto simp: reserve_ubatch_def Let_def same_source_def)
  ultimately show "source_ok sb1 b" "buf_ok b nu ub1" "sb_n_tokens sb1 = sb_n_tokens sb" "out_ids sb1 = out_ids sb"
    "sb_seq sb1 = pop_empty_seqs (sb_seq sb)" "built lall b [] ub1" "n_tokens ub1 = 0" "n_seqs ub1 = 0"
    using assms(2,3) src same_source_ok(1) [OF ss]
    by (auto simp: reserve_ubatch_def Let_def buf_ok_def built_def has_embd_batch_def)
qed

text \<open>One micro-batch of a split by sequence, from the list of sequences seen from the end.\<close>

lemma equal_first:
  assumes wf: "wf_equal sb" and n: "0 < n_ubatch" "0 < sb_n_tokens sb" and b: "sb_batch sb = Some b"
    and nu: "nu = (if sb_n_tokens sb < n_ubatch then sb_n_tokens sb else n_ubatch)"
    and r: "reserve_ubatch nu (has_embd_batch sb) sb = (sb1, ub1)"
  obtains q rs len sb2 ub2 where
    "rev (sb_seq sb1) = q # rs" "len = (if sq_length q < nu then sq_length q else nu)" "0 < len"
    "len \<le> sq_length q" "len \<le> nu" "nu \<le> n_ubatch" "0 < sq_n_seq_id (hd (sb_seq sb1))" "0 < sq_n_seq_id q"
    "add_seq_to_ubatch sb1 ub1 q len = Inr (sb2, ub2, advance len q)"
    "built (logits_all sb) b (cut_ids sb len q) ub2" "buf_ok b nu ub2" "n_seq_tokens ub2 = len"
    "n_tokens ub2 = len" "same_source sb sb2" "sb_n_tokens sb2 = sb_n_tokens sb - len"
    "out_ids sb2 = out_ids sb @ filter (is_output (logits_all sb) b) (cut_ids sb len q)"
    "\<forall>q' \<in> set (q # rs). seq_ok sb b q' \<and> 0 < sq_length q'" "\<forall>q' \<in> set rs. seq_before q' q"
proof -
  note res = reserve_equal [OF wf b r]
  obtain b' where wf': "source_ok sb b'" "\<forall>q \<in> set (sb_seq sb). seq_ok sb b' q"
    "sorted_wrt seq_before (sb_seq sb)" "sb_n_tokens sb = sum_list (map sq_length (sb_seq sb))"
    using wf by (auto simp: wf_equal_def)
  have [simp]: "b' = b" using wf'(1) b by (simp add: source_ok_def)
  obtain zs where zs: "sb_seq sb = sb_seq sb1 @ zs" "\<forall>q \<in> set zs. sq_length q = 0"
    using pop_empty_seqs_append [of "sb_seq sb"] res(4) by metis
  have "sb_seq sb1 = [] \<Longrightarrow> sum_list (map sq_length (sb_seq sb)) = 0" using zs by simp
  then have "sb_seq sb1 \<noteq> []" using n(2) wf'(4) by linarith
  then obtain q rs where q: "rev (sb_seq sb1) = q # rs" by (cases "rev (sb_seq sb1)") auto
  then have seq1: "sb_seq sb1 = rev rs @ [q]" by (simp add: rev_eq_Cons_iff)
  have pos: "\<forall>q \<in> set (sb_seq sb1). 0 < sq_length q" using pop_empty_seqs_pos [OF wf'(3)] res(4) by simp
  have oks: "\<forall>q' \<in> set (q # rs). seq_ok sb b q' \<and> 0 < sq_length q'"
    using wf'(2) zs(1) pos seq1 by auto
  have before: "\<forall>q' \<in> set rs. seq_before q' q" using wf'(3) zs(1) seq1 by (auto simp: sorted_wrt_append)
  define len where "len = (if sq_length q < nu then sq_length q else nu)"
  have len: "0 < len" "len \<le> sq_length q" "len \<le> nu" "nu \<le> n_ubatch"
    using oks n nu by (auto simp: len_def)
  have ok1: "seq_ok sb1 b q" using oks same_source_ok(2) [OF res(1)] by simp
  obtain sb2 ub2 where a: "add_seq_to_ubatch sb1 ub1 q len = Inr (sb2, ub2, advance len q)"
    "built (logits_all sb1) b ([] @ take len (drop (sq_offset q) (sb_ids sb1))) ub2" "buf_ok b nu ub2"
    "n_seq_tokens ub2 = len" "n_tokens ub2 = n_tokens ub1 + len"
    "same_source sb1 sb2" "sb_n_tokens sb2 = sb_n_tokens sb1 - len"
    "out_ids sb2 = out_ids sb1
       @ filter (is_output (logits_all sb1) b) (take len (drop (sq_offset q) (sb_ids sb1)))"
    by (rule add_seq_equal [OF res(5,6,7) len(1) _ _ ok1 len(2)]) (use res(8,9) len in auto)
  have same: "logits_all sb1 = logits_all sb" "sb_ids sb1 = sb_ids sb" using res(1) by (simp_all add: same_source_def)
  have hd: "0 < sq_n_seq_id (hd (sb_seq sb1))" "0 < sq_n_seq_id q"
    using oks seq1 \<open>sb_seq sb1 \<noteq> []\<close> hd_in_set [of "sb_seq sb1"] by (auto simp: seq_ok_def)
  show thesis
    by (rule that [OF q len_def len hd a(1) _ a(3,4) _ _ _ _ oks before])
      (use a res same same_source_trans in \<open>auto simp: cut_ids_def\<close>)
qed

lemma split_seq_step:
  assumes wf: "wf_equal sb" and n: "0 < n_ubatch" "0 < sb_n_tokens sb" and b: "sb_batch sb = Some b"
  obtains sb' ub js where
    "split_seq n_ubatch sb = Inr (sb', ub)" "wf_equal sb'" "built (logits_all sb) b js ub"
    "same_source sb sb'" "js \<noteq> []" "length js \<le> n_ubatch" "mset (pending_ids sb) = mset js + mset (pending_ids sb')"
    "out_ids sb' = out_ids sb @ filter (is_output (logits_all sb) b) js"
proof -
  define nu where "nu = (if sb_n_tokens sb < n_ubatch then sb_n_tokens sb else n_ubatch)"
  obtain sb1 ub1 where r: "reserve_ubatch nu (has_embd_batch sb) sb = (sb1, ub1)" by fastforce
  obtain q rs len sb2 ub2 where f:
    "rev (sb_seq sb1) = q # rs" "len = (if sq_length q < nu then sq_length q else nu)" "0 < len"
    "len \<le> sq_length q" "len \<le> nu" "nu \<le> n_ubatch" "0 < sq_n_seq_id (hd (sb_seq sb1))" "0 < sq_n_seq_id q"
    "add_seq_to_ubatch sb1 ub1 q len = Inr (sb2, ub2, advance len q)"
    "built (logits_all sb) b (cut_ids sb len q) ub2" "buf_ok b nu ub2" "n_seq_tokens ub2 = len"
    "n_tokens ub2 = len" "same_source sb sb2" "sb_n_tokens sb2 = sb_n_tokens sb - len"
    "out_ids sb2 = out_ids sb @ filter (is_output (logits_all sb) b) (cut_ids sb len q)"
    "\<forall>q' \<in> set (q # rs). seq_ok sb b q' \<and> 0 < sq_length q'" "\<forall>q' \<in> set rs. seq_before q' q"
    by (rule equal_first [OF wf n b nu_def r])
  have rs: "q # rs = rev (pop_empty_seqs (sb_seq sb))"
    using reserve_equal(4) [OF wf b r] f(1) by simp
  let ?sb' = "sb2\<lparr>sb_seq := rev (cut_seqs len 1 (q # rs))\<rparr>"
  have seq1: "sb_seq sb1 = rev rs @ [q]" using f(1) by (simp add: rev_eq_Cons_iff)
  have res: "split_seq n_ubatch sb = Inr (?sb', ub2)"
    unfolding split_seq_def Let_def nu_def [symmetric] r
    using seq1 f(2,8,9) by (cases "rev rs") (auto simp: cut_seqs_def butlast_append)
  have cut: "wf_equal ?sb'" "mset (pending_ids sb) = mset (cut_ids sb len q) + mset (pending_ids ?sb')"
    using cut_step [OF wf rs, of 1 len sb2] f(4,14,15) by simp_all
  have "length (cut_ids sb len q) = len" using built_length [OF f(10)] f(13) by simp
  then show thesis
    using f(3,5,6,14,16) by (intro that [OF res cut(1) f(10) _ _ _ cut(2)]) (auto simp: same_source_def)
qed

lemma split_equal_step:
  assumes wf: "wf_equal sb" and n: "0 < n_ubatch" "0 < sb_n_tokens sb" and b: "sb_batch sb = Some b"
  obtains sb' ub js where
    "split_equal n_ubatch sb = Inr (sb', ub)" "wf_equal sb'" "built (logits_all sb) b js ub"
    "same_source sb sb'" "js \<noteq> []" "length js \<le> n_ubatch" "mset (pending_ids sb) = mset js + mset (pending_ids sb')"
    "out_ids sb' = out_ids sb @ filter (is_output (logits_all sb) b) js"
proof -
  define nu where "nu = (if sb_n_tokens sb < n_ubatch then sb_n_tokens sb else n_ubatch)"
  obtain sb1 ub1 where r: "reserve_ubatch nu (has_embd_batch sb) sb = (sb1, ub1)" by fastforce
  obtain q rs len sb2 ub2 where f:
    "rev (sb_seq sb1) = q # rs" "len = (if sq_length q < nu then sq_length q else nu)" "0 < len"
    "len \<le> sq_length q" "len \<le> nu" "nu \<le> n_ubatch" "0 < sq_n_seq_id (hd (sb_seq sb1))" "0 < sq_n_seq_id q"
    "add_seq_to_ubatch sb1 ub1 q len = Inr (sb2, ub2, advance len q)"
    "built (logits_all sb) b (cut_ids sb len q) ub2" "buf_ok b nu ub2" "n_seq_tokens ub2 = len"
    "n_tokens ub2 = len" "same_source sb sb2" "sb_n_tokens sb2 = sb_n_tokens sb - len"
    "out_ids sb2 = out_ids sb @ filter (is_output (logits_all sb) b) (cut_ids sb len q)"
    "\<forall>q' \<in> set (q # rs). seq_ok sb b q' \<and> 0 < sq_length q'" "\<forall>q' \<in> set rs. seq_before q' q"
    by (rule equal_first [OF wf n b nu_def r])
  have rs: "q # rs = rev (pop_empty_seqs (sb_seq sb))"
    using reserve_equal(4) [OF wf b r] f(1) by simp
  define go where "go \<longleftrightarrow> \<not> (sq_n_seq_id q > 1 \<or> len + len > nu)"
  have one: "sq_n_seq_id q' = 1 \<and> len \<le> sq_length q'" if "go" "q' \<in> set (q # rs)" for q'
    using f(4,8,17,18) that by (force simp: go_def seq_before_def seq_ok_def)
  obtain k sb3 ub3 where k: "split_equal_loop nu (q # rs) 0 0 sb1 ub1 = Inr (sb3, ub3, cut_seqs len k (q # rs))"
    "0 < k" "k \<le> length (q # rs)" "k \<le> 1 \<or> go"
    "built (logits_all sb) b (concat (map (cut_ids sb len) (take k (q # rs)))) ub3" "n_tokens ub3 \<le> nu"
    "same_source sb sb3" "sb_n_tokens sb3 = sb_n_tokens sb - k * len"
    "out_ids sb3 = out_ids sb
       @ filter (is_output (logits_all sb) b) (concat (map (cut_ids sb len) (take k (q # rs))))"
  proof (cases go)
    case False
    then have "split_equal_loop nu (q # rs) 0 0 sb1 ub1 = Inr (sb2, ub2, cut_seqs len 1 (q # rs))"
      using f(2,9,17) by (auto simp: go_def cut_seqs_def advance_def)
    then show thesis using f(5,10,13-16) by (intro that [of sb2 ub2 1]) auto
  next
    case True
    have src: "source_ok sb2 b"
      using reserve_equal(1,5) [OF wf b r] same_source_ok(1) f(14) by metis
    have lall: "logits_all sb2 = logits_all sb" using f(14) by (simp add: same_source_def)
    have blt: "built (logits_all sb2) b (cut_ids sb len q) ub2" using f(10) lall by simp
    have oks: "\<forall>q' \<in> set rs. seq_ok sb2 b q' \<and> len \<le> sq_length q'"
      using f(17) same_source_ok(2) [OF f(14)] one [OF True] by auto
    have room: "rs \<noteq> [] \<longrightarrow> len + n_tokens ub2 \<le> nu" using True f(13) by (simp add: go_def)
    obtain k sb3 ub3 where m: "split_equal_loop nu rs len (n_tokens ub2) sb2 ub2
        = Inr (sb3, ub3, map (advance len) (take k rs) @ drop k rs)" "k \<le> length rs"
      "built (logits_all sb) b (cut_ids sb len q @ concat (map (cut_ids sb len) (take k rs))) ub3"
      "n_tokens ub3 \<le> max nu (n_tokens ub2)" "same_source sb2 sb3" "sb_n_tokens sb3 = sb_n_tokens sb2 - k * len"
      "out_ids sb3 = out_ids sb2
        @ filter (is_output (logits_all sb) b) (concat (map (cut_ids sb len) (take k rs)))"
      using split_equal_more [OF src f(11) blt f(3,12) room oks]
      unfolding lall same_source_cut [OF f(14)] by blast
    have "split_equal_loop nu (q # rs) 0 0 sb1 ub1 = Inr (sb3, ub3, cut_seqs len (Suc k) (q # rs))"
      using f(2,9,13,17) True m(1) by (auto simp: go_def cut_seqs_def advance_def Let_def)
    then show thesis
      using True m(2-7) f(5,13,15,16) same_source_trans [OF f(14) m(5)] by (intro that [of sb3 ub3 "Suc k"]) auto
  qed
  let ?js = "concat (map (cut_ids sb len) (take k (q # rs)))"
  let ?sb' = "sb3\<lparr>sb_seq := rev (cut_seqs len k (q # rs))\<rparr>"
  obtain s0 rest where sr: "sb_seq sb1 = s0 # rest" using f(1) by (cases "sb_seq sb1") auto
  have res: "split_equal n_ubatch sb = Inr (?sb', ub3)"
    unfolding split_equal_def Let_def nu_def [symmetric] r
    using sr f(1,7) k(1) by (simp del: split_equal_loop.simps)
  have lens: "\<forall>q' \<in> set (take k (q # rs)). len \<le> sq_length q'"
  proof (cases "k \<le> 1")
    case True
    then have "take k (q # rs) = [q]" using k(2) by (cases k) auto
    then show ?thesis using f(4) by simp
  next
    case False
    then show ?thesis using one k(4) in_set_takeD by metis
  qed
  have ones: "k \<le> 1 \<or> (\<forall>q' \<in> set (q # rs). sq_n_seq_id q' = 1)" using k(4) one by blast
  note cut = cut_step [OF wf rs k(3) ones lens k(7,8)]
  have "?js \<noteq> []"
    using k(2) f(3,13) built_length [OF f(10)] by (cases k) auto
  then show thesis
    using k f(6) built_length [OF k(5)] by (intro that [OF res cut(1) k(5) _ _ _ cut(2)]) (auto simp: same_source_def)
qed

section \<open>The splits as sources of micro-batches\<close>

definition batch_carries :: "llama_sbatch \<Rightarrow> nat list \<Rightarrow> llama_ubatch \<Rightarrow> bool" where
  "batch_carries sb js ub \<longleftrightarrow> (\<exists>b. sb_batch sb = Some b \<and> built (logits_all sb) b js ub)"

definition sb_is_output :: "llama_sbatch \<Rightarrow> nat \<Rightarrow> bool" where
  "sb_is_output sb j \<longleftrightarrow> (\<exists>b. sb_batch sb = Some b \<and> is_output (logits_all sb) b j)"

lemma same_source_reads:
  assumes "same_source sb sb'"
  shows "batch_carries sb' = batch_carries sb" "sb_is_output sb' = sb_is_output sb"
  using assms by (auto simp: same_source_def batch_carries_def sb_is_output_def fun_eq_iff)

lemma length_pending_equal: "wf_equal sb \<Longrightarrow> sb_n_tokens sb = length (pending_ids sb)"
proof -
  assume "wf_equal sb"
  then obtain b where "\<forall>q \<in> set (sb_seq sb). seq_ok sb b q" "sb_n_tokens sb = sum_list (map sq_length (sb_seq sb))"
    by (auto simp: wf_equal_def)
  moreover have "map length (map (seq_ids_of sb) (sb_seq sb)) = map sq_length (sb_seq sb)"
    using calculation(1) by (auto simp: seq_ids_of_def seq_ok_def)
  ultimately show ?thesis by (simp only: pending_ids_def length_concat)
qed

lemma some_batch: "wf_simple sb \<or> wf_equal sb \<Longrightarrow> \<exists>b. sb_batch sb = Some b"
  by (auto simp: wf_simple_def wf_equal_def source_ok_def)

text \<open>The step law of \<open>ubatch_source\<close> from what a split guarantees.\<close>

lemma source_step:
  assumes "\<exists>b. sb_batch sb = Some b"
    and "\<And>b. sb_batch sb = Some b \<Longrightarrow> \<exists>sb' ub js. sp sb = Inr (sb', ub) \<and> w sb'
       \<and> built (logits_all sb) b js ub \<and> same_source sb sb' \<and> js \<noteq> []
       \<and> mset (pending_ids sb) = mset js + mset (pending_ids sb')
       \<and> out_ids sb' = out_ids sb @ filter (is_output (logits_all sb) b) js"
  shows "\<exists>sb' ub js. sp sb = Inr (sb', ub) \<and> w sb' \<and> batch_carries sb js ub \<and> js \<noteq> []
     \<and> mset (pending_ids sb) = mset js + mset (pending_ids sb')
     \<and> out_ids sb' = out_ids sb @ filter (sb_is_output sb) js
     \<and> batch_carries sb' = batch_carries sb \<and> sb_is_output sb' = sb_is_output sb"
proof -
  obtain b where b: "sb_batch sb = Some b" using assms(1) by blast
  then have "sb_is_output sb = is_output (logits_all sb) b" by (auto simp: sb_is_output_def fun_eq_iff)
  moreover obtain sb' ub js where "sp sb = Inr (sb', ub)" "w sb'"
      "built (logits_all sb) b js ub" "same_source sb sb'" "js \<noteq> []"
      "mset (pending_ids sb) = mset js + mset (pending_ids sb')"
      "out_ids sb' = out_ids sb @ filter (is_output (logits_all sb) b) js"
    using assms(2) [OF b] by blast
  ultimately show ?thesis
    using b same_source_reads [of sb sb']
    by (intro exI [of _ sb'] exI [of _ ub] exI [of _ js]) (simp add: batch_carries_def [of sb])
qed

text \<open>The micro-batch size is positive, hence a successor.\<close>

interpretation simple: ubatch_source
  wf_simple sb_n_tokens pending_ids "split_simple (Suc n)" batch_carries out_ids sb_is_output for n
proof
  fix s
  assume wf: "wf_simple s"
  show "sb_n_tokens s = length (pending_ids s)" by (rule length_pending_simple [OF wf])
  assume n: "0 < sb_n_tokens s"
  show "\<exists>s' u js. split_simple (Suc n) s = Inr (s', u) \<and> wf_simple s' \<and> batch_carries s js u \<and> js \<noteq> []
     \<and> mset (pending_ids s) = mset js + mset (pending_ids s')
     \<and> out_ids s' = out_ids s @ filter (sb_is_output s) js
     \<and> batch_carries s' = batch_carries s \<and> sb_is_output s' = sb_is_output s"
  proof (rule source_step)
    fix b assume "sb_batch s = Some b"
    from split_simple_step [OF wf zero_less_Suc n this, of n] show
      "\<exists>s' u js. split_simple (Suc n) s = Inr (s', u) \<and> wf_simple s'
         \<and> built (logits_all s) b js u \<and> same_source s s' \<and> js \<noteq> []
         \<and> mset (pending_ids s) = mset js + mset (pending_ids s')
         \<and> out_ids s' = out_ids s @ filter (is_output (logits_all s) b) js"
      by (metis mset_append)
  qed (use some_batch wf in blast)
qed

interpretation equal: ubatch_source
  wf_equal sb_n_tokens pending_ids "split_equal (Suc n)" batch_carries out_ids sb_is_output for n
proof
  fix s
  assume wf: "wf_equal s"
  show "sb_n_tokens s = length (pending_ids s)" by (rule length_pending_equal [OF wf])
  assume n: "0 < sb_n_tokens s"
  show "\<exists>s' u js. split_equal (Suc n) s = Inr (s', u) \<and> wf_equal s' \<and> batch_carries s js u \<and> js \<noteq> []
     \<and> mset (pending_ids s) = mset js + mset (pending_ids s')
     \<and> out_ids s' = out_ids s @ filter (sb_is_output s) js
     \<and> batch_carries s' = batch_carries s \<and> sb_is_output s' = sb_is_output s"
  proof (rule source_step)
    fix b assume "sb_batch s = Some b"
    from split_equal_step [OF wf zero_less_Suc n this, of n] show
      "\<exists>s' u js. split_equal (Suc n) s = Inr (s', u) \<and> wf_equal s'
         \<and> built (logits_all s) b js u \<and> same_source s s' \<and> js \<noteq> []
         \<and> mset (pending_ids s) = mset js + mset (pending_ids s')
         \<and> out_ids s' = out_ids s @ filter (is_output (logits_all s) b) js"
      by metis
  qed (use some_batch wf in blast)
qed

interpretation by_seq: ubatch_source
  wf_equal sb_n_tokens pending_ids "split_seq (Suc n)" batch_carries out_ids sb_is_output for n
proof
  fix s
  assume wf: "wf_equal s"
  show "sb_n_tokens s = length (pending_ids s)" by (rule length_pending_equal [OF wf])
  assume n: "0 < sb_n_tokens s"
  show "\<exists>s' u js. split_seq (Suc n) s = Inr (s', u) \<and> wf_equal s' \<and> batch_carries s js u \<and> js \<noteq> []
     \<and> mset (pending_ids s) = mset js + mset (pending_ids s')
     \<and> out_ids s' = out_ids s @ filter (sb_is_output s) js
     \<and> batch_carries s' = batch_carries s \<and> sb_is_output s' = sb_is_output s"
  proof (rule source_step)
    fix b assume "sb_batch s = Some b"
    from split_seq_step [OF wf zero_less_Suc n this, of n] show
      "\<exists>s' u js. split_seq (Suc n) s = Inr (s', u) \<and> wf_equal s'
         \<and> built (logits_all s) b js u \<and> same_source s s' \<and> js \<noteq> []
         \<and> mset (pending_ids s) = mset js + mset (pending_ids s')
         \<and> out_ids s' = out_ids s @ filter (is_output (logits_all s) b) js"
      by metis
  qed (use some_batch wf in blast)
qed

section \<open>Building an sbatch\<close>

text \<open>The groups found so far (last first) cover the first \<open>i\<close> sorted indices.\<close>

definition groups_ok :: "llama_sbatch \<Rightarrow> llama_batch \<Rightarrow> nat \<Rightarrow> llama_sbatch_seq list \<Rightarrow> bool" where
  "groups_ok sb b i acc \<longleftrightarrow> (\<forall>q \<in> set acc. seq_ok sb b q \<and> 0 < sq_length q)
     \<and> concat (map (seq_ids_of sb) (rev acc)) = take i (sb_ids sb)
     \<and> (acc \<noteq> [] \<longrightarrow> sq_offset (hd acc) + sq_length (hd acc) = i)"

lemma groups_ok_new:
  assumes "groups_ok sb b i acc" "source_ok sb b" "i < length (sb_ids sb)"
  shows "groups_ok sb b (Suc i) (\<lparr>sq_n_seq_id = the (b_n_seq_id b) ! (sb_ids sb ! i),
      sq_seq_id = Some (the (b_seq_id b) ! (sb_ids sb ! i)), sq_offset = i, sq_length = 1\<rparr> # acc)"
proof -
  have "sb_ids sb ! i < nat (b_n_tokens b)" using assms(2,3) by (simp add: source_ok_def)
  then have "1 \<le> the (b_n_seq_id b) ! (sb_ids sb ! i)"
    "nat (the (b_n_seq_id b) ! (sb_ids sb ! i)) \<le> length (the (b_seq_id b) ! (sb_ids sb ! i))"
    using assms(2) by (simp_all add: source_ok_def batch_wf_def Let_def)
  moreover have "take 1 (drop i (sb_ids sb)) = [sb_ids sb ! i]"
    using assms(3) by (simp add: take_Suc_conv_app_nth hd_drop_conv_nth take_Suc)
  ultimately show ?thesis
    using assms(1,3) by (auto simp: groups_ok_def seq_ok_def seq_ids_of_def take_Suc_conv_app_nth)
qed

lemma groups_ok_extend:
  assumes "groups_ok sb b i (l # acc)" "source_ok sb b" "i < length (sb_ids sb)"
    and "the (b_n_seq_id b) ! (sb_ids sb ! i) = sq_n_seq_id l"
    and "take (nat (sq_n_seq_id l)) (the (b_seq_id b) ! (sb_ids sb ! i)) = take (nat (sq_n_seq_id l)) (the (sq_seq_id l))"
  shows "groups_ok sb b (Suc i) (l\<lparr>sq_length := sq_length l + 1\<rparr> # acc)"
proof -
  have "seq_ids_of sb (l\<lparr>sq_length := sq_length l + 1\<rparr>) = seq_ids_of sb l @ [sb_ids sb ! i]"
    using assms(1,3) by (auto simp: groups_ok_def seq_ids_of_def take_Suc_conv_app_nth)
  then show ?thesis
    using assms by (auto simp: groups_ok_def seq_ok_def take_Suc_conv_app_nth)
qed

lemma group_seqs_ok:
  assumes "groups_ok sb b i acc" "source_ok sb b" "i \<le> length (sb_ids sb)" "bis = drop i (sb_ids sb)"
  shows "groups_ok sb b (length (sb_ids sb)) (rev (group_seqs b bis i acc))"
  using assms
proof (induction bis arbitrary: i acc)
  case (Cons bi bis)
  then have i: "i < length (sb_ids sb)" "bi = sb_ids sb ! i" "bis = drop (Suc i) (sb_ids sb)"
    by (metis drop_all linorder_not_le list.distinct(1), metis nth_via_drop, metis drop_Suc list.sel(3) tl_drop)
  have IH: "groups_ok sb b (length (sb_ids sb)) (rev (group_seqs b bis (Suc i) acc'))"
    if "groups_ok sb b (Suc i) acc'" for acc'
    using Cons.IH [OF that Cons.prems(2) _ i(3)] i(1) by simp
  show ?case
    using IH [OF groups_ok_new [OF Cons.prems(1,2) i(1)]] IH [OF groups_ok_extend [OF _ Cons.prems(2) i(1)]]
      Cons.prems(1) i(2)
    by (auto simp: Let_def split: list.split)
qed simp

lemma sbatch_init_wf:
  assumes "batch_wf b"
  shows "\<exists>sb. sbatch_init b ne True lall = Inr sb \<and> wf_simple sb \<and> sb_batch sb = Some b
      \<and> logits_all sb = lall \<and> out_ids sb = [] \<and> pending_ids sb = [0..<nat (b_n_tokens b)]"
    and "\<exists>sb. sbatch_init b ne False lall = Inr sb \<and> wf_equal sb \<and> sb_batch sb = Some b
      \<and> logits_all sb = lall \<and> out_ids sb = [] \<and> mset (pending_ids sb) = mset [0..<nat (b_n_tokens b)]"
proof -
  let ?n = "nat (b_n_tokens b)"
  have n: "0 \<le> b_n_tokens b" "b_n_seq_id b \<noteq> None" "b_seq_id b \<noteq> None"
    using assms by (simp_all add: batch_wf_def Let_def)
  show "\<exists>sb. sbatch_init b ne True lall = Inr sb \<and> wf_simple sb \<and> sb_batch sb = Some b
      \<and> logits_all sb = lall \<and> out_ids sb = [] \<and> pending_ids sb = [0..<?n]"
    using assms n by (auto simp: sbatch_init_def Let_def wf_simple_def pending_ids_def seq_ids_of_def)
  let ?ids = "std_sort (ids_less b) [0..<?n]"
  let ?gs = "group_seqs b ?ids 0 []"
  obtain sb where sb: "sbatch_init b ne False lall = Inr sb" "sb_ids sb = ?ids" "sb_seq sb = std_sort seq_less ?gs"
    "sb_batch sb = Some b" "logits_all sb = lall" "out_ids sb = []" "sb_n_tokens sb = ?n"
    using n by (auto simp: sbatch_init_def Let_def)
  have src: "source_ok sb b" using assms sb by (simp add: source_ok_def)
  have "groups_ok sb b (length (sb_ids sb)) (rev ?gs)"
    using src sb(2) by (intro group_seqs_ok) (simp_all add: groups_ok_def)
  then have g: "\<forall>q \<in> set ?gs. seq_ok sb b q \<and> 0 < sq_length q" "concat (map (seq_ids_of sb) ?gs) = ?ids"
    by (simp_all add: groups_ok_def sb(2))
  have "sorted_wrt (\<lambda>x y. \<not> seq_less y x) (sb_seq sb)"
    unfolding sb(3) by (rule sorted_std_sort) (auto simp: seq_less_def split: if_splits)
  then have srt: "sorted_wrt seq_before (sb_seq sb)"
    by (rule sorted_wrt_mono_rel [rotated]) (use g(1) sb(3) in \<open>auto simp: seq_less_def seq_before_def split: if_splits\<close>)
  have "mset (concat (map f (sb_seq sb))) = mset (concat (map f ?gs))" for f :: "llama_sbatch_seq \<Rightarrow> nat list"
    unfolding sb(3) by (simp only: mset_concat_map mset_std_sort)
  then have pend: "mset (pending_ids sb) = mset [0..<?n]"
    using g(2) by (simp add: pending_ids_def del: mset_concat)
  have "map length (map (seq_ids_of sb) (sb_seq sb)) = map sq_length (sb_seq sb)"
    using g(1) by (auto simp: sb(3) seq_ids_of_def seq_ok_def)
  then have "sum_list (map sq_length (sb_seq sb)) = length (pending_ids sb)"
    by (simp only: pending_ids_def length_concat)
  also have "\<dots> = ?n" using pend by (metis length_upt minus_nat.diff_0 size_mset)
  finally have "wf_equal sb"
    using src srt g(1) sb(3,7) unfolding wf_equal_def by (metis set_std_sort)
  then show "\<exists>sb. sbatch_init b ne False lall = Inr sb \<and> wf_equal sb \<and> sb_batch sb = Some b
      \<and> logits_all sb = lall \<and> out_ids sb = [] \<and> mset (pending_ids sb) = mset [0..<?n]"
    using sb pend by blast
qed

text \<open>
  What \<open>llama_batch_allocr\<close> relies on: exactly one of \<open>token\<close> and \<open>embd\<close>, arrays that are given
  hold \<open>n_tokens\<close> entries, and the sequence ids are given together with their counts, or neither.
\<close>

definition user_batch_ok :: "llama_batch \<Rightarrow> bool" where
  "user_batch_ok b \<longleftrightarrow>
     (let n = nat (b_n_tokens b) in
      (b_token b = None) \<noteq> (b_embd b = None)
      \<and> (\<forall>ps. b_pos b = Some ps \<longrightarrow> n \<le> length ps) \<and> (\<forall>t. b_token b = Some t \<longrightarrow> n \<le> length t)
      \<and> (\<forall>e. b_embd b = Some e \<longrightarrow> n \<le> length e) \<and> (\<forall>lg. b_logits b = Some lg \<longrightarrow> n \<le> length lg)
      \<and> (b_n_seq_id b = None) = (b_seq_id b = None)
      \<and> (\<forall>ns ss. b_n_seq_id b = Some ns \<longrightarrow> b_seq_id b = Some ss \<longrightarrow> n \<le> length ns \<and> n \<le> length ss
           \<and> (\<forall>j < n. 1 \<le> ns ! j \<and> nat (ns ! j) \<le> length (ss ! j))))"

lemma batch_allocr_wf:
  assumes "user_batch_ok b" "batch_allocr b p0 = Inr b'"
  shows "batch_wf b'" "0 < b_n_tokens b'" "b_token b' = b_token b" "b_n_tokens b' = b_n_tokens b"
    "b_logits b' \<noteq> None"
    "the (b_pos b') = (case b_pos b of Some ps \<Rightarrow> ps | None \<Rightarrow> map (\<lambda>i. int i + p0) [0..<nat (b_n_tokens b)])"
proof -
  let ?n = "nat (b_n_tokens b)"
  have n: "0 < b_n_tokens b" using assms(2) by (auto simp: batch_allocr_def split: if_splits)
  then have b': "b' = b\<lparr>b_pos := Some (case b_pos b of Some ps \<Rightarrow> ps | None \<Rightarrow> map (\<lambda>i. int i + p0) [0..<?n]),
       b_n_seq_id := Some (case b_n_seq_id b of Some ns \<Rightarrow> ns | None \<Rightarrow> replicate ?n 1),
       b_seq_id := Some (case b_seq_id b of Some ss \<Rightarrow> ss | None \<Rightarrow> replicate ?n [0]),
       b_logits := Some (case b_logits b of Some lg \<Rightarrow> lg | None \<Rightarrow> (replicate ?n 0)[?n - 1 := 1])\<rparr>"
    using assms(2) by (simp add: batch_allocr_def Let_def)
  show "batch_wf b'"
  proof (cases "b_seq_id b")
    case None
    then show ?thesis
      using assms(1) n unfolding b' batch_wf_def user_batch_ok_def Let_def by (simp split: option.splits)
  next
    case (Some ss)
    then show ?thesis
      using assms(1) n unfolding b' batch_wf_def user_batch_ok_def Let_def by (auto split: option.splits)
  qed
  show "0 < b_n_tokens b'" "b_token b' = b_token b" "b_n_tokens b' = b_n_tokens b" "b_logits b' \<noteq> None"
    "the (b_pos b') = (case b_pos b of Some ps \<Rightarrow> ps | None \<Rightarrow> map (\<lambda>i. int i + p0) [0..<?n])"
    using n by (simp_all add: b')
qed

section \<open>Properties\<close>

lemma carries_built:
  assumes "sb_batch sb = Some b" "logits_all sb = lall"
  shows "batch_carries sb = built lall b" "sb_is_output sb = is_output lall b"
  using assms by (auto simp: batch_carries_def sb_is_output_def fun_eq_iff)

text \<open>A batch of three tokens in two sequences.\<close>

definition wit_batch :: llama_batch where
  "wit_batch = \<lparr>b_n_tokens = 3, b_token = Some [5, 6, 7], b_embd = None, b_pos = Some [0, 0, 1],
     b_n_seq_id = Some [1, 1, 1], b_seq_id = Some [[0], [1], [0]], b_logits = Some [0, 1, 1]\<rparr>"

lemma wit_batch_wf: "batch_wf wit_batch"
  by (simp add: batch_wf_def wit_batch_def Let_def less_Suc_eq numeral_eq_Suc)

text \<open>
  C11. Cutting a batch into micro-batches of whole sequences of equal length (\<open>split_equal\<close>, for
  recurrent models): on every well-formed batch and every positive micro-batch size, no assertion
  fires, the loop that drains the batch ends, the micro-batches hold every token exactly once with
  its own token, embedding, position, sequences and output flag, and \<open>out_ids\<close> lists exactly
  the output tokens in the order of computation.
\<close>

theorem drain_equal:
  assumes "batch_wf b" "0 < n"
  shows "\<exists>sb us jss sb'. sbatch_init b ne False lall = Inr sb
    \<and> drain_loop sb_n_tokens (split_equal n) sb = Some (Inr (us, sb'))
    \<and> list_all2 (built lall b) jss us \<and> mset (concat jss) = mset [0..<nat (b_n_tokens b)]
    \<and> out_ids sb' = filter (is_output lall b) (concat jss)"
proof -
  obtain m where n: "n = Suc m" using assms(2) by (cases n) auto
  obtain sb where sb: "sbatch_init b ne False lall = Inr sb" "wf_equal sb" "sb_batch sb = Some b"
    "logits_all sb = lall" "out_ids sb = []" "mset (pending_ids sb) = mset [0..<nat (b_n_tokens b)]"
    using sbatch_init_wf(2) [OF assms(1)] by blast
  from equal.drain_total [OF sb(2), of m] show ?thesis
    unfolding carries_built [OF sb(3,4)] sb(5,6) n using sb(1) by auto
qed

theorem drain_equal_witness:
  "\<exists>sb us jss sb'. sbatch_init wit_batch 0 False False = Inr sb
    \<and> drain_loop sb_n_tokens (split_equal 2) sb = Some (Inr (us, sb'))
    \<and> list_all2 (built False wit_batch) jss us \<and> mset (concat jss) = mset [0, 1, 2]"
  using drain_equal [OF wit_batch_wf, of 2 0 False] by (auto simp: wit_batch_def numeral_eq_Suc)

text \<open>
  The same for \<open>split_seq\<close>, one sequence per micro-batch (recurrent models with pooled
  embeddings).
\<close>

theorem drain_seq:
  assumes "batch_wf b" "0 < n"
  shows "\<exists>sb us jss sb'. sbatch_init b ne False lall = Inr sb
    \<and> drain_loop sb_n_tokens (split_seq n) sb = Some (Inr (us, sb'))
    \<and> list_all2 (built lall b) jss us \<and> mset (concat jss) = mset [0..<nat (b_n_tokens b)]
    \<and> out_ids sb' = filter (is_output lall b) (concat jss)"
proof -
  obtain m where n: "n = Suc m" using assms(2) by (cases n) auto
  obtain sb where sb: "sbatch_init b ne False lall = Inr sb" "wf_equal sb" "sb_batch sb = Some b"
    "logits_all sb = lall" "out_ids sb = []" "mset (pending_ids sb) = mset [0..<nat (b_n_tokens b)]"
    using sbatch_init_wf(2) [OF assms(1)] by blast
  from by_seq.drain_total [OF sb(2), of m] show ?thesis
    unfolding carries_built [OF sb(3,4)] sb(5,6) n using sb(1) by auto
qed

theorem drain_seq_witness:
  "\<exists>sb us jss sb'. sbatch_init wit_batch 0 False True = Inr sb
    \<and> drain_loop sb_n_tokens (split_seq 1) sb = Some (Inr (us, sb'))
    \<and> list_all2 (built True wit_batch) jss us \<and> mset (concat jss) = mset [0, 1, 2]"
  using drain_seq [OF wit_batch_wf, of 1 0 True] by (auto simp: wit_batch_def numeral_eq_Suc)

end
