(* ===== verification/Decode.thy ===== *)
theory Decode
  imports KvMachine BatchSplit
begin

text \<open>
  \<open>llama_context::decode\<close> (\<open>src/llama-context.cpp\<close>) on the unified cache: the batch is
  completed, cut into micro-batches, each gets a slot of the cache and is computed, the output
  rows are collected and brought into the order of the batch, the cache is committed or rolled
  back.

  The compute graph is a parameter: \<open>compute ub s\<close> is the status of \<open>graph_compute\<close> and
  \<open>compute_row ub s k\<close> the row the graph has for token \<open>k\<close> of the micro-batch: a row of logits,
  or of embeddings when the context computes embeddings. A context has one of the two buffers or, with pooled
  embeddings, none; the vectors of sequences that pooling extracts are not modelled.
\<close>

section \<open>State\<close>

datatype compute_status = Status_success | Status_aborted | Status_alloc_failed | Status_failed

text \<open>\<open>logits\<close> and \<open>embd\<close> are \<open>None\<close> for the null pointer, otherwise the rows written since the buffer was reserved.\<close>

record 'o llama_context =
  memory :: kv_cache
  output_ids :: "int list"
  logits :: "'o list option"
  embd :: "'o list option"
  n_outputs :: nat

record decode_params =
  n_batch :: nat
  n_ubatch :: nat
  causal_attn :: bool
  embeddings :: bool
  pooling :: bool
  defrag_thold :: real
  n_vocab :: nat
  n_layer :: u32
  has_rope :: bool
  max_nodes :: int

text \<open>\<open>pooling\<close> says that \<open>pooling_type\<close> is not \<open>LLAMA_POOLING_TYPE_NONE\<close>.\<close>

definition embd_pooled :: "decode_params \<Rightarrow> bool" where
  "embd_pooled pr \<longleftrightarrow> embeddings pr \<and> pooling pr"

section \<open>The parts of decode\<close>

text \<open>The number of outputs of the whole batch (lines 901 to 913).\<close>

definition count_outputs :: "bool \<Rightarrow> llama_batch \<Rightarrow> nat" where
  "count_outputs pooled b =
     (case b_logits b of
        Some lg \<Rightarrow> if pooled then nat (b_n_tokens b)
                   else count_if (\<lambda>x. x \<noteq> 0) (take (nat (b_n_tokens b)) lg)
      | None \<Rightarrow> if pooled then nat (b_n_tokens b) else 1)"

text \<open>\<open>llm_graph_input_out_ids::set_input\<close>: which tokens of a micro-batch the graph keeps.\<close>

definition inp_out_ids :: "nat \<Rightarrow> llama_ubatch \<Rightarrow> nat list" where
  "inp_out_ids n_out ub =
     (if n_out = n_tokens ub then [0..<n_tokens ub]
      else filter (\<lambda>i. ub_output ub ! i \<noteq> 0) [0..<n_tokens ub])"

text \<open>The outputs of one micro-batch (lines 932 to 946).\<close>

definition ubatch_outputs :: "bool \<Rightarrow> llama_ubatch \<Rightarrow> nat" where
  "ubatch_outputs all ub =
     (if all then n_tokens ub else count_if (\<lambda>x. x \<noteq> 0) (take (n_tokens ub) (ub_output ub)))"

text \<open>
  The loop over the micro-batches (lines 928 to 1063), with the rows extracted so far. The result
  is the return code (0 to go on), the rest of the \<open>sbatch\<close>, the cache, the rows and the value of
  \<open>n_outputs\<close>: the outputs of the micro-batch that failed, or those of the whole batch at the end.
\<close>

partial_function (option) decode_loop ::
  "(llama_ubatch \<Rightarrow> kv_cache \<Rightarrow> compute_status) \<Rightarrow> (llama_ubatch \<Rightarrow> kv_cache \<Rightarrow> nat \<Rightarrow> 'o)
     \<Rightarrow> nat \<Rightarrow> bool \<Rightarrow> nat \<Rightarrow> llama_sbatch \<Rightarrow> kv_cache \<Rightarrow> 'o list
     \<Rightarrow> (int \<times> llama_sbatch \<times> kv_cache \<times> 'o list \<times> nat) res option" where
  "decode_loop compute compute_row nub all n_outputs_all sb s rows =
     (if sb_n_tokens sb = 0 then Some (Inr (0, sb, s, rows, n_outputs_all))
      else case split_simple nub sb of
        Inl f \<Rightarrow> Some (Inl f)
      | Inr p \<Rightarrow>
          (case find_slot (snd p) s of
             None \<Rightarrow> None
           | Some q \<Rightarrow>
               if \<not> fst q then Some (Inr (1, fst p, snd q, rows, ubatch_outputs all (snd p)))
               else case compute (snd p) (snd q) of
                 Status_aborted \<Rightarrow> Some (Inr (2, fst p, snd q, rows, ubatch_outputs all (snd p)))
               | Status_alloc_failed \<Rightarrow> Some (Inr (-2, fst p, snd q, rows, ubatch_outputs all (snd p)))
               | Status_failed \<Rightarrow> Some (Inr (-3, fst p, snd q, rows, ubatch_outputs all (snd p)))
               | Status_success \<Rightarrow>
                   if ubatch_outputs all (snd p) > 0 \<and> \<not> length rows + ubatch_outputs all (snd p) \<le> n_outputs_all
                   then Some (Inl (Assert_fail ''n_outputs_prev + n_outputs <= n_outputs_all''))
                   else decode_loop compute compute_row nub all n_outputs_all (fst p) (snd q)
                     (rows @ map (compute_row (snd p) (snd q)) (inp_out_ids (ubatch_outputs all (snd p)) (snd p)))))"

text \<open>
  The selection sort that brings the rows into the order of the batch (lines 1097 to 1116).
\<close>

definition swap_at :: "nat \<Rightarrow> nat \<Rightarrow> 'a list \<Rightarrow> 'a list" where
  "swap_at i j xs = xs[i := xs ! j, j := xs ! i]"

definition min_index :: "nat list \<Rightarrow> nat \<Rightarrow> nat" where
  "min_index oids i = fold (\<lambda>j j_min. if oids ! j < oids ! j_min then j else j_min) [i + 1..<length oids] i"

definition select_step :: "nat \<Rightarrow> nat list \<times> 'o list \<Rightarrow> nat list \<times> 'o list" where
  "select_step i = (\<lambda>(oids, rows).
     let j_min = min_index oids i in
     if j_min = i then (oids, rows) else (swap_at i j_min oids, swap_at i j_min rows))"

definition sort_outputs :: "nat list \<Rightarrow> 'o list \<Rightarrow> nat list \<times> 'o list" where
  "sort_outputs oids rows = fold select_step [0..<length oids - 1] (oids, rows)"

text \<open>\<open>output_ids[out_ids[i]] = i\<close> for every \<open>i\<close>.\<close>

definition set_output_ids :: "nat list \<Rightarrow> int list \<Rightarrow> int list" where
  "set_output_ids oids ids = fold (\<lambda>i xs. xs[oids ! i := int i]) [0..<length oids] ids"

text \<open>The output mapping (lines 1072 to 1122).\<close>

definition map_outputs ::
  "nat \<Rightarrow> nat list \<Rightarrow> 'o list \<Rightarrow> int list \<Rightarrow> (int list \<times> 'o list) res" where
  "map_outputs n_outputs_all oids rows ids =
     (if length oids \<noteq> n_outputs_all then Inl (Assert_fail ''out_ids.size() == (size_t) n_outputs_all'')
      else
        let ids1 = set_output_ids oids ids in
        if \<forall>i \<in> set [0..<length oids]. oids ! i = i then Inr (ids1, rows)
        else let (oids', rows') = sort_outputs oids rows
             in Inr (set_output_ids oids' (map (\<lambda>_. -1) ids1), rows'))"

text \<open>
  \<open>output_reserve\<close>: resets the mapping and the buffers and returns the number of outputs there is room for,
  or 0 when the buffer could not be allocated; then both buffers are gone. (The encoder-decoder models that
  need both buffers are not modelled.)
\<close>

definition output_reserve :: "bool \<Rightarrow> decode_params \<Rightarrow> nat \<Rightarrow> 'o llama_context \<Rightarrow> nat \<times> 'o llama_context" where
  "output_reserve alloc_ok pr n_out ctx =
     (let ids = (if output_ids ctx = [] then replicate (n_batch pr) 0 else output_ids ctx) in
      if alloc_ok
      then (n_out, ctx\<lparr>output_ids := map (\<lambda>_. -1) ids, n_outputs := 0,
              logits := (if embeddings pr then None else Some []),
              embd := (if embeddings pr \<and> \<not> pooling pr then Some [] else None)\<rparr>)
      else (0, ctx\<lparr>output_ids := ids, logits := None, embd := None\<rparr>))"

text \<open>The rows in the buffer the context has.\<close>

definition set_rows :: "'o list \<Rightarrow> 'o llama_context \<Rightarrow> 'o llama_context" where
  "set_rows rows ctx = ctx\<lparr>logits := map_option (\<lambda>_. rows) (logits ctx), embd := map_option (\<lambda>_. rows) (embd ctx)\<rparr>"

text \<open>\<open>kv_self_update\<close>: pending shifts and moves, then \<open>set_full\<close> when a graph is reserved.\<close>

definition kv_self_update :: "decode_params \<Rightarrow> kv_cache \<Rightarrow> kv_cache res" where
  "kv_self_update pr s =
     bind_res (kv_update (has_rope pr) (n_layer pr) (max_nodes pr) s)
       (\<lambda>(need_reserve, s1). Inr (if need_reserve then set_full s1 else s1))"

section \<open>decode\<close>

text \<open>
  The guard of \<open>decode\<close> runs \<open>restore\<close> whenever it returns. An assertion aborts the program, and
  so does the exception of an invalid token, which no caller catches: both are an \<open>Inl\<close>.
\<close>

definition decode ::
  "(llama_ubatch \<Rightarrow> kv_cache \<Rightarrow> compute_status) \<Rightarrow> (llama_ubatch \<Rightarrow> kv_cache \<Rightarrow> nat \<Rightarrow> 'o)
     \<Rightarrow> bool \<Rightarrow> decode_params \<Rightarrow> llama_batch \<Rightarrow> 'o llama_context
     \<Rightarrow> (int \<times> 'o llama_context) res option" where
  "decode compute compute_row alloc_ok pr inp ctx =
     (if b_n_tokens inp = 0 then Some (Inr (-1, ctx))
      else case batch_allocr inp (if b_pos inp = None then get_pos_max (memory ctx) + 1 else -1) of
        Inl f \<Rightarrow> Some (Inl f)
      | Inr b \<Rightarrow>
          let n = nat (b_n_tokens b); n_out = count_outputs (embd_pooled pr) b in
          if \<not> (b_token b = None) \<noteq> (b_embd b = None)
            then Some (Inl (Assert_fail ''(!batch.token && batch.embd) || (batch.token && !batch.embd)''))
          else if (case b_token b of None \<Rightarrow> False
                   | Some t \<Rightarrow> \<exists>x \<in> set (take n t). x < 0 \<or> int (n_vocab pr) \<le> x)
            then Some (Inl (Throw ''invalid token''))
          else if \<not> n \<le> n_batch pr then Some (Inl (Assert_fail ''n_tokens_all <= cparams.n_batch''))
          else if \<not> (causal_attn pr \<or> n \<le> n_ubatch pr)
            then Some (Inl (Assert_fail ''non-causal attention requires n_ubatch >= n_tokens''))
          else case sbatch_init b 0 True (n_out = n) of
            Inl f \<Rightarrow> Some (Inl f)
          | Inr sb \<Rightarrow>
              let (reserved, ctx0) = output_reserve alloc_ok pr n_out ctx in
              if reserved < n_out then Some (Inr (-2, ctx0\<lparr>memory := restore (memory ctx)\<rparr>))
              else case kv_self_update pr (memory ctx) of
                Inl f \<Rightarrow> Some (Inl f)
              | Inr s1 \<Rightarrow>
                  Option.bind (decode_loop compute compute_row (n_ubatch pr) (n_out = n) n_out sb s1 [])
                    (\<lambda>r. case r of
                       Inl f \<Rightarrow> Some (Inl f)
                     | Inr (ret, sb', s2, rows, n_outs) \<Rightarrow>
                         if ret \<noteq> 0 then Some (Inr (ret, set_rows rows (ctx0\<lparr>memory := restore s2, n_outputs := n_outs\<rparr>)))
                         else case map_outputs n_out (out_ids sb') rows (output_ids ctx0) of
                           Inl f \<Rightarrow> Some (Inl f)
                         | Inr (ids', rows') \<Rightarrow>
                             let s3 = commit s2;
                                 s4 = (if defrag_thold pr > 0 then defrag_sched (defrag_thold pr) s3 else s3)
                             in Some (Inr (0, set_rows rows' (ctx0\<lparr>memory := restore s4, output_ids := ids',
                                                  n_outputs := n_outs\<rparr>)))))"

text \<open>
  \<open>get_logits_ith\<close> and \<open>get_embeddings_ith\<close>; \<open>None\<close> is the null pointer returned after an error message. (A row of
  the buffer that the last batch has not written, which a negative index can reach after a failure, is
  unspecified.)
\<close>

definition output_row :: "int \<Rightarrow> 'o llama_context \<Rightarrow> 'o list \<Rightarrow> 'o option" where
  "output_row i ctx rows =
     (let j = (if i < 0 then int (n_outputs ctx) + i
               else if int (length (output_ids ctx)) \<le> i then -1 else output_ids ctx ! nat i) in
      if j < 0 \<or> int (n_outputs ctx) \<le> j then None else Some (rows ! nat j))"

definition get_logits_ith :: "int \<Rightarrow> 'o llama_context \<Rightarrow> 'o option" where
  "get_logits_ith i ctx = (case logits ctx of None \<Rightarrow> None | Some rows \<Rightarrow> output_row i ctx rows)"

definition get_embeddings_ith :: "int \<Rightarrow> 'o llama_context \<Rightarrow> 'o option" where
  "get_embeddings_ith i ctx = (case embd ctx of None \<Rightarrow> None | Some rows \<Rightarrow> output_row i ctx rows)"

section \<open>The outputs of a micro-batch\<close>

lemma filter_nth: "filter P xs = map ((!) xs) (filter (\<lambda>i. P (xs ! i)) [0..<length xs])"
  using filter_map [of P "(!) xs" "[0..<length xs]"] by (simp add: map_nth o_def)

lemma built_outputs:
  assumes "built lall b js ub"
  shows "ubatch_outputs lall ub = length (filter (is_output lall b) js)"
    and "map ((!) js) (inp_out_ids (ubatch_outputs lall ub) ub) = filter (is_output lall b) js"
    and "set (inp_out_ids (ubatch_outputs lall ub) ub) \<subseteq> {..<n_tokens ub}"
proof -
  have n: "n_tokens ub = length js" "n_tokens ub \<le> length (ub_output ub)"
    and out: "\<And>k. k < length js \<Longrightarrow> ub_output ub ! k \<noteq> 0 \<longleftrightarrow> is_output lall b (js ! k)"
    using assms by (auto simp: built_def)
  have fil: "filter (\<lambda>i. ub_output ub ! i \<noteq> 0) [0..<n_tokens ub] = filter (\<lambda>i. is_output lall b (js ! i)) [0..<length js]"
    using out n(1) by (intro filter_cong) auto
  have cnt: "count_if (\<lambda>x. x \<noteq> 0) (take (n_tokens ub) (ub_output ub)) = length (filter (is_output lall b) js)"
  proof -
    have "take (n_tokens ub) (ub_output ub) = map ((!) (ub_output ub)) [0..<n_tokens ub]"
      using n(2) by (intro nth_equalityI) simp_all
    then have "count_if (\<lambda>x. x \<noteq> 0) (take (n_tokens ub) (ub_output ub))
        = length (filter (\<lambda>i. ub_output ub ! i \<noteq> 0) [0..<n_tokens ub])"
      by (simp add: count_if_def filter_map o_def)
    then show ?thesis unfolding fil by (simp add: filter_nth [of _ js])
  qed
  show u: "ubatch_outputs lall ub = length (filter (is_output lall b) js)"
    using cnt n(1) by (simp add: ubatch_outputs_def is_output_def)
  show "map ((!) js) (inp_out_ids (ubatch_outputs lall ub) ub) = filter (is_output lall b) js"
  proof (cases "ubatch_outputs lall ub = n_tokens ub")
    case True
    then have "filter (is_output lall b) js = js"
      using u n(1) by (metis length_filter_less less_irrefl filter_id_conv)
    then show ?thesis using True n(1) by (simp add: inp_out_ids_def map_nth)
  next
    case False
    then show ?thesis by (simp add: inp_out_ids_def fil filter_nth [of _ js])
  qed
  show "set (inp_out_ids (ubatch_outputs lall ub) ub) \<subseteq> {..<n_tokens ub}"
    by (auto simp: inp_out_ids_def)
qed

section \<open>The tokens of a batch in the cache\<close>

definition row_seqs :: "llama_batch \<Rightarrow> nat \<Rightarrow> int set" where
  "row_seqs b j = set (take (nat (the (b_n_seq_id b) ! j)) (the (b_seq_id b) ! j))"

text \<open>
  Between \<open>s\<close> and \<open>s'\<close> each of the tokens \<open>js\<close> got a cell of its own that no sequence used, with
  its position and its sequences, and nothing else changed.
\<close>

definition placed :: "llama_batch \<Rightarrow> nat list \<Rightarrow> kv_cache \<Rightarrow> kv_cache \<Rightarrow> bool" where
  "placed b js s s' \<longleftrightarrow> (\<exists>f. inj_on f (set js) \<and> (\<forall>j \<in> set js. \<forall>r p. (f j, p) \<notin> occ s r)
     \<and> (\<forall>r. occ s' r = occ s r \<union> {(f j, the (b_pos b) ! j) | j. j \<in> set js \<and> r \<in> row_seqs b j}))"

lemma placed_Nil: "placed b [] s s"
  by (simp add: placed_def)

lemma placed_append:
  assumes "placed b js1 s s1" "placed b js2 s1 s2" "set js1 \<inter> set js2 = {}"
    and ne: "\<forall>j \<in> set js1. row_seqs b j \<noteq> {}"
  shows "placed b (js1 @ js2) s s2"
proof -
  obtain f where f: "inj_on f (set js1)" "\<forall>j \<in> set js1. \<forall>r p. (f j, p) \<notin> occ s r"
    "\<And>r. occ s1 r = occ s r \<union> {(f j, the (b_pos b) ! j) | j. j \<in> set js1 \<and> r \<in> row_seqs b j}"
    using assms(1) by (auto simp: placed_def)
  obtain g where g: "inj_on g (set js2)" "\<forall>j \<in> set js2. \<forall>r p. (g j, p) \<notin> occ s1 r"
    "\<And>r. occ s2 r = occ s1 r \<union> {(g j, the (b_pos b) ! j) | j. j \<in> set js2 \<and> r \<in> row_seqs b j}"
    using assms(2) by (auto simp: placed_def)
  let ?h = "\<lambda>j. if j \<in> set js1 then f j else g j"
  have neq: "f i \<noteq> g j" if i: "i \<in> set js1" and j: "j \<in> set js2" for i j
  proof -
    obtain r where "r \<in> row_seqs b i" using ne i by blast
    then have "(f i, the (b_pos b) ! i) \<in> occ s1 r" using f(3) i by blast
    moreover have "(g j, the (b_pos b) ! i) \<notin> occ s1 r" using g(2) j by blast
    ultimately show ?thesis by metis
  qed
  have "inj_on ?h (set (js1 @ js2))"
  proof (rule inj_onI)
    fix x y assume "x \<in> set (js1 @ js2)" "y \<in> set (js1 @ js2)" "?h x = ?h y"
    then show "x = y"
      using inj_onD [OF f(1), of x y] inj_onD [OF g(1), of x y] neq [of x y] neq [of y x]
      by (auto split: if_splits)
  qed
  moreover have "\<forall>j \<in> set (js1 @ js2). \<forall>r p. (?h j, p) \<notin> occ s r"
  proof (intro ballI allI)
    fix j r p assume j: "j \<in> set (js1 @ js2)"
    have "occ s r \<subseteq> occ s1 r" using f(3) by blast
    then show "(?h j, p) \<notin> occ s r" using f(2) g(2) j by (cases "j \<in> set js1") auto
  qed
  moreover have "occ s2 r = occ s r \<union> {(?h j, the (b_pos b) ! j) | j. j \<in> set (js1 @ js2) \<and> r \<in> row_seqs b j}" for r
    unfolding g(3) f(3) using assms(3) by auto
  ultimately show ?thesis unfolding placed_def by blast
qed

lemma placed_find_slot:
  assumes inv: "kv_inv s" and blt: "built lall b js ub" and pos: "\<forall>j \<in> set js. 0 \<le> the (b_pos b) ! j"
    and dist: "distinct js" and find: "find_slot ub s = Some (True, s')"
  shows "placed b js s s'"
proof -
  have ok: "ubatch_ok ub" using built_ubatch_ok [OF blt pos] .
  have n: "n_tokens ub = length js" using built_length [OF blt] by simp
  from inv ok show ?thesis
  proof (cases rule: find_slot_cases)
    case (found h)
    have occ': "occ s' r = occ s r \<union> ubatch_occ ub h r" for r
      using found find by (intro occ_place [OF inv ok found(2)]) simp
    define f where "f j = h + (THE k. k < length js \<and> js ! k = j)" for j
    have f: "f (js ! k) = h + k" if "k < length js" for k
      using that dist by (auto simp: f_def nth_eq_iff_index_eq intro!: the_equality)
    have inj: "inj_on f (set js)" using f by (auto simp: inj_on_def in_set_conv_nth)
    have free: "(f j, p) \<notin> occ s r" if "j \<in> set js" for j p r
    proof -
      obtain k where k: "k < length js" "f j = h + k" using \<open>j \<in> set js\<close> f by (auto simp: in_set_conv_nth)
      then have "cell_ok (cells s ! f j)" "pos (cells s ! f j) < 0"
        using found(2) inv n by (auto simp: free_at_def kv_inv_def)
      then show ?thesis by (auto simp: mem_occ cell_ok_def is_empty_def)
    qed
    have row: "ub_pos ub ! k = the (b_pos b) ! (js ! k)" "token_seqs ub k = row_seqs b (js ! k)"
      if "k < length js" for k
      using blt that by (simp_all add: built_def ub_row_def batch_row_def row_seqs_def)
    have "ubatch_occ ub h r = {(f j, the (b_pos b) ! j) | j. j \<in> set js \<and> r \<in> row_seqs b j}" for r
    proof (intro set_eqI iffI)
      fix x assume "x \<in> ubatch_occ ub h r"
      then obtain k where k: "x = (h + k, ub_pos ub ! k)" "k < length js" "r \<in> token_seqs ub k"
        by (auto simp: ubatch_occ_def n)
      then show "x \<in> {(f j, the (b_pos b) ! j) | j. j \<in> set js \<and> r \<in> row_seqs b j}"
        using f [OF k(2)] row [OF k(2)] by (intro CollectI exI [of _ "js ! k"]) simp
    next
      fix x assume "x \<in> {(f j, the (b_pos b) ! j) | j. j \<in> set js \<and> r \<in> row_seqs b j}"
      then obtain k where k: "k < length js" "x = (f (js ! k), the (b_pos b) ! (js ! k))" "r \<in> row_seqs b (js ! k)"
        by (auto simp: in_set_conv_nth)
      then show "x \<in> ubatch_occ ub h r"
        using f [OF k(1)] row [OF k(1)] n by (auto simp: ubatch_occ_def)
    qed
    then show ?thesis using inj free occ' unfolding placed_def by blast
  next
    case (none h)
    then show ?thesis using find by simp
  qed
qed

section \<open>The loop\<close>

lemma pending_simple:
  assumes "wf_simple sb" "sb_batch sb = Some b"
  shows "distinct (pending_ids sb)" "set (pending_ids sb) \<subseteq> {..<nat (b_n_tokens b)}"
    "\<forall>j \<in> set (pending_ids sb). row_seqs b j \<noteq> {}"
proof -
  show "distinct (pending_ids sb)" and sub: "set (pending_ids sb) \<subseteq> {..<nat (b_n_tokens b)}"
    using assms by (auto simp: wf_simple_def pending_ids_def seq_ids_of_def dest!: in_set_takeD in_set_dropD)
  have "batch_wf b" using assms by (auto simp: wf_simple_def)
  then have "row_seqs b j \<noteq> {}" if "j < nat (b_n_tokens b)" for j
    using that by (force simp: batch_wf_def Let_def row_seqs_def)
  then show "\<forall>j \<in> set (pending_ids sb). row_seqs b j \<noteq> {}" using sub by auto
qed

text \<open>A row the graph computed for an entry that holds the token \<open>j\<close> of the batch.\<close>

definition row_of ::
  "(llama_ubatch \<Rightarrow> kv_cache \<Rightarrow> nat \<Rightarrow> 'o) \<Rightarrow> llama_batch \<Rightarrow> nat \<Rightarrow> 'o \<Rightarrow> bool" where
  "row_of compute_row b j x \<longleftrightarrow>
     (\<exists>ub s k. k < n_tokens ub \<and> ub_row ub k = batch_row b j \<and> x = compute_row ub s k)"

lemma built_rows:
  assumes "built lall b js ub"
  shows "list_all2 (row_of compute_row b) (filter (is_output lall b) js)
    (map (compute_row ub s) (inp_out_ids (ubatch_outputs lall ub) ub))"
proof -
  let ?ks = "inp_out_ids (ubatch_outputs lall ub) ub"
  have "row_of compute_row b (js ! k) (compute_row ub s k)" if "k \<in> set ?ks" for k
    unfolding row_of_def
    by (rule exI [of _ ub], rule exI [of _ s], rule exI [of _ k])
      (use assms built_outputs(3) [OF assms] that in \<open>auto simp: built_def\<close>)
  then show ?thesis
    unfolding built_outputs(2) [OF assms, symmetric] by (simp add: list_all2_conv_all_nth)
qed

lemma find_slot_flags:
  assumes "find_slot ub s = Some (b, s')"
  shows "do_defrag s' = do_defrag s" "can_shift s' = can_shift s"
  using assms by (auto simp: find_slot_def Let_def split: if_splits option.splits bool.splits)

text \<open>A compute graph that never fails, and a cache without an empty cell.\<close>

definition graph_ok :: "(llama_ubatch \<Rightarrow> kv_cache \<Rightarrow> compute_status) \<Rightarrow> bool" where
  "graph_ok compute \<longleftrightarrow> (\<forall>ub s. compute ub s = Status_success)"

definition kv_full :: "kv_cache \<Rightarrow> bool" where
  "kv_full s \<longleftrightarrow> (\<forall>c \<in> set (cells s). \<not> is_empty c)"

lemma kv_full_content: "kv_full s \<Longrightarrow> length (cells s) = size (kv_content s)"
proof -
  assume "kv_full s"
  then have "{#c \<in># mset (cells s). \<not> is_empty c#} = mset (cells s)"
    by (simp add: kv_full_def filter_mset_eq_conv)
  then show ?thesis by (simp add: kv_content_def)
qed

lemma find_slot_one:
  assumes inv: "kv_inv s" and ok: "ubatch_ok ub" and "find_slot ub s = Some (False, s')" "n_tokens ub = 1"
  shows "kv_full s"
  using inv ok
proof (cases rule: find_slot_cases)
  case (none h)
  have "\<not> is_empty (cells s ! j)" if "j < length (cells s)" for j
  proof -
    have "cell_ok (cells s ! j)" using inv that by (simp add: kv_inv_def)
    then show ?thesis
      using none(3) [rule_format, of j] assms(4) that \<open>cell_ok (cells s ! j)\<close> by (auto simp: free_at_def cell_ok_def)
  qed
  then show ?thesis by (auto simp: kv_full_def in_set_conv_nth)
qed (use assms(3) in simp)

lemma decode_loop_total:
  fixes compute_row :: "llama_ubatch \<Rightarrow> kv_cache \<Rightarrow> nat \<Rightarrow> 'o"
  assumes "wf_simple sb" "sb_batch sb = Some b" "0 < nub" "logits_all sb = lall"
    and "\<forall>j < nat (b_n_tokens b). 0 \<le> the (b_pos b) ! j"
    and "ahead_of s0 s" "length rows + length (filter (is_output lall b) (pending_ids sb)) \<le> n_out"
    and "list_all2 (row_of compute_row b) (out_ids sb) rows"
  shows "\<exists>ret sb' s' rows' n'. decode_loop compute compute_row nub lall n_out sb s rows = Some (Inr (ret, sb', s', rows', n'))
    \<and> (ret = 0 \<longrightarrow> n' = n_out) \<and> ret \<in> {0, 1, 2, -2, -3} \<and> ahead_of s0 s' \<and> do_defrag s' = do_defrag s \<and> can_shift s' = can_shift s
    \<and> (ret = 0 \<longrightarrow> placed b (pending_ids sb) s s'
         \<and> out_ids sb' = out_ids sb @ filter (is_output lall b) (pending_ids sb)
         \<and> list_all2 (row_of compute_row b) (out_ids sb') rows')
    \<and> (sb_n_tokens sb = 0 \<longrightarrow> ret = 0)
    \<and> (graph_ok compute \<longrightarrow> ret \<in> {0, 1} \<and> (ret = 1 \<and> sb_n_tokens sb = 1 \<longrightarrow> kv_full s))"
  using assms
proof (induction "sb_n_tokens sb" arbitrary: sb s rows rule: less_induct)
  case less
  note prems = less.prems
  show ?case
  proof (cases "sb_n_tokens sb = 0")
    case True
    then have "pending_ids sb = []" using length_pending_simple [OF prems(1)] by simp
    then show ?thesis
      using True prems(6,8) placed_Nil by (subst decode_loop.simps) auto
  next
    case False
    then have pos: "0 < sb_n_tokens sb" by simp
    obtain sb1 ub js where sp: "split_simple nub sb = Inr (sb1, ub)" "wf_simple sb1"
      "built (logits_all sb) b js ub" "same_source sb sb1" "js \<noteq> []" "length js \<le> nub"
      "pending_ids sb = js @ pending_ids sb1" "sb_n_tokens sb1 = sb_n_tokens sb - length js"
      "out_ids sb1 = out_ids sb @ filter (is_output (logits_all sb) b) js"
      by (rule split_simple_step [OF prems(1,3) pos prems(2)])
    note pend = pending_simple [OF prems(1,2)]
    have js: "\<forall>j \<in> set js. 0 \<le> the (b_pos b) ! j" "distinct js"
      using pend sp(7) prems(5) by (auto simp: subset_iff)
    have blt: "built lall b js ub" using sp(3) prems(4) by simp
    have inv: "kv_inv s" using prems(6) by (simp add: ahead_of_def)
    have ok: "ubatch_ok ub" by (rule built_ubatch_ok [OF blt js(1)])
    obtain fnd s1 where fs: "find_slot ub s = Some (fnd, s1)" by (rule find_slot_cases [OF inv ok]) auto
    have ahead: "ahead_of s0 s1" by (rule ahead_of_find_slot [OF prems(6) ok fs])
    note flags = find_slot_flags [OF fs]
    let ?rows = "rows @ map (compute_row ub s1) (inp_out_ids (ubatch_outputs lall ub) ub)"
    show ?thesis
    proof (cases "fnd \<and> compute ub s1 = Status_success")
      case False
      have "kv_full s" if "graph_ok compute" "sb_n_tokens sb = 1"
      proof -
        have "length js = 1" using sp(5,7) length_pending_simple [OF prems(1)] that(2) by (cases js) auto
        then have "n_tokens ub = 1" using built_length [OF blt] by simp
        moreover have "\<not> fnd" using False that(1) by (simp add: graph_ok_def)
        ultimately show ?thesis using find_slot_one [OF inv ok] fs by simp
      qed
      then show ?thesis
        using False pos sp(1) fs ahead flags by (subst decode_loop.simps) (auto simp: graph_ok_def split: compute_status.splits)
    next
      case True
      have outs: "ubatch_outputs lall ub = length (filter (is_output lall b) js)" by (rule built_outputs(1) [OF blt])
      have len: "length ?rows = length rows + length (filter (is_output lall b) js)"
        using built_outputs(2) [OF blt] by (metis length_append length_map)
      have eq: "decode_loop compute compute_row nub lall n_out sb s rows
          = decode_loop compute compute_row nub lall n_out sb1 s1 ?rows"
        using pos sp(1,7) fs True prems(7) outs by (subst decode_loop.simps) simp
      have sb1: "sb_batch sb1 = Some b" "logits_all sb1 = lall" "sb_n_tokens sb1 < sb_n_tokens sb"
        using sp(4,5,8) prems(2,4) pos by (auto simp: same_source_def)
      have rows: "list_all2 (row_of compute_row b) (out_ids sb1) ?rows"
        using prems(4,8) built_rows [OF blt, of compute_row s1] by (simp add: sp(9) list_all2_appendI)
      have rest: "length ?rows + length (filter (is_output lall b) (pending_ids sb1)) \<le> n_out"
        using prems(7) sp(7) len by simp
      obtain ret sb' s' rows' n' where IH:
        "decode_loop compute compute_row nub lall n_out sb1 s1 ?rows = Some (Inr (ret, sb', s', rows', n'))"
        "ret \<in> {0, 1, 2, -2, -3}" "ahead_of s0 s'" "do_defrag s' = do_defrag s1" "can_shift s' = can_shift s1"
        "ret = 0 \<longrightarrow> placed b (pending_ids sb1) s1 s' \<and> out_ids sb' = out_ids sb1 @ filter (is_output lall b) (pending_ids sb1)
           \<and> list_all2 (row_of compute_row b) (out_ids sb') rows'"
        "sb_n_tokens sb1 = 0 \<longrightarrow> ret = 0" "graph_ok compute \<longrightarrow> ret \<in> {0, 1}" "ret = 0 \<longrightarrow> n' = n_out"
        using less.hyps [OF sb1(3) sp(2) sb1(1) prems(3) sb1(2) prems(5) ahead rest rows]
        by (elim exE conjE) (rule that; assumption?; blast)
      have "sb_n_tokens sb = 1 \<Longrightarrow> ret = 0" using IH(7) sp(5,8) by (cases js) simp_all
      then have one: "graph_ok compute \<longrightarrow> ret = 1 \<and> sb_n_tokens sb = 1 \<longrightarrow> kv_full s" by auto
      have outs': "ret = 0 \<longrightarrow> list_all2 (row_of compute_row b)
          (out_ids sb @ filter (is_output lall b) js @ filter (is_output lall b) (pending_ids sb1)) rows'"
        using IH(6) sp(9) prems(4) by auto
      have "placed b js s s1" using placed_find_slot [OF inv blt js] fs True by simp
      moreover have "\<forall>j \<in> set js. row_seqs b j \<noteq> {}" using pend sp(7) by auto
      moreover have "set js \<inter> set (pending_ids sb1) = {}" using pend(1) sp(7) by simp
      ultimately have "ret = 0 \<longrightarrow> placed b (pending_ids sb) s s'"
        using IH(6) placed_append sp(7) by metis
      then show ?thesis
        unfolding eq using IH(1-6,8,9) one outs' pos flags prems(4) sp(7,9)
        by (intro exI [of _ ret] exI [of _ sb'] exI [of _ s'] exI [of _ rows'] exI [of _ n']) simp
    qed
  qed
qed

section \<open>The order of the outputs\<close>

lemma min_index_spec:
  assumes "i < length xs"
  shows "i \<le> min_index xs i \<and> min_index xs i < length xs
    \<and> (\<forall>j. i \<le> j \<and> j < length xs \<longrightarrow> xs ! min_index xs i \<le> xs ! j)"
proof -
  let ?f = "\<lambda>j j_min. if xs ! j < xs ! j_min then j else j_min"
  have "i \<le> fold ?f [i + 1..<m] i \<and> fold ?f [i + 1..<m] i < m
      \<and> (\<forall>j. i \<le> j \<and> j < m \<longrightarrow> xs ! fold ?f [i + 1..<m] i \<le> xs ! j)" if "i + 1 \<le> m" for m
    using that
  proof (induction m rule: dec_induct)
    case base
    then show ?case by (auto simp: le_less_Suc_eq)
  next
    case (step m)
    then show ?case by (auto simp: less_Suc_eq intro: order.trans less_imp_le dest: order.strict_trans1)
  qed
  from this [of "length xs"] show ?thesis using assms by (simp add: min_index_def)
qed

lemma length_swap_at [simp]: "length (swap_at i j xs) = length xs"
  by (simp add: swap_at_def)

lemma nth_swap_at:
  "i < length xs \<Longrightarrow> j < length xs \<Longrightarrow> k < length xs \<Longrightarrow>
   swap_at i j xs ! k = xs ! (if k = j then i else if k = i then j else k)"
  by (simp add: swap_at_def nth_list_update)

lemma zip_swap_at:
  assumes "length xs = length ys" "i < length xs" "j < length xs"
  shows "mset (zip (swap_at i j xs) (swap_at i j ys)) = mset (zip xs ys)"
proof -
  have "zip (swap_at i j xs) (swap_at i j ys) = swap_at i j (zip xs ys)"
    using assms by (simp add: swap_at_def update_zip)
  also have "mset \<dots> = mset (zip xs ys)"
    using assms mset_swap [of j "zip xs ys" i] by (simp add: swap_at_def)
  finally show ?thesis .
qed

definition sorted_upto :: "nat \<Rightarrow> nat list \<Rightarrow> bool" where
  "sorted_upto k xs \<longleftrightarrow> (\<forall>x y. x < k \<and> x \<le> y \<and> y < length xs \<longrightarrow> xs ! x \<le> xs ! y)"

lemma select_step_spec:
  assumes "length (fst st) = length (snd st)" "i < length (fst st)" "sorted_upto i (fst st)"
  shows "length (fst (select_step i st)) = length (fst st)"
    and "length (snd (select_step i st)) = length (snd st)"
    and "mset (zip (fst (select_step i st)) (snd (select_step i st))) = mset (zip (fst st) (snd st))"
    and "sorted_upto (Suc i) (fst (select_step i st))"
proof -
  obtain xs ys where st: "st = (xs, ys)" by fastforce
  define m where "m = min_index xs i"
  have m: "i \<le> m" "m < length xs" "\<forall>j. i \<le> j \<and> j < length xs \<longrightarrow> xs ! m \<le> xs ! j"
    using min_index_spec [of i xs] assms(2) by (auto simp: st m_def)
  have step: "select_step i st = (if m = i then (xs, ys) else (swap_at i m xs, swap_at i m ys))"
    by (simp add: st select_step_def m_def Let_def)
  show "length (fst (select_step i st)) = length (fst st)" "length (snd (select_step i st)) = length (snd st)"
    unfolding step by (simp_all add: st)
  show "mset (zip (fst (select_step i st)) (snd (select_step i st))) = mset (zip (fst st) (snd st))"
    unfolding step using zip_swap_at [of xs ys i m] assms m by (simp add: st)
  have "swap_at i m xs ! x \<le> swap_at i m xs ! y" if "x < Suc i" "x \<le> y" "y < length xs" for x y
    using that m assms(2,3) by (auto simp: st nth_swap_at sorted_upto_def less_Suc_eq)
  moreover have "swap_at i i xs = xs" by (simp add: swap_at_def)
  ultimately have "sorted_upto (Suc i) (swap_at i m xs)" by (auto simp: sorted_upto_def)
  then show "sorted_upto (Suc i) (fst (select_step i st))"
    unfolding step using \<open>swap_at i i xs = xs\<close> by auto
qed

lemma sort_outputs_spec:
  assumes "length oids = length rows" "sort_outputs oids rows = (oids', rows')"
  shows "sorted oids'" "length oids' = length rows'" "mset (zip oids' rows') = mset (zip oids rows)"
    "mset oids' = mset oids"
proof -
  let ?st = "\<lambda>k. fold select_step [0..<k] (oids, rows)"
  have inv: "length (fst (?st k)) = length oids \<and> length (snd (?st k)) = length rows
      \<and> mset (zip (fst (?st k)) (snd (?st k))) = mset (zip oids rows) \<and> sorted_upto k (fst (?st k))"
    if "k \<le> length oids" for k
    using that
  proof (induction k)
    case (Suc k)
    then show ?case using select_step_spec [of "?st k" k] assms(1) by auto
  qed (simp add: sorted_upto_def)
  have r: "?st (length oids - 1) = (oids', rows')" using assms(2) by (simp add: sort_outputs_def)
  then have res: "length oids' = length oids" "length rows' = length rows"
    "mset (zip oids' rows') = mset (zip oids rows)" "sorted_upto (length oids - 1) oids'"
    using inv [of "length oids - 1"] by auto
  show "length oids' = length rows'" "mset (zip oids' rows') = mset (zip oids rows)" using res assms(1) by simp_all
  show "sorted oids'"
    unfolding sorted_iff_nth_mono
  proof (intro allI impI)
    fix x y assume xy: "x \<le> y" "y < length oids'"
    show "oids' ! x \<le> oids' ! y"
    proof (cases "x < length oids - 1")
      case True
      then show ?thesis using res(4) xy by (simp add: sorted_upto_def)
    next
      case False
      then have "x = y" using xy res(1) by linarith
      then show ?thesis by simp
    qed
  qed
  have "mset (map fst (zip oids' rows')) = mset (map fst (zip oids rows))"
    using res(3) by (metis mset_map)
  then show "mset oids' = mset oids" using res(1,2) assms(1) by simp
qed

lemma set_output_ids_nth:
  assumes "distinct oids" "\<forall>j \<in> set oids. j < length ids"
  shows "length (set_output_ids oids ids) = length ids"
    and "i < length oids \<Longrightarrow> set_output_ids oids ids ! (oids ! i) = int i"
    and "j < length ids \<Longrightarrow> j \<notin> set oids \<Longrightarrow> set_output_ids oids ids ! j = ids ! j"
proof -
  let ?f = "\<lambda>m. fold (\<lambda>i xs. xs[oids ! i := int i]) [0..<m] ids"
  have "length (?f m) = length ids \<and> (\<forall>i < m. ?f m ! (oids ! i) = int i)
     \<and> (\<forall>j < length ids. j \<notin> set oids \<longrightarrow> ?f m ! j = ids ! j)" if "m \<le> length oids" for m
    using that
  proof (induction m)
    case (Suc m)
    then have "oids ! m \<noteq> oids ! i" if "i < m" for i using that assms(1) by (simp add: nth_eq_iff_index_eq)
    then show ?case using Suc assms(2) by (auto simp: nth_list_update less_Suc_eq)
  qed simp
  from this [of "length oids"]
  show "length (set_output_ids oids ids) = length ids"
    "i < length oids \<Longrightarrow> set_output_ids oids ids ! (oids ! i) = int i"
    "j < length ids \<Longrightarrow> j \<notin> set oids \<Longrightarrow> set_output_ids oids ids ! j = ids ! j"
    by (auto simp: set_output_ids_def)
qed

lemma list_all2_zip: "length xs = length ys \<Longrightarrow> list_all2 R xs ys \<longleftrightarrow> (\<forall>(x, y) \<in> set (zip xs ys). R x y)"
  by (simp add: list_all2_iff)

text \<open>
  The mapping: \<open>oids'\<close> lists the output tokens in the order of the batch, the rows follow this
  order, and \<open>output_ids\<close> sends a token to its place, any other token to -1.
\<close>

lemma map_outputs_correct:
  assumes "distinct oids" "\<forall>j \<in> set oids. j < length ids" "length oids = n_out"
    and "list_all2 R oids rows" "\<forall>x \<in> set ids. x = -1"
  obtains ids' rows' oids' where
    "map_outputs n_out oids rows ids = Inr (ids', rows')" "length ids' = length ids"
    "sorted oids'" "mset oids' = mset oids" "list_all2 R oids' rows'"
    "\<forall>i < n_out. ids' ! (oids' ! i) = int i" "\<forall>j < length ids. j \<notin> set oids \<longrightarrow> ids' ! j = -1"
proof (cases "\<forall>i \<in> set [0..<length oids]. oids ! i = i")
  case True
  have "sorted oids" unfolding sorted_iff_nth_mono using True by simp
  moreover have "map_outputs n_out oids rows ids = Inr (set_output_ids oids ids, rows)"
    unfolding map_outputs_def Let_def using True assms(3) by simp
  ultimately show thesis
    using assms set_output_ids_nth [OF assms(1,2)] by (intro that [of "set_output_ids oids ids" rows oids]) auto
next
  case False
  obtain oids' rows' where srt: "sort_outputs oids rows = (oids', rows')" by fastforce
  have len: "length oids = length rows" using assms(4) by (rule list_all2_lengthD)
  note so = sort_outputs_spec [OF len srt]
  have eq: "set oids' = set oids" using so(4) by (metis set_mset_mset)
  have "distinct oids'" using so(4) assms(1) by (metis mset_eq_imp_distinct_iff)
  define ids1 where "ids1 = map (\<lambda>_. - 1 :: int) (set_output_ids oids ids)"
  have ids1: "length ids1 = length ids" "\<forall>x \<in> set ids1. x = -1"
    using set_output_ids_nth(1) [OF assms(1,2)] by (auto simp: ids1_def)
  note fin = set_output_ids_nth [OF \<open>distinct oids'\<close>, of ids1, unfolded eq ids1(1), OF assms(2)]
  have "set (zip oids' rows') = set (zip oids rows)" using so(3) by (metis set_mset_mset)
  then have "list_all2 R oids' rows'" using assms(4) len so(2) by (simp add: list_all2_zip)
  moreover have "map_outputs n_out oids rows ids = Inr (set_output_ids oids' ids1, rows')"
    unfolding map_outputs_def Let_def using False assms(3) srt by (auto simp: ids1_def)
  moreover have "length oids' = n_out" using so(4) assms(3) by (metis size_mset)
  ultimately show thesis
    using so fin ids1 by (intro that [of "set_output_ids oids' ids1" rows' oids']) auto
qed

lemma count_outputs_spec:
  assumes "batch_wf b" "b_logits b \<noteq> None" "n = nat (b_n_tokens b)"
  shows "length (filter (is_output (count_outputs pooled b = n) b) [0..<n]) = count_outputs pooled b"
proof -
  obtain lg where lg: "b_logits b = Some lg" using assms(2) by blast
  have len: "n \<le> length lg" using assms lg by (simp add: batch_wf_def Let_def)
  have take: "take n lg = map ((!) lg) [0..<n]" using len by (intro nth_equalityI) simp_all
  show ?thesis
  proof (cases "count_outputs pooled b = n")
    case True
    then show ?thesis by (simp add: is_output_def)
  next
    case False
    then have "\<not> pooled" using lg assms(3) by (auto simp: count_outputs_def)
    then have "count_outputs pooled b = count_if (\<lambda>x. x \<noteq> 0) (take n lg)" using lg assms(3) by (simp add: count_outputs_def)
    then have "count_outputs pooled b = length (filter (\<lambda>j. lg ! j \<noteq> 0) [0..<n])"
      by (simp add: take count_if_def filter_map o_def)
    moreover have "is_output False b = (\<lambda>j. lg ! j \<noteq> 0)" using lg by (simp add: fun_eq_iff is_output_def)
    ultimately show ?thesis using False by simp
  qed
qed

lemma get_pos_max_ge: "-1 \<le> get_pos_max s"
proof -
  have "a \<le> fold (\<lambda>c m. max m (pos c)) cs a" for a and cs :: "kv_cell list"
    by (induction cs arbitrary: a) (auto intro: order.trans max.cobounded1)
  then show ?thesis by (simp add: get_pos_max_def)
qed

section \<open>Properties\<close>

text \<open>
  A cache between batches: the pending ranges, which \<open>restore\<close> leaves in place, cover only empty cells, and
  no defragmentation is scheduled while there are any.
\<close>

definition settled :: "kv_cache \<Rightarrow> bool" where
  "settled s \<longleftrightarrow> kv_inv s \<and> (\<forall>j < length (cells s). covered (ranges s) j \<longrightarrow> is_empty (cells s ! j))
     \<and> (do_defrag s \<longrightarrow> ranges s = [])"

lemma settled_no_ranges: "kv_inv s \<Longrightarrow> ranges s = [] \<Longrightarrow> settled s"
  by (simp add: settled_def covered_def)

lemma settled_ahead: "settled s \<Longrightarrow> ahead_of s s"
  using wiped_empty by (auto simp: settled_def ahead_of_def kv_inv_def)

lemma ahead_of_settled:
  assumes "kv_inv s" "ahead_of s s'" "\<not> do_defrag s'"
  shows "settled (restore s')"
proof -
  have "cells (restore s') = cells s" by (rule conjunct1 [OF ahead_of_restore [OF assms(1,2)]])
  moreover have "ranges (restore s') = ranges s'" "do_defrag (restore s') = do_defrag s'"
    by (simp_all add: restore_def split: prod.split)
  moreover have "kv_inv (restore s')" using assms(2) kv_inv_restore by (simp add: ahead_of_def)
  ultimately show ?thesis using assms(2,3) by (auto simp: settled_def ahead_of_def)
qed

text \<open>The batches and contexts \<open>decode\<close> accepts without an assertion or an exception.\<close>

definition decode_ok :: "decode_params \<Rightarrow> llama_batch \<Rightarrow> 'o llama_context \<Rightarrow> bool" where
  "decode_ok pr inp ctx \<longleftrightarrow>
     settled (memory ctx) \<and> can_shift (memory ctx) \<and> n_layer_ok (n_layer pr)
     \<and> 0 < n_ubatch pr \<and> output_ids ctx \<in> {ids. ids = [] \<or> length ids = n_batch pr}
     \<and> 0 < b_n_tokens inp \<and> user_batch_ok inp
     \<and> (\<forall>ps. b_pos inp = Some ps \<longrightarrow> (\<forall>j < nat (b_n_tokens inp). 0 \<le> ps ! j))
     \<and> (\<forall>t. b_token inp = Some t \<longrightarrow> (\<forall>x \<in> set (take (nat (b_n_tokens inp)) t). 0 \<le> x \<and> x < int (n_vocab pr)))
     \<and> nat (b_n_tokens inp) \<le> n_batch pr
     \<and> (causal_attn pr \<or> nat (b_n_tokens inp) \<le> n_ubatch pr)"

definition completed :: "llama_batch \<Rightarrow> 'o llama_context \<Rightarrow> llama_batch" where
  "completed inp ctx =
     (case batch_allocr inp (if b_pos inp = None then get_pos_max (memory ctx) + 1 else -1) of
        Inr b \<Rightarrow> b | Inl _ \<Rightarrow> inp)"

lemma completed_ok:
  assumes "decode_ok pr inp ctx"
  shows "batch_allocr inp (if b_pos inp = None then get_pos_max (memory ctx) + 1 else -1) = Inr (completed inp ctx)"
    and "batch_wf (completed inp ctx)" "b_n_tokens (completed inp ctx) = b_n_tokens inp"
    "b_logits (completed inp ctx) \<noteq> None" "b_token (completed inp ctx) = b_token inp"
    and "\<forall>j < nat (b_n_tokens inp). 0 \<le> the (b_pos (completed inp ctx)) ! j"
proof -
  let ?p0 = "if b_pos inp = None then get_pos_max (memory ctx) + 1 else -1"
  have ok: "user_batch_ok inp" "0 < b_n_tokens inp" using assms by (auto simp: decode_ok_def)
  then obtain b where b: "batch_allocr inp ?p0 = Inr b" by (auto simp: batch_allocr_def Let_def)
  then have [simp]: "completed inp ctx = b" by (simp add: completed_def)
  note al = batch_allocr_wf [OF ok(1) b]
  show "batch_allocr inp ?p0 = Inr (completed inp ctx)" "batch_wf (completed inp ctx)"
    "b_n_tokens (completed inp ctx) = b_n_tokens inp" "b_logits (completed inp ctx) \<noteq> None"
    "b_token (completed inp ctx) = b_token inp"
    using b al by simp_all
  show "\<forall>j < nat (b_n_tokens inp). 0 \<le> the (b_pos (completed inp ctx)) ! j"
    using al(6) assms get_pos_max_ge [of "memory ctx"] by (auto simp: decode_ok_def split: option.splits)
qed

lemma kv_self_update_total:
  assumes "settled s" "can_shift s" "n_layer_ok (n_layer pr)"
  obtains s1 where "kv_self_update pr s = Inr s1" "kv_inv s1" "ahead_of s1 s1" "\<not> do_defrag s1" "can_shift s1"
    "kv_content s1 = kv_content s" "kv_size s1 = kv_size s"
proof -
  have inv: "kv_inv s" using assms(1) by (simp add: settled_def)
  obtain r s' where u: "kv_update (has_rope pr) (n_layer pr) (max_nodes pr) s = Inr (r, s')"
    "ranges s' = ranges s" "kv_content s' = kv_content s" "\<not> do_defrag s'"
    using kv_update_total [OF inv assms(2,3)] by blast
  have inv': "kv_inv s'" by (rule kv_inv_update [OF inv assms(3) u(1)])
  have "can_shift s'" "kv_size s' = kv_size s"
    using u(1) assms(2) by (auto simp: kv_update_def bind_res_eq_Inr defrag_prepare_def Let_def split: if_splits sum.splits prod.splits)
  have "settled s'"
  proof (cases "do_defrag s")
    case True
    then show ?thesis using assms(1) u(2) settled_no_ranges [OF inv'] by (simp add: settled_def)
  next
    case False
    then have "cells s' = cells s \<or> cells s' = map (\<lambda>c. c\<lparr>delta := 0\<rparr>) (cells s)"
      using u(1) by (auto simp: kv_update_def split: if_splits)
    then show ?thesis using assms(1) inv' u(2,4) by (auto simp: settled_def is_empty_def)
  qed
  then have "settled (set_full s')" using kv_inv_flags(1) [OF inv'] by (simp add: settled_def set_full_def)
  then show thesis
    using u inv' kv_inv_flags(1) [of s'] \<open>can_shift s'\<close> \<open>settled s'\<close> \<open>kv_size s' = kv_size s\<close> settled_ahead
    by (intro that [of "if r then set_full s' else s'"]) (auto simp: kv_self_update_def set_full_def kv_content_def)
qed

lemma occ_cells: "cells s = cells s' \<Longrightarrow> occ s = occ s'"
  by (simp add: occ_def fun_eq_iff)

lemma finish_memory:
  fixes th :: real
  assumes "kv_inv s"
  defines "s' \<equiv> restore (if 0 < th then defrag_sched th (commit s) else commit s)"
  shows "cells s' = cells s" "kv_inv s'" "ranges s' = []" "can_shift s' = can_shift s"
proof -
  have "ranges (commit s) = []" "cells (commit s) = cells s" "can_shift (commit s) = can_shift s"
    by (auto simp: commit_def)
  then show "cells s' = cells s" "ranges s' = []" "can_shift s' = can_shift s"
    by (auto simp: s'_def restore_def defrag_sched_def)
  show "kv_inv s'"
    using kv_inv_commit [OF assms(1)] kv_inv_flags(2) kv_inv_restore by (auto simp: s'_def)
qed

lemma is_output_pooled:
  assumes "batch_wf b" "b_logits b \<noteq> None" "n = nat (b_n_tokens b)" "j < n"
  shows "is_output (count_outputs pooled b = n) b j = is_output pooled b j"
proof (cases "count_outputs pooled b = n")
  case True
  obtain lg where lg: "b_logits b = Some lg" using assms(2) by blast
  then have len: "n \<le> length lg" using assms(1,3) by (simp add: batch_wf_def Let_def)
  have "lg ! j \<noteq> 0" if "\<not> pooled"
  proof -
    have "length (filter (\<lambda>x. x \<noteq> 0) (take n lg)) = length (take n lg)"
      using True that lg len assms(3) by (simp add: count_outputs_def count_if_def)
    then have "\<forall>x \<in> set (take n lg). x \<noteq> 0" by (rule length_filter_all)
    then show ?thesis using nth_mem [of j "take n lg"] assms(4) len by auto
  qed
  then show ?thesis using True lg by (auto simp: is_output_def)
next
  case False
  then have "\<not> pooled" using assms(2,3) by (auto simp: count_outputs_def)
  then show ?thesis using False by simp
qed

text \<open>What a reader of the outputs gets from the mapping.\<close>

lemma output_row_mapped:
  assumes "sorted oids'" "set oids' = {j. j < n \<and> P j}" "list_all2 R oids' rows"
    and "\<forall>i < length oids'. output_ids ctx ! (oids' ! i) = int i"
    and "\<forall>j < length (output_ids ctx). j \<notin> set oids' \<longrightarrow> output_ids ctx ! j = -1"
    and "n \<le> length (output_ids ctx)" "n_outputs ctx = length oids'" "j < n"
  shows "case output_row (int j) ctx rows of Some x \<Rightarrow> P j \<and> R j x | None \<Rightarrow> \<not> P j"
proof (cases "P j")
  case True
  then obtain i where i: "i < length oids'" "oids' ! i = j" using assms(2,8) by (metis (mono_tags) in_set_conv_nth mem_Collect_eq)
  then have "output_row (int j) ctx rows = Some (rows ! i)"
    using assms by (auto simp: output_row_def Let_def)
  then show ?thesis using True i assms(3) by (auto dest: list_all2_nthD)
next
  case False
  then have "j \<notin> set oids'" using assms(2) by simp
  then have "output_ids ctx ! j = -1" using assms(5,6,8) by simp
  then have "output_row (int j) ctx rows = None" using assms(6,8) by (simp add: output_row_def)
  then show ?thesis using False by simp
qed

text \<open>The successful end of \<open>decode\<close>.\<close>

definition decode_end ::
  "decode_params \<Rightarrow> nat \<Rightarrow> 'o llama_context \<Rightarrow> kv_cache \<Rightarrow> int list \<Rightarrow> 'o list \<Rightarrow> 'o llama_context" where
  "decode_end pr n_out ctx0 s2 ids rows =
     set_rows rows (ctx0\<lparr>memory := restore (if 0 < defrag_thold pr then defrag_sched (defrag_thold pr) (commit s2) else commit s2),
          output_ids := ids, n_outputs := n_out\<rparr>)"

lemma set_rows_simps [simp]:
  "memory (set_rows rows ctx) = memory ctx" "output_ids (set_rows rows ctx) = output_ids ctx" "n_outputs (set_rows rows ctx) = n_outputs ctx"
  "logits (set_rows rows ctx) = map_option (\<lambda>_. rows) (logits ctx)" "embd (set_rows rows ctx) = map_option (\<lambda>_. rows) (embd ctx)"
  by (simp_all add: set_rows_def)

lemma decode_steps:
  fixes ctx :: "'o llama_context" and compute_row :: "llama_ubatch \<Rightarrow> kv_cache \<Rightarrow> nat \<Rightarrow> 'o"
    and alloc_ok :: bool
  assumes ok: "decode_ok pr inp ctx"
  defines "b \<equiv> completed inp ctx" and "n \<equiv> nat (b_n_tokens inp)"
  defines "n_out \<equiv> count_outputs (embd_pooled pr) b"
  defines "ctx0 \<equiv> snd (output_reserve alloc_ok pr n_out ctx)"
  obtains (reserve) "decode compute compute_row alloc_ok pr inp ctx = Some (Inr (-2, ctx0\<lparr>memory := restore (memory ctx)\<rparr>))"
      "\<not> alloc_ok"
  | (failed) ret s1 s2 rows k where
      "decode compute compute_row alloc_ok pr inp ctx = Some (Inr (ret, set_rows rows (ctx0\<lparr>memory := restore s2, n_outputs := k\<rparr>)))"
      "ret \<in> {1, 2, -2, -3}" "kv_inv s1" "ahead_of s1 s2" "kv_content s1 = kv_content (memory ctx)"
      "\<not> do_defrag s2" "can_shift s2" "kv_size s1 = kv_size (memory ctx)"
      "graph_ok compute \<longrightarrow> ret = 1 \<and> (n = 1 \<longrightarrow> kv_full s1)"
  | (success) s1 s2 rows ids rows' where
      "decode compute compute_row alloc_ok pr inp ctx = Some (Inr (0, decode_end pr n_out ctx0 s2 ids rows'))"
      "kv_inv s1" "kv_content s1 = kv_content (memory ctx)" "ahead_of s1 s2" "placed b [0..<n] s1 s2" "can_shift s2" "kv_size s1 = kv_size (memory ctx)"
      "alloc_ok \<or> n_out = 0"
      "map_outputs n_out (filter (is_output (n_out = n) b) [0..<n]) rows (output_ids ctx0) = Inr (ids, rows')"
      "list_all2 (row_of compute_row b) (filter (is_output (n_out = n) b) [0..<n]) rows"
proof -
  note c = completed_ok [OF ok, folded b_def]
  have n: "nat (b_n_tokens b) = n" "b_n_tokens inp \<noteq> 0" using c(3) ok by (simp_all add: n_def decode_ok_def)
  have d: "settled (memory ctx)" "can_shift (memory ctx)" "n_layer_ok (n_layer pr)"
    "0 < n_ubatch pr" using ok by (simp_all add: decode_ok_def)
  obtain sb where sb: "sbatch_init b 0 True (n_out = n) = Inr sb" "wf_simple sb" "sb_batch sb = Some b"
    "logits_all sb = (n_out = n)" "out_ids sb = []" "pending_ids sb = [0..<n]" "n = 1 \<longrightarrow> sb_n_tokens sb = 1"
    using sbatch_init_wf(1) [OF c(2), of 0 "n_out = n"] n(1) length_pending_simple by fastforce
  obtain s1 where s1: "kv_self_update pr (memory ctx) = Inr s1" "kv_inv s1" "ahead_of s1 s1" "\<not> do_defrag s1" "can_shift s1"
    "kv_content s1 = kv_content (memory ctx)" "kv_size s1 = kv_size (memory ctx)"
    using kv_self_update_total [OF d(1-3)] by metis
  have "(b_token b = None) \<noteq> (b_embd b = None)" using c(2) by (simp add: batch_wf_def Let_def)
  moreover have "n \<le> n_batch pr" "causal_attn pr \<or> n \<le> n_ubatch pr" using ok by (simp_all add: decode_ok_def n_def)
  moreover have "\<forall>t. b_token b = Some t \<longrightarrow> (\<forall>x \<in> set (take n t). 0 \<le> x \<and> x < int (n_vocab pr))"
    using ok c(5) by (simp add: decode_ok_def n_def)
  then have "\<not> (case b_token b of None \<Rightarrow> False | Some t \<Rightarrow> \<exists>x \<in> set (take n t). x < 0 \<or> int (n_vocab pr) \<le> x)"
    by (cases "b_token b") (auto simp: not_less not_le)
  ultimately have asserts: "(b_token b = None) \<noteq> (b_embd b = None)" "n \<le> n_batch pr" "causal_attn pr \<or> n \<le> n_ubatch pr"
    "\<not> (case b_token b of None \<Rightarrow> False | Some t \<Rightarrow> \<exists>x \<in> set (take n t). x < 0 \<or> int (n_vocab pr) \<le> x)"
    by blast+
  obtain reserved where r: "output_reserve alloc_ok pr n_out ctx = (reserved, ctx0)"
      "reserved < n_out \<longleftrightarrow> \<not> alloc_ok \<and> 0 < n_out"
    by (cases alloc_ok) (auto simp: ctx0_def output_reserve_def Let_def)
  define rest where "rest = (\<lambda>r :: (int \<times> llama_sbatch \<times> kv_cache \<times> 'o list \<times> nat) res. case r of Inl f \<Rightarrow> Some (Inl f)
     | Inr (ret, sb', s2, rows, k) \<Rightarrow>
         if ret \<noteq> 0 then Some (Inr (ret, set_rows rows (ctx0\<lparr>memory := restore s2, n_outputs := k\<rparr>)))
         else case map_outputs n_out (out_ids sb') rows (output_ids ctx0) of
           Inl f \<Rightarrow> Some (Inl f)
         | Inr (ids', rows') \<Rightarrow> Some (Inr (0 :: int, decode_end pr k ctx0 s2 ids' rows')))"
  have pre: "decode compute compute_row alloc_ok pr inp ctx =
      (if \<not> alloc_ok \<and> 0 < n_out then Some (Inr (-2, ctx0\<lparr>memory := restore (memory ctx)\<rparr>))
       else Option.bind (decode_loop compute compute_row (n_ubatch pr) (n_out = n) n_out sb s1 []) rest)"
    unfolding decode_def c(1) Let_def sum.case n(1) n_out_def [symmetric] sb(1) s1(1) rest_def decode_end_def
    using n(2) asserts r by simp
  show thesis
  proof (cases "\<not> alloc_ok \<and> 0 < n_out")
    case True
    then show thesis using pre by (intro reserve) simp_all
  next
    case False
    have cnt: "length (filter (is_output (n_out = n) b) [0..<n]) = n_out"
      using count_outputs_spec [OF c(2,4) n(1) [symmetric], of "embd_pooled pr"] by (simp add: n_out_def)
    have pos: "\<forall>j < nat (b_n_tokens b). 0 \<le> the (b_pos b) ! j" using c(6) n(1) by (simp add: n_def)
    obtain ret sb' s2 rows k where loop:
      "decode_loop compute compute_row (n_ubatch pr) (n_out = n) n_out sb s1 [] = Some (Inr (ret, sb', s2, rows, k))"
      "ret \<in> {0, 1, 2, -2, -3}" "ahead_of s1 s2" "\<not> do_defrag s2" "can_shift s2"
      "ret = 0 \<longrightarrow> placed b [0..<n] s1 s2 \<and> out_ids sb' = filter (is_output (n_out = n) b) [0..<n]
         \<and> list_all2 (row_of compute_row b) (out_ids sb') rows"
      "graph_ok compute \<longrightarrow> ret \<in> {0, 1} \<and> (ret = 1 \<and> sb_n_tokens sb = 1 \<longrightarrow> kv_full s1)" "ret = 0 \<longrightarrow> k = n_out"
    proof -
      have "length [] + length (filter (is_output (n_out = n) b) (pending_ids sb)) \<le> n_out"
        "list_all2 (row_of compute_row b) (out_ids sb) []" by (simp_all add: cnt sb(5,6))
      from decode_loop_total [OF sb(2,3) d(4) sb(4) pos s1(3) this, of compute]
      show thesis unfolding sb(5,6) append_Nil using s1(4,5) by (elim exE conjE) (rule that; assumption?; simp)
    qed
    show thesis
    proof (cases "ret = 0")
      case ret: False
      then show thesis
        using pre False loop s1 sb(7)
        by (intro failed [where ret = ret and ?s1.0 = s1 and ?s2.0 = s2 and rows = rows and k = k]) (auto simp: rest_def)
    next
      case ret: True
      have "\<exists>ids rows'. map_outputs n_out (out_ids sb') rows (output_ids ctx0) = Inr (ids, rows')"
        using loop(6) ret cnt by (auto simp: map_outputs_def Let_def split: prod.splits)
      then obtain ids rows' where m: "map_outputs n_out (out_ids sb') rows (output_ids ctx0) = Inr (ids, rows')" by blast
      show thesis
        by (rule success [where ?s1.0 = s1 and ?s2.0 = s2 and rows = rows and ids = ids and rows' = rows'])
          (use pre False loop ret m s1 in \<open>auto simp: rest_def\<close>)
    qed
  qed
qed

lemma decode_outputs:
  fixes ctx :: "'o llama_context" and alloc_ok :: bool
  assumes ok: "decode_ok pr inp ctx"
  defines "b \<equiv> completed inp ctx" and "n \<equiv> nat (b_n_tokens inp)"
  defines "n_out \<equiv> count_outputs (embd_pooled pr) b"
  defines "ctx0 \<equiv> snd (output_reserve alloc_ok pr n_out ctx)"
  assumes al: "alloc_ok \<or> n_out = 0"
    and m: "map_outputs n_out (filter (is_output (n_out = n) b) [0..<n]) rows (output_ids ctx0) = Inr (ids, rows')"
    and R: "list_all2 R (filter (is_output (n_out = n) b) [0..<n]) rows" and j: "j < n"
  shows "case get_logits_ith (int j) (decode_end pr n_out ctx0 s2 ids rows') of
      Some x \<Rightarrow> \<not> embeddings pr \<and> is_output (embd_pooled pr) b j \<and> R j x
    | None \<Rightarrow> embeddings pr \<or> \<not> is_output (embd_pooled pr) b j"
    and "case get_embeddings_ith (int j) (decode_end pr n_out ctx0 s2 ids rows') of
      Some x \<Rightarrow> embeddings pr \<and> \<not> pooling pr \<and> is_output (embd_pooled pr) b j \<and> R j x
    | None \<Rightarrow> \<not> embeddings pr \<or> pooling pr \<or> \<not> is_output (embd_pooled pr) b j"
proof -
  note c = completed_ok [OF ok, folded b_def]
  let ?oids = "filter (is_output (n_out = n) b) [0..<n]"
  have n: "nat (b_n_tokens b) = n" using c(3) by (simp add: n_def)
  have pooled: "is_output (n_out = n) b i = is_output (embd_pooled pr) b i" if "i < n" for i
    using is_output_pooled [OF c(2,4) n [symmetric] that] by (simp add: n_out_def)
  have cnt: "length ?oids = n_out"
    using count_outputs_spec [OF c(2,4) n [symmetric], of "embd_pooled pr"] by (simp add: n_out_def)
  have ids0: "length (output_ids ctx0) = n_batch pr" "n \<le> n_batch pr" "alloc_ok \<Longrightarrow> \<forall>x \<in> set (output_ids ctx0). x = -1"
    using ok by (auto simp: ctx0_def output_reserve_def Let_def decode_ok_def n_def)
  let ?ctx' = "decode_end pr n_out ctx0 s2 ids rows'"
  have row: "case output_row (int j) ?ctx' rows' of
      Some x \<Rightarrow> is_output (embd_pooled pr) b j \<and> R j x | None \<Rightarrow> \<not> is_output (embd_pooled pr) b j"
  proof (cases "n_out = 0")
    case True
    then have "\<not> is_output (embd_pooled pr) b j"
      using cnt j pooled by (auto simp: filter_empty_conv)
    then show ?thesis using True by (auto simp: output_row_def decode_end_def Let_def)
  next
    case False
    then have neg: "\<forall>x \<in> set (output_ids ctx0). x = -1" using al ids0(3) by blast
    obtain ids1 rows1 oids' where mo: "map_outputs n_out ?oids rows (output_ids ctx0) = Inr (ids1, rows1)"
      "length ids1 = length (output_ids ctx0)" "sorted oids'" "mset oids' = mset ?oids" "list_all2 R oids' rows1"
      "\<forall>i < n_out. ids1 ! (oids' ! i) = int i" "\<forall>j < length (output_ids ctx0). j \<notin> set ?oids \<longrightarrow> ids1 ! j = -1"
      by (rule map_outputs_correct [OF _ _ cnt R neg]) (use ids0 in auto)
    have set': "set oids' = set ?oids" using mo(4) by (metis set_mset_mset)
    have "length oids' = n_out" using mo(4) cnt by (metis size_mset)
    then show ?thesis
      using mo m ids0(1,2) pooled j set'
      by (intro output_row_mapped [where oids' = oids' and n = n]) (auto simp: decode_end_def)
  qed
  have buf: "logits ?ctx' = (if embeddings pr then None else Some rows')" "embd ?ctx' = (if embeddings pr \<and> \<not> pooling pr then Some rows' else None)"
    if "n_out \<noteq> 0"
    using al that by (simp_all add: decode_end_def ctx0_def output_reserve_def Let_def)
  have none: "\<not> is_output (embd_pooled pr) b j" "get_logits_ith (int j) ?ctx' = None" "get_embeddings_ith (int j) ?ctx' = None" if "n_out = 0"
  proof -
    show "\<not> is_output (embd_pooled pr) b j" using that cnt j pooled by (auto simp: filter_empty_conv)
    have "output_row (int j) ?ctx' xs = None" for xs using that by (auto simp: output_row_def decode_end_def Let_def)
    then show "get_logits_ith (int j) ?ctx' = None" "get_embeddings_ith (int j) ?ctx' = None"
      by (simp_all add: get_logits_ith_def get_embeddings_ith_def split: option.split)
  qed
  have some: "get_logits_ith (int j) ?ctx' = (if embeddings pr then None else output_row (int j) ?ctx' rows')"
    "get_embeddings_ith (int j) ?ctx' = (if embeddings pr \<and> \<not> pooling pr then output_row (int j) ?ctx' rows' else None)" if "n_out \<noteq> 0"
    using buf [OF that] by (simp_all add: get_logits_ith_def get_embeddings_ith_def)
  show "case get_logits_ith (int j) ?ctx' of
      Some x \<Rightarrow> \<not> embeddings pr \<and> is_output (embd_pooled pr) b j \<and> R j x
    | None \<Rightarrow> embeddings pr \<or> \<not> is_output (embd_pooled pr) b j"
    "case get_embeddings_ith (int j) ?ctx' of
      Some x \<Rightarrow> embeddings pr \<and> \<not> pooling pr \<and> is_output (embd_pooled pr) b j \<and> R j x
    | None \<Rightarrow> \<not> embeddings pr \<or> pooling pr \<or> \<not> is_output (embd_pooled pr) b j"
    using row none some by (cases "n_out = 0"; simp split: option.splits)+
qed

text \<open>
  What \<open>decode\<close> does on a batch it accepts; afterwards it can be called again.
\<close>

definition can_decode :: "decode_params \<Rightarrow> 'o llama_context \<Rightarrow> bool" where
  "can_decode pr ctx \<longleftrightarrow> settled (memory ctx) \<and> can_shift (memory ctx) \<and> n_layer_ok (n_layer pr) \<and> 0 < n_ubatch pr
     \<and> output_ids ctx \<in> {ids. ids = [] \<or> length ids = n_batch pr}"

definition batch_ok :: "decode_params \<Rightarrow> llama_batch \<Rightarrow> bool" where
  "batch_ok pr inp \<longleftrightarrow> 0 < b_n_tokens inp \<and> user_batch_ok inp
     \<and> (\<forall>ps. b_pos inp = Some ps \<longrightarrow> (\<forall>j < nat (b_n_tokens inp). 0 \<le> ps ! j))
     \<and> (\<forall>t. b_token inp = Some t \<longrightarrow> (\<forall>x \<in> set (take (nat (b_n_tokens inp)) t). 0 \<le> x \<and> x < int (n_vocab pr)))
     \<and> nat (b_n_tokens inp) \<le> n_batch pr
     \<and> (causal_attn pr \<or> nat (b_n_tokens inp) \<le> n_ubatch pr)"

lemma decode_ok_split: "decode_ok pr inp ctx \<longleftrightarrow> can_decode pr ctx \<and> batch_ok pr inp"
  by (auto simp: decode_ok_def can_decode_def batch_ok_def)

lemma length_map_outputs:
  assumes "map_outputs n oids rows ids = Inr (ids', rows')"
  shows "length ids' = length ids"
proof -
  have len: "length (set_output_ids os xs) = length xs" for os xs
  proof -
    have "length (fold (\<lambda>i xs. xs[os ! i := int i]) js xs) = length xs" for js
      by (induction js arbitrary: xs) simp_all
    then show ?thesis by (simp add: set_output_ids_def)
  qed
  show ?thesis using assms by (auto simp: map_outputs_def Let_def len split: if_splits prod.splits)
qed

lemma reserve_output_ids:
  "can_decode pr ctx \<Longrightarrow> length (output_ids (snd (output_reserve alloc_ok pr n ctx))) = n_batch pr"
  by (cases alloc_ok) (auto simp: can_decode_def output_reserve_def Let_def)

lemma decode_total:
  fixes ctx :: "'o llama_context"
  assumes ok: "decode_ok pr inp ctx"
  shows "\<exists>ret ctx' s1. decode compute compute_row alloc_ok pr inp ctx = Some (Inr (ret, ctx'))
    \<and> can_decode pr ctx' \<and> kv_size (memory ctx') = kv_size (memory ctx)
    \<and> (graph_ok compute \<and> alloc_ok \<longrightarrow> ret \<in> {0, 1}
         \<and> (ret = 1 \<and> b_n_tokens inp = 1 \<longrightarrow> size (kv_content (memory ctx)) = kv_size (memory ctx)))
    \<and> ret \<in> {0, 1, 2, -2, -3} \<and> kv_inv (memory ctx') \<and> kv_content s1 = kv_content (memory ctx)
    \<and> (ret \<noteq> 0 \<longrightarrow> kv_content (memory ctx') = kv_content (memory ctx))
    \<and> (ret = 0 \<longrightarrow> ranges (memory ctx') = []
         \<and> placed (completed inp ctx) [0..<nat (b_n_tokens inp)] s1 (memory ctx')
         \<and> (\<forall>j < nat (b_n_tokens inp).
              (case get_logits_ith (int j) ctx' of
                 Some x \<Rightarrow> \<not> embeddings pr \<and> is_output (embd_pooled pr) (completed inp ctx) j
                           \<and> row_of compute_row (completed inp ctx) j x
               | None \<Rightarrow> embeddings pr \<or> \<not> is_output (embd_pooled pr) (completed inp ctx) j)
              \<and> (case get_embeddings_ith (int j) ctx' of
                 Some x \<Rightarrow> embeddings pr \<and> \<not> pooling pr \<and> is_output (embd_pooled pr) (completed inp ctx) j
                           \<and> row_of compute_row (completed inp ctx) j x
               | None \<Rightarrow> \<not> embeddings pr \<or> pooling pr \<or> \<not> is_output (embd_pooled pr) (completed inp ctx) j)))"
  using ok
proof (cases rule: decode_steps [where compute = compute and compute_row = compute_row and alloc_ok = alloc_ok])
  case reserve
  let ?m = "memory ctx"
  have st: "settled ?m" "kv_inv ?m" "can_decode pr ctx" using ok by (simp_all add: decode_ok_split can_decode_def settled_def)
  have r: "cells (restore ?m) = cells ?m" "kv_size (restore ?m) = kv_size ?m" "ranges (restore ?m) = ranges ?m" "do_defrag (restore ?m) = do_defrag ?m"
    "can_shift (restore ?m) = can_shift ?m" "kv_inv (restore ?m)"
    using ahead_of_restore [OF st(2) settled_ahead [OF st(1)]] kv_inv_restore [OF st(2)]
    by (simp_all add: restore_def split: prod.split)
  have "settled (restore ?m)" using st(1) r by (simp add: settled_def)
  then show ?thesis
    using reserve st(3) r reserve_output_ids [OF st(3)] by (auto simp: can_decode_def kv_content_def)
next
  case (failed ret s1 s2 rows k)
  let ?ctx' = "set_rows rows ((snd (output_reserve alloc_ok pr (count_outputs (embd_pooled pr) (completed inp ctx)) ctx))
      \<lparr>memory := restore s2, n_outputs := k\<rparr>)"
  have inv: "kv_inv (restore s2)" using failed(4) kv_inv_restore by (simp add: ahead_of_def)
  have cells: "cells (restore s2) = cells s1" using ahead_of_restore [OF failed(3,4)] by simp
  then have content: "kv_content (restore s2) = kv_content (memory ctx)" using failed(5) by (simp add: kv_content_def)
  have len: "length (cells s1) = kv_size (memory ctx)" using failed(3,8) by (simp add: kv_inv_def)
  then have size: "kv_size (restore s2) = kv_size (memory ctx)" using inv cells by (simp add: kv_inv_def)
  have "settled (restore s2)" by (rule ahead_of_settled [OF failed(3,4,6)])
  moreover have "can_shift (restore s2)" using failed(7) by (simp add: restore_def split: prod.split)
  ultimately have can: "can_decode pr ?ctx'"
    using ok reserve_output_ids [of pr ctx] by (simp add: decode_ok_split can_decode_def)
  have nz: "ret \<noteq> 0" using failed(2) by auto
  have full: "kv_full s1 \<longrightarrow> size (kv_content (memory ctx)) = kv_size (memory ctx)"
    using kv_full_content [of s1] failed(5) len by simp
  show ?thesis
    by (rule exI [of _ ret], rule exI [of _ ?ctx'], rule exI [of _ s1])
      (use failed(1,2,5,9) can size inv content full nz in \<open>simp, linarith?\<close>)
next
  case (success s1 s2 rows ids rows')
  let ?b = "completed inp ctx" and ?n = "nat (b_n_tokens inp)"
  let ?n_out = "count_outputs (embd_pooled pr) ?b"
  let ?ctx0 = "snd (output_reserve alloc_ok pr ?n_out ctx)"
  let ?ctx' = "decode_end pr ?n_out ?ctx0 s2 ids rows'"
  have inv: "kv_inv s2" using success(4) by (simp add: ahead_of_def)
  note fin = finish_memory [OF inv, of "defrag_thold pr"]
  have "length (cells s2) = kv_size (memory ctx)" using success(2,4,7) by (simp add: ahead_of_def kv_inv_def)
  then have size: "kv_size (memory ?ctx') = kv_size (memory ctx)" using fin(1,2) by (simp add: decode_end_def kv_inv_def)
  have "occ (memory ?ctx') = occ s2" using fin(1) by (intro occ_cells) (simp add: decode_end_def)
  then have "placed ?b [0..<?n] s1 (memory ?ctx')" using success(5) by (simp add: placed_def)
  moreover note outs = decode_outputs [OF ok success(8-10)]
  moreover have "length ids = n_batch pr"
    using length_map_outputs [OF success(9)] ok reserve_output_ids [of pr ctx] by (simp add: decode_ok_split)
  then have "can_decode pr ?ctx'"
    using ok fin success(6) settled_no_ranges [OF fin(2,3)] by (simp add: decode_ok_split can_decode_def decode_end_def)
  ultimately show ?thesis
    using success(1,3) fin(2,3) size
    by (intro exI [of _ "0 :: int"] exI [of _ ?ctx'] exI [of _ s1]) (simp add: decode_end_def)
qed


definition wit_params :: decode_params where
  "wit_params = \<lparr>n_batch = 8, n_ubatch = 1, causal_attn = True, embeddings = False, pooling = False, defrag_thold = 0,
     n_vocab = 100, n_layer = 2, has_rope = True, max_nodes = 8192\<rparr>"

definition wit_ctx :: "nat llama_context" where
  "wit_ctx = \<lparr>memory = wit_cache, output_ids = [], logits = None, embd = None, n_outputs = 0\<rparr>"


text \<open>
  The selection sort that reorders the outputs: the ids end up sorted, no output is lost, and
  every row stays with its token.
\<close>

theorem sort_outputs_correct:
  assumes "length oids = length rows"
  shows "\<exists>oids' rows'. sort_outputs oids rows = (oids', rows') \<and> sorted oids' \<and> length rows' = length oids'
    \<and> mset (zip oids' rows') = mset (zip oids rows)"
  using sort_outputs_spec [OF assms] by (metis prod.exhaust)

theorem sort_outputs_correct_witness:
  "\<exists>oids' rows'. sort_outputs [4, 0, 2] [''a'', ''b'', ''c''] = (oids', rows') \<and> sorted oids'
    \<and> mset (zip oids' rows') = mset [(4, ''a''), (0, ''b''), (2, ''c'')]"
  using sort_outputs_correct [of "[4, 0, 2]" "[''a'', ''b'', ''c'']"] by auto

end
