(* ===== verification/ServerTask.thy ===== *)
theory ServerTask
  imports Decode
begin

text \<open>
  The tasks of the HTTP server and the two queues they travel through (\<open>tools/server/server.cpp\<close>):
  \<open>server_queue\<close> brings the tasks of the HTTP threads to the main loop and keeps those that wait for
  a slot, \<open>server_response\<close> brings the results back to the threads that wait for them.

  Every method of the two classes runs under the mutex of its object, so an execution is an
  interleaving of whole methods. \<open>condition_variable::wait\<close> is not a step: a receiver that finds
  nothing is the value \<open>None\<close>, and the caller tries again. The server is the one without a
  multimodal projector (\<open>mctx\<close> is null): a \<open>server_tokens\<close> is its list of tokens.
\<close>

section \<open>Tasks\<close>

datatype stop_type = STOP_TYPE_NONE | STOP_TYPE_EOS | STOP_TYPE_WORD | STOP_TYPE_LIMIT

datatype slot_state = SLOT_STATE_IDLE | SLOT_STATE_STARTED | SLOT_STATE_PROCESSING_PROMPT
  | SLOT_STATE_DONE_PROMPT | SLOT_STATE_GENERATING

datatype server_task_type = TASK_COMPLETION | TASK_EMBEDDING | TASK_RERANK | TASK_INFILL | TASK_CANCEL
  | TASK_NEXT_RESPONSE | TASK_METRICS | TASK_SLOT_SAVE | TASK_SLOT_RESTORE | TASK_SLOT_ERASE | TASK_SET_LORA

datatype error_type = ERROR_TYPE_INVALID_REQUEST | ERROR_TYPE_AUTHENTICATION | ERROR_TYPE_SERVER
  | ERROR_TYPE_NOT_FOUND | ERROR_TYPE_PERMISSION | ERROR_TYPE_UNAVAILABLE | ERROR_TYPE_NOT_SUPPORTED

text \<open>
  An adapter is its pointer and its scale (a rational number: a scale in a request is a
  finite number). \<open>are_lora_equal\<close> compares both, entry by entry.
\<close>

type_synonym lora_info = "nat \<times> rat"

definition are_lora_equal :: "lora_info list \<Rightarrow> lora_info list \<Rightarrow> bool" where
  "are_lora_equal l1 l2 \<longleftrightarrow> length l1 = length l2
     \<and> list_all (\<lambda>i. snd (l1 ! i) = snd (l2 ! i) \<and> fst (l1 ! i) = fst (l2 ! i)) [0..<length l1]"

text \<open>
  The parameters of a request that the scheduling and the text of a slot depend on. Of the sampling
  parameters there are the grammar and the tokens with a bias of minus infinity.
\<close>

record slot_params =
  stream :: bool
  cache_prompt :: bool
  return_tokens :: bool
  n_keep :: int
  n_discard :: int
  p_n_predict :: int
  n_indent :: int
  t_max_predict_ms :: int
  p_lora :: "lora_info list"
  antiprompt :: "string list"
  ignore_eos :: bool
  grammar :: string
  banned_tokens :: "int list"

record server_task =
  t_id :: int
  t_index :: int
  t_type :: server_task_type
  id_target :: int
  t_params :: slot_params
  t_prompt :: "int list"
  id_selected_slot :: int
  slot_action_id :: int
  slot_action_filepath :: string
  metrics_reset_bucket :: bool
  set_lora :: "lora_info list"

text \<open>The defaults of the fields, and \<open>server_task(type)\<close>.\<close>

definition default_params :: slot_params where
  "default_params = \<lparr>stream = True, cache_prompt = True, return_tokens = False, n_keep = 0, n_discard = 0,
     p_n_predict = -1, n_indent = 0, t_max_predict_ms = -1, p_lora = [], antiprompt = [], ignore_eos = False,
     grammar = '''', banned_tokens = []\<rparr>"

definition server_task_new :: "server_task_type \<Rightarrow> server_task" where
  "server_task_new ty = \<lparr>t_id = -1, t_index = -1, t_type = ty, id_target = -1, t_params = default_params,
     t_prompt = [], id_selected_slot = -1, slot_action_id = 0, slot_action_filepath = '''',
     metrics_reset_bucket = False, set_lora = []\<rparr>"

section \<open>The queue of tasks\<close>

record server_queue =
  q_id :: int
  q_running :: bool
  queue_tasks :: "server_task list"
  queue_tasks_deferred :: "server_task list"

definition cleanup_pending_task :: "int \<Rightarrow> server_queue \<Rightarrow> server_queue" where
  "cleanup_pending_task target q =
     q\<lparr>queue_tasks := filter (\<lambda>t. id_target t \<noteq> target) (queue_tasks q),
       queue_tasks_deferred := filter (\<lambda>t. id_target t \<noteq> target) (queue_tasks_deferred q)\<rparr>"

text \<open>The part \<open>post\<close> and its version for several tasks share.\<close>

definition enqueue :: "server_task \<Rightarrow> bool \<Rightarrow> server_queue \<Rightarrow> server_queue" where
  "enqueue t front q =
     (let q1 = (if t_type t = TASK_CANCEL then cleanup_pending_task (id_target t) q else q)
      in q1\<lparr>queue_tasks := (if front then t # queue_tasks q1 else queue_tasks q1 @ [t])\<rparr>)"

definition post :: "server_task \<Rightarrow> bool \<Rightarrow> server_queue \<Rightarrow> server_queue res" where
  "post t front q =
     (if t_id t = -1 then Inl (Assert_fail ''task.id != -1'') else Inr (enqueue t front q))"

fun post_multi :: "server_task list \<Rightarrow> bool \<Rightarrow> server_queue \<Rightarrow> server_queue" where
  "post_multi [] front q = q"
| "post_multi (t # ts) front q =
     (if t_id t = -1 then post_multi ts front (enqueue (t\<lparr>t_id := q_id q\<rparr>) front (q\<lparr>q_id := q_id q + 1\<rparr>))
      else post_multi ts front (enqueue t front q))"

definition defer_task :: "server_task \<Rightarrow> server_queue \<Rightarrow> server_queue" where
  "defer_task t q = q\<lparr>queue_tasks_deferred := queue_tasks_deferred q @ [t]\<rparr>"

definition get_new_id :: "server_queue \<Rightarrow> int \<times> server_queue" where
  "get_new_id q = (q_id q, q\<lparr>q_id := q_id q + 1\<rparr>)"

definition pop_deferred_task :: "server_queue \<Rightarrow> server_queue" where
  "pop_deferred_task q =
     (case queue_tasks_deferred q of
        [] \<Rightarrow> q
      | t # ts \<Rightarrow> q\<lparr>queue_tasks := queue_tasks q @ [t], queue_tasks_deferred := ts\<rparr>)"

definition queue_terminate :: "server_queue \<Rightarrow> server_queue" where
  "queue_terminate q = q\<lparr>q_running := False\<rparr>"

section \<open>The queue of results\<close>

text \<open>What a result carries, as far as it depends on the scheduling.\<close>

datatype result_body =
    Result_error string error_type
  | Result_cmpl_partial string int
  | Result_cmpl_final string "int list" bool stop_type string
  | Result_embd
  | Result_rerank
  | Result_metrics int int nat
  | Result_slot_save nat nat
  | Result_slot_restore nat nat
  | Result_slot_erase nat
  | Result_apply_lora

record task_result =
  r_id :: int
  r_index :: int
  r_body :: result_body

record server_response =
  waiting_task_ids :: "int set"
  queue_results :: "task_result list"

definition add_waiting_task_id :: "int \<Rightarrow> server_response \<Rightarrow> server_response" where
  "add_waiting_task_id i w = w\<lparr>waiting_task_ids := insert i (waiting_task_ids w)\<rparr>"

definition add_waiting_tasks :: "server_task list \<Rightarrow> server_response \<Rightarrow> server_response" where
  "add_waiting_tasks ts w = fold (\<lambda>t. add_waiting_task_id (t_id t)) ts w"

definition remove_waiting_task_id :: "int \<Rightarrow> server_response \<Rightarrow> server_response" where
  "remove_waiting_task_id i w =
     w\<lparr>waiting_task_ids := waiting_task_ids w - {i},
       queue_results := filter (\<lambda>r. r_id r \<noteq> i) (queue_results w)\<rparr>"

definition remove_waiting_task_ids :: "int set \<Rightarrow> server_response \<Rightarrow> server_response" where
  "remove_waiting_task_ids ids w = w\<lparr>waiting_task_ids := waiting_task_ids w - ids\<rparr>"

text \<open>
  One pass of \<open>recv\<close> and of \<open>recv_with_timeout\<close> over the results: the first that is for one of the
  tasks is taken out. \<open>None\<close> is the end of the pass without a result, before the next wait.
\<close>

fun take_result :: "int set \<Rightarrow> task_result list \<Rightarrow> (task_result \<times> task_result list) option" where
  "take_result ids [] = None"
| "take_result ids (r # rs) =
     (if r_id r \<in> ids then Some (r, rs)
      else case take_result ids rs of None \<Rightarrow> None | Some (r', rs') \<Rightarrow> Some (r', r # rs'))"

definition recv :: "int set \<Rightarrow> server_response \<Rightarrow> (task_result \<times> server_response) option" where
  "recv ids w =
     (case take_result ids (queue_results w) of
        None \<Rightarrow> None
      | Some (r, rs) \<Rightarrow> Some (r, w\<lparr>queue_results := rs\<rparr>))"

definition send :: "task_result \<Rightarrow> server_response \<Rightarrow> server_response" where
  "send r w =
     (if r_id r \<in> waiting_task_ids w then w\<lparr>queue_results := queue_results w @ [r]\<rparr> else w)"

text \<open>
  \<open>cancel_tasks\<close> of the server context: the waiting ids go first, then the cancel tasks are
  posted at the front of the queue. \<open>ids\<close> lists the set of ids in the order of its iteration.
\<close>

definition cancel_tasks :: "int list \<Rightarrow> server_queue \<times> server_response \<Rightarrow> server_queue \<times> server_response" where
  "cancel_tasks ids = (\<lambda>(q, w).
     (post_multi (map (\<lambda>i. (server_task_new TASK_CANCEL)\<lparr>id_target := i\<rparr>) ids) True q,
      fold remove_waiting_task_id ids w))"

section \<open>The queue of results as mailboxes\<close>

text \<open>
  What the HTTP threads rely on: a mailbox for every task. A result goes to the end of the mailbox of
  its task if somebody awaits it; a thread takes the oldest result of some of its mailboxes.
\<close>

datatype ('i, 'r) mail_event = Ev_send 'r | Ev_recv "'i set" | Ev_remove 'i

fun mail_step ::
  "('r \<Rightarrow> 's \<Rightarrow> 's) \<Rightarrow> ('i set \<Rightarrow> 's \<Rightarrow> ('r \<times> 's) option) \<Rightarrow> ('i \<Rightarrow> 's \<Rightarrow> 's)
     \<Rightarrow> ('i, 'r) mail_event \<Rightarrow> 's \<Rightarrow> 'r list \<times> 's" where
  "mail_step put get rem (Ev_send r) s = ([], put r s)"
| "mail_step put get rem (Ev_recv ids) s = (case get ids s of None \<Rightarrow> ([], s) | Some (r, s') \<Rightarrow> ([r], s'))"
| "mail_step put get rem (Ev_remove i) s = ([], rem i s)"

text \<open>An interleaving of these operations, with the results received in order.\<close>

fun mail_run ::
  "('r \<Rightarrow> 's \<Rightarrow> 's) \<Rightarrow> ('i set \<Rightarrow> 's \<Rightarrow> ('r \<times> 's) option) \<Rightarrow> ('i \<Rightarrow> 's \<Rightarrow> 's)
     \<Rightarrow> ('i, 'r) mail_event list \<Rightarrow> 's \<Rightarrow> 'r list \<times> 's" where
  "mail_run put get rem [] s = ([], s)"
| "mail_run put get rem (e # es) s =
     (let (got, s1) = mail_step put get rem e s; (got', s') = mail_run put get rem es s1 in (got @ got', s'))"

fun sent :: "('i, 'r) mail_event list \<Rightarrow> 'r list" where
  "sent [] = []"
| "sent (Ev_send r # es) = r # sent es"
| "sent (_ # es) = sent es"

locale mailboxes =
  fixes put :: "'r \<Rightarrow> 's \<Rightarrow> 's"
    and get :: "'i set \<Rightarrow> 's \<Rightarrow> ('r \<times> 's) option"
    and rem :: "'i \<Rightarrow> 's \<Rightarrow> 's"
    and mail :: "'i \<Rightarrow> 's \<Rightarrow> 'r list"
    and awaits :: "'i \<Rightarrow> 's \<Rightarrow> bool"
    and key :: "'r \<Rightarrow> 'i"
  assumes put_mail: "mail i (put r s) = mail i s @ (if key r = i \<and> awaits i s then [r] else [])"
    and put_awaits: "awaits i (put r s) = awaits i s"
    and get_None: "get ids s = None \<longleftrightarrow> (\<forall>i \<in> ids. mail i s = [])"
    and get_Some: "get ids s = Some (r, s') \<Longrightarrow> key r \<in> ids \<and> awaits i s' = awaits i s
      \<and> mail i s = (if i = key r then [r] else []) @ mail i s'"
    and rem_other: "i \<noteq> j \<Longrightarrow> mail i (rem j s) = mail i s \<and> awaits i (rem j s) = awaits i s"
begin

lemma step_mail:
  assumes "awaits i s" "e \<noteq> Ev_remove i" "mail_step put get rem e s = (got, s')"
  shows "awaits i s' \<and> filter (\<lambda>r. key r = i) got @ mail i s' = mail i s @ filter (\<lambda>r. key r = i) (sent [e])"
proof (cases e)
  case (Ev_send r)
  then show ?thesis using assms by (auto simp: put_mail put_awaits)
next
  case (Ev_recv ids)
  then show ?thesis using assms get_Some [of ids s _ s' i] by (auto split: option.splits)
next
  case (Ev_remove j)
  then show ?thesis using assms rem_other [of i j s] by auto
qed

lemma sent_Cons: "sent (e # es) = sent [e] @ sent es"
  by (cases e) simp_all

lemma run_mail:
  assumes "awaits i s" "Ev_remove i \<notin> set es" "mail_run put get rem es s = (got, s')"
  shows "awaits i s' \<and> filter (\<lambda>r. key r = i) got @ mail i s' = mail i s @ filter (\<lambda>r. key r = i) (sent es)"
  using assms
proof (induction es arbitrary: s got)
  case (Cons e es)
  obtain g1 s1 where e: "mail_step put get rem e s = (g1, s1)" by fastforce
  obtain g2 where es: "mail_run put get rem es s1 = (g2, s')" "got = g1 @ g2"
    using Cons.prems(3) e by (auto split: prod.splits)
  have s1: "awaits i s1" "filter (\<lambda>r. key r = i) g1 @ mail i s1 = mail i s @ filter (\<lambda>r. key r = i) (sent [e])"
    using step_mail [OF Cons.prems(1) _ e] Cons.prems(2) by auto
  have "awaits i s' \<and> filter (\<lambda>r. key r = i) g2 @ mail i s' = mail i s1 @ filter (\<lambda>r. key r = i) (sent es)"
    using Cons.IH [OF s1(1) _ es(1)] Cons.prems(2) by simp
  then show ?case using s1(2) unfolding es(2) sent_Cons [of e es] filter_append append_assoc by (metis append_assoc)
qed simp

end

definition mailbox :: "int \<Rightarrow> server_response \<Rightarrow> task_result list" where
  "mailbox i w = filter (\<lambda>r. r_id r = i) (queue_results w)"

lemma take_result_None: "take_result ids rs = None \<longleftrightarrow> (\<forall>r \<in> set rs. r_id r \<notin> ids)"
  by (induction rs) (auto split: option.splits)

lemma take_result_Some:
  assumes "take_result ids rs = Some (r, rs')"
  shows "\<exists>xs ys. rs = xs @ r # ys \<and> rs' = xs @ ys \<and> r_id r \<in> ids \<and> (\<forall>x \<in> set xs. r_id x \<notin> ids)"
  using assms
proof (induction rs arbitrary: rs')
  case (Cons a rs)
  show ?case
  proof (cases "r_id a \<in> ids")
    case True
    then show ?thesis using Cons.prems by (intro exI [of _ "[]"] exI [of _ rs]) auto
  next
    case False
    then obtain rs1 where rs1: "take_result ids rs = Some (r, rs1)" "rs' = a # rs1"
      using Cons.prems by (auto split: option.splits)
    obtain xs ys where "rs = xs @ r # ys \<and> rs1 = xs @ ys \<and> r_id r \<in> ids \<and> (\<forall>x \<in> set xs. r_id x \<notin> ids)"
      using Cons.IH [OF rs1(1)] by blast
    then show ?thesis using False rs1(2) by (intro exI [of _ "a # xs"] exI [of _ ys]) auto
  qed
qed simp

lemma recv_Some:
  assumes "recv ids w = Some (r, w')"
  shows "r_id r \<in> ids" "waiting_task_ids w' = waiting_task_ids w"
    "mailbox i w = (if i = r_id r then [r] else []) @ mailbox i w'"
proof -
  obtain rs where rs: "take_result ids (queue_results w) = Some (r, rs)" "w' = w\<lparr>queue_results := rs\<rparr>"
    using assms by (auto simp: recv_def split: option.splits)
  obtain xs ys where xs: "queue_results w = xs @ r # ys" "rs = xs @ ys" "r_id r \<in> ids" "\<forall>x \<in> set xs. r_id x \<notin> ids"
    using take_result_Some [OF rs(1)] by blast
  then show "r_id r \<in> ids" "waiting_task_ids w' = waiting_task_ids w" by (simp_all add: rs(2))
  have "filter (\<lambda>x. r_id x = r_id r) xs = []" using xs(3,4) by (auto simp: filter_empty_conv)
  then show "mailbox i w = (if i = r_id r then [r] else []) @ mailbox i w'"
    using xs by (auto simp: mailbox_def rs(2))
qed

interpretation mb: mailboxes send recv remove_waiting_task_id mailbox "\<lambda>i w. i \<in> waiting_task_ids w" r_id
proof
  fix ids w
  show "recv ids w = None \<longleftrightarrow> (\<forall>i \<in> ids. mailbox i w = [])"
    by (auto simp: recv_def mailbox_def filter_empty_conv take_result_None split: option.splits)
      (metis option.distinct(1) take_result_None)
next
  fix ids w r w' i
  assume "recv ids w = Some (r, w')"
  then show "r_id r \<in> ids \<and> (i \<in> waiting_task_ids w') = (i \<in> waiting_task_ids w)
    \<and> mailbox i w = (if i = r_id r then [r] else []) @ mailbox i w'"
    using recv_Some by blast
qed (auto simp: mailbox_def send_def remove_waiting_task_id_def intro!: filter_cong)

section \<open>Properties\<close>

text \<open>
  C22. Results arrive exactly once and in order. In any interleaving of \<open>send\<close>, \<open>recv\<close> (by threads
  that wait for any sets of tasks) and removals of other tasks, what was received for an awaited task
  followed by what is still queued for it is what was queued before followed by what was sent; and
  a receiver of the task gets something as long as there is something.
\<close>

theorem response_fifo:
  assumes "i \<in> waiting_task_ids w" "Ev_remove i \<notin> set es"
    and "mail_run send recv remove_waiting_task_id es w = (got, w')"
  shows "filter (\<lambda>r. r_id r = i) got @ mailbox i w' = mailbox i w @ filter (\<lambda>r. r_id r = i) (sent es)
    \<and> (recv {i} w' = None \<longleftrightarrow> mailbox i w' = [])"
  using mb.run_mail [OF assms] mb.get_None [of "{i}" w'] by blast

theorem response_fifo_witness:
  "map r_body (filter (\<lambda>r. r_id r = 1) (fst (mail_run send recv remove_waiting_task_id
     [Ev_send \<lparr>r_id = 1, r_index = 0, r_body = Result_cmpl_partial ''a'' 7\<rparr>,
      Ev_send \<lparr>r_id = 2, r_index = 0, r_body = Result_embd\<rparr>, Ev_recv {2},
      Ev_send \<lparr>r_id = 1, r_index = 0, r_body = Result_cmpl_partial ''b'' 8\<rparr>, Ev_recv {1, 2}, Ev_remove 2, Ev_recv {1}]
     \<lparr>waiting_task_ids = {1, 2}, queue_results = []\<rparr>)))
   = [Result_cmpl_partial ''a'' 7, Result_cmpl_partial ''b'' 8]"
  (is "map r_body (filter _ (fst (mail_run _ _ _ ?es ?w))) = _")
proof -
  obtain got w' where run: "mail_run send recv remove_waiting_task_id ?es ?w = (got, w')" by fastforce
  then have "mailbox 1 w' = []" by (auto simp: send_def recv_def remove_waiting_task_id_def mailbox_def)
  then show ?thesis
    unfolding run fst_conv using response_fifo [OF _ _ run, of 1] by (simp add: mailbox_def)
qed

end
