(* ===== verification/ServerText.thy ===== *)
theory ServerText
  imports ServerTask "HOL-Library.Sublist"
begin

text \<open>
  A slot of the server and the text it generates (\<open>server_slot\<close> and \<open>process_token\<close> of
  \<open>tools/server/server.cpp\<close>, the string helpers of \<open>tools/server/utils.hpp\<close>): the search for stop
  words, what is streamed to the client, and the conditions that end a generation.

  Strings are lists of bytes (\<open>char\<close>); \<open>std::string::npos\<close> is \<open>None\<close>. The probabilities of the
  tokens and the statistics of a slot are not modelled.
\<close>

section \<open>Slots\<close>

record server_slot =
  s_id :: int
  id_task :: int
  task_type :: server_task_type
  s_index :: int
  s_params :: slot_params
  s_state :: slot_state
  t_last_used :: int
  s_n_ctx :: int
  n_past :: int
  n_decoded :: int
  n_remaining :: int
  i_batch :: int
  s_n_predict :: int
  n_prompt_tokens :: int
  n_prompt_tokens_processed :: int
  prompt_tokens :: "int list"
  last_nl_pos :: nat
  generated_text :: string
  generated_tokens :: "int list"
  cache_tokens :: "int list"
  has_next_token :: bool
  has_new_line :: bool
  truncated :: bool
  s_stop :: stop_type
  stopping_word :: string
  s_lora :: "lora_info list"
  sampled :: int
  n_sent_text :: nat
  t_start_generation :: int

text \<open>A slot as \<open>init\<close> makes it, with the defaults of its fields.\<close>

definition server_slot_new :: "int \<Rightarrow> int \<Rightarrow> int \<Rightarrow> server_slot" where
  "server_slot_new i nctx npredict = \<lparr>s_id = i, id_task = -1, task_type = TASK_COMPLETION, s_index = 0,
     s_params = default_params, s_state = SLOT_STATE_IDLE, t_last_used = -1, s_n_ctx = nctx, n_past = 0,
     n_decoded = 0, n_remaining = -1, i_batch = -1, s_n_predict = npredict, n_prompt_tokens = 0,
     n_prompt_tokens_processed = 0, prompt_tokens = [], last_nl_pos = 0, generated_text = '''',
     generated_tokens = [], cache_tokens = [], has_next_token = True, has_new_line = False, truncated = False,
     s_stop = STOP_TYPE_NONE, stopping_word = '''', s_lora = [], sampled = 0, n_sent_text = 0,
     t_start_generation = 0\<rparr>"

definition slot_reset :: "server_slot \<Rightarrow> server_slot" where
  "slot_reset sl = sl\<lparr>n_prompt_tokens := 0, last_nl_pos := 0, generated_text := '''', has_new_line := False,
     truncated := False, s_stop := STOP_TYPE_NONE, stopping_word := '''', n_past := 0, n_sent_text := 0,
     task_type := TASK_COMPLETION, generated_tokens := []\<rparr>"

definition is_non_causal :: "server_slot \<Rightarrow> bool" where
  "is_non_causal sl \<longleftrightarrow> task_type sl = TASK_EMBEDDING \<or> task_type sl = TASK_RERANK"

definition can_batch_with :: "server_slot \<Rightarrow> server_slot \<Rightarrow> bool" where
  "can_batch_with sl other \<longleftrightarrow>
     is_non_causal sl = is_non_causal other \<and> are_lora_equal (s_lora sl) (s_lora other)"

definition is_processing :: "server_slot \<Rightarrow> bool" where
  "is_processing sl \<longleftrightarrow> s_state sl \<noteq> SLOT_STATE_IDLE"

text \<open>\<open>has_budget\<close> with the \<open>n_predict\<close> of the server; it also updates \<open>n_remaining\<close>.\<close>

definition has_budget :: "int \<Rightarrow> server_slot \<Rightarrow> bool \<times> server_slot" where
  "has_budget g_n_predict sl =
     (if p_n_predict (s_params sl) = -1 \<and> g_n_predict = -1 then (True, sl)
      else let r = (if p_n_predict (s_params sl) \<noteq> -1 then p_n_predict (s_params sl) - n_decoded sl
                    else if g_n_predict \<noteq> -1 then g_n_predict - n_decoded sl else -1)
           in (0 < r, sl\<lparr>n_remaining := r\<rparr>))"

section \<open>Strings\<close>

text \<open>\<open>text.find(word, from)\<close>.\<close>

definition str_find :: "string \<Rightarrow> string \<Rightarrow> nat \<Rightarrow> nat option" where
  "str_find word txt from =
     List.find (\<lambda>i. take (length word) (drop i txt) = word) [from..<length txt + 1]"

definition ends_with :: "string \<Rightarrow> string \<Rightarrow> bool" where
  "ends_with str suf \<longleftrightarrow>
     length suf \<le> length str \<and> take (length suf) (drop (length str - length suf) str) = suf"

fun partial_stop_loop :: "string \<Rightarrow> string \<Rightarrow> nat list \<Rightarrow> nat option" where
  "partial_stop_loop stop txt [] = None"
| "partial_stop_loop stop txt (i # is) =
     (if stop ! i = last txt \<and> ends_with txt (take (i + 1) stop) then Some (length txt - i - 1)
      else partial_stop_loop stop txt is)"

definition find_partial_stop_string :: "string \<Rightarrow> string \<Rightarrow> nat option" where
  "find_partial_stop_string stop txt =
     (if txt \<noteq> '''' \<and> stop \<noteq> '''' then partial_stop_loop stop txt (rev [0..<length stop]) else None)"

text \<open>Whether the byte \<open>i\<close> places before the end starts a character that is cut off.\<close>

definition cut_char :: "char \<Rightarrow> nat \<Rightarrow> bool" where
  "cut_char c i =
     (let b = of_char c :: 8 word in
      if b AND 0xE0 = 0xC0 then i < 2
      else if b AND 0xF0 = 0xE0 then i < 3
      else if b AND 0xF8 = 0xF0 then i < 4
      else False)"

definition validate_utf8 :: "string \<Rightarrow> nat" where
  "validate_utf8 txt =
     (case List.find (\<lambda>i. cut_char (txt ! (length txt - i)) i) [1..<min 4 (length txt) + 1] of
        None \<Rightarrow> length txt
      | Some i \<Rightarrow> length txt - i)"

section \<open>Stop words\<close>

text \<open>One word of the loop of \<open>find_stopping_strings\<close>.\<close>

definition stop_pos_of :: "string \<Rightarrow> nat \<Rightarrow> bool \<Rightarrow> string \<Rightarrow> nat option" where
  "stop_pos_of txt last_token_size is_full_stop word =
     (if is_full_stop
      then let tmp = length word + last_token_size in
           str_find word txt (if length txt > tmp then length txt - tmp else 0)
      else find_partial_stop_string word txt)"

definition stop_word_step ::
  "string \<Rightarrow> nat \<Rightarrow> bool \<Rightarrow> string \<Rightarrow> nat option \<times> server_slot \<Rightarrow> nat option \<times> server_slot" where
  "stop_word_step txt lts full word = (\<lambda>(stop_pos, sl).
     case stop_pos_of txt lts full word of
       None \<Rightarrow> (stop_pos, sl)
     | Some p \<Rightarrow>
         if stop_pos = None \<or> p < the stop_pos
         then (Some p, if full then sl\<lparr>s_stop := STOP_TYPE_WORD, stopping_word := word, has_next_token := False\<rparr>
                       else sl)
         else (stop_pos, sl))"

definition find_stopping_strings ::
  "string \<Rightarrow> nat \<Rightarrow> bool \<Rightarrow> server_slot \<Rightarrow> nat option \<times> server_slot" where
  "find_stopping_strings txt lts full sl =
     fold (stop_word_step txt lts full) (antiprompt (s_params sl)) (None, sl)"

section \<open>process_token\<close>

text \<open>
  What \<open>process_token\<close> reads besides the slot: the \<open>n_predict\<close> of the server, the context the
  model was trained with, the end-of-generation tokens, and the clock (microseconds).
\<close>

record token_env =
  g_n_predict :: int
  n_ctx_train :: int
  is_eog :: "int \<Rightarrow> bool"
  time_us :: int

text \<open>
  The search for stop words in the text that was not sent yet, and the text to send (lines
  2333 to 2362).
\<close>

definition stop_and_send :: "nat \<Rightarrow> server_slot \<Rightarrow> string \<times> server_slot" where
  "stop_and_send token_size sl =
     (let pos = min (n_sent_text sl) (length (generated_text sl));
          str_test = drop pos (generated_text sl);
          (stop_pos, sl1) = find_stopping_strings str_test token_size True sl
      in case stop_pos of
           Some p \<Rightarrow>
             let sl2 = sl1\<lparr>generated_text := take (pos + p) (generated_text sl1)\<rparr>;
                 pos2 = min (n_sent_text sl2) (length (generated_text sl2));
                 txt = drop pos2 (generated_text sl2)
             in (txt, sl2\<lparr>n_sent_text := n_sent_text sl2 + length txt\<rparr>)
         | None \<Rightarrow>
             if has_next_token sl1 \<and> fst (find_stopping_strings str_test token_size False sl1) \<noteq> None
             then ('''', sl1)
             else let txt = drop pos (generated_text sl1)
                  in (txt, sl1\<lparr>n_sent_text := n_sent_text sl1 + length txt\<rparr>))"

text \<open>The limit of the number of tokens (lines 2380 to 2385).\<close>

definition check_budget :: "token_env \<Rightarrow> server_slot \<Rightarrow> server_slot" where
  "check_budget env sl =
     (if 0 < n_decoded sl \<and> has_next_token sl then
        let (budget, sl1) = has_budget (g_n_predict env) sl in
        if budget then sl1 else sl1\<lparr>s_stop := STOP_TYPE_LIMIT, has_next_token := False\<rparr>
      else sl)"

text \<open>The indentation of the last line (lines 2387 to 2423).\<close>

definition check_indent :: "server_slot \<Rightarrow> server_slot" where
  "check_indent sl =
     (if has_new_line sl \<and> 0 < n_indent (s_params sl) then
        let sl1 =
          (if 0 < last_nl_pos sl then
             let k = length (takeWhile (\<lambda>c. c = CHR '' '' \<or> c = CHR 0x09) (drop (last_nl_pos sl) (generated_text sl)));
                 pos = last_nl_pos sl + k
             in if pos < length (generated_text sl) \<and> int k < n_indent (s_params sl)
                then sl\<lparr>s_stop := STOP_TYPE_LIMIT, has_next_token := False,
                        generated_text := take pos (generated_text sl)\<rparr>
                else sl
           else sl)
        in case str_find [CHR 0x0A] (generated_text sl1) (last_nl_pos sl1) of
             None \<Rightarrow> sl1
           | Some p \<Rightarrow> sl1\<lparr>last_nl_pos := p + 1\<rparr>
      else sl)"

text \<open>
  The time limit after a new line, the context limits and the end of generation (lines 2414 to 2455). The source
  compares with the product \<open>1000.0f*t_max_predict_ms\<close>, which is taken exactly here.
\<close>

definition check_new_line :: "token_env \<Rightarrow> string \<Rightarrow> server_slot \<Rightarrow> server_slot" where
  "check_new_line env txt sl =
     (if CHR 0x0A \<in> set txt then
        let sl1 = sl\<lparr>has_new_line := True\<rparr> in
        if 0 < t_max_predict_ms (s_params sl) \<and> time_us env - t_start_generation sl > 1000 * t_max_predict_ms (s_params sl)
        then sl1\<lparr>s_stop := STOP_TYPE_LIMIT, has_next_token := False\<rparr> else sl1
      else sl)"

definition check_context :: "token_env \<Rightarrow> int \<Rightarrow> server_slot \<Rightarrow> server_slot" where
  "check_context env tok sl =
     (let sl1 = (if n_past sl \<ge> s_n_ctx sl
                 then sl\<lparr>truncated := True, s_stop := STOP_TYPE_LIMIT, has_next_token := False\<rparr> else sl);
          sl2 = (if is_eog env tok then sl1\<lparr>s_stop := STOP_TYPE_EOS, has_next_token := False\<rparr> else sl1)
      in if p_n_predict (s_params sl2) < 1 \<and> s_n_predict sl2 < 1 \<and> n_prompt_tokens sl2 + n_decoded sl2 \<ge> n_ctx_train env
         then sl2\<lparr>truncated := True, s_stop := STOP_TYPE_LIMIT, has_next_token := False\<rparr> else sl2)"

text \<open>
  The whole of \<open>process_token\<close> for a token with its text: the slot (whose \<open>has_next_token\<close> is
  the returned value) and the text of the partial response, when the slot streams one.
\<close>

definition process_token :: "token_env \<Rightarrow> int \<Rightarrow> string \<Rightarrow> server_slot \<Rightarrow> server_slot \<times> string option" where
  "process_token env tok token_str sl0 =
     (let sl = sl0\<lparr>sampled := tok, generated_text := generated_text sl0 @ token_str,
                   generated_tokens := (if return_tokens (s_params sl0) then generated_tokens sl0 @ [tok]
                                        else generated_tokens sl0),
                   has_next_token := True\<rparr>;
          incomplete = validate_utf8 (generated_text sl) < length (generated_text sl);
          (txt, sl1) = (if incomplete then (token_str, sl\<lparr>has_next_token := True\<rparr>)
                        else stop_and_send (length token_str) sl);
          sl2 = check_context env tok (check_new_line env txt (check_indent (check_budget env sl1)))
      in (sl2, if \<not> incomplete \<and> stream (s_params sl) then Some txt else None))"

text \<open>A run of tokens with their texts: the partial responses, until the generation stops.\<close>

fun process_tokens :: "(token_env \<times> int \<times> string) list \<Rightarrow> server_slot \<Rightarrow> server_slot \<times> string list" where
  "process_tokens [] sl = (sl, [])"
| "process_tokens ((env, tok, txt) # ts) sl =
     (let (sl1, out) = process_token env tok txt sl;
          outs = (case out of None \<Rightarrow> [] | Some t \<Rightarrow> [t])
      in if has_next_token sl1 then let (sl2, outs2) = process_tokens ts sl1 in (sl2, outs @ outs2)
         else (sl1, outs))"

section \<open>Strings, specified\<close>

lemma find_append_None: "List.find P xs = None \<Longrightarrow> List.find P (xs @ ys) = List.find P ys"
  by (induction xs) (auto split: if_splits)

lemma find_mem: "List.find P xs = Some x \<Longrightarrow> x \<in> set xs"
  by (induction xs) (auto split: if_splits)

lemma find_upt:
  "List.find P [a..<b] = (if \<exists>i. a \<le> i \<and> i < b \<and> P i then Some (LEAST i. a \<le> i \<and> P i) else None)"
proof (cases "\<exists>i. a \<le> i \<and> i < b \<and> P i")
  case True
  define m where "m = (LEAST i. a \<le> i \<and> P i)"
  obtain i where i: "a \<le> i" "i < b" "P i" using True by blast
  have m: "a \<le> m" "P m" "m \<le> i" unfolding m_def using i by (auto intro: LeastI2 Least_le)
  have least: "\<not> P j" if "a \<le> j" "j < m" for j using that not_less_Least [of j] by (auto simp: m_def)
  have "[a..<b] = [a..<m] @ m # [Suc m..<b]"
    using m i upt_add_eq_append [of a m "b - m"] by (simp add: upt_conv_Cons)
  moreover have "List.find P [a..<m] = None" using least by (simp add: find_None_iff)
  then have "List.find P ([a..<m] @ m # [Suc m..<b]) = Some m"
    using m(2) by (simp add: find_append_None)
  ultimately show ?thesis using True by (simp add: m_def)
next
  case False
  then show ?thesis by (auto simp: find_None_iff)
qed

lemma occurrence_take_drop:
  assumes "i \<le> length txt"
  shows "take (length w) (drop i txt) = w \<longleftrightarrow> (\<exists>a b. txt = a @ w @ b \<and> length a = i)"
proof
  assume "take (length w) (drop i txt) = w"
  then have "txt = take i txt @ w @ drop (length w) (drop i txt)" by (metis append_take_drop_id)
  then show "\<exists>a b. txt = a @ w @ b \<and> length a = i" using assms by (intro exI conjI) (assumption, simp)
qed auto

lemma str_find_None:
  "str_find w txt from = None \<longleftrightarrow> \<not> (\<exists>a b. txt = a @ w @ b \<and> from \<le> length a)"
proof -
  have "str_find w txt from = None \<longleftrightarrow> (\<forall>i. from \<le> i \<and> i \<le> length txt \<longrightarrow> \<not> (\<exists>a b. txt = a @ w @ b \<and> length a = i))"
    unfolding str_find_def find_None_iff by (auto simp: occurrence_take_drop less_Suc_eq_le simp del: upt_Suc)
  then show ?thesis by (metis length_append le_add1)
qed

lemma str_find_Some:
  assumes "str_find w txt from = Some p"
  shows "p \<le> length txt" "\<exists>a b. txt = a @ w @ b \<and> length a = p"
    and "\<And>a b. txt = a @ w @ b \<Longrightarrow> from \<le> length a \<Longrightarrow> p \<le> length a"
proof -
  let ?P = "\<lambda>i. take (length w) (drop i txt) = w"
  have ex: "\<exists>i. from \<le> i \<and> i < length txt + 1 \<and> ?P i" and p: "p = (LEAST i. from \<le> i \<and> ?P i)"
    using assms unfolding str_find_def find_upt by (auto split: if_splits)
  then obtain i where i: "from \<le> i" "i \<le> length txt" "?P i" by auto
  have "from \<le> p \<and> ?P p" unfolding p by (rule LeastI [of _ i]) (use i in simp)
  moreover show "p \<le> length txt" unfolding p by (rule order_trans [OF Least_le [of _ i]]) (use i in simp_all)
  ultimately show "\<exists>a b. txt = a @ w @ b \<and> length a = p" using occurrence_take_drop by blast
  show "p \<le> length a" if "txt = a @ w @ b" "from \<le> length a" for a b
    unfolding p by (rule Least_le) (use that in simp)
qed

lemma ends_with_suffix: "ends_with str s \<longleftrightarrow> suffix s str"
  by (auto simp: ends_with_def suffix_def) (metis append_take_drop_id)

lemma partial_stop_loop_None:
  "partial_stop_loop w txt is = None \<longleftrightarrow> (\<forall>i \<in> set is. \<not> (w ! i = last txt \<and> suffix (take (i + 1) w) txt))"
  by (induction "is") (auto simp: ends_with_suffix)

text \<open>\<open>find_partial_stop_string\<close> finds something exactly when the text ends in a beginning of the stop word.\<close>

lemma find_partial_None:
  "find_partial_stop_string w txt = None \<longleftrightarrow> (\<forall>p. p \<noteq> [] \<longrightarrow> prefix p w \<longrightarrow> \<not> suffix p txt)"
proof (cases "txt = [] \<or> w = []")
  case True
  then show ?thesis by (auto simp: find_partial_stop_string_def)
next
  case False
  have last: "w ! i = last txt" if "i < length w" "suffix (take (i + 1) w) txt" for i
  proof -
    have "take (i + 1) w = take i w @ [w ! i]" using that(1) by (simp add: take_Suc_conv_app_nth)
    then show ?thesis using that(2) by (auto simp: suffix_def)
  qed
  have "find_partial_stop_string w txt = None \<longleftrightarrow> (\<forall>i < length w. \<not> suffix (take (i + 1) w) txt)"
    using False last unfolding find_partial_stop_string_def
    by (simp add: partial_stop_loop_None del: append_take_drop_id) (metis atLeast0LessThan lessThan_iff)
  also have "\<dots> \<longleftrightarrow> (\<forall>p. p \<noteq> [] \<longrightarrow> prefix p w \<longrightarrow> \<not> suffix p txt)"
  proof (intro iffI allI impI)
    fix p assume *: "\<forall>i < length w. \<not> suffix (take (i + 1) w) txt" "p \<noteq> []" "prefix p w"
    then obtain i where "length p = i + 1" by (cases p) auto
    moreover have "p = take (length p) w" using *(3) by (auto simp: prefix_def)
    ultimately show "\<not> suffix p txt" using * prefix_length_le [OF *(3)] by (metis Suc_eq_plus1 Suc_le_eq)
  next
    fix i assume *: "\<forall>p. p \<noteq> [] \<longrightarrow> prefix p w \<longrightarrow> \<not> suffix p txt" "i < length w"
    then have "take (i + 1) w \<noteq> []" by auto
    then show "\<not> suffix (take (i + 1) w) txt" using *(1) take_is_prefix by blast
  qed
  finally show ?thesis .
qed

section \<open>The loop over the stop words\<close>

lemma stop_word_step_params [simp]:
  "s_params (snd (stop_word_step txt l full w st)) = s_params (snd st)"
  "generated_text (snd (stop_word_step txt l full w st)) = generated_text (snd st)"
  "n_sent_text (snd (stop_word_step txt l full w st)) = n_sent_text (snd st)"
  by (simp_all add: stop_word_step_def split: prod.split option.split)

lemma stop_words_slot [simp]:
  "s_params (snd (fold (stop_word_step txt l full) ws st)) = s_params (snd st)"
  "generated_text (snd (fold (stop_word_step txt l full) ws st)) = generated_text (snd st)"
  "n_sent_text (snd (fold (stop_word_step txt l full) ws st)) = n_sent_text (snd st)"
  by (induction ws arbitrary: st) simp_all

definition min_pos :: "nat option \<Rightarrow> nat option \<Rightarrow> nat option" where
  "min_pos q sp = (case q of None \<Rightarrow> sp | Some p \<Rightarrow> if sp = None \<or> p < the sp then Some p else sp)"

lemma fst_stop_words:
  "fst (fold (stop_word_step txt l full) ws st) = fold (\<lambda>w. min_pos (stop_pos_of txt l full w)) ws (fst st)"
  by (induction ws arbitrary: st) (auto simp: stop_word_step_def min_pos_def split: option.split prod.split)

lemma min_pos_fold_None: "fold (\<lambda>w. min_pos (f w)) ws sp = None \<longleftrightarrow> sp = None \<and> (\<forall>w \<in> set ws. f w = None)"
  by (induction ws arbitrary: sp) (auto simp: min_pos_def split: option.split)

lemma min_pos_fold_le:
  "fold (\<lambda>w. min_pos (f w)) ws sp = Some p \<Longrightarrow> (\<forall>p'. sp = Some p' \<longrightarrow> p \<le> p') \<and> (\<forall>w \<in> set ws. \<forall>p'. f w = Some p' \<longrightarrow> p \<le> p')"
proof (induction ws arbitrary: sp)
  case (Cons w ws)
  then have IH: "(\<forall>p'. min_pos (f w) sp = Some p' \<longrightarrow> p \<le> p') \<and> (\<forall>w \<in> set ws. \<forall>p'. f w = Some p' \<longrightarrow> p \<le> p')"
    by simp
  then show ?case
    by (cases "f w"; cases sp) (auto simp: min_pos_def split: if_splits)
qed simp

lemma min_pos_fold_mem:
  "fold (\<lambda>w. min_pos (f w)) ws sp = Some p \<Longrightarrow> sp = Some p \<or> (\<exists>w \<in> set ws. f w = Some p)"
proof (induction ws arbitrary: sp)
  case (Cons w ws)
  then have "min_pos (f w) sp = Some p \<or> (\<exists>w \<in> set ws. f w = Some p)" by simp
  then show ?case by (cases "f w") (auto simp: min_pos_def split: if_splits)
qed simp

lemma stop_words_unchanged:
  "\<not> full \<or> fst (fold (stop_word_step txt l full) ws (None, sl)) = None
     \<Longrightarrow> snd (fold (stop_word_step txt l full) ws (None, sl)) = sl"
proof -
  have "snd (fold (stop_word_step txt l full) ws st) = snd st"
    if "\<not> full \<or> (\<forall>w \<in> set ws. stop_pos_of txt l full w = None)" for st
    using that by (induction ws arbitrary: st) (auto simp: stop_word_step_def split: prod.split option.split)
  then show "\<not> full \<or> fst (fold (stop_word_step txt l full) ws (None, sl)) = None
     \<Longrightarrow> snd (fold (stop_word_step txt l full) ws (None, sl)) = sl"
    by (auto simp: fst_stop_words min_pos_fold_None)
qed

lemma stop_words_stopped:
  assumes "fst (fold (stop_word_step txt l True) ws (None, sl)) \<noteq> None"
  shows "\<not> has_next_token (snd (fold (stop_word_step txt l True) ws (None, sl)))"
proof -
  have "\<not> has_next_token (snd (fold (stop_word_step txt l True) ws st))"
    if "fst (fold (stop_word_step txt l True) ws st) \<noteq> None" "fst st \<noteq> None \<longrightarrow> \<not> has_next_token (snd st)" for st
    using that by (induction ws arbitrary: st) (auto simp: stop_word_step_def split: prod.splits option.splits if_splits)
  then show ?thesis using assms by simp
qed

section \<open>What is sent\<close>

text \<open>A text without a stop word, and one that ends in the beginning of a stop word.\<close>

definition clean :: "string list \<Rightarrow> string \<Rightarrow> bool" where
  "clean ws txt \<longleftrightarrow> (\<forall>w \<in> set ws. w \<noteq> [] \<longrightarrow> \<not> sublist w txt)"

definition pending_stop :: "string list \<Rightarrow> string \<Rightarrow> bool" where
  "pending_stop ws txt \<longleftrightarrow> (\<exists>w \<in> set ws. \<exists>p. p \<noteq> [] \<and> prefix p w \<and> suffix p txt)"

definition text_inv :: "server_slot \<Rightarrow> bool" where
  "text_inv sl \<longleftrightarrow> n_sent_text sl \<le> length (generated_text sl)
     \<and> clean (antiprompt (s_params sl)) (generated_text sl)
     \<and> \<not> pending_stop (antiprompt (s_params sl)) (take (n_sent_text sl) (generated_text sl))"

lemma clean_prefix: "clean ws txt \<Longrightarrow> prefix t txt \<Longrightarrow> clean ws t"
  unfolding clean_def using prefix_imp_sublist sublist_order.order_trans by blast

text \<open>
  When the text was clean and a new piece brings in a stop word, the word begins after the text that
  was sent, and not more than its length and the length of the piece before the end.
\<close>

lemma new_occurrence:
  assumes cl: "\<not> sublist w old" and np: "\<And>p. p \<noteq> [] \<Longrightarrow> prefix p w \<Longrightarrow> \<not> suffix p (take n old)"
    and n: "n \<le> length old" and occ: "old @ tok = a @ w @ b"
  shows "n \<le> length a" "length old < length a + length w"
proof -
  have "\<not> length a + length w \<le> length old"
  proof
    assume le: "length a + length w \<le> length old"
    then have "take (length old) (old @ tok) = a @ w @ take (length old - length a - length w) b"
      unfolding occ by simp
    then have "old = a @ w @ take (length old - length a - length w) b" by simp
    then show False using cl by (metis sublist_appendI)
  qed
  then show gt: "length old < length a + length w" by simp
  show "n \<le> length a"
  proof (rule ccontr)
    assume "\<not> n \<le> length a"
    then have lt: "length a < n" by simp
    let ?p = "take (n - length a) w"
    have "take n old = take n (old @ tok)" using n by simp
    also have "\<dots> = a @ ?p" unfolding occ using lt gt n by simp
    finally have "suffix ?p (take n old)" by (simp add: suffix_def)
    moreover have "?p \<noteq> []" using lt gt n by auto
    ultimately show False using np [OF _ take_is_prefix] by blast
  qed
qed

lemma full_stop_None:
  assumes "clean ws old" "\<not> pending_stop ws (take n old)" "n \<le> length old" "w \<in> set ws" "w \<noteq> []"
    and "stop_pos_of (drop n (old @ tok)) (length tok) True w = None"
  shows "\<not> sublist w (old @ tok)"
proof
  assume "sublist w (old @ tok)"
  then obtain a b where ab: "old @ tok = a @ w @ b" by (auto simp: sublist_def)
  have new: "n \<le> length a" "length old < length a + length w"
    using new_occurrence [OF _ _ assms(3) ab] assms by (auto simp: clean_def pending_stop_def)
  have "drop n (old @ tok) = drop n a @ w @ b" unfolding ab using new(1) by simp
  moreover have "length (drop n (old @ tok)) - (length w + length tok) \<le> length (drop n a)"
    using new assms(3) by simp
  ultimately show False using assms(6) by (auto simp: stop_pos_of_def Let_def str_find_None split: if_splits)
qed

lemma full_stop_Some:
  assumes "clean ws old" "\<not> pending_stop ws (take n old)" "n \<le> length old" "w \<in> set ws" "w \<noteq> []"
    and "prefix t (old @ tok)" "sublist w t"
  shows "\<exists>q. stop_pos_of (drop n (old @ tok)) (length tok) True w = Some q \<and> n + q + length w \<le> length t"
proof -
  obtain a b' where t: "t = a @ w @ b'" using assms(7) by (auto simp: sublist_def)
  then obtain b where ab: "old @ tok = a @ w @ b" using assms(6) by (auto simp: prefix_def)
  have new: "n \<le> length a" "length old < length a + length w"
    using new_occurrence [OF _ _ assms(3) ab] assms by (auto simp: clean_def pending_stop_def)
  let ?str = "drop n (old @ tok)"
  let ?from = "if length ?str > length w + length tok then length ?str - (length w + length tok) else 0"
  have str: "?str = drop n a @ w @ b" unfolding ab using new(1) by simp
  have from_le: "?from \<le> length (drop n a)" using new assms(3) by auto
  obtain q where q: "str_find w ?str ?from = Some q"
    using str_find_None [of w ?str ?from] str from_le by (cases "str_find w ?str ?from") blast+
  have "q \<le> length (drop n a)" using str_find_Some(3) [OF q str from_le] .
  then have "n + q + length w \<le> length t" using new(1) t by simp
  then show ?thesis using q by (intro exI [of _ q] conjI) (simp_all only: stop_pos_of_def Let_def if_True)
qed

lemma partial_stop_None:
  assumes "\<not> pending_stop ws (take n old)" "n \<le> length old" "w \<in> set ws"
    and "stop_pos_of (drop n (old @ tok)) k False w = None"
    and "p \<noteq> []" "prefix p w" "suffix p (old @ tok)"
  shows False
proof -
  have none: "\<not> suffix q (drop n (old @ tok))" if "q \<noteq> []" "prefix q w" for q
    using assms(4) that by (simp add: stop_pos_of_def find_partial_None)
  obtain u where u: "old @ tok = u @ p" using assms(7) by (auto simp: suffix_def)
  show False
  proof (cases "n \<le> length u")
    case True
    then have "drop n (old @ tok) = drop n u @ p" unfolding u by simp
    then show False using none [OF assms(5,6)] by (simp add: suffix_def)
  next
    case False
    have "take n old = take n (old @ tok)" using assms(2) by simp
    also have "\<dots> = u @ take (n - length u) p" unfolding u using False by simp
    finally have "suffix (take (n - length u) p) (take n old)" by (simp add: suffix_def)
    moreover have "take (n - length u) p \<noteq> []" using False assms(5) by simp
    moreover have "prefix (take (n - length u) p) w" using assms(6) take_is_prefix prefix_order.order_trans by blast
    ultimately show False using assms(1,3) unfolding pending_stop_def by blast
  qed
qed

lemma stop_and_send_cases:
  assumes inv: "clean ws old" "\<not> pending_stop ws (take n old)" "n \<le> length old"
    and sl: "ws = antiprompt (s_params sl)" "generated_text sl = old @ tok" "n_sent_text sl = n" "has_next_token sl"
    and run: "stop_and_send (length tok) sl = (txt, sl')"
  obtains (stopped) "\<not> has_next_token sl'" "clean ws (generated_text sl')" "prefix (generated_text sl') (old @ tok)"
      "generated_text sl' = take n old @ txt" "n_sent_text sl' = length (generated_text sl')" "s_params sl' = s_params sl"
  | (held) "sl' = sl" "txt = []" "clean ws (old @ tok)" "pending_stop ws (old @ tok)"
  | (sent) "sl' = sl\<lparr>n_sent_text := length (old @ tok)\<rparr>" "old @ tok = take n old @ txt" "clean ws (old @ tok)"
      "\<not> pending_stop ws (old @ tok)"
proof -
  let ?str = "drop n (old @ tok)"
  have pos: "min (n_sent_text sl) (length (generated_text sl)) = n" using inv(3) sl by simp
  obtain sp sl1 where full: "find_stopping_strings ?str (length tok) True sl = (sp, sl1)" by fastforce
  note defs = find_stopping_strings_def sl(1) [symmetric]
  have F: "fold (stop_word_step ?str (length tok) True) ws (None, sl) = (sp, sl1)"
    using full unfolding defs .
  have fst_full: "fold (\<lambda>w. min_pos (stop_pos_of ?str (length tok) True w)) ws None = sp"
    using fst_stop_words [of ?str "length tok" True ws "(None, sl)"] unfolding F by simp
  have tn: "take n (old @ tok) = take n old" using inv(3) by simp
  show thesis
  proof (cases sp)
    case (Some p)
    have sl1: "generated_text sl1 = old @ tok" "n_sent_text sl1 = n" "s_params sl1 = s_params sl" "\<not> has_next_token sl1"
      using stop_words_slot [of ?str "length tok" True ws "(None, sl)"]
        stop_words_stopped [of ?str "length tok" ws sl] sl Some unfolding F by simp_all
    obtain w0 where "stop_pos_of ?str (length tok) True w0 = Some p"
      using min_pos_fold_mem [OF fst_full [unfolded Some]] by blast
    then have "\<exists>f. str_find w0 ?str f = Some p" unfolding stop_pos_of_def Let_def if_True by blast
    then have p: "p \<le> length ?str" using str_find_Some(1) by blast
    define t where "t = take (n + p) (old @ tok)"
    have len: "length t = n + p" "n \<le> length t" "n + p \<le> length old + length tok"
      using p inv(3) by (simp_all add: t_def)
    have pre: "prefix t (old @ tok)" unfolding t_def by (rule take_is_prefix)
    have "\<not> sublist w t" if w: "w \<in> set ws" "w \<noteq> []" for w
    proof
      assume "sublist w t"
      then obtain q where "stop_pos_of ?str (length tok) True w = Some q" "n + q + length w \<le> length t"
        using full_stop_Some [OF inv w pre] by blast
      then show False
        using min_pos_fold_le [OF fst_full [unfolded Some]] w len(1) by (cases w) fastforce+
    qed
    then have cl: "clean ws t" by (simp add: clean_def)
    have "take n t = take n old" unfolding t_def take_take using tn by (simp add: min_absorb1)
    then have split: "t = take n old @ drop n t" by (metis append_take_drop_id)
    show thesis
    proof (rule stopped)
      show "\<not> has_next_token sl'" "n_sent_text sl' = length (generated_text sl')"
        "generated_text sl' = take n old @ txt" "s_params sl' = s_params sl"
        "clean ws (generated_text sl')" "prefix (generated_text sl') (old @ tok)"
        using run pos full Some sl1 sl(2,3) len split cl pre
        by (auto simp: stop_and_send_def Let_def t_def [symmetric] simp del: take_append drop_append)
    qed
  next
    case None
    have sl1: "sl1 = sl"
      using stop_words_unchanged [of True ?str "length tok" ws sl] None unfolding F by simp
    have none: "\<forall>w \<in> set ws. stop_pos_of ?str (length tok) True w = None"
      using fst_full None by (simp add: min_pos_fold_None)
    have cl: "clean ws (old @ tok)"
      using full_stop_None [OF inv, of _ tok] none by (simp add: clean_def)
    let ?part = "fst (find_stopping_strings ?str (length tok) False sl)"
    have part: "?part = None \<longleftrightarrow> (\<forall>w \<in> set ws. stop_pos_of ?str (length tok) False w = None)"
      by (simp add: defs fst_stop_words min_pos_fold_None)
    show thesis
    proof (cases "?part = None")
      case True
      have "\<not> pending_stop ws (old @ tok)"
        unfolding pending_stop_def using partial_stop_None [OF inv(2,3)] True part by blast
      then show thesis
        using run pos full None sl1 sl True cl tn append_take_drop_id [of n "old @ tok"]
        by (intro sent) (auto simp: stop_and_send_def Let_def)
    next
      case False
      then obtain w where "w \<in> set ws" "stop_pos_of ?str (length tok) False w \<noteq> None"
        unfolding part by blast
      then obtain q where q: "w \<in> set ws" "q \<noteq> []" "prefix q w" "suffix q ?str"
        using find_partial_None [of w ?str] by (auto simp: stop_pos_of_def)
      then have "pending_stop ws (old @ tok)"
        unfolding pending_stop_def using suffix_order.order_trans [OF _ suffix_drop] by blast
      then show thesis
        using run pos full None sl1 sl False cl by (intro held) (auto simp: stop_and_send_def Let_def)
    qed
  qed
qed

section \<open>The limits\<close>

lemma limits_text [simp]:
  "generated_text (check_budget env sl) = generated_text sl"
  "n_sent_text (check_budget env sl) = n_sent_text sl"
  "s_params (check_budget env sl) = s_params sl"
  "generated_text (check_new_line env txt sl) = generated_text sl"
  "n_sent_text (check_new_line env txt sl) = n_sent_text sl"
  "s_params (check_new_line env txt sl) = s_params sl"
  "generated_text (check_context env tok sl) = generated_text sl"
  "n_sent_text (check_context env tok sl) = n_sent_text sl"
  "s_params (check_context env tok sl) = s_params sl"
  by (simp_all add: check_budget_def has_budget_def check_new_line_def check_context_def Let_def)

lemma limits_next:
  "has_next_token (check_budget env sl) \<Longrightarrow> has_next_token sl"
  "has_next_token (check_new_line env txt sl) \<Longrightarrow> has_next_token sl"
  "has_next_token (check_context env tok sl) \<Longrightarrow> has_next_token sl"
  by (simp_all add: check_budget_def has_budget_def check_new_line_def check_context_def Let_def
      split: if_splits)

lemma check_indent_text:
  "prefix (generated_text (check_indent sl)) (generated_text sl)"
  "n_sent_text (check_indent sl) = n_sent_text sl" "s_params (check_indent sl) = s_params sl"
  "n_indent (s_params sl) \<le> 0 \<Longrightarrow> check_indent sl = sl"
  by (simp_all add: check_indent_def Let_def take_is_prefix split: option.split)

lemma check_indent_next:
  "has_next_token (check_indent sl) \<Longrightarrow> has_next_token sl \<and> generated_text (check_indent sl) = generated_text sl"
  by (auto simp: check_indent_def Let_def split: option.splits if_splits)

definition check_limits :: "token_env \<Rightarrow> int \<Rightarrow> string \<Rightarrow> server_slot \<Rightarrow> server_slot" where
  "check_limits env tok txt sl = check_context env tok (check_new_line env txt (check_indent (check_budget env sl)))"

lemma check_limits_text:
  "prefix (generated_text (check_limits env tok t sl)) (generated_text sl)"
  "n_sent_text (check_limits env tok t sl) = n_sent_text sl" "s_params (check_limits env tok t sl) = s_params sl"
  "n_indent (s_params sl) \<le> 0 \<Longrightarrow> generated_text (check_limits env tok t sl) = generated_text sl"
  "has_next_token (check_limits env tok t sl) \<Longrightarrow>
     has_next_token sl \<and> generated_text (check_limits env tok t sl) = generated_text sl"
proof -
  note ind = check_indent_text [of "check_budget env sl"]
  show "prefix (generated_text (check_limits env tok t sl)) (generated_text sl)"
    "n_sent_text (check_limits env tok t sl) = n_sent_text sl" "s_params (check_limits env tok t sl) = s_params sl"
    "n_indent (s_params sl) \<le> 0 \<Longrightarrow> generated_text (check_limits env tok t sl) = generated_text sl"
    using ind by (simp_all add: check_limits_def)
  assume "has_next_token (check_limits env tok t sl)"
  then have "has_next_token (check_indent (check_budget env sl))"
    unfolding check_limits_def by (blast dest: limits_next)
  from check_indent_next [OF this]
  show "has_next_token sl \<and> generated_text (check_limits env tok t sl) = generated_text sl"
    using limits_next(1) [of env sl] by (simp add: check_limits_def)
qed

section \<open>Complete pieces\<close>

definition complete :: "string \<Rightarrow> bool" where
  "complete txt \<longleftrightarrow> validate_utf8 txt = length txt"

lemma complete_iff: "complete txt \<longleftrightarrow> (\<forall>i. 1 \<le> i \<and> i \<le> 4 \<and> i \<le> length txt \<longrightarrow> \<not> cut_char (txt ! (length txt - i)) i)"
proof -
  let ?P = "\<lambda>i. cut_char (txt ! (length txt - i)) i"
  have "complete txt \<longleftrightarrow> List.find ?P [1..<min 4 (length txt) + 1] = None"
    using find_mem [of ?P "[1..<min 4 (length txt) + 1]"]
    by (auto simp: complete_def validate_utf8_def simp del: upt_Suc split: option.splits)
  then show ?thesis unfolding find_None_iff by (auto simp: less_Suc_eq_le simp del: upt_Suc)
qed

lemma not_incomplete: "\<not> validate_utf8 txt < length txt \<longleftrightarrow> complete txt"
  by (auto simp: complete_def validate_utf8_def split: option.split)

lemma cut_char_mono: "cut_char c i \<Longrightarrow> j \<le> i \<Longrightarrow> cut_char c j"
  by (auto simp: cut_char_def Let_def split: if_splits)

lemma complete_append:
  assumes "complete a" "complete b"
  shows "complete (a @ b)"
  unfolding complete_iff
proof (intro allI impI)
  fix i assume i: "1 \<le> i \<and> i \<le> 4 \<and> i \<le> length (a @ b)"
  show "\<not> cut_char ((a @ b) ! (length (a @ b) - i)) i"
  proof (cases "i \<le> length b")
    case True
    then have "length (a @ b) - i = length a + (length b - i)" by simp
    then have "(a @ b) ! (length (a @ b) - i) = b ! (length b - i)" by (metis nth_append_length_plus)
    then show ?thesis using assms(2) i True by (simp add: complete_iff)
  next
    case False
    then have "length (a @ b) - i = length a - (i - length b)" "length a - (i - length b) < length a" using i by auto
    then have "(a @ b) ! (length (a @ b) - i) = a ! (length a - (i - length b))" by (simp add: nth_append_left)
    moreover have "1 \<le> i - length b \<and> i - length b \<le> 4 \<and> i - length b \<le> length a" using i False by auto
    then have "\<not> cut_char (a ! (length a - (i - length b))) (i - length b)"
      using assms(1) unfolding complete_iff by blast
    ultimately show ?thesis using cut_char_mono [of _ i "i - length b"] by auto
  qed
qed

section \<open>process_token\<close>

text \<open>
  The state of the text between two tokens: what was sent is a part of the text, there is no stop
  word in the text, and the part that was sent does not end in the beginning of one.
\<close>

definition text_ok :: "server_slot \<Rightarrow> bool" where
  "text_ok sl \<longleftrightarrow> text_inv sl \<and> complete (generated_text sl)"

text \<open>The text \<open>txt\<close> was sent between \<open>sl\<close> and \<open>sl'\<close>, and nothing is held back without a reason.\<close>

definition sends :: "server_slot \<Rightarrow> string \<Rightarrow> server_slot \<Rightarrow> bool" where
  "sends sl txt sl' \<longleftrightarrow> take (n_sent_text sl') (generated_text sl') = take (n_sent_text sl) (generated_text sl) @ txt
     \<and> n_sent_text sl' \<le> length (generated_text sl')
     \<and> (n_sent_text sl' = length (generated_text sl') \<or> pending_stop (antiprompt (s_params sl')) (generated_text sl'))"

lemma process_token_step:
  assumes inv: "text_ok sl" and piece: "complete piece" and str: "stream (s_params sl)"
    and run: "process_token env tok piece sl = (sl', out)"
  shows "s_params sl' = s_params sl" "clean (antiprompt (s_params sl)) (generated_text sl')"
    and "has_next_token sl' \<Longrightarrow> text_ok sl'"
    and "\<exists>msg. out = Some msg \<and> (n_indent (s_params sl) \<le> 0 \<longrightarrow> sends sl msg sl')"
proof -
  let ?ws = "antiprompt (s_params sl)" and ?old = "generated_text sl" and ?n = "n_sent_text sl"
  let ?new = "?old @ piece"
  define sl0 where "sl0 = sl\<lparr>sampled := tok, generated_text := ?new,
      generated_tokens := (if return_tokens (s_params sl) then generated_tokens sl @ [tok] else generated_tokens sl),
      has_next_token := True\<rparr>"
  have sl0: "s_params sl0 = s_params sl" "generated_text sl0 = ?new" "n_sent_text sl0 = ?n" "has_next_token sl0"
    by (simp_all add: sl0_def)
  have i: "clean ?ws ?old" "\<not> pending_stop ?ws (take ?n ?old)" "?n \<le> length ?old"
    using inv by (simp_all add: text_ok_def text_inv_def)
  have compl: "complete ?new" using complete_append inv piece by (simp add: text_ok_def)
  obtain msg sl1 where send: "stop_and_send (length piece) sl0 = (msg, sl1)" by fastforce
  have out: "out = Some msg" and sl': "sl' = check_limits env tok msg sl1"
    using run compl send str sl0 unfolding process_token_def sl0_def [symmetric] check_limits_def
    by (simp_all add: Let_def not_incomplete [symmetric])
  note lim = check_limits_text [where env = env and tok = tok and t = msg and sl = sl1, folded sl']
  note cases = stop_and_send_cases [OF i _ sl0(2-4) send, unfolded sl0(1), OF refl]
  have len: "take (length ?new) ?new = ?new" by simp
  have params: "s_params sl1 = s_params sl" by (rule cases) (simp_all add: sl0_def)
  show "s_params sl' = s_params sl" using lim(3) params by simp
  have "clean ?ws (generated_text sl1)" by (rule cases) (simp_all add: sl0_def)
  then show "clean ?ws (generated_text sl')" by (rule clean_prefix) (rule lim(1))
  have "has_next_token sl1 \<longrightarrow> text_ok sl1"
    by (rule cases) (use i compl in \<open>simp_all add: text_ok_def text_inv_def sl0_def\<close>)
  then show "text_ok sl'" if "has_next_token sl'"
    using lim(2,3) lim(5) [OF that] by (simp add: text_ok_def text_inv_def)
  have "sends sl msg sl1"
    by (rule cases) (use i in \<open>simp_all add: sends_def sl0_def\<close>)
  then have "n_indent (s_params sl) \<le> 0 \<longrightarrow> sends sl msg sl'"
    using lim(2-4) params by (simp add: sends_def)
  then show "\<exists>msg. out = Some msg \<and> (n_indent (s_params sl) \<le> 0 \<longrightarrow> sends sl msg sl')" using out by blast
qed

lemma sends_trans: "sends sl t sl' \<Longrightarrow> sends sl' t' sl'' \<Longrightarrow> sends sl (t @ t') sl''"
  by (simp add: sends_def)

lemma process_tokens_text:
  assumes "text_ok sl" "\<forall>(env, tok, piece) \<in> set ts. complete piece" "stream (s_params sl)" "ts \<noteq> []"
    and "process_tokens ts sl = (sl', outs)"
  shows "s_params sl' = s_params sl \<and> clean (antiprompt (s_params sl)) (generated_text sl')
    \<and> (n_indent (s_params sl) \<le> 0 \<longrightarrow> sends sl (concat outs) sl')"
  using assms
proof (induction ts arbitrary: sl outs)
  case (Cons t ts)
  obtain env tok piece where t: "t = (env, tok, piece)" using prod_cases3 by blast
  obtain sl1 out where step: "process_token env tok piece sl = (sl1, out)" by fastforce
  have "complete piece" using Cons.prems(2) t by simp
  note st = process_token_step [OF Cons.prems(1) this Cons.prems(3) step]
  obtain msg where msg: "out = Some msg" "n_indent (s_params sl) \<le> 0 \<longrightarrow> sends sl msg sl1" using st(4) by blast
  show ?case
  proof (cases "has_next_token sl1 \<and> ts \<noteq> []")
    case True
    obtain sl2 outs2 where rest: "process_tokens ts sl1 = (sl2, outs2)" by fastforce
    have eqs: "sl2 = sl'" "outs = msg # outs2" using Cons.prems(5) t step msg(1) True rest by simp_all
    moreover have "s_params sl' = s_params sl1 \<and> clean (antiprompt (s_params sl1)) (generated_text sl')
        \<and> (n_indent (s_params sl1) \<le> 0 \<longrightarrow> sends sl1 (concat outs2) sl')"
      using True st(1,3) Cons.prems(2,3) by (intro Cons.IH [OF _ _ _ _ rest [unfolded eqs(1)]]) simp_all
    ultimately show ?thesis using st(1) msg(2) sends_trans [of sl msg sl1] by auto
  next
    case False
    then have "sl' = sl1" "outs = [msg]" using Cons.prems(5) t step msg(1) by (auto simp: Let_def split: if_splits)
    then show ?thesis using st(1,2) msg(2) by simp
  qed
qed simp

section \<open>Properties\<close>

definition wit_env :: token_env where
  "wit_env = \<lparr>g_n_predict = -1, n_ctx_train = 4096, is_eog = (\<lambda>t. t = 2), time_us = 0\<rparr>"

definition wit_slot :: "string list \<Rightarrow> server_slot" where
  "wit_slot ws = (server_slot_new 0 512 (-1))\<lparr>s_state := SLOT_STATE_GENERATING, s_params := default_params\<lparr>antiprompt := ws\<rparr>\<rparr>"

text \<open>
  C7. For a run of \<open>process_token\<close> from a fresh slot over pieces that are complete UTF-8: the text
  never contains a stop word, not even across the border of two pieces; when no indentation is demanded
  (\<open>n_indent\<close> at most 0), what was streamed is a
  beginning of the text, and it is the whole text unless the text ends in the beginning of a stop
  word.
\<close>

theorem stream_exact:
  assumes "generated_text sl = ''''" "n_sent_text sl = 0" "stream (s_params sl)" "ts \<noteq> []"
    and "\<forall>(env, tok, piece) \<in> set ts. complete piece"
    and "process_tokens ts sl = (sl', outs)"
  shows "(\<forall>w \<in> set (antiprompt (s_params sl)). w \<noteq> '''' \<longrightarrow> \<not> sublist w (generated_text sl'))
    \<and> (n_indent (s_params sl) \<le> 0 \<longrightarrow>
        prefix (concat outs) (generated_text sl')
        \<and> (concat outs = generated_text sl' \<or> pending_stop (antiprompt (s_params sl)) (generated_text sl')))"
proof -
  have ok: "text_ok sl"
    using assms(1,2) by (auto simp: text_ok_def text_inv_def clean_def pending_stop_def complete_def validate_utf8_def)
  from process_tokens_text [OF ok assms(5,3,4,6)] show ?thesis
    using assms(1,2) take_is_prefix [of "n_sent_text sl'" "generated_text sl'"]
    by (auto simp: clean_def sends_def)
qed

theorem stream_exact_witness:
  "\<not> sublist ''##'' (generated_text (fst (process_tokens
      [(wit_env, 5, ''ab#''), (wit_env, 6, ''c#''), (wit_env, 7, ''#d'')] (wit_slot [''##'']))))"
proof -
  let ?ts = "[(wit_env, 5, ''ab#''), (wit_env, 6, ''c#''), (wit_env, 7, ''#d'')]"
  obtain sl' outs where run: "process_tokens ?ts (wit_slot [''##'']) = (sl', outs)" by fastforce
  have "\<forall>(env, tok, piece) \<in> set ?ts. complete piece" by (simp add: complete_def) code_simp
  from stream_exact [OF _ _ _ _ this run] show ?thesis
    unfolding run fst_conv by (simp add: wit_slot_def server_slot_new_def default_params_def)
qed

text \<open>
  When the generation ends while the text ends in the beginning of a stop word, the text held
  back is never sent: with the stop word \<open>##\<close>, the pieces \<open>Hi #\<close> and an end-of-generation token stream
  nothing at all.
\<close>

theorem stream_loses_tail:
  "case process_tokens [(wit_env, 5, ''Hi #''), (wit_env, 2, '''')] (wit_slot [''##'']) of (sl', outs) \<Rightarrow>
     outs = ['''', ''''] \<and> generated_text sl' = ''Hi #'' \<and> s_stop sl' = STOP_TYPE_EOS \<and> \<not> has_next_token sl'"
  by code_simp

text \<open>
  A stop word in a piece that ends within a character is missed: the search starts again with
  the next piece and looks only at the length of this piece.
\<close>

theorem stop_word_missed:
  "case process_tokens [(wit_env, 5, ''END of caf'' @ [CHR 0xC3]), (wit_env, 6, [CHR 0xA9])] (wit_slot [''END'']) of
     (sl', outs) \<Rightarrow> has_next_token sl' \<and> outs = [generated_text sl'] \<and> take 3 (generated_text sl') = ''END''"
  by code_simp

end
