(* ===== verification/ServerSlots.thy ===== *)
theory ServerSlots
  imports ServerText
begin

text \<open>
  The slots of \<open>server_context\<close> (\<open>tools/server/server.cpp\<close>) and the tasks they run: choosing a slot,
  launching a task on it, releasing it, and \<open>process_single_task\<close> for every type of task.

  The clock is an argument of the operations (\<open>now\<close>, in microseconds). Parameters of the model are
  whether a sampler can be built for a request, the comparison of a prompt similarity with the
  threshold of the server (a floating-point division), and the files of saved slots.
\<close>

section \<open>State\<close>

record server_params =
  ctx_shift :: bool
  cont_batching :: bool
  n_cache_reuse :: nat
  similar :: "(nat \<Rightarrow> nat \<Rightarrow> bool) option"
  add_bos_token :: int
  has_eos_token :: bool
  eos_token :: int
  vocab_size :: int
  sp_n_batch :: int
  sp_n_ubatch :: int
  pooling_none :: bool
  sampler_ok :: "slot_params \<Rightarrow> bool"
  save_file :: "string \<Rightarrow> int \<Rightarrow> int list \<Rightarrow> kv_cache \<Rightarrow> nat"
  load_file :: "string \<Rightarrow> int \<Rightarrow> nat \<Rightarrow> kv_cache \<Rightarrow> nat \<times> int list \<times> kv_cache"

text \<open>One row of the batch under construction: token, position, sequence, and whether it is an output.\<close>

type_synonym batch_row = "int \<times> int \<times> int \<times> bool"

record 'o server_context =
  ctx :: "'o llama_context"
  slots :: "server_slot list"
  queue :: server_queue
  results :: server_response
  batch :: "batch_row list"
  clean_kv_cache :: bool
  lora_adapters :: "lora_info list"

definition upd_slot :: "nat \<Rightarrow> (server_slot \<Rightarrow> server_slot) \<Rightarrow> 'o server_context \<Rightarrow> 'o server_context" where
  "upd_slot i f st = st\<lparr>slots := (slots st)[i := f (slots st ! i)]\<rparr>"

definition upd_kv :: "(kv_cache \<Rightarrow> kv_cache) \<Rightarrow> 'o server_context \<Rightarrow> 'o server_context" where
  "upd_kv f st = st\<lparr>ctx := (ctx st)\<lparr>memory := f (memory (ctx st))\<rparr>\<rparr>"

definition upd_queue :: "(server_queue \<Rightarrow> server_queue) \<Rightarrow> 'o server_context \<Rightarrow> 'o server_context" where
  "upd_queue f st = st\<lparr>queue := f (queue st)\<rparr>"

definition send_result :: "task_result \<Rightarrow> 'o server_context \<Rightarrow> 'o server_context" where
  "send_result r st = st\<lparr>results := send r (results st)\<rparr>"

definition send_error :: "int \<Rightarrow> string \<Rightarrow> error_type \<Rightarrow> 'o server_context \<Rightarrow> 'o server_context" where
  "send_error i msg ty = send_result \<lparr>r_id = i, r_index = 0, r_body = Result_error msg ty\<rparr>"

text \<open>\<open>init\<close> for \<open>n_parallel\<close> slots that share a context of \<open>nctx\<close> cells.\<close>

definition init_slots :: "nat \<Rightarrow> int \<Rightarrow> int \<Rightarrow> server_slot list" where
  "init_slots n_parallel nctx npredict =
     map (\<lambda>i. slot_reset (server_slot_new (int i) (c_div nctx (int n_parallel)) npredict)) [0..<n_parallel]"

section \<open>Slots\<close>

text \<open>\<open>release\<close>; its callback moves one deferred task back to the queue.\<close>

definition release :: "int \<Rightarrow> nat \<Rightarrow> 'o server_context \<Rightarrow> 'o server_context" where
  "release now i st =
     (if is_processing (slots st ! i)
      then upd_queue pop_deferred_task
             (upd_slot i (\<lambda>sl. sl\<lparr>t_last_used := now, s_state := SLOT_STATE_IDLE\<rparr>) st)
      else st)"

definition get_slot_by_id :: "int \<Rightarrow> server_slot list \<Rightarrow> nat option" where
  "get_slot_by_id i sls = List.find (\<lambda>k. s_id (sls ! k) = i) [0..<length sls]"

text \<open>
  \<open>get_common_prefix\<close> of two lists of text tokens (a placeholder of an image is in no cache, since
  a prompt that has one is not launched).
\<close>

fun get_common_prefix :: "int list \<Rightarrow> int list \<Rightarrow> nat" where
  "get_common_prefix (a # as) (b # bs) = (if a = b then Suc (get_common_prefix as bs) else 0)"
| "get_common_prefix _ _ = 0"

definition similar_step ::
  "(nat \<Rightarrow> nat \<Rightarrow> bool) \<Rightarrow> int list \<Rightarrow> server_slot list \<Rightarrow> nat \<Rightarrow> nat \<times> nat option \<Rightarrow> nat \<times> nat option" where
  "similar_step sim prompt sls k = (\<lambda>(lcs_len, ret).
     let sl = sls ! k; cur = get_common_prefix (cache_tokens sl) prompt in
     if is_processing sl \<or> cache_tokens sl = [] then (lcs_len, ret)
     else if lcs_len < cur \<and> sim cur (length (cache_tokens sl)) then (cur, Some k) else (lcs_len, ret))"

definition lru_step :: "server_slot list \<Rightarrow> nat \<Rightarrow> int \<times> nat option \<Rightarrow> int \<times> nat option" where
  "lru_step sls k = (\<lambda>(t_last, ret).
     if is_processing (sls ! k) then (t_last, ret)
     else if t_last_used (sls ! k) < t_last then (t_last_used (sls ! k), Some k) else (t_last, ret))"

definition get_available_slot :: "server_params \<Rightarrow> int \<Rightarrow> server_task \<Rightarrow> server_slot list \<Rightarrow> nat option" where
  "get_available_slot cfg now task sls =
     (let ret = (case similar cfg of
                   None \<Rightarrow> None
                 | Some sim \<Rightarrow> snd (fold (similar_step sim (t_prompt task) sls) [0..<length sls] (0, None)))
      in if ret = None then snd (fold (lru_step sls) [0..<length sls] (now, None)) else ret)"

text \<open>\<open>validate\<close> of a prompt without images: every token is in the vocabulary.\<close>

definition validate_tokens :: "int \<Rightarrow> int list \<Rightarrow> bool" where
  "validate_tokens nv ts \<longleftrightarrow> list_all (\<lambda>t. 0 \<le> t \<and> t < nv) ts"

definition launch_slot_with_task ::
  "server_params \<Rightarrow> nat \<Rightarrow> server_task \<Rightarrow> 'o server_context \<Rightarrow> bool \<times> 'o server_context" where
  "launch_slot_with_task cfg i task st =
     (let sl0 = (slot_reset (slots st ! i))\<lparr>id_task := t_id task, s_index := t_index task,
                   task_type := t_type task, s_params := t_params task, prompt_tokens := t_prompt task\<rparr>;
          sl1 = (if are_lora_equal (p_lora (s_params sl0)) (s_lora sl0) then sl0
                 else sl0\<lparr>cache_tokens := [], s_lora := p_lora (s_params sl0)\<rparr>)
      in if \<not> validate_tokens (vocab_size cfg) (prompt_tokens sl1)
         then (False, send_error (t_id task) ''Prompt contains invalid tokens'' ERROR_TYPE_INVALID_REQUEST
                        (upd_slot i (\<lambda>_. sl1) st))
         else
           let sl2 = (if 0 < s_n_predict sl1 \<and> s_n_predict sl1 < p_n_predict (s_params sl1)
                      then sl1\<lparr>s_params := (s_params sl1)\<lparr>p_n_predict := s_n_predict sl1\<rparr>\<rparr> else sl1);
               sl3 = (if ignore_eos (s_params sl2) \<and> has_eos_token cfg
                      then sl2\<lparr>s_params := (s_params sl2)\<lparr>banned_tokens := banned_tokens (s_params sl2) @ [eos_token cfg]\<rparr>\<rparr>
                      else sl2)
           in if \<not> sampler_ok cfg (s_params sl3)
              then (False, send_error (t_id task) ''Failed to parse grammar'' ERROR_TYPE_INVALID_REQUEST
                             (upd_slot i (\<lambda>_. sl3) st))
              else (True, upd_slot i (\<lambda>_. sl3\<lparr>s_state := SLOT_STATE_STARTED\<rparr>) st))"

definition kv_cache_clear :: "'o server_context \<Rightarrow> 'o server_context" where
  "kv_cache_clear st = (upd_kv clear st)\<lparr>clean_kv_cache := False\<rparr>"

section \<open>Tasks\<close>

text \<open>A completion, infill, embedding or rerank task.\<close>

definition process_launch :: "server_params \<Rightarrow> int \<Rightarrow> server_task \<Rightarrow> 'o server_context \<Rightarrow> 'o server_context" where
  "process_launch cfg now task st =
     (case (if id_selected_slot task \<noteq> -1 then get_slot_by_id (id_selected_slot task) (slots st)
            else get_available_slot cfg now task (slots st)) of
        None \<Rightarrow> upd_queue (defer_task task) st
      | Some i \<Rightarrow>
          if is_processing (slots st ! i) then upd_queue (defer_task task) st
          else snd (launch_slot_with_task cfg i task st))"

text \<open>The tasks that act on one slot share the search for it.\<close>

definition with_slot ::
  "server_task \<Rightarrow> (nat \<Rightarrow> 'o server_context \<Rightarrow> 'o server_context) \<Rightarrow> 'o server_context \<Rightarrow> 'o server_context" where
  "with_slot task act st =
     (case get_slot_by_id (slot_action_id task) (slots st) of
        None \<Rightarrow> send_error (t_id task) ''Invalid slot ID'' ERROR_TYPE_INVALID_REQUEST st
      | Some i \<Rightarrow> if is_processing (slots st ! i) then upd_queue (defer_task task) st else act i st)"

definition slot_save :: "server_params \<Rightarrow> server_task \<Rightarrow> nat \<Rightarrow> 'o server_context \<Rightarrow> 'o server_context" where
  "slot_save cfg task i st =
     (let toks = cache_tokens (slots st ! i);
          nwrite = save_file cfg (slot_action_filepath task) (s_id (slots st ! i)) toks (memory (ctx st))
      in send_result \<lparr>r_id = t_id task, r_index = 0, r_body = Result_slot_save (length toks) nwrite\<rparr> st)"

definition slot_restore :: "server_params \<Rightarrow> server_task \<Rightarrow> nat \<Rightarrow> 'o server_context \<Rightarrow> 'o server_context" where
  "slot_restore cfg task i st =
     (let (nread, toks, kv1) = load_file cfg (slot_action_filepath task) (s_id (slots st ! i))
                                 (nat (s_n_ctx (slots st ! i))) (memory (ctx st));
          st1 = upd_kv (\<lambda>_. kv1) st
      in if nread = 0
         then send_error (t_id task) ''Unable to restore slot, no available space in KV cache or invalid slot save file''
                ERROR_TYPE_INVALID_REQUEST (upd_slot i (\<lambda>sl. sl\<lparr>cache_tokens := []\<rparr>) st1)
         else send_result \<lparr>r_id = t_id task, r_index = 0, r_body = Result_slot_restore (length toks) nread\<rparr>
                (upd_slot i (\<lambda>sl. sl\<lparr>cache_tokens := toks\<rparr>) st1))"

definition slot_erase :: "server_task \<Rightarrow> nat \<Rightarrow> 'o server_context \<Rightarrow> 'o server_context" where
  "slot_erase task i st =
     (let n_erased = length (cache_tokens (slots st ! i));
          st1 = upd_kv (\<lambda>kv. snd (seq_rm (s_id (slots st ! i)) (-1) (-1) kv)) st
      in send_result \<lparr>r_id = t_id task, r_index = 0, r_body = Result_slot_erase n_erased\<rparr>
           (upd_slot i (\<lambda>sl. sl\<lparr>cache_tokens := []\<rparr>) st1))"

definition process_cancel :: "int \<Rightarrow> server_task \<Rightarrow> 'o server_context \<Rightarrow> 'o server_context" where
  "process_cancel now task st =
     (case List.find (\<lambda>k. id_task (slots st ! k) = id_target task) [0..<length (slots st)] of
        None \<Rightarrow> st
      | Some i \<Rightarrow> release now i st)"

definition process_metrics :: "server_task \<Rightarrow> 'o server_context \<Rightarrow> 'o server_context" where
  "process_metrics task st =
     (let n_processing = count_if is_processing (slots st) in
      send_result \<lparr>r_id = t_id task, r_index = 0,
                   r_body = Result_metrics (int (length (slots st)) - int n_processing) (int n_processing)
                              (length (queue_tasks_deferred (queue st)))\<rparr> st)"

fun process_single_task :: "server_params \<Rightarrow> int \<Rightarrow> server_task \<Rightarrow> 'o server_context \<Rightarrow> 'o server_context" where
  "process_single_task cfg now task st =
     (case t_type task of
        TASK_COMPLETION \<Rightarrow> process_launch cfg now task st
      | TASK_INFILL \<Rightarrow> process_launch cfg now task st
      | TASK_EMBEDDING \<Rightarrow> process_launch cfg now task st
      | TASK_RERANK \<Rightarrow> process_launch cfg now task st
      | TASK_CANCEL \<Rightarrow> process_cancel now task st
      | TASK_NEXT_RESPONSE \<Rightarrow> st
      | TASK_METRICS \<Rightarrow> process_metrics task st
      | TASK_SLOT_SAVE \<Rightarrow> with_slot task (slot_save cfg task) st
      | TASK_SLOT_RESTORE \<Rightarrow> with_slot task (slot_restore cfg task) st
      | TASK_SLOT_ERASE \<Rightarrow> with_slot task (slot_erase task) st
      | TASK_SET_LORA \<Rightarrow>
          send_result \<lparr>r_id = t_id task, r_index = 0, r_body = Result_apply_lora\<rparr>
            (st\<lparr>lora_adapters := set_lora task\<rparr>))"

section \<open>What the updates change\<close>

lemma upd_slot_simps [simp]:
  "slots (upd_slot i f st) = (slots st)[i := f (slots st ! i)]"
  "ctx (upd_slot i f st) = ctx st" "queue (upd_slot i f st) = queue st" "results (upd_slot i f st) = results st"
  "batch (upd_slot i f st) = batch st"
  by (simp_all add: upd_slot_def)

lemma upd_kv_simps [simp]:
  "slots (upd_kv g st) = slots st" "queue (upd_kv g st) = queue st" "results (upd_kv g st) = results st"
  "batch (upd_kv g st) = batch st" "memory (ctx (upd_kv g st)) = g (memory (ctx st))"
  by (simp_all add: upd_kv_def)

lemma upd_queue_simps [simp]:
  "slots (upd_queue h st) = slots st" "ctx (upd_queue h st) = ctx st" "results (upd_queue h st) = results st"
  "batch (upd_queue h st) = batch st" "queue (upd_queue h st) = h (queue st)"
  by (simp_all add: upd_queue_def)

lemma send_simps [simp]:
  "slots (send_result r st) = slots st" "ctx (send_result r st) = ctx st" "queue (send_result r st) = queue st"
  "batch (send_result r st) = batch st" "results (send_result r st) = send r (results st)"
  "slots (send_error k msg ty st) = slots st" "ctx (send_error k msg ty st) = ctx st"
  "queue (send_error k msg ty st) = queue st" "batch (send_error k msg ty st) = batch st"
  by (simp_all add: send_result_def send_error_def)

end
