(* ===== verification/ServerPrompt.thy ===== *)
theory ServerPrompt
  imports ServerSlots
begin

text \<open>
  What \<open>update_slots\<close> (\<open>tools/server/server.cpp\<close>) does to one slot before the batch is decoded: the
  context shift, the start of a prompt (truncation, reuse of the cached prefix and of cached chunks)
  and the tokens it adds to the batch; and that the cells of the cache, the list \<open>cache_tokens\<close> of
  the slot and the batch agree.
\<close>

section \<open>Context shift\<close>

text \<open>
  \<open>new_tokens[i - n_discard] = new_tokens[i]\<close> for \<open>i\<close> from \<open>n_keep + n_discard\<close> on (as a \<open>size_t\<close>: a
  negative start is beyond every size), then \<open>resize\<close>, which throws when the size wraps around.
\<close>

fun move_tokens :: "int \<Rightarrow> nat list \<Rightarrow> int list \<Rightarrow> int list res" where
  "move_tokens nd [] xs = Inr xs"
| "move_tokens nd (i # is) xs =
     (let j = int i - nd in
      if 0 \<le> j \<and> j < int (length xs) then move_tokens nd is (xs[nat j := xs ! i]) else Inl Out_of_range)"

definition shift_tokens :: "int \<Rightarrow> int \<Rightarrow> int list \<Rightarrow> int list res" where
  "shift_tokens nk nd toks =
     bind_res (move_tokens nd (if 0 \<le> nk + nd then [nat (nk + nd)..<length toks] else []) toks)
       (\<lambda>xs. if int (length toks) < nd then Inl (Throw ''length_error'')
             else Inr (resize 0 (nat (int (length toks) - nd)) xs))"

text \<open>The body of the first loop of \<open>update_slots\<close> for slot \<open>i\<close> (lines 3079 to 3122).\<close>

definition context_shift :: "server_params \<Rightarrow> int \<Rightarrow> nat \<Rightarrow> 'o server_context \<Rightarrow> 'o server_context res" where
  "context_shift cfg now i st =
     (let sl = slots st ! i in
      if is_processing sl \<and> n_past sl + 1 \<ge> s_n_ctx sl then
        if \<not> ctx_shift cfg
        then Inr (send_error (id_task sl) ''context shift is disabled'' ERROR_TYPE_SERVER (release now i st))
        else
          let nk = n_keep (s_params sl) + add_bos_token cfg;
              n_left = n_past sl - nk;
              nd = (if n_discard (s_params sl) \<noteq> 0 then n_discard (s_params sl) else c_div n_left 2);
              st1 = upd_kv (\<lambda>kv. seq_add (s_id sl) (nk + nd) (n_past sl) (- nd) (snd (seq_rm (s_id sl) nk (nk + nd) kv))) st
          in bind_res (shift_tokens nk nd (cache_tokens sl))
               (\<lambda>toks. Inr (upd_slot i (\<lambda>sl. sl\<lparr>cache_tokens := toks, n_past := n_past sl - nd, truncated := True\<rparr>) st1))
      else Inr st)"

section \<open>The start of a prompt\<close>

text \<open>The truncation of a prompt that does not fit (lines 3243 to 3273).\<close>

definition truncate_prompt :: "int \<Rightarrow> int \<Rightarrow> int list \<Rightarrow> int list res" where
  "truncate_prompt nctx nk toks =
     (let n_left = nctx - nk;
          n_block_size = c_div n_left 2;
          erased_blocks = c_div (int (length toks) - nk - n_block_size) n_block_size;
          from = nk + erased_blocks * n_block_size
      in if nk < 0 \<or> from < 0 \<or> int (length toks) < nk \<or> int (length toks) < from then Inl Out_of_range
         else let new_tokens = take (nat nk) toks @ drop (nat from) toks in
              if int (length new_tokens) < nctx then Inr new_tokens
              else Inl (Assert_fail ''slot.n_prompt_tokens < slot.n_ctx''))"

text \<open>
  The loop that reuses chunks of the cached prompt (lines 3286 to 3323), with the heads in the cache
  and in the prompt; \<open>n_past\<close> equals the head in the prompt. The loop is only reached with a positive
  \<open>n_cache_reuse\<close>.
\<close>

definition copy_chunk :: "nat \<Rightarrow> nat \<Rightarrow> nat \<Rightarrow> int list \<Rightarrow> int list" where
  "copy_chunk hp hc n cache = fold (\<lambda>i xs. xs[hp + i := xs ! (hc + i)]) [0..<n] cache"

lemma length_copy_chunk [simp]: "length (copy_chunk hp hc n cache) = length cache"
proof -
  have "length (fold (\<lambda>i xs. xs[hp + i := xs ! (hc + i)]) is cache) = length cache" for "is"
    by (induction "is" arbitrary: cache) simp_all
  then show ?thesis by (simp add: copy_chunk_def)
qed

function reuse_chunks ::
  "nat \<Rightarrow> int \<Rightarrow> int list \<Rightarrow> nat \<Rightarrow> nat \<Rightarrow> int list \<times> kv_cache \<Rightarrow> nat \<times> int list \<times> kv_cache" where
  "reuse_chunks reuse q prompt hc hp (cache, kv) =
     (if 0 < reuse \<and> hc < length cache \<and> hp < length prompt then
        let n_match = get_common_prefix (drop hc cache) (drop hp prompt) in
        if n_match \<ge> reuse then
          reuse_chunks reuse q prompt (hc + n_match) (hp + n_match)
            (copy_chunk hp hc n_match cache,
             seq_add q (int hc) (int (hc + n_match)) (int hp - int hc) (snd (seq_rm q (int hp) (int hc) kv)))
        else reuse_chunks reuse q prompt (hc + 1) hp (cache, kv)
      else (hp, cache, kv))"
  by pat_completeness auto
termination
  by (relation "measure (\<lambda>(reuse, q, prompt, hc, hp, cache, kv). length cache - hc)") auto

declare reuse_chunks.simps [simp del]

text \<open>
  The branch for a slot in state \<open>STARTED\<close> (lines 3175 to 3338). The flag tells whether the loop over the
  slots goes on with this slot (\<open>False\<close> is \<open>continue\<close>).
\<close>

definition send_final_response :: "nat \<Rightarrow> 'o server_context \<Rightarrow> 'o server_context" where
  "send_final_response i st =
     (let sl = slots st ! i in
      upd_slot i (\<lambda>sl. sl\<lparr>generated_text := '''', generated_tokens := []\<rparr>)
        (send_result \<lparr>r_id = id_task sl, r_index = s_index sl,
           r_body = Result_cmpl_final (generated_text sl) (generated_tokens sl) (truncated sl) (s_stop sl) (stopping_word sl)\<rparr> st))"

definition release_error :: "int \<Rightarrow> nat \<Rightarrow> string \<Rightarrow> error_type \<Rightarrow> 'o server_context \<Rightarrow> 'o server_context" where
  "release_error now i msg ty st = send_error (id_task (slots st ! i)) msg ty (release now i st)"

text \<open>\<open>n_keep\<close>, clamped to the context, and the prompt of a causal slot.\<close>

definition clamp_keep :: "server_slot \<Rightarrow> server_slot" where
  "clamp_keep sl =
     (let nk = (if n_keep (s_params sl) < 0 then n_prompt_tokens sl else n_keep (s_params sl))
      in sl\<lparr>s_params := (s_params sl)\<lparr>n_keep := min (s_n_ctx sl - 4) nk\<rparr>\<rparr>)"

definition fit_prompt :: "server_slot \<Rightarrow> server_slot res" where
  "fit_prompt sl =
     (if n_prompt_tokens sl \<ge> s_n_ctx sl
      then bind_res (truncate_prompt (s_n_ctx sl) (n_keep (s_params sl)) (prompt_tokens sl))
             (\<lambda>toks. Inr (sl\<lparr>prompt_tokens := toks, truncated := True, n_prompt_tokens := int (length toks)\<rparr>))
      else Inr sl)"

definition reuse_prompt :: "server_params \<Rightarrow> server_slot \<Rightarrow> kv_cache \<Rightarrow> server_slot \<times> kv_cache" where
  "reuse_prompt cfg sl kv =
     (if cache_prompt (s_params sl) then
        let np = get_common_prefix (cache_tokens sl) (prompt_tokens sl) in
        if 0 < n_cache_reuse cfg then
          let (hp, cache, kv1) = reuse_chunks (n_cache_reuse cfg) (s_id sl) (prompt_tokens sl) np np (cache_tokens sl, kv)
          in (sl\<lparr>n_past := int hp, cache_tokens := cache\<rparr>, kv1)
        else (sl\<lparr>n_past := int np\<rparr>, kv)
      else (sl\<lparr>n_past := 0, cache_tokens := []\<rparr>, snd (seq_rm (s_id sl) 0 (-1) kv)))"

text \<open>The checks that refuse a prompt (the size of an embedding, the context without context shift).\<close>

definition refuse_prompt :: "server_params \<Rightarrow> server_slot \<Rightarrow> (string \<times> error_type) option" where
  "refuse_prompt cfg sl =
     (if is_non_causal sl then
        if n_prompt_tokens sl > sp_n_ubatch cfg
        then Some (''input is too large to process. increase the physical batch size'', ERROR_TYPE_SERVER)
        else if n_prompt_tokens sl > s_n_ctx sl
        then Some (''input is larger than the max context size. skipping'', ERROR_TYPE_SERVER)
        else None
      else if \<not> ctx_shift cfg \<and> n_prompt_tokens sl \<ge> s_n_ctx sl
      then Some (''the request exceeds the available context size. try increasing the context size or enable context shift'',
                 ERROR_TYPE_INVALID_REQUEST)
      else None)"

definition load_prompt :: "server_params \<Rightarrow> server_slot \<Rightarrow> kv_cache \<Rightarrow> (server_slot \<times> kv_cache) res" where
  "load_prompt cfg sl kv =
     (if is_non_causal sl then Inr (sl, kv)
      else bind_res (fit_prompt (clamp_keep sl)) (\<lambda>sl1. Inr (reuse_prompt cfg sl1 kv)))"

text \<open>At least one token is evaluated, to have logits.\<close>

definition keep_one :: "server_slot \<Rightarrow> server_slot" where
  "keep_one sl =
     sl\<lparr>n_past := (if n_past sl = n_prompt_tokens sl \<and> 0 < n_past sl then n_past sl - 1 else n_past sl),
        n_prompt_tokens_processed := 0\<rparr>"

definition start_prompt ::
  "server_params \<Rightarrow> int \<Rightarrow> nat \<Rightarrow> 'o server_context \<Rightarrow> (bool \<times> 'o server_context) res" where
  "start_prompt cfg now i st0 =
     (let st = upd_slot i (\<lambda>sl. sl\<lparr>t_start_generation := 0, n_past := 0,
                 n_prompt_tokens := int (length (prompt_tokens sl)), s_state := SLOT_STATE_PROCESSING_PROMPT\<rparr>) st0;
          sl = slots st ! i
      in if prompt_tokens sl = [] then Inr (False, send_final_response i (release now i st))
         else case refuse_prompt cfg sl of
           Some (msg, ty) \<Rightarrow> Inr (False, release_error now i msg ty st)
         | None \<Rightarrow>
             bind_res (load_prompt cfg sl (memory (ctx st)))
               (\<lambda>(sl1, kv1). Inr (True, upd_kv (\<lambda>_. kv1) (upd_slot i (\<lambda>_. keep_one sl1) st))))"

section \<open>The tokens of a prompt\<close>

definition common_batch_add :: "nat \<Rightarrow> batch_row \<Rightarrow> batch_row list \<Rightarrow> batch_row list res" where
  "common_batch_add cap row b =
     (if length b < cap then Inr (b @ [row]) else Inl (Assert_fail ''llama_batch size exceeded''))"

text \<open>The size \<open>init\<close> gives to the batch.\<close>

definition batch_cap :: "server_params \<Rightarrow> 'o server_context \<Rightarrow> nat" where
  "batch_cap cfg st = nat (max (sp_n_batch cfg) (int (length (slots st))))"

text \<open>The loop over the rest of the prompt (lines 3392 to 3410); \<open>LLAMA_TOKEN_NULL\<close> is -1.\<close>

fun add_prompt_tokens ::
  "nat \<Rightarrow> int \<Rightarrow> int \<Rightarrow> bool \<Rightarrow> int list \<Rightarrow> batch_row list \<times> server_slot \<Rightarrow> (batch_row list \<times> server_slot) res" where
  "add_prompt_tokens cap nb q need_embd [] (b, sl) = Inr (b, sl)"
| "add_prompt_tokens cap nb q need_embd (t # ts) (b, sl) =
     (if int (length b) < nb \<and> t \<noteq> -1 then
        bind_res (common_batch_add cap (t, n_past sl, q, need_embd) b)
          (\<lambda>b1. add_prompt_tokens cap nb q need_embd ts
             (b1, sl\<lparr>cache_tokens := cache_tokens sl @ [t], n_past := n_past sl + 1,
                     n_prompt_tokens_processed := n_prompt_tokens_processed sl + 1\<rparr>))
      else Inr (b, sl))"

text \<open>\<open>batch.logits[batch.n_tokens - 1] = true\<close>.\<close>

definition mark_output :: "batch_row list \<Rightarrow> batch_row list" where
  "mark_output b = b[length b - 1 := (case b ! (length b - 1) of (t, p, q, _) \<Rightarrow> (t, p, q, True))]"

text \<open>The end of a prompt (lines 3415 to 3441); the sampler is not part of the state.\<close>

definition finish_prompt :: "nat \<Rightarrow> 'o server_context \<Rightarrow> 'o server_context res" where
  "finish_prompt i st =
     (let sl = slots st ! i in
      if n_past sl = n_prompt_tokens sl then
        if batch st = [] then Inl (Assert_fail ''batch.n_tokens > 0'')
        else if n_prompt_tokens sl \<noteq> int (length (prompt_tokens sl))
        then Inl (Assert_fail ''(size_t) slot.n_prompt_tokens == slot.prompt_tokens.size()'')
        else Inr (upd_slot i (\<lambda>sl. sl\<lparr>s_state := SLOT_STATE_DONE_PROMPT, n_decoded := 0,
                                       i_batch := int (length (batch st)) - 1\<rparr>)
                    (st\<lparr>batch := mark_output (batch st)\<rparr>))
      else Inr st)"

text \<open>
  The rest of the branch for a slot with a prompt (lines 3340 to 3442), with the same flag.
\<close>

definition continue_prompt :: "server_params \<Rightarrow> nat \<Rightarrow> 'o server_context \<Rightarrow> (bool \<times> 'o server_context) res" where
  "continue_prompt cfg i st =
     (let sl = slots st ! i in
      if is_non_causal sl \<and> int (length (batch st)) + n_prompt_tokens sl > sp_n_batch cfg then Inr (False, st)
      else
        let (removed, kv1) = seq_rm (s_id sl) (n_past sl) (-1) (memory (ctx st));
            (np, kv2) = (if removed then (n_past sl, kv1) else (0, snd (seq_rm (s_id sl) (-1) (-1) kv1)))
        in if int (length (cache_tokens sl)) < np then Inl (Assert_fail ''n <= tokens.size()'')
           else if np < n_prompt_tokens sl \<and> prompt_tokens sl ! nat np = -1 then Inl (Throw ''Chunk not found'')
           else
             let sl1 = sl\<lparr>n_past := np, cache_tokens := take (nat np) (cache_tokens sl)\<rparr>;
                 need_embd = (task_type sl = TASK_EMBEDDING \<and> pooling_none cfg)
             in bind_res (add_prompt_tokens (batch_cap cfg st) (sp_n_batch cfg) (s_id sl) need_embd
                            (drop (nat np) (prompt_tokens sl)) (batch st, sl1))
                  (\<lambda>(b, sl2). bind_res (finish_prompt i ((upd_kv (\<lambda>_. kv2) (upd_slot i (\<lambda>_. sl2) st))\<lparr>batch := b\<rparr>))
                     (\<lambda>st1. Inr (True, st1))))"

definition process_prompt ::
  "server_params \<Rightarrow> int \<Rightarrow> nat \<Rightarrow> 'o server_context \<Rightarrow> (bool \<times> 'o server_context) res" where
  "process_prompt cfg now i st =
     (case s_state (slots st ! i) of
        SLOT_STATE_STARTED \<Rightarrow>
          bind_res (start_prompt cfg now i st) (\<lambda>(go, st1). if go then continue_prompt cfg i st1 else Inr (False, st1))
      | SLOT_STATE_PROCESSING_PROMPT \<Rightarrow> continue_prompt cfg i st
      | _ \<Rightarrow> Inr (True, st))"

section \<open>The cells of a sequence\<close>

text \<open>The cells of sequence \<open>q\<close> at position \<open>p\<close>.\<close>

definition cells_at :: "kv_cache \<Rightarrow> int \<Rightarrow> int \<Rightarrow> nat set" where
  "cells_at kv q p = {i. (i, p) \<in> occ kv q}"

text \<open>
  \<open>val\<close> gives the token that was evaluated into each cell. A cache holds the tokens \<open>toks\<close> of
  sequence \<open>q\<close> when every position has exactly one cell, with its token, and there are no other cells.
\<close>

definition holds_at :: "(nat \<Rightarrow> int) \<Rightarrow> kv_cache \<Rightarrow> int \<Rightarrow> int \<Rightarrow> int \<Rightarrow> bool" where
  "holds_at val kv q p t \<longleftrightarrow> (\<exists>i. cells_at kv q p = {i} \<and> val i = t)"

definition holds_tokens :: "(nat \<Rightarrow> int) \<Rightarrow> kv_cache \<Rightarrow> int \<Rightarrow> int list \<Rightarrow> bool" where
  "holds_tokens val kv q toks \<longleftrightarrow>
     (\<forall>p. if 0 \<le> p \<and> p < int (length toks) then holds_at val kv q p (toks ! nat p) else cells_at kv q p = {})"

text \<open>
  The cache holds the tokens \<open>toks\<close>, perhaps more up to position \<open>n\<close>: a slot may remember fewer tokens than
  are there, since a change of adapters makes it forget them.
\<close>

definition cached :: "(nat \<Rightarrow> int) \<Rightarrow> kv_cache \<Rightarrow> int \<Rightarrow> int list \<Rightarrow> nat \<Rightarrow> bool" where
  "cached val kv q toks n \<longleftrightarrow> length toks \<le> n
     \<and> (\<forall>p. 0 \<le> p \<and> p < int (length toks) \<longrightarrow> holds_at val kv q p (toks ! nat p))
     \<and> (\<forall>p. p < 0 \<or> int n \<le> p \<longrightarrow> cells_at kv q p = {})"

lemma holds_cached: "holds_tokens val kv q toks \<Longrightarrow> cached val kv q toks (length toks)"
  by (auto simp: cached_def holds_tokens_def split: if_splits)

text \<open>No cell of the sequence belongs to another one too.\<close>

definition private_seq :: "kv_cache \<Rightarrow> int \<Rightarrow> bool" where
  "private_seq kv q \<longleftrightarrow> (\<forall>i p p' r. (i, p) \<in> occ kv q \<longrightarrow> (i, p') \<in> occ kv r \<longrightarrow> r = q)"

text \<open>What removing and shifting cells leaves alone; no empty cell is filled.\<close>

definition kv_frame :: "kv_cache \<Rightarrow> kv_cache \<Rightarrow> bool" where
  "kv_frame kv kv' \<longleftrightarrow> kv_size kv' = kv_size kv \<and> ranges kv' = ranges kv \<and> do_defrag kv' = do_defrag kv
     \<and> can_shift kv' = can_shift kv \<and> length (cells kv') = length (cells kv)
     \<and> (\<forall>i < length (cells kv). is_empty (cells kv ! i) \<longrightarrow> is_empty (cells kv' ! i))"

lemma kv_frame_refl [simp]: "kv_frame kv kv"
  by (simp add: kv_frame_def)

lemma kv_frame_trans: "kv_frame kv kv' \<Longrightarrow> kv_frame kv' kv'' \<Longrightarrow> kv_frame kv kv''"
  by (simp add: kv_frame_def)

lemma kv_frame_seq_rm: "kv_inv kv \<Longrightarrow> kv_frame kv (snd (seq_rm q p0 p1 kv))"
proof -
  assume inv: "kv_inv kv"
  obtain r kv' where rm: "seq_rm q p0 p1 kv = (r, kv')" by fastforce
  have "do_defrag kv' = do_defrag kv" "can_shift kv' = can_shift kv"
    using rm by (auto simp: seq_rm_def Let_def split: prod.splits)
  moreover have "is_empty (rm_cell q a b c)" if "is_empty c" for a b c
    using that by (simp add: rm_cell_def seq_rm_cell_def is_empty_def Let_def)
  ultimately show ?thesis
    using seq_rm_result [OF inv rm] by (simp add: kv_frame_def rm)
qed

lemma kv_frame_seq_add: "kv_inv kv \<Longrightarrow> kv_frame kv (seq_add q p0 p1 d kv)"
proof (cases "d = 0 \<or> norm_p0 p0 = norm_p1 p1")
  case True
  then show ?thesis by (auto simp: seq_add_def Let_def)
next
  case False
  assume inv: "kv_inv kv"
  have "do_defrag (seq_add q p0 p1 d kv) = do_defrag kv" "can_shift (seq_add q p0 p1 d kv) = can_shift kv"
    by (auto simp: seq_add_def Let_def split: prod.splits)
  then show ?thesis
    using seq_add_result [OF inv, of d p0 p1 q] False by (auto simp: kv_frame_def add_cell_simps is_empty_def)
qed

text \<open>Two caches that differ at most in the cells of \<open>q\<close>, which stay cells of \<open>q\<close> only.\<close>

definition changes_only :: "int \<Rightarrow> kv_cache \<Rightarrow> kv_cache \<Rightarrow> bool" where
  "changes_only q kv kv' \<longleftrightarrow> kv_inv kv' \<and> private_seq kv' q \<and> (\<forall>r. r \<noteq> q \<longrightarrow> occ kv' r = occ kv r) \<and> kv_frame kv kv'"

lemma holds_tokensD:
  assumes "holds_tokens val kv q toks"
  shows "0 \<le> p \<Longrightarrow> p < int (length toks) \<Longrightarrow> holds_at val kv q p (toks ! nat p)"
    and "p < 0 \<or> int (length toks) \<le> p \<Longrightarrow> cells_at kv q p = {}"
  using assms [unfolded holds_tokens_def, rule_format, of p] by (simp_all split: if_splits)

lemma in_range_nonneg: "0 \<le> p0 \<Longrightarrow> 0 \<le> p1 \<Longrightarrow> in_range p0 p1 p \<longleftrightarrow> p0 \<le> p \<and> p < p1"
  by (auto simp: in_range_def norm_p0_def norm_p1_def)

lemma cells_at_seq_rm:
  assumes "kv_inv kv" "0 \<le> q"
  shows "cells_at (snd (seq_rm q p0 p1 kv)) q p = (if in_range p0 p1 p then {} else cells_at kv q p)"
  using occ_seq_rm_kv [OF assms(1), of q p0 p1 "fst (seq_rm q p0 p1 kv)" "snd (seq_rm q p0 p1 kv)" q]
  by (auto simp: cells_at_def)

lemma cells_at_seq_add:
  assumes "kv_inv kv"
  shows "cells_at (seq_add q p0 p1 d kv) q p =
    (if in_range p0 p1 p then {} else cells_at kv q p)
    \<union> (if in_range p0 p1 (p - d) \<and> 0 \<le> p then cells_at kv q (p - d) else {})"
proof (intro set_eqI)
  fix i
  have "(i, p) \<in> occ (seq_add q p0 p1 d kv) q \<longleftrightarrow>
      (i, p) \<in> occ kv q \<and> \<not> in_range p0 p1 p \<or> (i, p - d) \<in> occ kv q \<and> in_range p0 p1 (p - d) \<and> 0 \<le> p"
    unfolding occ_seq_add_kv [OF assms] by force
  then show "i \<in> cells_at (seq_add q p0 p1 d kv) q p \<longleftrightarrow> i \<in> (if in_range p0 p1 p then {} else cells_at kv q p)
    \<union> (if in_range p0 p1 (p - d) \<and> 0 \<le> p then cells_at kv q (p - d) else {})"
    by (auto simp: cells_at_def)
qed

lemma changes_only_refl: "kv_inv kv \<Longrightarrow> private_seq kv q \<Longrightarrow> changes_only q kv kv"
  by (simp add: changes_only_def)

lemma changes_only_trans: "changes_only q kv kv' \<Longrightarrow> changes_only q kv' kv'' \<Longrightarrow> changes_only q kv kv''"
  using kv_frame_trans by (auto simp: changes_only_def)

lemma changes_only_seq_rm:
  assumes "kv_inv kv" "private_seq kv q" "0 \<le> q"
  shows "changes_only q kv (snd (seq_rm q p0 p1 kv))"
proof -
  obtain b kv' where rm: "seq_rm q p0 p1 kv = (b, kv')" by fastforce
  have occ': "occ kv' r = (if r = q then {(i, p) \<in> occ kv r. \<not> in_range p0 p1 p} else occ kv r)" for r
    using occ_seq_rm_kv [OF assms(1) rm, of r] assms(3) by auto
  have "private_seq kv' q" using assms(2) by (auto simp: private_seq_def occ' split: if_splits)
  then show ?thesis
    using kv_inv_seq_rm [OF assms(1) rm] occ' rm kv_frame_seq_rm [OF assms(1), of q p0 p1] by (simp add: changes_only_def)
qed

lemma changes_only_seq_add:
  assumes "kv_inv kv" "private_seq kv q"
  shows "changes_only q kv (seq_add q p0 p1 d kv)"
proof -
  let ?kv' = "seq_add q p0 p1 d kv"
  have other: "occ ?kv' r = occ kv r" if "r \<noteq> q" for r
    unfolding occ_seq_add_kv [OF assms(1)] using assms(2) that by (auto simp: private_seq_def)
  have mem: "\<exists>p. (i, p) \<in> occ kv q" if "(i, p') \<in> occ ?kv' q" for i p'
    using that unfolding occ_seq_add_kv [OF assms(1)] by auto
  have "private_seq ?kv' q"
    unfolding private_seq_def
  proof (intro allI impI)
    fix i p p' r assume "(i, p) \<in> occ ?kv' q" "(i, p') \<in> occ ?kv' r"
    then show "r = q" using mem other [of r] assms(2) unfolding private_seq_def by metis
  qed
  then show ?thesis using other kv_inv_seq_add [OF assms(1)] kv_frame_seq_add [OF assms(1)] by (simp add: changes_only_def)
qed

section \<open>The context shift keeps the tokens and the cells together\<close>

lemma move_tokens_nth:
  assumes "d \<le> i" "i \<le> length xs" "0 < d"
  shows "\<exists>ys. move_tokens (int d) [i..<length xs] xs = Inr ys \<and> length ys = length xs
    \<and> (\<forall>j < length xs. ys ! j = (if i - d \<le> j \<and> j < length xs - d then xs ! (j + d) else xs ! j))"
  using assms
proof (induction "length xs - i" arbitrary: i xs)
  case 0
  then show ?case by simp
next
  case (Suc k)
  let ?xs = "xs[i - d := xs ! i]"
  have lt: "i < length xs" using Suc.hyps(2) by simp
  obtain ys where ys: "move_tokens (int d) [Suc i..<length ?xs] ?xs = Inr ys" "length ys = length ?xs"
    "\<forall>j < length ?xs. ys ! j = (if Suc i - d \<le> j \<and> j < length ?xs - d then ?xs ! (j + d) else ?xs ! j)"
  proof -
    have "k = length ?xs - Suc i" "d \<le> Suc i" "Suc i \<le> length ?xs" using Suc.hyps(2) Suc.prems lt by simp_all
    from Suc.hyps(1) [OF this Suc.prems(3)] that show thesis by blast
  qed
  have "move_tokens (int d) [i..<length xs] xs = Inr ys"
    using ys(1) lt Suc.prems by (simp add: upt_conv_Cons nat_diff_distrib Let_def)
  moreover have "ys ! j = (if i - d \<le> j \<and> j < length xs - d then xs ! (j + d) else xs ! j)" if "j < length xs" for j
    using ys(3) that lt Suc.prems by (auto simp: nth_list_update)
  ultimately show ?case using ys(2) by auto
qed

lemma shift_tokens_result:
  assumes "0 < d" "k + d \<le> length toks"
  shows "shift_tokens (int k) (int d) toks = Inr (take k toks @ drop (k + d) toks)"
proof -
  obtain ys where ys: "move_tokens (int d) [k + d..<length toks] toks = Inr ys" "length ys = length toks"
    "\<forall>j < length toks. ys ! j = (if k \<le> j \<and> j < length toks - d then toks ! (j + d) else toks ! j)"
    using move_tokens_nth [of d "k + d" toks] assms by auto
  have "nat (int k + int d) = k + d" "nat (int (length toks) - int d) = length toks - d" using assms by auto
  moreover have "resize 0 (length toks - d) ys = take k toks @ drop (k + d) toks"
    using ys(2,3) assms by (intro nth_equalityI) (auto simp: resize_def nth_append add.commute)
  ultimately show ?thesis using ys(1) assms by (simp add: shift_tokens_def)
qed

text \<open>The removal of a range and the shift of what follows it.\<close>

lemma holds_tokens_shift:
  assumes inv: "kv_inv kv" "0 \<le> q" and h: "holds_tokens val kv q toks" and d: "0 < d" "k + d \<le> length toks"
  shows "holds_tokens val (seq_add q (int k + int d) (int (length toks)) (- int d) (snd (seq_rm q (int k) (int k + int d) kv)))
    q (take k toks @ drop (k + d) toks)"
proof -
  let ?kv1 = "snd (seq_rm q (int k) (int k + int d) kv)"
  let ?kv2 = "seq_add q (int k + int d) (int (length toks)) (- int d) ?kv1"
  let ?new = "take k toks @ drop (k + d) toks"
  have inv1: "kv_inv ?kv1" using kv_inv_seq_rm [OF inv(1)] by (metis prod.collapse)
  have at1: "cells_at ?kv1 q p = (if int k \<le> p \<and> p < int k + int d then {} else cells_at kv q p)" for p
    by (simp add: cells_at_seq_rm [OF inv] in_range_nonneg)
  have at2: "cells_at ?kv2 q p = (if int k + int d \<le> p \<and> p < int (length toks) then {} else cells_at ?kv1 q p)
      \<union> (if int k \<le> p \<and> p + int d < int (length toks) then cells_at ?kv1 q (p + int d) else {})" for p
    unfolding cells_at_seq_add [OF inv1] by (auto simp: in_range_nonneg)
  show ?thesis
    unfolding holds_tokens_def
  proof (intro allI)
    fix p
    consider (left) "0 \<le> p" "p < int k" | (mid) "int k \<le> p" "p + int d < int (length toks)"
      | (out) "p < 0 \<or> int (length toks) \<le> p + int d" "p < 0 \<or> int k \<le> p" using d by linarith
    then show "if 0 \<le> p \<and> p < int (length ?new) then holds_at val ?kv2 q p (?new ! nat p) else cells_at ?kv2 q p = {}"
    proof cases
      case left
      then have "?new ! nat p = toks ! nat p" "p < int (length ?new)" using d by (auto simp: nth_append)
      moreover have "cells_at ?kv2 q p = cells_at kv q p" using left d by (auto simp: at1 at2)
      ultimately show ?thesis using holds_tokensD(1) [OF h, of p] left d by (simp add: holds_at_def)
    next
      case mid
      then have "?new ! nat p = toks ! nat (p + int d)" "p < int (length ?new)"
        using d by (auto simp: nth_append nat_add_distrib add.commute)
      moreover have "cells_at ?kv2 q p = cells_at kv q (p + int d)" using mid d by (auto simp: at1 at2)
      ultimately show ?thesis using holds_tokensD(1) [OF h, of "p + int d"] mid d by (simp add: holds_at_def)
    next
      case out
      then have "cells_at ?kv2 q p = {}" using holds_tokensD(2) [OF h, of p] d by (auto simp: at1 at2)
      then show ?thesis using out d by auto
    qed
  qed
qed

section \<open>Reusing the cached prompt\<close>

lemma get_common_prefix_le: "get_common_prefix as bs \<le> length as" "get_common_prefix as bs \<le> length bs"
  by (induction as bs rule: get_common_prefix.induct) simp_all

lemma get_common_prefix_take: "take (get_common_prefix as bs) as = take (get_common_prefix as bs) bs"
  by (induction as bs rule: get_common_prefix.induct) simp_all

lemma copy_chunk_nth:
  assumes "hp \<le> hc" "hc + n \<le> length cache" "j < length cache"
  shows "copy_chunk hp hc n cache ! j = (if hp \<le> j \<and> j < hp + n then cache ! (j + (hc - hp)) else cache ! j)"
  using assms(2)
proof (induction n)
  case 0
  then show ?case by (simp add: copy_chunk_def)
next
  case (Suc n)
  have step: "copy_chunk hp hc (Suc n) cache = (copy_chunk hp hc n cache)[hp + n := copy_chunk hp hc n cache ! (hc + n)]"
    by (simp add: copy_chunk_def)
  have read: "copy_chunk hp hc n cache ! (hc + n) = cache ! (hc + n)"
  proof -
    have "copy_chunk hp hc m cache ! (hc + n) = cache ! (hc + n)" if "m \<le> n" for m
      using that
    proof (induction m)
      case (Suc m)
      then have "hp + m \<noteq> hc + n" using assms(1) by simp
      then show ?case using Suc by (simp add: copy_chunk_def)
    qed (simp add: copy_chunk_def)
    then show ?thesis by simp
  qed
  show ?case
  proof (cases "j = hp + n")
    case True
    then show ?thesis using Suc.prems assms(1) by (simp add: step read nth_list_update add.commute)
  next
    case False
    then have "copy_chunk hp hc (Suc n) cache ! j = copy_chunk hp hc n cache ! j"
      by (simp add: step nth_list_update)
    then show ?thesis using Suc False by auto
  qed
qed

text \<open>
  The invariant of the loop: before \<open>hp\<close> the cache holds the prompt, from \<open>hc\<close> on it still holds the
  old tokens, and what is in between will be removed.
\<close>

definition reuse_inv ::
  "(nat \<Rightarrow> int) \<Rightarrow> int \<Rightarrow> int list \<Rightarrow> nat \<Rightarrow> nat \<Rightarrow> nat \<Rightarrow> int list \<Rightarrow> kv_cache \<Rightarrow> bool" where
  "reuse_inv val q prompt n hc hp cache kv \<longleftrightarrow> kv_inv kv \<and> hp \<le> hc \<and> hc \<le> length cache \<and> hp \<le> length prompt \<and> length cache \<le> n
     \<and> take hp cache = take hp prompt
     \<and> (\<forall>p. (0 \<le> p \<and> p < int hp \<or> int hc \<le> p \<and> p < int (length cache)) \<longrightarrow> holds_at val kv q p (cache ! nat p))
     \<and> (\<forall>p. p < 0 \<or> int n \<le> p \<longrightarrow> cells_at kv q p = {})"

lemma reuse_inv_start:
  assumes "kv_inv kv" "cached val kv q cache n"
  shows "reuse_inv val q prompt n (get_common_prefix cache prompt) (get_common_prefix cache prompt) cache kv"
  using assms get_common_prefix_le [of cache prompt] get_common_prefix_take [of cache prompt]
  by (auto simp: reuse_inv_def cached_def)

text \<open>One chunk: the gap is removed and the chunk is shifted into it.\<close>

lemma reuse_inv_chunk:
  assumes inv: "reuse_inv val q prompt m hc hp cache kv" and q: "0 \<le> q"
    and n: "n = get_common_prefix (drop hc cache) (drop hp prompt)"
  shows "reuse_inv val q prompt m (hc + n) (hp + n) (copy_chunk hp hc n cache)
    (seq_add q (int hc) (int (hc + n)) (int hp - int hc) (snd (seq_rm q (int hp) (int hc) kv)))"
proof -
  let ?kv1 = "snd (seq_rm q (int hp) (int hc) kv)"
  let ?kv2 = "seq_add q (int hc) (int (hc + n)) (int hp - int hc) ?kv1"
  let ?cache = "copy_chunk hp hc n cache"
  have i: "kv_inv kv" "hp \<le> hc" "hc \<le> length cache" "hp \<le> length prompt" "take hp cache = take hp prompt" "length cache \<le> m"
    and in_cells: "\<And>p. 0 \<le> p \<and> p < int hp \<or> int hc \<le> p \<and> p < int (length cache) \<Longrightarrow> holds_at val kv q p (cache ! nat p)"
    and out_cells: "\<And>p. p < 0 \<or> int m \<le> p \<Longrightarrow> cells_at kv q p = {}"
    using inv unfolding reuse_inv_def by blast+
  have le: "hc + n \<le> length cache" "hp + n \<le> length prompt"
    using get_common_prefix_le [of "drop hc cache" "drop hp prompt"] i n by auto
  have inv1: "kv_inv ?kv1" using kv_inv_seq_rm [OF i(1)] by (metis prod.collapse)
  have at1: "cells_at ?kv1 q p = (if int hp \<le> p \<and> p < int hc then {} else cells_at kv q p)" for p
    by (simp add: cells_at_seq_rm [OF i(1) q] in_range_nonneg)
  define g where "g = int hc - int hp"
  have at2: "cells_at ?kv2 q p = (if int hc \<le> p \<and> p < int hc + int n then {} else cells_at ?kv1 q p)
      \<union> (if int hp \<le> p \<and> p < int hp + int n then cells_at ?kv1 q (p + g) else {})" for p
    unfolding cells_at_seq_add [OF inv1] by (auto simp: in_range_nonneg g_def algebra_simps)
  note nth' = copy_chunk_nth [OF i(2) le(1)]
  have "take (hp + n) ?cache = take (hp + n) prompt"
  proof (rule nth_equalityI)
    fix j assume "j < length (take (hp + n) ?cache)"
    then have j: "j < hp + n" "j < length cache" by simp_all
    show "take (hp + n) ?cache ! j = take (hp + n) prompt ! j"
    proof (cases "hp \<le> j")
      case True
      have "take n (drop hc cache) ! (j - hp) = take n (drop hp prompt) ! (j - hp)"
        using get_common_prefix_take [of "drop hc cache" "drop hp prompt"] n by simp
      then have "cache ! (hc + (j - hp)) = prompt ! j" using True j le by simp
      then show ?thesis using True j nth' [OF j(2)] i(2) by (simp add: add.commute)
    next
      case False
      then have "cache ! j = prompt ! j" using i(5) by (metis not_le nth_take)
      then show ?thesis using False j nth' [OF j(2)] by simp
    qed
  qed (use i le in simp)
  moreover have "holds_at val ?kv2 q p (?cache ! nat p)"
    if p: "0 \<le> p \<and> p < int (hp + n) \<or> int (hc + n) \<le> p \<and> p < int (length ?cache)" for p
  proof -
    have j: "nat p < length cache" using p le i by auto
    consider (moved) "int hp \<le> p" "p < int (hp + n)" | (old) "0 \<le> p \<and> p < int hp \<or> int (hc + n) \<le> p \<and> p < int (length cache)"
      using p by force
    then show ?thesis
    proof cases
      case moved
      then have "cells_at ?kv2 q p = cells_at kv q (p + g)" unfolding at2 at1 using i(2) by (auto simp: g_def)
      moreover have "?cache ! nat p = cache ! nat (p + g)"
      proof -
        have "nat p + (hc - hp) = nat (p + g)" using moved i(2) by (simp add: g_def)
        moreover have "hp \<le> nat p" "nat p < hp + n" using moved by linarith+
        ultimately show ?thesis using nth' [OF j] by simp
      qed
      ultimately show ?thesis using in_cells [of "p + g"] moved i(2) le by (simp add: holds_at_def g_def)
    next
      case old
      then have "cells_at ?kv2 q p = cells_at kv q p" unfolding at2 at1 using i(2) by auto
      moreover have "?cache ! nat p = cache ! nat p" using old nth' [OF j] i(2) by auto
      ultimately show ?thesis using in_cells [of p] old by (auto simp: holds_at_def)
    qed
  qed
  moreover have "cells_at ?kv2 q p = {}" if "p < 0 \<or> int m \<le> p" for p
  proof -
    have "cells_at kv q p = {}" using out_cells that by simp
    then show ?thesis unfolding at2 at1 using that le i(2,6) by auto
  qed
  ultimately show ?thesis
    using i le kv_inv_seq_add [OF inv1] by (simp add: reuse_inv_def)
qed

lemma reuse_chunks_correct:
  assumes "reuse_inv val q prompt n hc hp cache kv" "private_seq kv q" "0 \<le> q"
    and "reuse_chunks reuse q prompt hc hp (cache, kv) = (hp', cache', kv')"
  shows "(\<exists>hc'. reuse_inv val q prompt n hc' hp' cache' kv') \<and> changes_only q kv kv' \<and> length cache' = length cache"
  using assms
proof (induction "length cache - hc" arbitrary: hc hp cache kv rule: less_induct)
  case less
  let ?n = "get_common_prefix (drop hc cache) (drop hp prompt)"
  have inv: "kv_inv kv" using less.prems(1) by (simp add: reuse_inv_def)
  consider (stop) "\<not> (0 < reuse \<and> hc < length cache \<and> hp < length prompt)"
    | (chunk) "0 < reuse" "hc < length cache" "hp < length prompt" "reuse \<le> ?n"
    | (skip) "0 < reuse" "hc < length cache" "hp < length prompt" "\<not> reuse \<le> ?n" by blast
  then show ?case
  proof cases
    case stop
    then show ?thesis using less.prems inv changes_only_refl by (auto simp: reuse_chunks.simps [of reuse q prompt hc])
  next
    case chunk
    let ?kv = "seq_add q (int hc) (int (hc + ?n)) (int hp - int hc) (snd (seq_rm q (int hp) (int hc) kv))"
    have c1: "changes_only q kv (snd (seq_rm q (int hp) (int hc) kv))"
      by (rule changes_only_seq_rm [OF inv less.prems(2,3)])
    then have "changes_only q (snd (seq_rm q (int hp) (int hc) kv)) ?kv"
      using changes_only_seq_add by (simp add: changes_only_def)
    then have c: "changes_only q kv ?kv" by (rule changes_only_trans [OF c1])
    have "reuse_chunks reuse q prompt (hc + ?n) (hp + ?n) (copy_chunk hp hc ?n cache, ?kv) = (hp', cache', kv')"
      using less.prems(4) chunk by (simp add: Let_def reuse_chunks.simps [of reuse q prompt hc])
    then have "(\<exists>hc'. reuse_inv val q prompt n hc' hp' cache' kv') \<and> changes_only q ?kv kv'
        \<and> length cache' = length (copy_chunk hp hc ?n cache)"
      using c chunk less.prems
      by (intro less.hyps [OF _ reuse_inv_chunk [OF less.prems(1,3) refl]]) (auto simp: changes_only_def)
    then show ?thesis using changes_only_trans [OF c] by auto
  next
    case skip
    have "reuse_inv val q prompt n (hc + 1) hp cache kv"
      using less.prems(1) skip by (auto simp: reuse_inv_def)
    moreover have "reuse_chunks reuse q prompt (hc + 1) hp (cache, kv) = (hp', cache', kv')"
      using less.prems(4) skip by (simp add: Let_def reuse_chunks.simps [of reuse q prompt hc])
    ultimately show ?thesis using skip by (intro less.hyps [OF _ _ less.prems(2,3)]) auto
  qed
qed

text \<open>
  What \<open>reuse_prompt\<close> leaves: up to \<open>m\<close> the cache holds the prompt, the list of cached tokens
  begins with it, and there are no cells outside of \<open>n\<close> positions.
\<close>

definition prompt_held ::
  "(nat \<Rightarrow> int) \<Rightarrow> kv_cache \<Rightarrow> int \<Rightarrow> nat \<Rightarrow> int list \<Rightarrow> int list \<Rightarrow> nat \<Rightarrow> bool" where
  "prompt_held val kv q n prompt cache m \<longleftrightarrow> m \<le> length cache \<and> m \<le> length prompt \<and> take m cache = take m prompt
     \<and> (\<forall>p. 0 \<le> p \<and> p < int m \<longrightarrow> holds_at val kv q p (prompt ! nat p))
     \<and> (\<forall>p. p < 0 \<or> int n \<le> p \<longrightarrow> cells_at kv q p = {})"

lemma reuse_inv_held:
  assumes "reuse_inv val q prompt n hc m cache kv"
  shows "prompt_held val kv q n prompt cache m"
proof -
  have "prompt ! nat p = cache ! nat p" if "0 \<le> p \<and> p < int m" for p
    using that assms by (metis reuse_inv_def nat_less_iff nth_take)
  then show ?thesis using assms by (auto simp: reuse_inv_def prompt_held_def)
qed

lemma reuse_prompt_correct:
  assumes "kv_inv kv" "private_seq kv (s_id sl)" "0 \<le> s_id sl" "cached val kv (s_id sl) (cache_tokens sl) n"
    and "n < nat int32_max"
  shows "\<exists>m cache kv'. reuse_prompt cfg sl kv = (sl\<lparr>n_past := int m, cache_tokens := cache\<rparr>, kv')
    \<and> changes_only (s_id sl) kv kv'
    \<and> prompt_held val kv' (s_id sl) n (prompt_tokens sl) cache m"
proof -
  let ?q = "s_id sl" and ?prompt = "prompt_tokens sl" and ?cache = "cache_tokens sl"
  let ?np = "get_common_prefix ?cache ?prompt"
  have inv0: "reuse_inv val ?q ?prompt n ?np ?np ?cache kv" by (rule reuse_inv_start [OF assms(1,4)])
  consider (none) "\<not> cache_prompt (s_params sl)" | (pre) "cache_prompt (s_params sl)" "n_cache_reuse cfg = 0"
    | (chunks) "cache_prompt (s_params sl)" "0 < n_cache_reuse cfg" by blast
  then show ?thesis
  proof cases
    case none
    have "cells_at kv ?q p = {}" if "p < 0 \<or> int32_max \<le> p" for p
      using assms(4,5) that by (auto simp: cached_def zless_nat_eq_int_zless)
    then have "cells_at (snd (seq_rm ?q 0 (-1) kv)) ?q p = {}" for p
      by (simp add: cells_at_seq_rm [OF assms(1,3)] in_range_def norm_p0_def norm_p1_def not_le not_less)
    then have "prompt_held val (snd (seq_rm ?q 0 (-1) kv)) ?q n ?prompt [] 0"
      by (auto simp: prompt_held_def)
    then show ?thesis
      using none changes_only_seq_rm [OF assms(1-3)] by (intro exI [of _ 0] exI [of _ "[]"] exI conjI) (auto simp: reuse_prompt_def)
  next
    case pre
    then show ?thesis
      using reuse_inv_held [OF inv0] changes_only_refl [OF assms(1,2)]
      by (intro exI [of _ ?np] exI [of _ ?cache] exI [of _ kv] conjI) (simp_all add: reuse_prompt_def)
  next
    case chunks
    obtain hp cache kv' where run: "reuse_chunks (n_cache_reuse cfg) ?q ?prompt ?np ?np (?cache, kv) = (hp, cache, kv')"
      by (metis prod_cases3)
    then have c: "(\<exists>hc'. reuse_inv val ?q ?prompt n hc' hp cache kv')" "changes_only ?q kv kv'" "length cache = length ?cache"
      using reuse_chunks_correct [OF inv0 assms(2,3)] by blast+
    then have "prompt_held val kv' ?q n ?prompt cache hp" using reuse_inv_held by metis
    then show ?thesis using chunks run c(2) by (intro exI [of _ hp] exI [of _ cache] exI [of _ kv'] conjI)
      (simp_all add: reuse_prompt_def)
  qed
qed

section \<open>Truncating the prompt\<close>

lemma c_div_pos: "0 \<le> a \<Longrightarrow> 0 < b \<Longrightarrow> c_div a b = a div b"
  by (cases "a = 0") (simp_all add: c_div_def)

text \<open>
  A prompt that is too long keeps its first \<open>n_keep\<close> tokens and an end that leaves room in the
  context; the assertion after it holds.
\<close>

lemma truncate_prompt_correct:
  assumes "0 \<le> nk" "nk \<le> nctx - 4" "nctx \<le> int (length toks)"
  shows "\<exists>from. truncate_prompt nctx nk toks = Inr (take (nat nk) toks @ drop from toks)
    \<and> nat nk \<le> from \<and> from < length toks \<and> int (nat nk + (length toks - from)) < nctx"
proof -
  let ?block = "(nctx - nk) div 2" and ?rest = "int (length toks) - nk"
  have block: "2 \<le> ?block" "2 * ?block \<le> nctx - nk" using assms by linarith+
  let ?e = "(?rest - ?block) div ?block"
  have rest: "0 \<le> ?rest - ?block" using assms block by linarith
  have e: "?e * ?block \<le> ?rest - ?block" "?rest - ?block < ?e * ?block + ?block" "0 \<le> ?e"
    using block(1) rest div_mult_mod_eq [of "?rest - ?block" ?block] pos_mod_bound [of ?block "?rest - ?block"]
      pos_mod_sign [of ?block "?rest - ?block"] pos_imp_zdiv_nonneg_iff [of ?block "?rest - ?block"] by linarith+
  have ee: "0 \<le> ?e * ?block" using e(3) block(1) by simp
  define fr where "fr = nk + ?e * ?block"
  have c: "c_div (nctx - nk) 2 = ?block" "c_div (?rest - ?block) ?block = ?e"
    using assms block rest by (simp_all add: c_div_pos)
  have f: "0 \<le> fr" "fr < int (length toks)" "nk \<le> fr" "nk + (int (length toks) - fr) < nctx"
    using assms block e ee unfolding fr_def by linarith+
  have len: "int (length toks - nat fr) = int (length toks) - fr" using f by simp
  have "truncate_prompt nctx nk toks = Inr (take (nat nk) toks @ drop (nat fr) toks)"
    unfolding truncate_prompt_def c Let_def fr_def [symmetric] using f assms len by auto
  moreover have "nat nk \<le> nat fr" "nat fr < length toks" "int (nat nk + (length toks - nat fr)) < nctx"
    using f assms by linarith+
  ultimately show ?thesis by blast
qed

section \<open>The prompt of a slot\<close>

text \<open>The parts of the state the prompt of slot \<open>i\<close> changes, and what stays of the slot.\<close>

definition set_parts :: "nat \<Rightarrow> server_slot \<Rightarrow> kv_cache \<Rightarrow> batch_row list \<Rightarrow> 'o server_context \<Rightarrow> 'o server_context" where
  "set_parts i sl kv b st = (upd_kv (\<lambda>_. kv) (upd_slot i (\<lambda>_. sl) st))\<lparr>batch := b\<rparr>"

lemma set_parts_simps [simp]:
  "slots (set_parts i sl kv b st) = (slots st)[i := sl]" "memory (ctx (set_parts i sl kv b st)) = kv"
  "batch (set_parts i sl kv b st) = b" "set_parts i sl kv b (set_parts i sl' kv' b' st) = set_parts i sl kv b st"
  by (simp_all add: set_parts_def upd_kv_def upd_slot_def)

definition same_request :: "server_slot \<Rightarrow> server_slot \<Rightarrow> bool" where
  "same_request sl sl' \<longleftrightarrow> s_id sl' = s_id sl \<and> s_n_ctx sl' = s_n_ctx sl \<and> task_type sl' = task_type sl
     \<and> n_discard (s_params sl') = n_discard (s_params sl)"

lemma add_prompt_tokens_result:
  assumes "nb \<le> int cap" "\<forall>t \<in> set ts. t \<noteq> -1"
  shows "\<exists>k \<le> length ts. add_prompt_tokens cap nb q e ts (b, sl) =
      Inr (b @ map (\<lambda>j. (ts ! j, n_past sl + int j, q, e)) [0..<k],
           sl\<lparr>cache_tokens := cache_tokens sl @ take k ts, n_past := n_past sl + int k,
              n_prompt_tokens_processed := n_prompt_tokens_processed sl + int k\<rparr>)
    \<and> (k = length ts \<or> nb \<le> int (length b + k))"
  using assms(2)
proof (induction ts arbitrary: b sl)
  case Nil
  show ?case by simp
next
  case (Cons t ts)
  show ?case
  proof (cases "int (length b) < nb")
    case False
    then show ?thesis by (intro exI [of _ 0]) simp
  next
    case True
    let ?sl = "sl\<lparr>cache_tokens := cache_tokens sl @ [t], n_past := n_past sl + 1,
                 n_prompt_tokens_processed := n_prompt_tokens_processed sl + 1\<rparr>"
    have add: "common_batch_add cap (t, n_past sl, q, e) b = Inr (b @ [(t, n_past sl, q, e)])"
      using True assms(1) by (simp add: common_batch_add_def)
    obtain k where k: "k \<le> length ts" "add_prompt_tokens cap nb q e ts (b @ [(t, n_past sl, q, e)], ?sl) =
      Inr (b @ [(t, n_past sl, q, e)] @ map (\<lambda>j. (ts ! j, n_past ?sl + int j, q, e)) [0..<k],
           ?sl\<lparr>cache_tokens := cache_tokens ?sl @ take k ts, n_past := n_past ?sl + int k,
              n_prompt_tokens_processed := n_prompt_tokens_processed ?sl + int k\<rparr>)"
      "k = length ts \<or> nb \<le> int (length (b @ [(t, n_past sl, q, e)]) + k)"
      using Cons.IH [of "b @ [(t, n_past sl, q, e)]" ?sl] Cons.prems by auto
    have "map (\<lambda>j. ((t # ts) ! j, n_past sl + int j, q, e)) [0..<Suc k]
        = (t, n_past sl, q, e) # map (\<lambda>j. (ts ! j, n_past sl + 1 + int j, q, e)) [0..<k]"
      by (simp add: upt_conv_Cons map_Suc_upt [symmetric] del: upt_Suc)
    then show ?thesis
      using k True Cons.prems add by (intro exI [of _ "Suc k"]) (simp add: algebra_simps)
  qed
qed

text \<open>The rows of a batch without the output marks.\<close>

definition batch_tokens :: "batch_row list \<Rightarrow> (int \<times> int \<times> int) list" where
  "batch_tokens b = map (\<lambda>(t, p, q, _). (t, p, q)) b"

lemma batch_tokens_append [simp]: "batch_tokens (a @ b) = batch_tokens a @ batch_tokens b"
  by (simp add: batch_tokens_def)

lemma batch_tokens_mark [simp]: "batch_tokens (mark_output b) = batch_tokens b" "length (mark_output b) = length b"
proof -
  show "batch_tokens (mark_output b) = batch_tokens b"
    by (intro nth_equalityI) (auto simp: batch_tokens_def mark_output_def nth_list_update split: prod.split)
  show "length (mark_output b) = length b" by (simp add: mark_output_def)
qed

text \<open>
  Cutting the cells of the sequence at \<open>np\<close> leaves exactly the first \<open>np\<close> tokens of the prompt.
\<close>

lemma prompt_held_cut:
  assumes "kv_inv kv" "0 \<le> q" "prompt_held val kv q n prompt cache m" "np \<le> m" "int n < int32_max"
  shows "holds_tokens val (snd (seq_rm q (int np) (-1) kv)) q (take np prompt)"
  unfolding holds_tokens_def
proof (intro allI)
  fix p
  have at: "cells_at (snd (seq_rm q (int np) (-1) kv)) q p = (if int np \<le> p \<and> p < int32_max then {} else cells_at kv q p)"
    by (simp add: cells_at_seq_rm [OF assms(1,2)] in_range_def norm_p0_def norm_p1_def)
  have m: "np \<le> length prompt" using assms(3,4) by (simp add: prompt_held_def)
  show "if 0 \<le> p \<and> p < int (length (take np prompt))
      then holds_at val (snd (seq_rm q (int np) (-1) kv)) q p (take np prompt ! nat p)
      else cells_at (snd (seq_rm q (int np) (-1) kv)) q p = {}"
  proof (cases "0 \<le> p \<and> p < int np")
    case True
    then have "holds_at val kv q p (prompt ! nat p)" using assms(3,4) by (simp add: prompt_held_def)
    moreover have "take np prompt ! nat p = prompt ! nat p" using True by (simp add: nat_less_iff)
    ultimately show ?thesis using True m at by (simp add: holds_at_def min_absorb2)
  next
    case False
    then have "cells_at (snd (seq_rm q (int np) (-1) kv)) q p = {}"
      using assms(3,5) at by (auto simp: prompt_held_def)
    then show ?thesis using False m by auto
  qed
qed

lemma continue_prompt_correct:
  fixes st :: "'o server_context"
  defines "kv \<equiv> memory (ctx st)"
  assumes i: "i < length (slots st)" "slots st ! i = sl" and causal: "\<not> is_non_causal sl"
    and kv: "kv_inv kv" "private_seq kv (s_id sl)" "0 \<le> s_id sl" "int n < int32_max"
    and held: "prompt_held val kv (s_id sl) n (prompt_tokens sl) (cache_tokens sl) m"
    and np: "n_past sl = int np" "np \<le> m" "np < length (prompt_tokens sl)"
    and toks: "n_prompt_tokens sl = int (length (prompt_tokens sl))" "\<forall>t \<in> set (prompt_tokens sl). t \<noteq> -1"
  shows "\<exists>k st' sl'. continue_prompt cfg i st = Inr (True, st') \<and> np + k \<le> length (prompt_tokens sl)
    \<and> slots st' = (slots st)[i := sl'] \<and> prompt_tokens sl' = prompt_tokens sl \<and> s_id sl' = s_id sl
    \<and> cache_tokens sl' = take (np + k) (prompt_tokens sl) \<and> n_past sl' = int (np + k)
    \<and> s_state sl' = (if np + k = length (prompt_tokens sl) then SLOT_STATE_DONE_PROMPT else s_state sl)
    \<and> holds_tokens val (memory (ctx st')) (s_id sl) (take np (prompt_tokens sl)) \<and> changes_only (s_id sl) kv (memory (ctx st'))
    \<and> batch_tokens (batch st') = batch_tokens (batch st)
         @ map (\<lambda>j. (prompt_tokens sl ! (np + j), int (np + j), s_id sl)) [0..<k]
    \<and> (np + k = length (prompt_tokens sl) \<or> sp_n_batch cfg \<le> int (length (batch st')))
    \<and> st' = set_parts i sl' (memory (ctx st')) (batch st') st \<and> same_request sl sl' \<and> s_params sl' = s_params sl
    \<and> n_prompt_tokens sl' = n_prompt_tokens sl \<and> (np + k = length (prompt_tokens sl) \<longrightarrow> i_batch sl' = int (length (batch st')) - 1)"
proof -
  let ?q = "s_id sl" and ?prompt = "prompt_tokens sl" and ?e = "task_type sl = TASK_EMBEDDING \<and> pooling_none cfg"
  obtain kv1 where rm: "seq_rm ?q (int np) (-1) kv = (True, kv1)"
    using seq_rm_result(1) [OF kv(1)] by (metis (full_types) prod.collapse)
  have kv1: "holds_tokens val kv1 ?q (take np ?prompt)" "changes_only ?q kv kv1"
    using prompt_held_cut [OF kv(1,3) held np(2) kv(4)] changes_only_seq_rm [OF kv(1-3), of "int np" "-1"] by (simp_all add: rm)
  have len: "np \<le> length (cache_tokens sl)" "take np (cache_tokens sl) = take np ?prompt"
  proof -
    show "np \<le> length (cache_tokens sl)" using held np(2) by (simp add: prompt_held_def)
    have "take np (take m (cache_tokens sl)) = take np (take m ?prompt)" using held by (simp add: prompt_held_def)
    then show "take np (cache_tokens sl) = take np ?prompt" using np(2) by (simp add: min_absorb1)
  qed
  let ?sl1 = "sl\<lparr>n_past := int np, cache_tokens := take np (cache_tokens sl)\<rparr>"
  have cap: "sp_n_batch cfg \<le> int (batch_cap cfg st)" by (auto simp: batch_cap_def max_def)
  have "\<forall>t \<in> set (drop np ?prompt). t \<noteq> -1" using toks(2) in_set_dropD by fast
  from add_prompt_tokens_result [OF cap this, of ?q ?e "batch st" ?sl1]
  obtain k where k0: "k \<le> length (drop np ?prompt)"
    and run0: "add_prompt_tokens (batch_cap cfg st) (sp_n_batch cfg) ?q ?e (drop np ?prompt) (batch st, ?sl1)
      = Inr (batch st @ map (\<lambda>j. (drop np ?prompt ! j, n_past ?sl1 + int j, ?q, ?e)) [0..<k],
             ?sl1\<lparr>cache_tokens := cache_tokens ?sl1 @ take k (drop np ?prompt), n_past := n_past ?sl1 + int k,
               n_prompt_tokens_processed := n_prompt_tokens_processed ?sl1 + int k\<rparr>)"
    and full0: "k = length (drop np ?prompt) \<or> sp_n_batch cfg \<le> int (length (batch st) + k)"
    by blast
  let ?b = "batch st @ map (\<lambda>j. (drop np ?prompt ! j, int np + int j, ?q, ?e)) [0..<k]"
  let ?sl2 = "?sl1\<lparr>cache_tokens := cache_tokens ?sl1 @ take k (drop np ?prompt), n_past := int np + int k,
               n_prompt_tokens_processed := n_prompt_tokens_processed sl + int k\<rparr>"
  let ?st2 = "(upd_kv (\<lambda>_. kv1) (upd_slot i (\<lambda>_. ?sl2) st))\<lparr>batch := ?b\<rparr>"
  have run: "add_prompt_tokens (batch_cap cfg st) (sp_n_batch cfg) ?q ?e (drop np ?prompt) (batch st, ?sl1) = Inr (?b, ?sl2)"
    using run0 by simp
  have k: "np + k \<le> length ?prompt" and full: "np + k = length ?prompt \<or> sp_n_batch cfg \<le> int (length (batch st) + k)"
    using k0 full0 np(3) by auto
  have rows: "batch_tokens ?b = batch_tokens (batch st) @ map (\<lambda>j. (?prompt ! (np + j), int (np + j), ?q)) [0..<k]"
    using k by (simp add: batch_tokens_def)
  have cache2: "take np (cache_tokens sl) @ take k (drop np ?prompt) = take (np + k) ?prompt"
    by (simp add: len(2) take_add)
  have null: "?prompt ! np \<noteq> -1" using toks(2) np(3) nth_mem by blast
  have fin: "continue_prompt cfg i st = bind_res (finish_prompt i ?st2) (\<lambda>st1. Inr (True, st1))"
    unfolding continue_prompt_def Let_def i(2) kv_def [symmetric]
    using causal np toks rm len(1) run null by simp
  have sl2: "slots ?st2 ! i = ?sl2" "length (batch ?st2) = length (batch st) + k" using i by simp_all
  show ?thesis
  proof (cases "np + k = length ?prompt")
    case True
    let ?sl3 = "?sl2\<lparr>s_state := SLOT_STATE_DONE_PROMPT, n_decoded := 0, i_batch := int (length (batch st) + k) - 1\<rparr>"
    let ?st3 = "upd_slot i (\<lambda>_. ?sl3) (?st2\<lparr>batch := mark_output ?b\<rparr>)"
    have "k \<noteq> 0" using True np(3) by simp
    then have ne: "batch ?st2 \<noteq> []" by simp
    have "n_past (slots ?st2 ! i) = n_prompt_tokens (slots ?st2 ! i)"
      "n_prompt_tokens (slots ?st2 ! i) = int (length (prompt_tokens (slots ?st2 ! i)))"
      unfolding sl2(1) using True toks(1) by simp_all
    then have "finish_prompt i ?st2 = Inr ?st3"
      unfolding finish_prompt_def Let_def using ne i by (simp add: upd_slot_def)
    then show ?thesis
      using fin True rows cache2 kv1 i k
      by (intro exI [of _ k] exI [of _ ?st3] exI [of _ ?sl3])
        (simp add: list_update_overwrite set_parts_def upd_kv_def upd_slot_def same_request_def)
  next
    case False
    have "n_past (slots ?st2 ! i) \<noteq> n_prompt_tokens (slots ?st2 ! i)"
      unfolding sl2(1) using False toks(1) by simp
    then have "finish_prompt i ?st2 = Inr ?st2" unfolding finish_prompt_def Let_def by simp
    then show ?thesis
      using fin False rows cache2 kv1 i k full
      by (intro exI [of _ k] exI [of _ ?st2] exI [of _ ?sl2])
        (simp add: set_parts_def upd_kv_def upd_slot_def same_request_def)
  qed
qed

text \<open>The prompt of a causal slot after \<open>clamp_keep\<close> and \<open>fit_prompt\<close>.\<close>

lemma fit_prompt_correct:
  assumes "4 \<le> s_n_ctx sl" "n_prompt_tokens sl = int (length (prompt_tokens sl))" "prompt_tokens sl \<noteq> []"
  shows "\<exists>toks pa tr. fit_prompt (clamp_keep sl) = Inr (sl\<lparr>s_params := pa, prompt_tokens := toks, truncated := tr, n_prompt_tokens := int (length toks)\<rparr>)
    \<and> toks \<noteq> [] \<and> set toks \<subseteq> set (prompt_tokens sl) \<and> int (length toks) < s_n_ctx sl
    \<and> (int (length (prompt_tokens sl)) < s_n_ctx sl \<longrightarrow> toks = prompt_tokens sl)
    \<and> n_discard pa = n_discard (s_params sl) \<and> 0 \<le> n_keep pa \<and> n_keep pa \<le> s_n_ctx sl - 4"
proof -
  let ?nk = "min (s_n_ctx sl - 4) (if n_keep (s_params sl) < 0 then n_prompt_tokens sl else n_keep (s_params sl))"
  let ?pa = "(s_params sl)\<lparr>n_keep := ?nk\<rparr>"
  have cl: "clamp_keep sl = sl\<lparr>s_params := ?pa\<rparr>" by (simp add: clamp_keep_def Let_def)
  show ?thesis
  proof (cases "s_n_ctx sl \<le> int (length (prompt_tokens sl))")
    case True
    have "0 \<le> ?nk" "?nk \<le> s_n_ctx sl - 4" using assms by auto
    from truncate_prompt_correct [OF this True] obtain d where fr:
      "truncate_prompt (s_n_ctx sl) ?nk (prompt_tokens sl) = Inr (take (nat ?nk) (prompt_tokens sl) @ drop d (prompt_tokens sl))"
      "d < length (prompt_tokens sl)" "int (nat ?nk + (length (prompt_tokens sl) - d)) < s_n_ctx sl" by blast
    let ?toks = "take (nat ?nk) (prompt_tokens sl) @ drop d (prompt_tokens sl)"
    have "length ?toks \<le> nat ?nk + (length (prompt_tokens sl) - d)" by (simp only: length_append length_take length_drop)
    then have "int (length ?toks) < s_n_ctx sl" using fr(3) by linarith
    moreover have "set ?toks \<subseteq> set (prompt_tokens sl)" by (auto dest: in_set_takeD in_set_dropD)
    moreover have "fit_prompt (clamp_keep sl)
        = Inr (sl\<lparr>s_params := ?pa, prompt_tokens := ?toks, truncated := True, n_prompt_tokens := int (length ?toks)\<rparr>)"
      using True assms(2) fr(1) unfolding fit_prompt_def cl by simp
    ultimately show ?thesis using fr(2) True by (intro exI [of _ ?toks] exI [of _ ?pa] exI [of _ True]) (use assms(1,2) in auto)
  next
    case False
    have "fit_prompt (clamp_keep sl) = Inr (sl\<lparr>s_params := ?pa, prompt_tokens := prompt_tokens sl, truncated := truncated sl,
        n_prompt_tokens := int (length (prompt_tokens sl))\<rparr>)"
      using False assms(2) unfolding fit_prompt_def cl by simp
    then show ?thesis using False assms(3) by (intro exI [of _ "prompt_tokens sl"] exI [of _ ?pa] exI [of _ "truncated sl"]) (use assms(1,2) in auto)
  qed
qed

text \<open>
  The conditions under which the server starts a completion in slot \<open>i\<close>: it was launched with a
  valid prompt, and the cells of its sequence, the positions up to \<open>n\<close>, hold the tokens it remembers.
\<close>

definition ready_to_start :: "(nat \<Rightarrow> int) \<Rightarrow> nat \<Rightarrow> server_params \<Rightarrow> nat \<Rightarrow> 'o server_context \<Rightarrow> bool" where
  "ready_to_start val n cfg i st \<longleftrightarrow>
     (let sl = slots st ! i; kv = memory (ctx st) in
      i < length (slots st) \<and> s_state sl = SLOT_STATE_STARTED \<and> \<not> is_non_causal sl \<and> prompt_tokens sl \<noteq> []
      \<and> (\<forall>t \<in> set (prompt_tokens sl). 0 \<le> t) \<and> 4 \<le> s_n_ctx sl
      \<and> (ctx_shift cfg \<or> int (length (prompt_tokens sl)) < s_n_ctx sl)
      \<and> kv_inv kv \<and> private_seq kv (s_id sl) \<and> 0 \<le> s_id sl \<and> cached val kv (s_id sl) (cache_tokens sl) n
      \<and> int n < int32_max)"

lemma start_prompt_correct:
  fixes st :: "'o server_context"
  assumes rdy: "ready_to_start val n cfg i st"
  defines "sl \<equiv> slots st ! i" and "kv \<equiv> memory (ctx st)"
  shows "\<exists>st' sl' m np. start_prompt cfg now i st = Inr (True, st') \<and> slots st' = (slots st)[i := sl'] \<and> batch st' = batch st
    \<and> s_id sl' = s_id sl \<and> \<not> is_non_causal sl' \<and> s_state sl' = SLOT_STATE_PROCESSING_PROMPT
    \<and> n_past sl' = int np \<and> np \<le> m \<and> np < length (prompt_tokens sl')
    \<and> n_prompt_tokens sl' = int (length (prompt_tokens sl')) \<and> (\<forall>t \<in> set (prompt_tokens sl'). t \<noteq> -1)
    \<and> int (length (prompt_tokens sl')) < s_n_ctx sl
    \<and> (int (length (prompt_tokens sl)) < s_n_ctx sl \<longrightarrow> prompt_tokens sl' = prompt_tokens sl)
    \<and> changes_only (s_id sl) kv (memory (ctx st'))
    \<and> prompt_held val (memory (ctx st')) (s_id sl) n (prompt_tokens sl') (cache_tokens sl') m
    \<and> st' = set_parts i sl' (memory (ctx st')) (batch st) st \<and> same_request sl sl'
    \<and> 0 \<le> n_keep (s_params sl') \<and> n_keep (s_params sl') \<le> s_n_ctx sl - 4 \<and> set (prompt_tokens sl') \<subseteq> set (prompt_tokens sl)"
proof -
  have r: "i < length (slots st)" "\<not> is_non_causal sl" "prompt_tokens sl \<noteq> []" "\<forall>t \<in> set (prompt_tokens sl). 0 \<le> t"
    "4 \<le> s_n_ctx sl" "ctx_shift cfg \<or> int (length (prompt_tokens sl)) < s_n_ctx sl"
    "kv_inv kv" "private_seq kv (s_id sl)" "0 \<le> s_id sl" "cached val kv (s_id sl) (cache_tokens sl) n" "int n < int32_max"
    using rdy by (simp_all add: ready_to_start_def sl_def kv_def Let_def)
  define sl0 where "sl0 = sl\<lparr>t_start_generation := 0, n_past := 0, n_prompt_tokens := int (length (prompt_tokens sl)),
    s_state := SLOT_STATE_PROCESSING_PROMPT\<rparr>"
  have sl0: "s_n_ctx sl0 = s_n_ctx sl" "prompt_tokens sl0 = prompt_tokens sl" "n_prompt_tokens sl0 = int (length (prompt_tokens sl))"
    "s_id sl0 = s_id sl" "cache_tokens sl0 = cache_tokens sl" "\<not> is_non_causal sl0" "s_params sl0 = s_params sl"
    using r(2) by (simp_all add: sl0_def is_non_causal_def)
  obtain toks pa tr where fit: "fit_prompt (clamp_keep sl0) = Inr (sl0\<lparr>s_params := pa, prompt_tokens := toks, truncated := tr,
        n_prompt_tokens := int (length toks)\<rparr>)" "toks \<noteq> []" "set toks \<subseteq> set (prompt_tokens sl)"
      "int (length toks) < s_n_ctx sl" "int (length (prompt_tokens sl)) < s_n_ctx sl \<longrightarrow> toks = prompt_tokens sl"
      "n_discard pa = n_discard (s_params sl)" "0 \<le> n_keep pa" "n_keep pa \<le> s_n_ctx sl - 4"
    using fit_prompt_correct [of sl0] r(3,5) sl0 by metis
  let ?sl1 = "sl0\<lparr>s_params := pa, prompt_tokens := toks, truncated := tr, n_prompt_tokens := int (length toks)\<rparr>"
  have "n < nat int32_max" using r(11) by simp
  from reuse_prompt_correct [OF r(7) _ _ _ this, of ?sl1 val cfg] obtain m cache kv' where
    reuse: "reuse_prompt cfg ?sl1 kv = (?sl1\<lparr>n_past := int m, cache_tokens := cache\<rparr>, kv')" "changes_only (s_id sl) kv kv'"
      "prompt_held val kv' (s_id sl) n toks cache m"
    using r(8-10) sl0 by auto
  have m: "m \<le> length toks" using reuse(3) by (simp add: prompt_held_def)
  define np where "np = (if m = length toks then m - 1 else m)"
  have np: "np \<le> m" "np < length toks" using m fit(2) by (auto simp: np_def)
  let ?sl2 = "?sl1\<lparr>cache_tokens := cache, n_past := int np, n_prompt_tokens_processed := 0\<rparr>"
  let ?st0 = "upd_slot i (\<lambda>_. sl0) st"
  let ?st2 = "upd_kv (\<lambda>_. kv') (upd_slot i (\<lambda>_. ?sl2) ?st0)"
  have upd: "upd_slot i (\<lambda>sl. sl\<lparr>t_start_generation := 0, n_past := 0, n_prompt_tokens := int (length (prompt_tokens sl)),
      s_state := SLOT_STATE_PROCESSING_PROMPT\<rparr>) st = ?st0" by (simp add: upd_slot_def sl0_def sl_def)
  have at0: "slots ?st0 ! i = sl0" "memory (ctx ?st0) = kv" using r(1) by (simp_all add: kv_def)
  have dec: "(if int m = int (length toks) \<and> 0 < int m then int m - 1 else int m) = int np" using fit(2) by (auto simp: np_def of_nat_diff)
  have "start_prompt cfg now i st = Inr (True, ?st2)"
    unfolding start_prompt_def Let_def upd at0 using fit(1,2) reuse(1) sl0 r(3,6) dec
    by (auto simp: refuse_prompt_def load_prompt_def keep_one_def)
  moreover have "\<not> is_non_causal ?sl2" using sl0(6) by (simp add: is_non_causal_def)
  moreover have "slots ?st2 = (slots st)[i := ?sl2]" by simp
  moreover have "\<forall>t \<in> set toks. t \<noteq> -1" using fit(3) r(4) by fastforce
  ultimately show ?thesis
    using np fit(3-8) reuse(2,3) sl0(4)
    by (intro exI [of _ ?st2] exI [of _ ?sl2] exI [of _ m] exI [of _ np])
      (simp add: sl0_def set_parts_def upd_kv_def upd_slot_def same_request_def)
qed

text \<open>
  What processing the prompt of a slot leads to: \<open>m\<close> tokens of the prompt are in the cache, the next \<open>k\<close> in the
  batch, and the prompt is complete or the batch is full.
\<close>

definition prompt_outcome ::
  "(nat \<Rightarrow> int) \<Rightarrow> server_params \<Rightarrow> nat \<Rightarrow> 'o server_context \<Rightarrow> server_slot \<Rightarrow> kv_cache \<Rightarrow> batch_row list \<Rightarrow> nat \<Rightarrow> nat \<Rightarrow> bool" where
  "prompt_outcome val cfg i st sl' kv' b' m k \<longleftrightarrow>
     (let sl = slots st ! i in
      m + k \<le> length (prompt_tokens sl') \<and> cache_tokens sl' = take (m + k) (prompt_tokens sl') \<and> n_past sl' = int (m + k)
      \<and> holds_tokens val kv' (s_id sl) (take m (prompt_tokens sl')) \<and> changes_only (s_id sl) (memory (ctx st)) kv'
      \<and> batch_tokens b' = batch_tokens (batch st)
           @ map (\<lambda>j. (prompt_tokens sl' ! (m + j), int (m + j), s_id sl)) [0..<k]
      \<and> same_request sl sl' \<and> 0 \<le> n_keep (s_params sl') \<and> n_keep (s_params sl') \<le> s_n_ctx sl - 4
      \<and> n_prompt_tokens sl' = int (length (prompt_tokens sl')) \<and> set (prompt_tokens sl') \<subseteq> set (prompt_tokens sl)
      \<and> int (length (prompt_tokens sl')) < s_n_ctx sl
      \<and> (m + k = length (prompt_tokens sl') \<and> s_state sl' = SLOT_STATE_DONE_PROMPT \<and> i_batch sl' = int (length b') - 1 \<and> 0 < k
         \<or> m + k < length (prompt_tokens sl') \<and> s_state sl' = SLOT_STATE_PROCESSING_PROMPT \<and> sp_n_batch cfg \<le> int (length b')))"

lemma prompt_continued:
  fixes st :: "'o server_context"
  defines "kv \<equiv> memory (ctx st)"
  assumes i: "i < length (slots st)" "slots st ! i = sl" and causal: "\<not> is_non_causal sl"
    and kv: "kv_inv kv" "private_seq kv (s_id sl)" "0 \<le> s_id sl" "int n < int32_max"
    and held: "prompt_held val kv (s_id sl) n (prompt_tokens sl) (cache_tokens sl) m"
    and np: "n_past sl = int np" "np \<le> m" "np < length (prompt_tokens sl)"
    and toks: "n_prompt_tokens sl = int (length (prompt_tokens sl))" "\<forall>t \<in> set (prompt_tokens sl). t \<noteq> -1"
    and sl: "s_state sl = SLOT_STATE_PROCESSING_PROMPT" "0 \<le> n_keep (s_params sl)" "n_keep (s_params sl) \<le> s_n_ctx sl - 4"
      "int (length (prompt_tokens sl)) < s_n_ctx sl"
  shows "\<exists>sl' kv' b' k. continue_prompt cfg i st = Inr (True, set_parts i sl' kv' b' st) \<and> prompt_outcome val cfg i st sl' kv' b' np k
    \<and> prompt_tokens sl' = prompt_tokens sl"
proof -
  obtain k st' sl' where c: "continue_prompt cfg i st = Inr (True, st')" "np + k \<le> length (prompt_tokens sl)"
    "prompt_tokens sl' = prompt_tokens sl" "cache_tokens sl' = take (np + k) (prompt_tokens sl)" "n_past sl' = int (np + k)"
    "s_state sl' = (if np + k = length (prompt_tokens sl) then SLOT_STATE_DONE_PROMPT else s_state sl)"
    "holds_tokens val (memory (ctx st')) (s_id sl) (take np (prompt_tokens sl))" "changes_only (s_id sl) (memory (ctx st)) (memory (ctx st'))"
    "batch_tokens (batch st') = batch_tokens (batch st) @ map (\<lambda>j. (prompt_tokens sl ! (np + j), int (np + j), s_id sl)) [0..<k]"
    "np + k = length (prompt_tokens sl) \<or> sp_n_batch cfg \<le> int (length (batch st'))"
    "st' = set_parts i sl' (memory (ctx st')) (batch st') st" "same_request sl sl'" "s_params sl' = s_params sl"
    "n_prompt_tokens sl' = n_prompt_tokens sl" "np + k = length (prompt_tokens sl) \<longrightarrow> i_batch sl' = int (length (batch st')) - 1"
    using continue_prompt_correct [OF i causal kv [unfolded kv_def] held [unfolded kv_def] np toks, of cfg]
    by (elim exE conjE) (rule that)
  have "prompt_outcome val cfg i st sl' (memory (ctx st')) (batch st') np k"
    unfolding prompt_outcome_def Let_def i(2)
    using c(2-10,12-15) sl toks(1) np(3) by (auto simp: kv_def)
  then show ?thesis using c(1,3,11) by metis
qed

lemma prompt_started:
  fixes st :: "'o server_context"
  assumes "ready_to_start val n cfg i st"
  shows "\<exists>sl' kv' b' m k. process_prompt cfg now i st = Inr (True, set_parts i sl' kv' b' st)
    \<and> prompt_outcome val cfg i st sl' kv' b' m k
    \<and> (int (length (prompt_tokens (slots st ! i))) < s_n_ctx (slots st ! i) \<longrightarrow> prompt_tokens sl' = prompt_tokens (slots st ! i))"
proof -
  let ?sl = "slots st ! i" and ?kv = "memory (ctx st)"
  have r: "i < length (slots st)" "s_state ?sl = SLOT_STATE_STARTED" "0 \<le> s_id ?sl" "int n < int32_max"
    using assms by (simp_all add: ready_to_start_def Let_def)
  obtain st1 sl1 m0 np where s1: "start_prompt cfg now i st = Inr (True, st1)" "slots st1 = (slots st)[i := sl1]" "batch st1 = batch st"
    "s_id sl1 = s_id ?sl" "\<not> is_non_causal sl1" "s_state sl1 = SLOT_STATE_PROCESSING_PROMPT" "n_past sl1 = int np" "np \<le> m0"
    "np < length (prompt_tokens sl1)" "n_prompt_tokens sl1 = int (length (prompt_tokens sl1))" "\<forall>t \<in> set (prompt_tokens sl1). t \<noteq> -1"
    "int (length (prompt_tokens sl1)) < s_n_ctx ?sl"
    "int (length (prompt_tokens ?sl)) < s_n_ctx ?sl \<longrightarrow> prompt_tokens sl1 = prompt_tokens ?sl"
    "changes_only (s_id ?sl) ?kv (memory (ctx st1))"
    "prompt_held val (memory (ctx st1)) (s_id ?sl) n (prompt_tokens sl1) (cache_tokens sl1) m0"
    "st1 = set_parts i sl1 (memory (ctx st1)) (batch st) st" "same_request ?sl sl1"
    "0 \<le> n_keep (s_params sl1)" "n_keep (s_params sl1) \<le> s_n_ctx ?sl - 4" "set (prompt_tokens sl1) \<subseteq> set (prompt_tokens ?sl)"
    using start_prompt_correct [OF assms, of now] by (elim exE conjE) (rule that)
  have at1: "i < length (slots st1)" "slots st1 ! i = sl1" using s1(2) r(1) by simp_all
  have kv1: "kv_inv (memory (ctx st1))" "private_seq (memory (ctx st1)) (s_id sl1)" "0 \<le> s_id sl1"
    using s1(4,14) r(3) by (simp_all add: changes_only_def)
  have ctx1: "s_n_ctx sl1 = s_n_ctx ?sl" using s1(17) by (simp add: same_request_def)
  have held: "prompt_held val (memory (ctx st1)) (s_id sl1) n (prompt_tokens sl1) (cache_tokens sl1) m0" using s1(15) s1(4) by simp
  obtain sl' kv' b' k where c: "continue_prompt cfg i st1 = Inr (True, set_parts i sl' kv' b' st1)"
    "prompt_outcome val cfg i st1 sl' kv' b' np k" "prompt_tokens sl' = prompt_tokens sl1"
    using prompt_continued [OF at1 s1(5) kv1 r(4) held s1(7-11) s1(6) s1(18), of cfg] s1(12,19) ctx1 by auto
  have "set_parts i sl' kv' b' st1 = set_parts i sl' kv' b' st" by (subst s1(16)) simp
  then have "process_prompt cfg now i st = Inr (True, set_parts i sl' kv' b' st)"
    using r(2) s1(1) c(1) by (simp add: process_prompt_def)
  moreover have "prompt_outcome val cfg i st sl' kv' b' np k"
    using c(2,3) s1(3,4,17,20) ctx1 changes_only_trans [OF s1(14)] unfolding prompt_outcome_def Let_def at1(2)
    by (auto simp: same_request_def)
  ultimately show ?thesis using s1(13) unfolding c(3) [symmetric] by blast
qed

text \<open>A context shift that is needed, with the state after it.\<close>

lemma context_shift_result:
  fixes st :: "'o server_context" and i :: nat
  defines "sl \<equiv> slots st ! i" and "kv \<equiv> memory (ctx st)"
  assumes "i < length (slots st)" "is_processing sl" "s_n_ctx sl \<le> n_past sl + 1" "ctx_shift cfg"
    and "kv_inv kv" "private_seq kv (s_id sl)" "0 \<le> s_id sl" "holds_tokens val kv (s_id sl) (cache_tokens sl)"
    and "n_past sl = int (length (cache_tokens sl))"
    and "0 \<le> n_keep (s_params sl)" "n_keep (s_params sl) \<le> s_n_ctx sl - 4" "add_bos_token cfg \<in> {0, 1}"
    and "0 \<le> n_discard (s_params sl)" "n_discard (s_params sl) \<le> n_past sl - n_keep (s_params sl) - add_bos_token cfg"
  shows "\<exists>k d kv'. context_shift cfg now i st = Inr (set_parts i (sl\<lparr>cache_tokens := take k (cache_tokens sl) @ drop (k + d) (cache_tokens sl),
        n_past := n_past sl - int d, truncated := True\<rparr>) kv' (batch st) st)
    \<and> 0 < d \<and> int k = n_keep (s_params sl) + add_bos_token cfg \<and> k + d \<le> length (cache_tokens sl)
    \<and> holds_tokens val kv' (s_id sl) (take k (cache_tokens sl) @ drop (k + d) (cache_tokens sl)) \<and> changes_only (s_id sl) kv kv'"
proof -
  let ?nk = "n_keep (s_params sl) + add_bos_token cfg" and ?q = "s_id sl" and ?toks = "cache_tokens sl"
  let ?nd = "if n_discard (s_params sl) \<noteq> 0 then n_discard (s_params sl) else c_div (n_past sl - ?nk) 2"
  have nk: "0 \<le> ?nk" "?nk \<le> n_past sl - 2" using assms(5,12-14) by auto
  have nd: "0 < ?nd" "?nk + ?nd \<le> n_past sl"
    using nk assms(15,16) c_div_pos [of "n_past sl - ?nk" 2] by (auto split: if_splits)
  define k d where "k = nat ?nk" and "d = nat ?nd"
  have kd: "?nk = int k" "?nd = int d" "0 < d" "k + d \<le> length ?toks"
    using nk nd assms(11) by (auto simp: k_def d_def)
  let ?new = "take k ?toks @ drop (k + d) ?toks"
  let ?kv1 = "snd (seq_rm ?q (int k) (int k + int d) kv)"
  let ?kv' = "seq_add ?q (int k + int d) (int (length ?toks)) (- int d) ?kv1"
  let ?sl' = "sl\<lparr>cache_tokens := ?new, n_past := int (length ?toks) - int d, truncated := True\<rparr>"
  have "context_shift cfg now i st = Inr (set_parts i ?sl' ?kv' (batch st) st)"
    unfolding context_shift_def Let_def sl_def [symmetric] kd(1) kd(2) [unfolded kd(1)]
    using assms(4-6,11) shift_tokens_result [OF kd(3,4)] by (simp add: set_parts_def upd_slot_def upd_kv_def kv_def sl_def)
  moreover have "holds_tokens val ?kv' ?q ?new" by (rule holds_tokens_shift [OF assms(7,9,10) kd(3,4)])
  moreover have c1: "changes_only ?q kv ?kv1" by (rule changes_only_seq_rm [OF assms(7-9)])
  then have "changes_only ?q ?kv1 ?kv'" using changes_only_seq_add by (simp add: changes_only_def)
  then have "changes_only ?q kv ?kv'" by (rule changes_only_trans [OF c1])
  ultimately show ?thesis
    using kd assms(11) by (intro exI [of _ k] exI [of _ d] exI [of _ ?kv']) simp
qed

section \<open>Properties\<close>

text \<open>
  C6. Starting the prompt of a completion never fails, and afterwards the slot has processed a first part of the
  prompt, the tokens before \<open>n_past\<close>: all of it, or as much as fits when \<open>n_batch\<close> is reached (the slot then goes on
  with the rest in the next batch). Every token of this part is exactly once either in the cache, in one cell at its position, or in the
  batch, with its position: the cells reused from the previous request (the common prefix and, with
  \<open>n_cache_reuse\<close>, the chunks shifted to their new place) hold the tokens of the new prompt, and
  \<open>cache_tokens\<close> says so. The cells of the other slots do not change. The prompt is complete or the
  batch is full.
\<close>

theorem prompt_correct:
  fixes st :: "'o server_context"
  assumes "ready_to_start val n cfg i st"
  shows "\<exists>st' sl' m k. process_prompt cfg now i st = Inr (True, st') \<and> slots st' = (slots st)[i := sl']
    \<and> m + k \<le> length (prompt_tokens sl') \<and> cache_tokens sl' = take (m + k) (prompt_tokens sl') \<and> n_past sl' = int (m + k)
    \<and> holds_tokens val (memory (ctx st')) (s_id (slots st ! i)) (take m (prompt_tokens sl'))
    \<and> batch_tokens (batch st') = batch_tokens (batch st)
         @ map (\<lambda>j. (prompt_tokens sl' ! (m + j), int (m + j), s_id (slots st ! i))) [0..<k]
    \<and> kv_inv (memory (ctx st')) \<and> (\<forall>r. r \<noteq> s_id (slots st ! i) \<longrightarrow> occ (memory (ctx st')) r = occ (memory (ctx st)) r)
    \<and> int (length (prompt_tokens sl')) < s_n_ctx (slots st ! i)
    \<and> (int (length (prompt_tokens (slots st ! i))) < s_n_ctx (slots st ! i) \<longrightarrow> prompt_tokens sl' = prompt_tokens (slots st ! i))
    \<and> (m + k = length (prompt_tokens sl') \<and> s_state sl' = SLOT_STATE_DONE_PROMPT
       \<or> sp_n_batch cfg \<le> int (length (batch st')) \<and> s_state sl' = SLOT_STATE_PROCESSING_PROMPT)"
proof -
  obtain sl' kv' b' m k where p: "process_prompt cfg now i st = Inr (True, set_parts i sl' kv' b' st)"
    "prompt_outcome val cfg i st sl' kv' b' m k"
    "int (length (prompt_tokens (slots st ! i))) < s_n_ctx (slots st ! i) \<longrightarrow> prompt_tokens sl' = prompt_tokens (slots st ! i)"
    using prompt_started [OF assms] by blast
  show ?thesis
    using p by (intro exI [of _ "set_parts i sl' kv' b' st"] exI [of _ sl'] exI [of _ m] exI [of _ k])
      (auto simp: prompt_outcome_def changes_only_def Let_def)
qed

text \<open>A server with one slot, whose sequence holds the tokens 5, 6 and 7.\<close>

definition wit_kv :: kv_cache where
  "wit_kv = \<lparr>head = 0, kv_size = 4, used = 3, kv_n = 0,
     cells = [wit_cell 0 {0}, wit_cell 1 {0}, wit_cell 2 {0}, empty_cell],
     has_shift = False, do_defrag = False, can_shift = True, padding = 4, ranges = [], defrag_ids = []\<rparr>"

definition wit_val :: "nat \<Rightarrow> int" where
  "wit_val i = [5, 6, 7, 0] ! i"

definition wit_cfg :: server_params where
  "wit_cfg = \<lparr>ctx_shift = True, cont_batching = True, n_cache_reuse = 1, similar = None, add_bos_token = 1,
     has_eos_token = True, eos_token = 2, vocab_size = 100, sp_n_batch = 8, sp_n_ubatch = 8, pooling_none = False,
     sampler_ok = (\<lambda>_. True), save_file = (\<lambda>_ _ _ _. 0), load_file = (\<lambda>_ _ _ kv. (0, [], kv))\<rparr>"

definition wit_server :: "kv_cache \<Rightarrow> server_slot list \<Rightarrow> nat server_context" where
  "wit_server kv sls = \<lparr>ctx = \<lparr>memory = kv, output_ids = [], logits = None, embd = None, n_outputs = 0\<rparr>, slots = sls,
     queue = \<lparr>q_id = 1, q_running = True, queue_tasks = [], queue_tasks_deferred = []\<rparr>,
     results = \<lparr>waiting_task_ids = {}, queue_results = []\<rparr>, batch = [], clean_kv_cache = True, lora_adapters = []\<rparr>"

definition wit_started :: server_slot where
  "wit_started = (server_slot_new 0 4 (-1))\<lparr>id_task := 0, s_state := SLOT_STATE_STARTED, prompt_tokens := [5, 7, 8],
     cache_tokens := [5, 6, 7]\<rparr>"

lemma wit_kv_occ: "occ wit_kv r = (if r = 0 then {(0, 0), (1, 1), (2, 2)} else {})"
  by (auto simp: mem_occ wit_kv_def wit_cell_def empty_cell_def less_Suc_eq numeral_eq_Suc)

lemma wit_kv_ok: "kv_inv wit_kv" "private_seq wit_kv 0" "holds_tokens wit_val wit_kv 0 [5, 6, 7]"
proof -
  show "kv_inv wit_kv"
    by (simp add: wit_kv_def wit_cell_def kv_inv_def cell_ok_def is_empty_def empty_cell_def)
  show "private_seq wit_kv 0" by (auto simp: private_seq_def wit_kv_occ split: if_splits)
  have at: "cells_at wit_kv 0 p = (if p = 0 then {0} else if p = 1 then {1} else if p = 2 then {2} else {})" for p
    by (auto simp: cells_at_def wit_kv_occ)
  have p3: "p = 0 \<or> p = 1 \<or> p = 2" if "0 \<le> p" "p < 3" for p :: int using that by linarith
  show "holds_tokens wit_val wit_kv 0 [5, 6, 7]"
    by (auto simp: holds_tokens_def holds_at_def at wit_val_def dest!: p3)
qed

theorem prompt_correct_witness:
  "\<exists>st' sl' m k. process_prompt wit_cfg 0 0 (wit_server wit_kv [wit_started]) = Inr (True, st') \<and> slots st' = [sl']
     \<and> cache_tokens sl' = take (m + k) [5, 7, 8] \<and> n_past sl' = int (m + k)
     \<and> holds_tokens wit_val (memory (ctx st')) 0 (take m [5, 7, 8])"
proof -
  let ?st = "wit_server wit_kv [wit_started]"
  have "cached wit_val wit_kv 0 [5, 6, 7] 3" using holds_cached [OF wit_kv_ok(3)] by (simp add: numeral_3_eq_3)
  then have "ready_to_start wit_val 3 wit_cfg 0 ?st"
    using wit_kv_ok by (simp add: ready_to_start_def wit_server_def wit_started_def server_slot_new_def is_non_causal_def
        wit_cfg_def int32_max_def)
  note p = prompt_correct [OF this, of 0]
  have at: "slots ?st ! 0 = wit_started" "slots ?st = [wit_started]" "prompt_tokens wit_started = [5, 7, 8]"
    "s_id wit_started = 0" "s_n_ctx wit_started = 4"
    by (simp_all add: wit_server_def wit_started_def server_slot_new_def)
  obtain st' sl' m k where q: "process_prompt wit_cfg 0 0 ?st = Inr (True, st')" "slots st' = [sl']"
    "cache_tokens sl' = take (m + k) (prompt_tokens sl')" "n_past sl' = int (m + k)" "prompt_tokens sl' = [5, 7, 8]"
    "holds_tokens wit_val (memory (ctx st')) 0 (take m (prompt_tokens sl'))"
    using p unfolding at(1) at(3-5) by (elim exE conjE) (rule that; (assumption | simp add: at(2)))
  show ?thesis using q(1-4) q(6) unfolding q(5) by blast
qed

text \<open>
  C25. A context shift keeps the slot and the cache together: when the slot is full and the \<open>n_discard\<close> of its
  request is between 0 (the default: half of what follows the kept tokens) and the number of tokens that
  follow the kept ones (for other values see \<open>context_shift_discard\<close>), the tokens it asks for after the first \<open>n_keep\<close> (and the token that begins the sequence) are dropped, the cells
  hold exactly the tokens that are left, at their new positions, \<open>n_past\<close> is their number and there is
  room again. The cells of the other slots do not change.
\<close>

theorem context_shift_correct:
  fixes st :: "'o server_context" and i :: nat
  defines "sl \<equiv> slots st ! i" and "kv \<equiv> memory (ctx st)"
  assumes "i < length (slots st)" "is_processing sl" "s_n_ctx sl \<le> n_past sl + 1" "ctx_shift cfg"
    and "kv_inv kv" "private_seq kv (s_id sl)" "0 \<le> s_id sl" "holds_tokens val kv (s_id sl) (cache_tokens sl)"
    and "n_past sl = int (length (cache_tokens sl))"
    and "0 \<le> n_keep (s_params sl)" "n_keep (s_params sl) \<le> s_n_ctx sl - 4" "add_bos_token cfg \<in> {0, 1}"
    and "0 \<le> n_discard (s_params sl)" "n_discard (s_params sl) \<le> n_past sl - n_keep (s_params sl) - add_bos_token cfg"
  shows "\<exists>st' sl' k d. context_shift cfg now i st = Inr st' \<and> slots st' = (slots st)[i := sl'] \<and> 0 < d
    \<and> int k = n_keep (s_params sl) + add_bos_token cfg \<and> k + d \<le> length (cache_tokens sl)
    \<and> cache_tokens sl' = take k (cache_tokens sl) @ drop (k + d) (cache_tokens sl)
    \<and> n_past sl' = int (length (cache_tokens sl')) \<and> n_past sl' < n_past sl
    \<and> holds_tokens val (memory (ctx st')) (s_id sl) (cache_tokens sl')
    \<and> kv_inv (memory (ctx st')) \<and> (\<forall>r. r \<noteq> s_id sl \<longrightarrow> occ (memory (ctx st')) r = occ kv r)"
proof -
  obtain k d kv' where r: "context_shift cfg now i st = Inr (set_parts i (sl\<lparr>cache_tokens := take k (cache_tokens sl) @ drop (k + d) (cache_tokens sl),
        n_past := n_past sl - int d, truncated := True\<rparr>) kv' (batch st) st)"
    "0 < d" "int k = n_keep (s_params sl) + add_bos_token cfg" "k + d \<le> length (cache_tokens sl)"
    "holds_tokens val kv' (s_id sl) (take k (cache_tokens sl) @ drop (k + d) (cache_tokens sl))" "changes_only (s_id sl) kv kv'"
    using context_shift_result [OF assms(3-16) [unfolded sl_def kv_def], of now] unfolding sl_def kv_def by blast
  let ?sl' = "sl\<lparr>cache_tokens := take k (cache_tokens sl) @ drop (k + d) (cache_tokens sl), n_past := n_past sl - int d, truncated := True\<rparr>"
  show ?thesis
    using r assms(11)
    by (intro exI [of _ "set_parts i ?sl' kv' (batch st) st"] exI [of _ ?sl'] exI [of _ k] exI [of _ d])
      (simp add: changes_only_def of_nat_diff)
qed

definition wit_full :: "int \<Rightarrow> server_slot" where
  "wit_full nd = (server_slot_new 0 4 (-1))\<lparr>id_task := 0, s_state := SLOT_STATE_GENERATING, cache_tokens := [5, 6, 7],
     n_past := 3, s_params := default_params\<lparr>n_discard := nd\<rparr>\<rparr>"

theorem context_shift_correct_witness:
  "\<exists>st' sl' k. context_shift wit_cfg 0 0 (wit_server wit_kv [wit_full 0]) = Inr st' \<and> slots st' = [sl']
     \<and> n_past sl' < 3 \<and> holds_tokens wit_val (memory (ctx st')) 0 (cache_tokens sl') \<and> int k = 1"
proof -
  let ?st = "wit_server wit_kv [wit_full 0]"
  have "slots ?st = [wit_full 0]" "memory (ctx ?st) = wit_kv" by (simp_all add: wit_server_def)
  moreover have "s_id (wit_full 0) = 0" "cache_tokens (wit_full 0) = [5, 6, 7]" "n_past (wit_full 0) = 3" "s_n_ctx (wit_full 0) = 4"
    "n_keep (s_params (wit_full 0)) = 0" "n_discard (s_params (wit_full 0)) = 0" "is_processing (wit_full 0)"
    by (simp_all add: wit_full_def server_slot_new_def default_params_def is_processing_def)
  moreover have "ctx_shift wit_cfg" "add_bos_token wit_cfg = 1" by (simp_all add: wit_cfg_def)
  ultimately show ?thesis
    using context_shift_correct [of 0 ?st wit_cfg wit_val 0] wit_kv_ok by simp metis
qed

text \<open>
  \<open>n_discard\<close> of a request is not checked: when it is larger than the number of cached tokens,
  the context shift throws out of the main loop; when it is negative, it writes beyond the
  end of the token list.
\<close>

theorem context_shift_discard:
  fixes st :: "'o server_context" and i :: nat
  defines "sl \<equiv> slots st ! i"
  assumes "is_processing sl" "s_n_ctx sl \<le> n_past sl + 1" "ctx_shift cfg" "0 \<le> n_keep (s_params sl) + add_bos_token cfg"
  shows "(int (length (cache_tokens sl)) < n_discard (s_params sl) \<longrightarrow> context_shift cfg now i st = Inl (Throw ''length_error''))
    \<and> (n_discard (s_params sl) < 0 \<and> 0 \<le> n_keep (s_params sl) + add_bos_token cfg + n_discard (s_params sl)
         \<and> n_keep (s_params sl) + add_bos_token cfg + n_discard (s_params sl) < int (length (cache_tokens sl))
       \<longrightarrow> context_shift cfg now i st = Inl Out_of_range)"
proof (intro conjI impI)
  let ?nk = "n_keep (s_params sl) + add_bos_token cfg" and ?toks = "cache_tokens sl" and ?nd = "n_discard (s_params sl)"
  have run: "context_shift cfg now i st = Inl f" if "?nd \<noteq> 0" "shift_tokens ?nk ?nd ?toks = Inl f" for f
    unfolding context_shift_def Let_def sl_def [symmetric] using assms(2-4) that by simp
  {
    assume "int (length ?toks) < ?nd"
    then have "shift_tokens ?nk ?nd ?toks = Inl (Throw ''length_error'')"
      using assms(5) by (simp add: shift_tokens_def)
    then show "context_shift cfg now i st = Inl (Throw ''length_error'')" using run \<open>int (length ?toks) < ?nd\<close> by force
  next
    assume nd: "?nd < 0 \<and> 0 \<le> ?nk + ?nd \<and> ?nk + ?nd < int (length ?toks)"
    have mv: "move_tokens ?nd is xs = Inl Out_of_range" if "last is < length xs" "int (length xs) \<le> int (last is) - ?nd" "is \<noteq> []" for "is" xs
      using that by (induction ?nd "is" xs rule: move_tokens.induct) (auto simp: Let_def split: if_splits)
    have "nat (?nk + ?nd) < length ?toks" using nd by linarith
    then have "move_tokens ?nd [nat (?nk + ?nd)..<length ?toks] ?toks = Inl Out_of_range"
      using nd by (intro mv) auto
    then have "shift_tokens ?nk ?nd ?toks = Inl Out_of_range" using nd by (simp add: shift_tokens_def)
    then show "context_shift cfg now i st = Inl Out_of_range" using run nd by force
  }
qed

theorem context_shift_discard_witness:
  "context_shift wit_cfg 0 0 (wit_server wit_kv [wit_full 100]) = Inl (Throw ''length_error'')"
  using context_shift_discard [of "wit_server wit_kv [wit_full 100]" 0 wit_cfg 0]
  by (simp add: wit_server_def wit_full_def server_slot_new_def default_params_def is_processing_def wit_cfg_def)

end
