(* ===== verification/ServerLoop.thy ===== *)
theory ServerLoop
  imports ServerPrompt
begin

text \<open>
  The main loop of the server (\<open>tools/server/server.cpp\<close>): \<open>update_slots\<close> as a whole, with the retry of
  a batch that does not fit and the tokens sampled after it; the inner loop of \<open>start_loop\<close>; and the
  server as a state machine in which the HTTP threads post and cancel tasks at any time.

  Evaluating a batch, sampling a token and the text of a token are parameters. Speculative decoding
  and images are not modelled: the server has no draft model and no projector.
\<close>

section \<open>Decoding a batch\<close>

record 'o model_env =
  dec :: "batch_row list \<Rightarrow> 'o llama_context \<Rightarrow> (int \<times> 'o llama_context) res option"
  sample :: "server_slot \<Rightarrow> 'o llama_context \<Rightarrow> int \<Rightarrow> int"
  piece :: "server_slot \<Rightarrow> int \<Rightarrow> string"
  tok_env :: token_env

text \<open>When a batch cannot be decoded every slot is released and gets an error (lines 3485 to 3494).\<close>

definition fail_slot :: "int \<Rightarrow> nat \<Rightarrow> 'o server_context \<Rightarrow> 'o server_context" where
  "fail_slot now k st =
     release_error now k ''Input prompt is too big compared to KV size. Please try increasing KV size.'' ERROR_TYPE_SERVER st"

definition fail_all :: "int \<Rightarrow> 'o server_context \<Rightarrow> 'o server_context" where
  "fail_all now st = fold (fail_slot now) [0..<length (slots st)] st"

text \<open>The end of a slot that computed an embedding or a rank.\<close>

definition finish_embd :: "int \<Rightarrow> result_body \<Rightarrow> nat \<Rightarrow> 'o server_context \<Rightarrow> 'o server_context" where
  "finish_embd now body k st =
     upd_slot k (\<lambda>sl. sl\<lparr>i_batch := -1\<rparr>)
       (release now k
         (send_result \<lparr>r_id = id_task (slots st ! k), r_index = s_index (slots st ! k), r_body = body\<rparr> st))"

text \<open>The token sampled for a generating slot (lines 3531 to 3566); \<open>i\<close> is the start of the view.\<close>

definition sample_slot :: "'o model_env \<Rightarrow> int \<Rightarrow> nat \<Rightarrow> nat \<Rightarrow> 'o server_context \<Rightarrow> 'o server_context" where
  "sample_slot env now i k st =
     (let sl = slots st ! k;
          tok = sample env sl (ctx st) (i_batch sl - int i);
          sl1 = sl\<lparr>i_batch := -1, n_decoded := n_decoded sl + 1,
                   t_start_generation := (if n_decoded sl + 1 = 1 then now else t_start_generation sl)\<rparr>;
          (sl2, out) = process_token (tok_env env) tok (piece env sl1 tok) sl1;
          st1 = upd_slot k (\<lambda>_. sl2) st;
          st2 = (case out of
                   None \<Rightarrow> st1
                 | Some msg \<Rightarrow> send_result \<lparr>r_id = id_task sl2, r_index = s_index sl2, r_body = Result_cmpl_partial msg tok\<rparr> st1)
      in if has_next_token sl2 then st2 else send_final_response k (release now k st2))"

text \<open>What happens to slot \<open>k\<close> after the view of \<open>n\<close> rows from \<open>i\<close> on was decoded (lines 3505 to 3567).\<close>

definition after_view :: "'o model_env \<Rightarrow> int \<Rightarrow> nat \<Rightarrow> nat \<Rightarrow> nat \<Rightarrow> 'o server_context \<Rightarrow> 'o server_context" where
  "after_view env now i n k st =
     (let sl = slots st ! k in
      if i_batch sl < int i \<or> i_batch sl \<ge> int (i + n) then st
      else if s_state sl = SLOT_STATE_DONE_PROMPT then
        if task_type sl = TASK_EMBEDDING then finish_embd now Result_embd k st
        else if task_type sl = TASK_RERANK then finish_embd now Result_rerank k st
        else sample_slot env now i k (upd_slot k (\<lambda>sl. sl\<lparr>s_state := SLOT_STATE_GENERATING\<rparr>) st)
      else if s_state sl = SLOT_STATE_GENERATING then sample_slot env now i k st
      else st)"

text \<open>
  The loop over the views of the batch (lines 3461 to 3568): a view that finds no place is tried again
  with half the size; \<open>i -= n_batch\<close> and the increment of the loop cancel out.
\<close>

partial_function (option) decode_views ::
  "'o model_env \<Rightarrow> int \<Rightarrow> nat \<Rightarrow> nat \<Rightarrow> 'o server_context \<Rightarrow> 'o server_context res option" where
  "decode_views env now nb i st =
     (if i < length (batch st) then
        let n = min nb (length (batch st) - i) in
        case dec env (take n (drop i (batch st))) (ctx st) of
          None \<Rightarrow> None
        | Some (Inl f) \<Rightarrow> Some (Inl f)
        | Some (Inr (ret, ctx1)) \<Rightarrow>
            let st1 = st\<lparr>ctx := ctx1\<rparr> in
            if ret \<noteq> 0 then
              if nb = 1 \<or> ret < 0 then Some (Inr (fail_all now st1))
              else decode_views env now (nb div 2) i st1
            else decode_views env now nb (i + nb) (fold (after_view env now i n) [0..<length (slots st1)] st1)
      else Some (Inr st))"

section \<open>update_slots\<close>

definition all_idle :: "'o server_context \<Rightarrow> bool" where
  "all_idle st \<longleftrightarrow> list_all (\<lambda>sl. \<not> is_processing sl) (slots st)"

definition post_next_response :: "'o server_context \<Rightarrow> 'o server_context res" where
  "post_next_response st =
     (let (i, q) = get_new_id (queue st) in
      bind_res (post ((server_task_new TASK_NEXT_RESPONSE)\<lparr>t_id := i\<rparr>) False q) (\<lambda>q1. Inr (st\<lparr>queue := q1\<rparr>)))"

text \<open>A loop over the slots whose body may fail.\<close>

fun for_slots :: "(nat \<Rightarrow> 's \<Rightarrow> 's res) \<Rightarrow> nat list \<Rightarrow> 's \<Rightarrow> 's res" where
  "for_slots body [] s = Inr s"
| "for_slots body (k # ks) s = bind_res (body k s) (for_slots body ks)"

text \<open>The sampled token of a generating slot (lines 3139 to 3162); the state carries \<open>slot_batched\<close>.\<close>

definition add_sampled ::
  "server_params \<Rightarrow> nat \<Rightarrow> nat option \<times> 'o server_context \<Rightarrow> (nat option \<times> 'o server_context) res" where
  "add_sampled cfg k = (\<lambda>(sb, st).
     let sl = slots st ! k in
     if s_state sl \<noteq> SLOT_STATE_GENERATING then Inr (sb, st)
     else if sb \<noteq> None \<and> \<not> can_batch_with (slots st ! the sb) sl then Inr (sb, st)
     else
       bind_res (common_batch_add (batch_cap cfg st) (sampled sl, n_past sl, s_id sl, True) (batch st))
         (\<lambda>b. if sampled sl = -1 then Inl (Throw ''Invalid token'')
              else Inr (if sb = None then Some k else sb,
                        (upd_slot k (\<lambda>sl. sl\<lparr>i_batch := int (length (batch st)), n_past := n_past sl + 1,
                                            cache_tokens := cache_tokens sl @ [sampled sl]\<rparr>) st)\<lparr>batch := b\<rparr>)))"

text \<open>The prompts (lines 3163 to 3449): the loop ends when the batch is full.\<close>

fun add_prompts ::
  "server_params \<Rightarrow> int \<Rightarrow> nat list \<Rightarrow> nat option \<times> 'o server_context \<Rightarrow> (nat option \<times> 'o server_context) res" where
  "add_prompts cfg now [] (sb, st) = Inr (sb, st)"
| "add_prompts cfg now (k # ks) (sb, st) =
     (if is_processing (slots st ! k) \<and> sb \<noteq> None \<and> \<not> can_batch_with (slots st ! the sb) (slots st ! k)
      then add_prompts cfg now ks (sb, st)
      else
        let sb1 = (if is_processing (slots st ! k) \<and> sb = None then Some k else sb) in
        bind_res (process_prompt cfg now k st)
          (\<lambda>(go, st1). if go \<and> int (length (batch st1)) \<ge> sp_n_batch cfg then Inr (sb1, st1)
                       else add_prompts cfg now ks (sb1, st1)))"

text \<open>The batch of one iteration: context shifts, sampled tokens, prompts (lines 3069 to 3449).\<close>

definition build_batch :: "server_params \<Rightarrow> int \<Rightarrow> 'o server_context \<Rightarrow> 'o server_context res" where
  "build_batch cfg now st =
     (let ks = [0..<length (slots st)] in
      bind_res (post_next_response st) (\<lambda>st1.
      bind_res (for_slots (context_shift cfg now) ks st1) (\<lambda>st2.
      bind_res (for_slots (add_sampled cfg) ks (None, st2\<lparr>batch := []\<rparr>)) (\<lambda>(sb, st3).
      if cont_batching cfg \<or> batch st3 = []
      then bind_res (add_prompts cfg now ks (sb, st3)) (\<lambda>(_, st4). Inr st4) else Inr st3))))"

definition update_slots ::
  "server_params \<Rightarrow> 'o model_env \<Rightarrow> int \<Rightarrow> 'o server_context \<Rightarrow> 'o server_context res option" where
  "update_slots cfg env now st =
     (if all_idle st then Some (Inr (if clean_kv_cache st then kv_cache_clear st else st))
      else case build_batch cfg now st of
        Inl f \<Rightarrow> Some (Inl f)
      | Inr st1 \<Rightarrow> if batch st1 = [] then Some (Inr st1) else decode_views env now (nat (sp_n_batch cfg)) 0 st1)"

section \<open>The scheduler\<close>

text \<open>
  What the scheduling depends on: which slots are processing and the queue. Releasing a slot on
  this abstract state:
\<close>

type_synonym sched = "bool list \<times> server_queue"

definition sched_of :: "'o server_context \<Rightarrow> sched" where
  "sched_of st = (map is_processing (slots st), queue st)"

definition sched_release :: "nat \<Rightarrow> sched \<Rightarrow> sched" where
  "sched_release k = (\<lambda>(ps, q). if k < length ps \<and> ps ! k then (ps[k := False], pop_deferred_task q) else (ps, q))"

inductive releases :: "sched \<Rightarrow> sched \<Rightarrow> bool" where
  rel_refl: "releases s s"
| rel_step: "releases s t \<Longrightarrow> releases s (sched_release k t)"

lemma releases_trans: "releases t u \<Longrightarrow> releases s t \<Longrightarrow> releases s u"
  by (induction rule: releases.induct) (auto intro: releases.intros)

text \<open>
  A part of \<open>update_slots\<close> only releases slots and posts nothing, and the slots keep their ids.
\<close>

definition only_releases :: "'o server_context \<Rightarrow> 'o server_context \<Rightarrow> bool" where
  "only_releases st st' \<longleftrightarrow> releases (sched_of st) (sched_of st') \<and> map s_id (slots st') = map s_id (slots st)"

lemma only_releases_refl [simp]: "only_releases st st"
  by (simp add: only_releases_def rel_refl)

lemma only_releases_trans: "only_releases st st' \<Longrightarrow> only_releases st' st'' \<Longrightarrow> only_releases st st''"
  by (auto simp: only_releases_def intro: releases_trans)

lemma only_releases_length: "only_releases st st' \<Longrightarrow> length (slots st') = length (slots st)"
  by (auto simp: only_releases_def dest: map_eq_imp_length_eq)

lemma only_releases_same:
  assumes "slots st' = slots st" "queue st' = queue st"
  shows "only_releases st0 st' \<longleftrightarrow> only_releases st0 st"
  using assms by (simp add: only_releases_def sched_of_def)

lemma map_upd_slot: "g (f (slots st ! k)) = g (slots st ! k) \<Longrightarrow> map g (slots (upd_slot k f st)) = map g (slots st)"
  by (cases "k < length (slots st)") (simp_all add: map_update list_update_same_conv list_update_beyond not_less)

lemma only_releases_upd_slot:
  assumes "is_processing (f (slots st ! k)) = is_processing (slots st ! k)" "s_id (f (slots st ! k)) = s_id (slots st ! k)"
  shows "only_releases st (upd_slot k f st)"
  unfolding only_releases_def sched_of_def map_upd_slot [of is_processing f st k, OF assms(1)] map_upd_slot [of s_id f st k, OF assms(2)]
  by (simp add: rel_refl)

lemma only_releases_release:
  assumes "k < length (slots st)"
  shows "only_releases st (release now k st)"
proof (cases "is_processing (slots st ! k)")
  case True
  have "map s_id (slots (release now k st)) = map s_id (slots st)"
    using True assms by (simp add: release_def map_update list_update_same_conv)
  moreover have "sched_of (release now k st) = sched_release k (sched_of st)"
    using True assms by (simp add: release_def sched_release_def sched_of_def map_update is_processing_def)
  ultimately show ?thesis by (simp add: only_releases_def rel_step rel_refl)
qed (simp add: release_def)

lemma only_releases_idle:
  assumes "only_releases st st'" "k < length (slots st)" "\<not> is_processing (slots st ! k)"
  shows "\<not> is_processing (slots st' ! k)"
proof -
  have "length (fst t) = length (fst s) \<and> (k < length (fst s) \<longrightarrow> \<not> fst s ! k \<longrightarrow> \<not> fst t ! k)" if "releases s t" for s t
    using that by induction (auto simp: sched_release_def nth_list_update split: prod.splits)
  from this [of "sched_of st" "sched_of st'"] show ?thesis
    using assms only_releases_length [OF assms(1)] by (simp add: only_releases_def sched_of_def)
qed

lemma only_releases_fold:
  assumes "\<And>k s. k < length (slots s) \<Longrightarrow> only_releases s (body k s)"
  shows "set ks \<subseteq> {..<length (slots st)} \<Longrightarrow> only_releases st (fold body ks st)"
proof (induction ks arbitrary: st)
  case (Cons k ks)
  have b: "only_releases st (body k st)" using assms Cons.prems by simp
  then have "only_releases (body k st) (fold body ks (body k st))"
    using Cons.prems only_releases_length [OF b] by (intro Cons.IH) simp
  then show ?case using only_releases_trans [OF b] by simp
qed simp

section \<open>The parts of update_slots only release slots\<close>

text \<open>What generating a token does not change of a slot, apart from \<open>sampled\<close>.\<close>

definition request_part :: "server_slot \<Rightarrow> int \<times> int \<times> server_task_type \<times> slot_params \<times> slot_state \<times> int list \<times> int \<times> int" where
  "request_part sl = (s_id sl, s_n_ctx sl, task_type sl, s_params sl, s_state sl, cache_tokens sl, n_past sl, sampled sl)"

lemma request_part_simps [simp]:
  "request_part (sl\<lparr>n_remaining := a\<rparr>) = request_part sl" "request_part (sl\<lparr>s_stop := b\<rparr>) = request_part sl"
  "request_part (sl\<lparr>has_next_token := c\<rparr>) = request_part sl" "request_part (sl\<lparr>generated_text := t\<rparr>) = request_part sl"
  "request_part (sl\<lparr>last_nl_pos := d\<rparr>) = request_part sl" "request_part (sl\<lparr>has_new_line := c\<rparr>) = request_part sl"
  "request_part (sl\<lparr>truncated := c\<rparr>) = request_part sl" "request_part (sl\<lparr>stopping_word := t\<rparr>) = request_part sl"
  "request_part (sl\<lparr>n_sent_text := d\<rparr>) = request_part sl"
  by (simp_all add: request_part_def)

lemma check_part:
  "request_part (check_budget env s) = request_part s" "request_part (check_indent s) = request_part s"
  "request_part (check_new_line env m s) = request_part s" "request_part (check_context env tok s) = request_part s"
  by (simp_all add: check_budget_def has_budget_def check_indent_def check_new_line_def check_context_def Let_def split: option.split)

lemma stop_part: "request_part (snd (stop_and_send n s)) = request_part s"
proof -
  have "request_part (snd (fold (stop_word_step u l full) ws x)) = request_part (snd x)" for u l full ws x
    by (induction ws arbitrary: x) (simp_all add: stop_word_step_def split: prod.split option.split)
  then have find: "request_part (snd (find_stopping_strings u l full s)) = request_part s" for u l full s
    by (simp add: find_stopping_strings_def)
  obtain sp s1 where e: "find_stopping_strings (drop (min (n_sent_text s) (length (generated_text s))) (generated_text s)) n True s = (sp, s1)"
    by fastforce
  then have "request_part s1 = request_part s" using find by (metis snd_conv)
  then show ?thesis by (cases sp) (simp_all add: stop_and_send_def Let_def e)
qed

lemma process_token_part:
  "request_part (fst (process_token env tok t sl)) = request_part (sl\<lparr>sampled := tok\<rparr>)"
proof -
  let ?sl = "sl\<lparr>sampled := tok, generated_text := generated_text sl @ t,
      generated_tokens := (if return_tokens (s_params sl) then generated_tokens sl @ [tok] else generated_tokens sl),
      has_next_token := True\<rparr>"
  have upd: "request_part ?sl = request_part (sl\<lparr>sampled := tok\<rparr>)" by (simp add: request_part_def)
  obtain m s1 where send: "stop_and_send (length t) ?sl = (m, s1)" by fastforce
  then have "request_part s1 = request_part ?sl" using stop_part [of "length t" ?sl] by simp
  moreover have "fst (process_token env tok t sl) = check_context env tok (check_new_line env t (check_indent (check_budget env ?sl)))
      \<or> fst (process_token env tok t sl) = check_context env tok (check_new_line env m (check_indent (check_budget env s1)))"
    unfolding process_token_def Let_def send by simp
  ultimately show ?thesis using upd by (auto simp: check_part)
qed
lemma process_token_frame:
  "s_state (fst (process_token env tok t sl)) = s_state sl" "s_id (fst (process_token env tok t sl)) = s_id sl"
  using process_token_part [of env tok t sl] by (simp_all add: request_part_def)

lemma only_releases_frame: "slots st' = slots st \<Longrightarrow> queue st' = queue st \<Longrightarrow> only_releases st st'"
  using only_releases_same only_releases_refl by blast

lemma only_releases_then_frame:
  "only_releases st st1 \<Longrightarrow> slots st' = slots st1 \<Longrightarrow> queue st' = queue st1 \<Longrightarrow> only_releases st st'"
  using only_releases_same by blast

lemma only_releases_release_error: "k < length (slots st) \<Longrightarrow> only_releases st (release_error now k msg ty st)"
  by (rule only_releases_then_frame [OF only_releases_release [of k st now]]) (simp_all add: release_error_def)

lemma only_releases_send_final: "only_releases st (send_final_response k st)"
proof -
  let ?st1 = "upd_slot k (\<lambda>sl. sl\<lparr>generated_text := '''', generated_tokens := []\<rparr>) st"
  have "only_releases st ?st1" by (rule only_releases_upd_slot) (simp_all add: is_processing_def)
  then show ?thesis
    by (rule only_releases_then_frame) (simp_all add: send_final_response_def Let_def)
qed

lemma only_releases_context_shift:
  assumes "k < length (slots st)" "context_shift cfg now k st = Inr st'"
  shows "only_releases st st'"
proof (cases "is_processing (slots st ! k) \<and> n_past (slots st ! k) + 1 \<ge> s_n_ctx (slots st ! k)")
  case False
  then show ?thesis using assms(2) by (auto simp: context_shift_def Let_def)
next
  case True
  show ?thesis
  proof (cases "ctx_shift cfg")
    case False
    then have "st' = send_error (id_task (slots st ! k)) ''context shift is disabled'' ERROR_TYPE_SERVER (release now k st)"
      using True assms(2) by (simp add: context_shift_def Let_def)
    then show ?thesis using only_releases_then_frame [OF only_releases_release [OF assms(1)]] by simp
  next
    case shift: True
    from assms(2) True shift obtain toks nd g where
      "st' = upd_slot k (\<lambda>sl. sl\<lparr>cache_tokens := toks, n_past := n_past sl - nd, truncated := True\<rparr>) (upd_kv g st)"
      unfolding context_shift_def Let_def by (auto simp: bind_res_eq_Inr)
    moreover have "only_releases (upd_kv g st)
        (upd_slot k (\<lambda>sl. sl\<lparr>cache_tokens := toks, n_past := n_past sl - nd, truncated := True\<rparr>) (upd_kv g st))"
      by (rule only_releases_upd_slot) (simp_all add: is_processing_def)
    moreover have "only_releases st (upd_kv g st)" by (simp add: only_releases_frame)
    ultimately show ?thesis using only_releases_trans by blast
  qed
qed

lemma fit_prompt_frame: "fit_prompt sl = Inr sl' \<Longrightarrow> s_id sl' = s_id sl \<and> s_state sl' = s_state sl"
  by (auto simp: fit_prompt_def bind_res_eq_Inr split: if_splits)

lemma clamp_keep_frame [simp]: "s_id (clamp_keep sl) = s_id sl" "s_state (clamp_keep sl) = s_state sl"
  by (simp_all add: clamp_keep_def Let_def)

lemma reuse_prompt_frame: "s_id (fst (reuse_prompt cfg sl kv)) = s_id sl" "s_state (fst (reuse_prompt cfg sl kv)) = s_state sl"
  by (simp_all add: reuse_prompt_def Let_def split: prod.split)

lemma add_prompt_tokens_frame:
  "add_prompt_tokens cap nb q e ts (b, sl) = Inr (b', sl') \<Longrightarrow> s_id sl' = s_id sl \<and> s_state sl' = s_state sl"
  by (induction ts arbitrary: b sl) (auto simp: bind_res_eq_Inr split: if_splits)

lemma load_prompt_frame: "load_prompt cfg sl kv = Inr (sl', kv') \<Longrightarrow> s_id sl' = s_id sl \<and> s_state sl' = s_state sl"
  using fit_prompt_frame [of "clamp_keep sl"] reuse_prompt_frame
  by (auto simp: load_prompt_def bind_res_eq_Inr split: if_splits) (metis fst_conv)+

lemma keep_one_frame [simp]: "s_id (keep_one sl) = s_id sl" "s_state (keep_one sl) = s_state sl"
  by (simp_all add: keep_one_def)

text \<open>The state of the slot changes within the states that are processing.\<close>

lemma only_releases_set_slot:
  assumes "k < length (slots st)" "is_processing (slots st ! k)" "s_id sl = s_id (slots st ! k)" "is_processing sl"
    and "slots st' = (slots st)[k := sl]" "queue st' = queue st"
  shows "only_releases st st' \<and> is_processing (slots st' ! k)"
proof -
  have "only_releases st (upd_slot k (\<lambda>_. sl) st)"
    using assms(2-4) by (intro only_releases_upd_slot) simp_all
  then have "only_releases st st'" by (rule only_releases_then_frame) (simp_all add: assms(5,6))
  then show ?thesis using assms(1,4,5) by simp
qed

lemma only_releases_start_prompt:
  assumes k: "k < length (slots st)" "is_processing (slots st ! k)" and run: "start_prompt cfg now k st = Inr (go, st')"
  shows "only_releases st st' \<and> (go \<longrightarrow> is_processing (slots st' ! k))"
proof -
  let ?f = "\<lambda>sl. sl\<lparr>t_start_generation := 0, n_past := 0, n_prompt_tokens := int (length (prompt_tokens sl)), s_state := SLOT_STATE_PROCESSING_PROMPT\<rparr>"
  define st1 where "st1 = upd_slot k ?f st"
  have f1: "only_releases st st1" "is_processing (slots st1 ! k)"
    using only_releases_set_slot [of k st "?f (slots st ! k)" st1] k by (simp_all add: st1_def is_processing_def)
  have k1: "k < length (slots st1)" using k(1) by (simp add: st1_def)
  note run1 = run [unfolded start_prompt_def Let_def, folded st1_def]
  show ?thesis
  proof (cases "prompt_tokens (slots st1 ! k) = []")
    case True
    then have "st' = send_final_response k (release now k st1)" "\<not> go" using run1 by simp_all
    then show ?thesis
      using only_releases_trans [OF only_releases_trans [OF f1(1) only_releases_release [OF k1]] only_releases_send_final] by simp
  next
    case ne: False
    show ?thesis
    proof (cases "refuse_prompt cfg (slots st1 ! k)")
      case (Some e)
      obtain msg ty where "e = (msg, ty)" by fastforce
      then have "st' = release_error now k msg ty st1" "\<not> go" using run1 ne Some by simp_all
      then show ?thesis using only_releases_trans [OF f1(1) only_releases_release_error [OF k1]] by simp
    next
      case None
      then obtain sl1 kv1 where l: "load_prompt cfg (slots st1 ! k) (memory (ctx st1)) = Inr (sl1, kv1)"
        "st' = upd_kv (\<lambda>_. kv1) (upd_slot k (\<lambda>_. keep_one sl1) st1)"
        using run1 ne by (auto simp: bind_res_eq_Inr)
      have "only_releases st1 st' \<and> is_processing (slots st' ! k)"
        using load_prompt_frame [OF l(1)] f1(2) l(2)
        by (intro only_releases_set_slot [OF k1 f1(2), of "keep_one sl1"]) (simp_all add: is_processing_def)
      then show ?thesis using only_releases_trans [OF f1(1)] by blast
    qed
  qed
qed

lemma only_releases_continue_prompt:
  assumes k: "k < length (slots st)" "is_processing (slots st ! k)" and run: "continue_prompt cfg k st = Inr (go, st')"
  shows "only_releases st st'"
proof (cases "is_non_causal (slots st ! k) \<and> int (length (batch st)) + n_prompt_tokens (slots st ! k) > sp_n_batch cfg")
  case True
  then show ?thesis using run by (simp add: continue_prompt_def Let_def)
next
  case False
  from run False obtain kv2 b sl1 sl2 e ts where
    add: "add_prompt_tokens (batch_cap cfg st) (sp_n_batch cfg) (s_id (slots st ! k)) e ts (batch st, sl1) = Inr (b, sl2)"
    and sl1: "s_id sl1 = s_id (slots st ! k)" "s_state sl1 = s_state (slots st ! k)"
    and fin: "finish_prompt k ((upd_kv (\<lambda>_. kv2) (upd_slot k (\<lambda>_. sl2) st))\<lparr>batch := b\<rparr>) = Inr st'"
    unfolding continue_prompt_def Let_def
    by (auto simp: bind_res_eq_Inr split: prod.splits if_splits)
  have sl2: "s_id sl2 = s_id (slots st ! k)" "is_processing sl2"
    using add_prompt_tokens_frame [OF add] sl1 k(2) by (simp_all add: is_processing_def)
  let ?st1 = "(upd_kv (\<lambda>_. kv2) (upd_slot k (\<lambda>_. sl2) st))\<lparr>batch := b\<rparr>"
  have f1: "only_releases st ?st1 \<and> is_processing (slots ?st1 ! k)"
    by (rule only_releases_set_slot [OF k sl2]) simp_all
  have "only_releases ?st1 st'"
  proof (cases "st' = ?st1")
    case False
    then have "slots st' = (slots ?st1)[k := (slots ?st1 ! k)\<lparr>s_state := SLOT_STATE_DONE_PROMPT, n_decoded := 0,
        i_batch := int (length b) - 1\<rparr>]" "queue st' = queue ?st1"
      using fin by (auto simp: finish_prompt_def Let_def split: if_splits)
    then show ?thesis
      using only_releases_set_slot [of k ?st1 "(slots ?st1 ! k)\<lparr>s_state := SLOT_STATE_DONE_PROMPT, n_decoded := 0,
        i_batch := int (length b) - 1\<rparr>" st'] f1 k(1) by (simp add: is_processing_def)
  qed simp
  then show ?thesis using f1 only_releases_trans by blast
qed

lemma only_releases_process_prompt:
  assumes "k < length (slots st)" "process_prompt cfg now k st = Inr (go, st')"
  shows "only_releases st st'"
proof (cases "s_state (slots st ! k)")
  case SLOT_STATE_STARTED
  then have p: "is_processing (slots st ! k)" by (simp add: is_processing_def)
  obtain go1 st1 where s: "start_prompt cfg now k st = Inr (go1, st1)"
      "if go1 then continue_prompt cfg k st1 = Inr (go, st') else st' = st1"
    using assms(2) SLOT_STATE_STARTED by (auto simp: process_prompt_def bind_res_eq_Inr split: if_splits)
  note f = only_releases_start_prompt [OF assms(1) p s(1)]
  show ?thesis
  proof (cases go1)
    case True
    then have "only_releases st1 st'"
      using s(2) f assms(1) only_releases_length [of st st1] by (intro only_releases_continue_prompt [of k st1 cfg go]) auto
    then show ?thesis using f only_releases_trans by blast
  qed (use s(2) f in simp)
next
  case SLOT_STATE_PROCESSING_PROMPT
  then show ?thesis
    using assms by (intro only_releases_continue_prompt [of k st cfg go]) (simp_all add: process_prompt_def is_processing_def)
qed (use assms in \<open>simp_all add: process_prompt_def\<close>)

lemma for_slots_only_releases:
  assumes "\<And>k s s'. k < length (slots s) \<Longrightarrow> body k s = Inr s' \<Longrightarrow> only_releases s s'"
    and "set ks \<subseteq> {..<length (slots st)}" "for_slots body ks st = Inr st'"
  shows "only_releases st st'"
  using assms(2,3)
proof (induction ks arbitrary: st)
  case (Cons k ks)
  then obtain st1 where st1: "body k st = Inr st1" "for_slots body ks st1 = Inr st'" by (auto simp: bind_res_eq_Inr)
  have f: "only_releases st st1" using assms(1) [OF _ st1(1)] Cons.prems(1) by simp
  then have "only_releases st1 st'"
    using Cons.prems(1) st1(2) only_releases_length [OF f] by (intro Cons.IH) simp_all
  then show ?case using only_releases_trans f by blast
qed simp

lemma only_releases_add_sampled:
  assumes "add_sampled cfg k (sb, st) = Inr (sb', st')"
  shows "only_releases st st'"
proof -
  consider "st' = st" | b where "st' = (upd_slot k (\<lambda>sl. sl\<lparr>i_batch := int (length (batch st)), n_past := n_past sl + 1,
      cache_tokens := cache_tokens sl @ [sampled sl]\<rparr>) st)\<lparr>batch := b\<rparr>"
    using assms by (auto simp: add_sampled_def Let_def bind_res_eq_Inr split: if_splits)
  then show ?thesis
  proof cases
    case 2
    have "only_releases st (upd_slot k (\<lambda>sl. sl\<lparr>i_batch := int (length (batch st)), n_past := n_past sl + 1,
      cache_tokens := cache_tokens sl @ [sampled sl]\<rparr>) st)"
      by (rule only_releases_upd_slot) (simp_all add: is_processing_def)
    then show ?thesis by (rule only_releases_then_frame) (simp_all add: 2)
  qed simp
qed

lemma only_releases_add_sampled_all:
  assumes "set ks \<subseteq> {..<length (slots st)}" "for_slots (add_sampled cfg) ks (sb, st) = Inr (sb', st')"
  shows "only_releases st st'"
  using assms
proof (induction ks arbitrary: sb st)
  case (Cons k ks)
  then obtain sb1 st1 where st1: "add_sampled cfg k (sb, st) = Inr (sb1, st1)" "for_slots (add_sampled cfg) ks (sb1, st1) = Inr (sb', st')"
    by (auto simp: bind_res_eq_Inr)
  have f: "only_releases st st1" by (rule only_releases_add_sampled [OF st1(1)])
  then have "only_releases st1 st'"
    using Cons.prems(1) st1(2) only_releases_length [OF f] by (intro Cons.IH) simp_all
  then show ?case using only_releases_trans f by blast
qed simp

lemma only_releases_add_prompts:
  assumes "set ks \<subseteq> {..<length (slots st)}" "add_prompts cfg now ks (sb, st) = Inr (sb', st')"
  shows "only_releases st st'"
  using assms
proof (induction ks arbitrary: sb st)
  case (Cons k ks)
  show ?case
  proof (cases "is_processing (slots st ! k) \<and> sb \<noteq> None \<and> \<not> can_batch_with (slots st ! the sb) (slots st ! k)")
    case True
    then have "add_prompts cfg now ks (sb, st) = Inr (sb', st')" using Cons.prems(2) by auto
    then show ?thesis using Cons by simp
  next
    case False
    then obtain go st1 sb1 where p: "process_prompt cfg now k st = Inr (go, st1)"
      "st' = st1 \<or> add_prompts cfg now ks (sb1, st1) = Inr (sb', st')"
      using Cons.prems(2) by (simp only: add_prompts.simps if_False Let_def) (auto simp: bind_res_eq_Inr split: if_splits)
    have f: "only_releases st st1" using Cons.prems(1) by (intro only_releases_process_prompt [OF _ p(1)]) simp
    from p(2) show ?thesis
    proof
      assume "add_prompts cfg now ks (sb1, st1) = Inr (sb', st')"
      then have "only_releases st1 st'"
        using Cons.prems(1) only_releases_length [OF f] by (intro Cons.IH) simp_all
      then show ?thesis using only_releases_trans f by blast
    qed (use f in simp)
  qed
qed simp

lemma build_batch_releases:
  assumes "build_batch cfg now st = Inr st'"
  shows "\<exists>q. post ((server_task_new TASK_NEXT_RESPONSE)\<lparr>t_id := q_id (queue st)\<rparr>) False ((queue st)\<lparr>q_id := q_id (queue st) + 1\<rparr>) = Inr q
    \<and> only_releases (st\<lparr>queue := q\<rparr>) st'"
proof -
  let ?ks = "[0..<length (slots st)]"
  obtain st1 where st1: "post_next_response st = Inr st1"
    using assms by (auto simp: build_batch_def Let_def bind_res_eq_Inr)
  obtain st2 where st2: "for_slots (context_shift cfg now) ?ks st1 = Inr st2"
    using assms st1 by (auto simp: build_batch_def Let_def bind_res_eq_Inr)
  obtain sb st3 where st3: "for_slots (add_sampled cfg) ?ks (None, st2\<lparr>batch := []\<rparr>) = Inr (sb, st3)"
    using assms st1 st2 by (auto simp: build_batch_def Let_def bind_res_eq_Inr)
  have st4: "st' = st3 \<or> (\<exists>sb'. add_prompts cfg now ?ks (sb, st3) = Inr (sb', st'))"
    using assms st1 st2 st3 by (auto simp: build_batch_def Let_def bind_res_eq_Inr split: if_splits)
  obtain q where q: "post ((server_task_new TASK_NEXT_RESPONSE)\<lparr>t_id := q_id (queue st)\<rparr>) False ((queue st)\<lparr>q_id := q_id (queue st) + 1\<rparr>) = Inr q"
    "st1 = st\<lparr>queue := q\<rparr>"
    using st1 by (auto simp: post_next_response_def get_new_id_def bind_res_eq_Inr)
  have len: "length (slots st1) = length (slots st)" by (simp add: q(2))
  have f2: "only_releases st1 st2"
    by (rule for_slots_only_releases [OF _ _ st2]) (auto simp: len intro: only_releases_context_shift)
  have f2': "only_releases st1 (st2\<lparr>batch := []\<rparr>)" by (rule only_releases_then_frame [OF f2]) simp_all
  have f3: "only_releases st1 st3"
    using only_releases_length [OF f2'] len
    by (intro only_releases_trans [OF f2' only_releases_add_sampled_all [OF _ st3]]) auto
  have "only_releases st1 st'"
    using st4
  proof
    assume "\<exists>sb'. add_prompts cfg now ?ks (sb, st3) = Inr (sb', st')"
    then obtain sb' where "add_prompts cfg now ?ks (sb, st3) = Inr (sb', st')" ..
    then have "only_releases st3 st'"
      using only_releases_length [OF f3] len by (intro only_releases_add_prompts) auto
    then show ?thesis using only_releases_trans f3 by blast
  qed (use f3 in simp)
  then show ?thesis using q by blast
qed

lemma only_releases_fail_all: "only_releases st (fail_all now st)"
  unfolding fail_all_def by (rule only_releases_fold) (auto simp: fail_slot_def intro: only_releases_release_error)

lemma only_releases_finish_embd:
  assumes "k < length (slots st)"
  shows "only_releases st (finish_embd now body k st)"
proof -
  let ?st1 = "send_result \<lparr>r_id = id_task (slots st ! k), r_index = s_index (slots st ! k), r_body = body\<rparr> st"
  have "only_releases st ?st1" by (rule only_releases_frame) simp_all
  moreover have "only_releases ?st1 (release now k ?st1)" by (rule only_releases_release) (simp add: assms)
  moreover have "only_releases (release now k ?st1) (upd_slot k (\<lambda>sl. sl\<lparr>i_batch := -1\<rparr>) (release now k ?st1))"
    by (rule only_releases_upd_slot) (simp_all add: is_processing_def)
  ultimately show ?thesis unfolding finish_embd_def using only_releases_trans by blast
qed

lemma only_releases_sample_slot:
  assumes "k < length (slots st)"
  shows "only_releases st (sample_slot env now i k st)"
proof -
  let ?sl = "slots st ! k"
  let ?sl1 = "?sl\<lparr>i_batch := -1, n_decoded := n_decoded ?sl + 1,
      t_start_generation := (if n_decoded ?sl + 1 = 1 then now else t_start_generation ?sl)\<rparr>"
  let ?tok = "sample env ?sl (ctx st) (i_batch ?sl - int i)"
  obtain sl2 out where pt: "process_token (tok_env env) ?tok (piece env ?sl1 ?tok) ?sl1 = (sl2, out)" by fastforce
  have sl2: "s_id sl2 = s_id ?sl" "is_processing sl2 = is_processing ?sl"
    using process_token_frame [of "tok_env env" ?tok "piece env ?sl1 ?tok" ?sl1] pt by (simp_all add: is_processing_def)
  let ?st1 = "upd_slot k (\<lambda>_. sl2) st"
  have f1: "only_releases st ?st1" using sl2 by (intro only_releases_upd_slot) simp_all
  define st2 where "st2 = (case out of None \<Rightarrow> ?st1
    | Some msg \<Rightarrow> send_result \<lparr>r_id = id_task sl2, r_index = s_index sl2, r_body = Result_cmpl_partial msg ?tok\<rparr> ?st1)"
  have st2: "slots st2 = slots ?st1" "queue st2 = queue ?st1" by (simp_all add: st2_def split: option.split)
  have f2: "only_releases st st2" by (rule only_releases_then_frame [OF f1 st2])
  have "only_releases st2 (release now k st2)" by (rule only_releases_release) (simp add: st2 assms)
  then have f3: "only_releases st (send_final_response k (release now k st2))"
    using only_releases_trans only_releases_send_final f2 by blast
  have "sample_slot env now i k st = (if has_next_token sl2 then st2 else send_final_response k (release now k st2))"
    unfolding sample_slot_def Let_def pt prod.case st2_def ..
  then show ?thesis using f2 f3 by simp
qed

lemma only_releases_after_view:
  assumes "k < length (slots st)"
  shows "only_releases st (after_view env now i n k st)"
proof -
  let ?st1 = "upd_slot k (\<lambda>sl. sl\<lparr>s_state := SLOT_STATE_GENERATING\<rparr>) st"
  have "only_releases st (sample_slot env now i k ?st1)" if "s_state (slots st ! k) = SLOT_STATE_DONE_PROMPT"
  proof -
    have "only_releases st ?st1" using that by (intro only_releases_upd_slot) (simp_all add: is_processing_def)
    moreover have "only_releases ?st1 (sample_slot env now i k ?st1)" by (rule only_releases_sample_slot) (simp add: assms)
    ultimately show ?thesis using only_releases_trans by blast
  qed
  then show ?thesis
    using only_releases_finish_embd [OF assms] only_releases_sample_slot [OF assms]
    by (simp add: after_view_def Let_def)
qed

lemma decode_views_releases:
  assumes "decode_views env now nb i st = Some (Inr st')"
  shows "only_releases st st'"
proof -
  have "\<forall>st'. y = Inr st' \<longrightarrow> only_releases st st'" if "decode_views env now nb i st = Some y" for y
  proof (rule decode_views.raw_induct [where P = "\<lambda>env now nb i st y. \<forall>st'. y = Inr st' \<longrightarrow> only_releases st st'", OF _ that])
    fix f env and now :: int and nb i and st :: "'a server_context" and y
    assume IH: "\<And>env now nb i st y. f env now nb i st = Some y \<Longrightarrow> \<forall>st'. y = Inr st' \<longrightarrow> only_releases st st'"
      and eq: "(if i < length (batch st) then
        let n = min nb (length (batch st) - i) in
        case dec env (take n (drop i (batch st))) (ctx st) of
          None \<Rightarrow> None
        | Some (Inl f) \<Rightarrow> Some (Inl f)
        | Some (Inr (ret, ctx1)) \<Rightarrow>
            let st1 = st\<lparr>ctx := ctx1\<rparr> in
            if ret \<noteq> 0 then
              if nb = 1 \<or> ret < 0 then Some (Inr (fail_all now st1))
              else f env now (nb div 2) i st1
            else f env now nb (i + nb) (fold (after_view env now i n) [0..<length (slots st1)] st1)
      else Some (Inr st)) = Some y"
    show "\<forall>st'. y = Inr st' \<longrightarrow> only_releases st st'"
    proof (intro allI impI)
      fix st' assume y: "y = Inr st'"
      let ?n = "min nb (length (batch st) - i)"
      show "only_releases st st'"
      proof (cases "i < length (batch st)")
        case False
        then show ?thesis using eq y by simp
      next
        case True
        then obtain ret ctx1 where d: "dec env (take ?n (drop i (batch st))) (ctx st) = Some (Inr (ret, ctx1))"
          using eq y by (auto simp: Let_def split: option.splits sum.splits)
        let ?st1 = "st\<lparr>ctx := ctx1\<rparr>"
        have f1: "only_releases st ?st1" by (rule only_releases_frame) simp_all
        note eq1 = eq [unfolded Let_def d option.case sum.case prod.case if_P [OF True]]
        consider (fail) "st' = fail_all now ?st1" | (retry) "f env now (nb div 2) i ?st1 = Some (Inr st')"
          | (ok) "f env now nb (i + nb) (fold (after_view env now i ?n) [0..<length (slots ?st1)] ?st1) = Some (Inr st')"
          using eq1 unfolding y by (metis option.inject sum.inject(2))
        then show ?thesis
        proof cases
          case fail
          then show ?thesis using only_releases_trans [OF f1 only_releases_fail_all] by simp
        next
          case retry
          then show ?thesis using only_releases_trans [OF f1] IH by blast
        next
          case ok
          let ?st2 = "fold (after_view env now i ?n) [0..<length (slots ?st1)] ?st1"
          have "only_releases ?st1 ?st2" by (rule only_releases_fold) (auto intro: only_releases_after_view)
          moreover have "only_releases ?st2 st'" using IH [OF ok] by blast
          ultimately show ?thesis using only_releases_trans f1 by blast
        qed
      qed
    qed
  qed
  then show ?thesis using assms by blast
qed

text \<open>
  \<open>update_slots\<close> posts one \<open>NEXT_RESPONSE\<close> when a slot is processing, and otherwise only releases slots.
\<close>

lemma update_slots_releases:
  assumes "update_slots cfg env now st = Some (Inr st')"
  shows "if all_idle st then slots st' = slots st \<and> queue st' = queue st
    else \<exists>q. post ((server_task_new TASK_NEXT_RESPONSE)\<lparr>t_id := q_id (queue st)\<rparr>) False ((queue st)\<lparr>q_id := q_id (queue st) + 1\<rparr>) = Inr q
      \<and> only_releases (st\<lparr>queue := q\<rparr>) st'"
proof (cases "all_idle st")
  case True
  then show ?thesis using assms by (auto simp: update_slots_def kv_cache_clear_def)
next
  case False
  then obtain st1 where st1: "build_batch cfg now st = Inr st1"
      "st' = st1 \<or> decode_views env now (nat (sp_n_batch cfg)) 0 st1 = Some (Inr st')"
    using assms by (auto simp: update_slots_def split: sum.splits if_splits)
  have "only_releases st1 st'" using st1(2) decode_views_releases by auto
  then show ?thesis using build_batch_releases [OF st1(1)] only_releases_trans False by fastforce
qed

end
