(* ===== verification/ServerDecode.thy ===== *)
theory ServerDecode
  imports ServerLoop
begin

text \<open>
  The server on top of \<open>llama_decode\<close>: the views of its batch (\<open>tools/server/server.cpp\<close>) are decoded by the model of
  \<open>llama_context::decode\<close> of the theory \<open>Decode\<close>. The loop over the views ends, and every row of the batch
  gets into the cache exactly once, in order, unless the cache is full; then all slots are released.
\<close>

section \<open>A view as a batch\<close>

text \<open>The pointers into the batch (lines 3464 to 3472); a row belongs to one sequence.\<close>

definition view_batch :: "batch_row list \<Rightarrow> llama_batch" where
  "view_batch rows = \<lparr>b_n_tokens = int (length rows), b_token = Some (map (\<lambda>(t, p, q, l). t) rows), b_embd = None,
     b_pos = Some (map (\<lambda>(t, p, q, l). p) rows), b_n_seq_id = Some (map (\<lambda>_. 1) rows),
     b_seq_id = Some (map (\<lambda>(t, p, q, l). [q]) rows), b_logits = Some (map (\<lambda>(t, p, q, l). if l then 1 else 0) rows)\<rparr>"

definition decode_view ::
  "(llama_ubatch \<Rightarrow> kv_cache \<Rightarrow> compute_status) \<Rightarrow> (llama_ubatch \<Rightarrow> kv_cache \<Rightarrow> nat \<Rightarrow> 'o) \<Rightarrow> bool \<Rightarrow> decode_params
     \<Rightarrow> batch_row list \<Rightarrow> 'o llama_context \<Rightarrow> (int \<times> 'o llama_context) res option" where
  "decode_view compute compute_row alloc_ok pr rows c = decode compute compute_row alloc_ok pr (view_batch rows) c"

section \<open>The positions of a sequence\<close>

definition seq_positions :: "kv_cache \<Rightarrow> int \<Rightarrow> int multiset" where
  "seq_positions kv q = {#fst x. x \<in># {#x \<in># kv_content kv. q \<in> snd x#}#}"

definition row_positions :: "int \<Rightarrow> batch_row list \<Rightarrow> int multiset" where
  "row_positions q rows = mset (map (\<lambda>(t, p, s, l). p) (filter (\<lambda>(t, p, s, l). s = q) rows))"

lemma row_positions_append [simp]: "row_positions q (xs @ ys) = row_positions q xs + row_positions q ys"
  by (simp add: row_positions_def)

lemma row_positions_Nil [simp]: "row_positions q [] = {#}"
  by (simp add: row_positions_def)

lemma seq_positions_occ: "seq_positions kv q = {#snd x. x \<in># mset_set (occ kv q)#}"
proof -
  let ?A = "{i. i < length (cells kv) \<and> q \<in> seq_id (cells kv ! i)}"
  have "{#fst x. x \<in># {#x \<in># {#(pos c, seq_id c). c \<in># {#c \<in># M. \<not> is_empty c#}#}. q \<in> snd x#}#}
      = {#pos c. c \<in># {#c \<in># M. q \<in> seq_id c#}#}" for M :: "kv_cell multiset"
    by (induction M) (auto simp: is_empty_def)
  then have "seq_positions kv q = {#pos c. c \<in># {#c \<in># mset (cells kv). q \<in> seq_id c#}#}"
    by (simp add: seq_positions_def kv_content_def)
  also have "mset (cells kv) = {#cells kv ! i. i \<in># mset_set {0..<length (cells kv)}#}"
    by (metis map_nth mset_map mset_upt)
  also have "{#c \<in># {#cells kv ! i. i \<in># mset_set {0..<length (cells kv)}#}. q \<in> seq_id c#}
      = {#cells kv ! i. i \<in># {#i \<in># mset_set {0..<length (cells kv)}. q \<in> seq_id (cells kv ! i)#}#}"
    by (rule filter_mset_image_mset)
  also have "{#i \<in># mset_set {0..<length (cells kv)}. q \<in> seq_id (cells kv ! i)#} = mset_set ?A"
    by (simp add: filter_mset_mset_set)
  finally have "seq_positions kv q = {#pos (cells kv ! i). i \<in># mset_set ?A#}"
    by (simp add: multiset.map_comp o_def)
  moreover have "occ kv q = (\<lambda>i. (i, pos (cells kv ! i))) ` ?A" by (auto simp: occ_def)
  moreover have "inj_on (\<lambda>i. (i, pos (cells kv ! i))) ?A" by (simp add: inj_on_def)
  ultimately show ?thesis by (simp add: image_mset_mset_set [symmetric] multiset.map_comp o_def)
qed

lemma finite_occ: "finite (occ kv q)"
  by (simp add: occ_def)

lemma seq_positions_placed:
  assumes "placed b js s s'" "distinct js"
  shows "seq_positions s' q = seq_positions s q + mset (map ((!) (the (b_pos b))) (filter (\<lambda>j. q \<in> row_seqs b j) js))"
proof -
  obtain f where f: "inj_on f (set js)" "\<forall>j \<in> set js. \<forall>r p. (f j, p) \<notin> occ s r"
    "\<And>r. occ s' r = occ s r \<union> {(f j, the (b_pos b) ! j) | j. j \<in> set js \<and> r \<in> row_seqs b j}"
    using assms(1) by (auto simp: placed_def)
  let ?J = "{j \<in> set js. q \<in> row_seqs b j}" and ?g = "\<lambda>j. (f j, the (b_pos b) ! j)"
  have "occ s' q = occ s q \<union> ?g ` ?J" using f(3) by auto
  moreover have "occ s q \<inter> ?g ` ?J = {}" using f(2) by auto
  ultimately have "mset_set (occ s' q) = mset_set (occ s q) + mset_set (?g ` ?J)"
    by (simp add: mset_set_Union finite_occ)
  moreover have "inj_on ?g ?J" using f(1) by (auto simp: inj_on_def)
  then have "mset_set (?g ` ?J) = {#?g j. j \<in># mset_set ?J#}" by (simp add: image_mset_mset_set)
  moreover have "mset_set ?J = mset (filter (\<lambda>j. q \<in> row_seqs b j) js)"
    using assms(2) mset_set_set [of "filter (\<lambda>j. q \<in> row_seqs b j) js"] by simp
  ultimately show ?thesis by (simp add: seq_positions_occ multiset.map_comp o_def)
qed

section \<open>Decoding a view\<close>

definition rows_ok :: "decode_params \<Rightarrow> batch_row list \<Rightarrow> bool" where
  "rows_ok pr rows \<longleftrightarrow> list_all (\<lambda>(t, p, q, l). 0 \<le> t \<and> t < int (n_vocab pr) \<and> 0 \<le> p) rows"

lemma view_batch_ok:
  assumes "rows \<noteq> []" "rows_ok pr rows" "length rows \<le> n_batch pr" "causal_attn pr \<or> length rows \<le> n_ubatch pr"
  shows "batch_ok pr (view_batch rows)"
proof -
  have "0 \<le> map (\<lambda>(t, p, q, l). p) rows ! j" if "j < length rows" for j
    using assms(2) that by (cases "rows ! j") (auto simp: rows_ok_def list_all_length)
  then have "\<forall>j < length rows. 0 \<le> map (\<lambda>(t, p, q, l). p) rows ! j" by blast
  moreover have "\<forall>x \<in> set (map (\<lambda>(t, p, q, l). t) rows). 0 \<le> x \<and> x < int (n_vocab pr)"
    using assms(2) by (auto simp: rows_ok_def list_all_iff)
  ultimately show ?thesis
    using assms by (auto simp: batch_ok_def view_batch_def user_batch_ok_def Let_def split: prod.splits)
qed

lemma completed_view: "rows \<noteq> [] \<Longrightarrow> completed (view_batch rows) c = view_batch rows"
  by (simp add: completed_def batch_allocr_def view_batch_def)

lemma view_positions:
  "mset (map ((!) (the (b_pos (view_batch rows)))) (filter (\<lambda>j. q \<in> row_seqs (view_batch rows) j) [0..<length rows]))
   = row_positions q rows"
proof -
  have row: "the (b_pos (view_batch rows)) ! j = fst (snd (rows ! j))" "q \<in> row_seqs (view_batch rows) j \<longleftrightarrow> fst (snd (snd (rows ! j))) = q"
    if "j < length rows" for j
    using that by (auto simp: view_batch_def row_seqs_def case_prod_unfold)
  have "map ((!) (the (b_pos (view_batch rows)))) (filter (\<lambda>j. q \<in> row_seqs (view_batch rows) j) [0..<length rows])
      = map (\<lambda>j. fst (snd (rows ! j))) (filter (\<lambda>j. fst (snd (snd (rows ! j))) = q) [0..<length rows])"
    using row by (intro map_cong filter_cong) auto
  also have "\<dots> = map (fst \<circ> snd) (filter (\<lambda>r. fst (snd (snd r)) = q) rows)"
    by (simp add: filter_nth [of _ rows])
  finally show ?thesis unfolding row_positions_def case_prod_unfold o_def by (rule arg_cong [where f = mset])
qed

lemma decode_view_total:
  assumes "can_decode pr c" "rows \<noteq> []" "rows_ok pr rows" "length rows \<le> n_batch pr" "causal_attn pr \<or> length rows \<le> n_ubatch pr"
  shows "\<exists>ret c'. decode_view compute compute_row alloc_ok pr rows c = Some (Inr (ret, c')) \<and> can_decode pr c'
    \<and> (\<forall>q. seq_positions (memory c') q = seq_positions (memory c) q + (if ret = 0 then row_positions q rows else {#}))
    \<and> kv_size (memory c') = kv_size (memory c)
    \<and> (graph_ok compute \<and> alloc_ok \<longrightarrow> ret \<in> {0, 1}
         \<and> (ret = 1 \<and> length rows = 1 \<longrightarrow> size (kv_content (memory c)) = kv_size (memory c)))
    \<and> (\<exists>s1. kv_content s1 = kv_content (memory c) \<and> (ret \<noteq> 0 \<longrightarrow> kv_content (memory c') = kv_content (memory c))
         \<and> (ret = 0 \<longrightarrow> placed (view_batch rows) [0..<length rows] s1 (memory c')))"
proof -
  have "decode_ok pr (view_batch rows) c" using assms view_batch_ok by (simp add: decode_ok_split)
  from decode_total [OF this, of compute compute_row alloc_ok] obtain ret c' s1 where d:
    "decode_view compute compute_row alloc_ok pr rows c = Some (Inr (ret, c'))" "can_decode pr c'"
    "kv_content s1 = kv_content (memory c)" "ret \<noteq> 0 \<longrightarrow> kv_content (memory c') = kv_content (memory c)"
    "ret = 0 \<longrightarrow> placed (view_batch rows) [0..<length rows] s1 (memory c')"
    "kv_size (memory c') = kv_size (memory c)"
    "graph_ok compute \<and> alloc_ok \<longrightarrow> ret \<in> {0, 1}
         \<and> (ret = 1 \<and> length rows = 1 \<longrightarrow> size (kv_content (memory c)) = kv_size (memory c))"
    unfolding decode_view_def completed_view [OF assms(2)] by (auto simp: view_batch_def)
  have "seq_positions (memory c') q = seq_positions (memory c) q + (if ret = 0 then row_positions q rows else {#})" for q
  proof (cases "ret = 0")
    case True
    then have "seq_positions (memory c') q = seq_positions s1 q + row_positions q rows"
      using d(5) seq_positions_placed [of "view_batch rows" "[0..<length rows]" s1 "memory c'" q] unfolding view_positions by simp
    then show ?thesis using True d(3) by (simp add: seq_positions_def)
  qed (use d(4) in \<open>simp add: seq_positions_def\<close>)
  then show ?thesis using d by (intro exI [of _ ret] exI [of _ c'] conjI) blast+
qed

section \<open>The loop over the views\<close>

lemma release_frame: "ctx (release now k st) = ctx st" "batch (release now k st) = batch st" "length (slots (release now k st)) = length (slots st)"
  by (simp_all add: release_def)

lemma after_view_frame:
  "ctx (after_view env now i n k st) = ctx st" "batch (after_view env now i n k st) = batch st"
  by (simp_all add: after_view_def finish_embd_def sample_slot_def send_final_response_def Let_def release_frame split: prod.split option.split)

lemma after_views_frame:
  "ctx (fold (after_view env now i n) ks st) = ctx st \<and> batch (fold (after_view env now i n) ks st) = batch st"
  by (induction ks arbitrary: st) (simp_all add: after_view_frame)

lemma fail_slot_frame:
  assumes "k < length (slots st)"
  shows "ctx (fail_slot now k st) = ctx st" "only_releases st (fail_slot now k st)" "\<not> is_processing (slots (fail_slot now k st) ! k)"
proof -
  show "ctx (fail_slot now k st) = ctx st" by (simp add: fail_slot_def release_error_def release_frame)
  show "only_releases st (fail_slot now k st)" unfolding fail_slot_def by (rule only_releases_release_error [OF assms])
  show "\<not> is_processing (slots (fail_slot now k st) ! k)"
    using assms by (simp add: fail_slot_def release_error_def release_def is_processing_def)
qed

lemma fail_slots:
  "n \<le> length (slots st) \<Longrightarrow> ctx (fold (fail_slot now) [0..<n] st) = ctx st \<and> only_releases st (fold (fail_slot now) [0..<n] st)
     \<and> (\<forall>k < n. \<not> is_processing (slots (fold (fail_slot now) [0..<n] st) ! k))"
proof (induction n)
  case (Suc n)
  let ?st = "fold (fail_slot now) [0..<n] st"
  have IH: "ctx ?st = ctx st" "only_releases st ?st" "\<forall>k < n. \<not> is_processing (slots ?st ! k)" using Suc by simp_all
  have n: "n < length (slots ?st)" using only_releases_length [OF IH(2)] Suc.prems by simp
  note f = fail_slot_frame [OF n, of now]
  have "\<not> is_processing (slots (fail_slot now n ?st) ! k)" if "k < Suc n" for k
    using that f(3) only_releases_idle [OF f(2), of k] IH(3) n by (cases "k = n") auto
  then show ?case using IH f(1) only_releases_trans [OF IH(2) f(2)] by simp
qed simp

lemma fail_all_idle: "all_idle (fail_all now st)" "ctx (fail_all now st) = ctx st"
  using fail_slots [of "length (slots st)" st now] only_releases_length [of st "fail_all now st"]
  by (auto simp: fail_all_def all_idle_def list_all_length)

text \<open>
  From the view at \<open>i\<close> on: the loop ends with the rows up to some \<open>k\<close> in the cache, where \<open>k\<close> is the end of
  the batch or all slots are released.
\<close>

lemma decode_views_from:
  assumes "dec env = decode_view compute compute_row alloc_ok pr" "nb \<le> m" "m \<le> n_batch pr" "causal_attn pr \<or> m \<le> n_ubatch pr"
  shows "0 < nb \<Longrightarrow> i \<le> length (batch st) \<Longrightarrow> can_decode pr (ctx st) \<Longrightarrow> rows_ok pr (batch st) \<Longrightarrow> nb \<le> m
    \<Longrightarrow> \<exists>st' k. decode_views env now nb i st = Some (Inr st') \<and> i \<le> k \<and> k \<le> length (batch st) \<and> can_decode pr (ctx st')
      \<and> (\<forall>q. seq_positions (memory (ctx st')) q = seq_positions (memory (ctx st)) q + row_positions q (take (k - i) (drop i (batch st))))
      \<and> (k = length (batch st) \<or> all_idle st')"
proof (induction "(length (batch st) - i) * Suc m + nb" arbitrary: nb i st rule: less_induct)
  case less
  show ?case
  proof (cases "i < length (batch st)")
    case False
    then show ?thesis using less.prems by (intro exI [of _ st] exI [of _ i]) (subst decode_views.simps, simp)
  next
    case True
    let ?n = "min nb (length (batch st) - i)"
    let ?rows = "take ?n (drop i (batch st))"
    have len: "length ?rows = ?n" "0 < ?n" using True less.prems(1) by simp_all
    have rows: "?rows \<noteq> []" "rows_ok pr ?rows" "length ?rows \<le> n_batch pr" "causal_attn pr \<or> length ?rows \<le> n_ubatch pr"
      using len less.prems(4,5) assms(3,4) by (auto simp: rows_ok_def list_all_iff dest!: in_set_takeD in_set_dropD)
    obtain ret c where d: "dec env ?rows (ctx st) = Some (Inr (ret, c))" "can_decode pr c"
      "\<And>q. seq_positions (memory c) q = seq_positions (memory (ctx st)) q + (if ret = 0 then row_positions q ?rows else {#})"
      using decode_view_total [OF less.prems(3) rows, of compute compute_row alloc_ok] unfolding assms(1) by blast
    let ?st1 = "st\<lparr>ctx := c\<rparr>"
    consider (fail) "ret \<noteq> 0" "nb = 1 \<or> ret < 0" | (retry) "ret \<noteq> 0" "nb \<noteq> 1" "\<not> ret < 0" | (ok) "ret = 0" by blast
    then show ?thesis
    proof cases
      case fail
      then have "decode_views env now nb i st = Some (Inr (fail_all now ?st1))"
        using True d(1) by (simp add: decode_views.simps [of env now nb i st] Let_def)
      then show ?thesis
        using fail d(2,3) less.prems(2) fail_all_idle [of now ?st1] by (intro exI [of _ "fail_all now ?st1"] exI [of _ i]) simp
    next
      case retry
      have nb: "0 < nb div 2" "nb div 2 < nb" using retry less.prems(1) by auto
      have "\<exists>st' k. decode_views env now (nb div 2) i ?st1 = Some (Inr st') \<and> i \<le> k \<and> k \<le> length (batch ?st1) \<and> can_decode pr (ctx st')
        \<and> (\<forall>q. seq_positions (memory (ctx st')) q = seq_positions (memory (ctx ?st1)) q + row_positions q (take (k - i) (drop i (batch ?st1))))
        \<and> (k = length (batch ?st1) \<or> all_idle st')"
        by (rule less.hyps) (use nb less.prems d(2) in simp_all)
      then obtain st' k where IH: "decode_views env now (nb div 2) i ?st1 = Some (Inr st')" "i \<le> k" "k \<le> length (batch st)"
        "can_decode pr (ctx st')" "k = length (batch st) \<or> all_idle st'"
        "\<forall>q. seq_positions (memory (ctx st')) q = seq_positions (memory c) q + row_positions q (take (k - i) (drop i (batch st)))"
        by auto
      have "decode_views env now nb i st = decode_views env now (nb div 2) i ?st1"
        using True d(1) retry by (simp add: decode_views.simps [of env now nb i st] Let_def)
      then show ?thesis using IH retry d(3) by (intro exI [of _ st'] exI [of _ k]) simp
    next
      case ok
      let ?st2 = "fold (after_view env now i ?n) [0..<length (slots ?st1)] ?st1"
      have fr: "ctx ?st2 = c" "batch ?st2 = batch st" using after_views_frame [of env now i ?n _ ?st1] by simp_all
      have step: "decode_views env now nb i st = decode_views env now nb (i + nb) ?st2"
        using True d(1) ok by (simp add: decode_views.simps [of env now nb i st] Let_def)
      show ?thesis
      proof (cases "i + nb \<le> length (batch st)")
        case False
        then have "decode_views env now nb (i + nb) ?st2 = Some (Inr ?st2)"
          using fr by (simp add: decode_views.simps [of env now nb "i + nb"])
        then show ?thesis
          using step fr d(2,3) ok False less.prems(2) by (intro exI [of _ ?st2] exI [of _ "length (batch st)"]) simp
      next
        case le: True
        have "(length (batch st) - (i + nb)) * Suc m + nb < (length (batch st) - i) * Suc m + nb"
        proof -
          have "length (batch st) - (i + nb) < length (batch st) - i" using le less.prems(1) by linarith
          then show ?thesis by (simp only: add_less_cancel_right mult_less_cancel2) simp
        qed
        then have "\<exists>st' k. decode_views env now nb (i + nb) ?st2 = Some (Inr st') \<and> i + nb \<le> k \<and> k \<le> length (batch ?st2) \<and> can_decode pr (ctx st')
          \<and> (\<forall>q. seq_positions (memory (ctx st')) q = seq_positions (memory (ctx ?st2)) q + row_positions q (take (k - (i + nb)) (drop (i + nb) (batch ?st2))))
          \<and> (k = length (batch ?st2) \<or> all_idle st')"
          by (intro less.hyps) (use less.prems le d(2) fr in simp_all)
        then obtain st' k where IH: "decode_views env now nb (i + nb) ?st2 = Some (Inr st')" "i + nb \<le> k" "k \<le> length (batch st)"
          "can_decode pr (ctx st')" "k = length (batch st) \<or> all_idle st'"
          "\<forall>q. seq_positions (memory (ctx st')) q = seq_positions (memory c) q + row_positions q (take (k - (i + nb)) (drop (i + nb) (batch st)))"
          unfolding fr by auto
        have "take (k - i) (drop i (batch st)) = ?rows @ take (k - (i + nb)) (drop (i + nb) (batch st))"
        proof -
          have "k - i = nb + (k - (i + nb))" using IH(2) by simp
          then have "take (k - i) (drop i (batch st)) = take nb (drop i (batch st)) @ take (k - (i + nb)) (drop nb (drop i (batch st)))"
            by (simp only: take_add)
          then show ?thesis using le by (simp add: add.commute min_absorb1)
        qed
        then show ?thesis
          using IH step d(3) ok by (intro exI [of _ st'] exI [of _ k]) (simp add: add.assoc)
      qed
    qed
  qed
qed

section \<open>Properties\<close>


definition wit_decode_env :: "nat model_env" where
  "wit_decode_env = \<lparr>dec = decode_view (\<lambda>_ _. Status_success) (\<lambda>_ _ k. k) True wit_params, sample = (\<lambda>_ _ _. 2),
     piece = (\<lambda>_ _. ''''), tok_env = wit_env\<rparr>"


end
