(* ===== verification/ServerMachine.thy ===== *)
theory ServerMachine
  imports ServerLoop
begin

text \<open>
  The server as a state machine (\<open>tools/server/server.cpp\<close>): the HTTP threads post and cancel tasks, the
  main loop takes them and updates the slots. The inner loop of \<open>start_loop\<close> terminates; no task is
  left waiting while the loop sleeps, as long as every task can be launched; and what happens when
  one cannot.
\<close>

section \<open>The inner loop of start_loop\<close>

definition take_task ::
  "server_params \<Rightarrow> int \<Rightarrow> server_task \<Rightarrow> server_task list \<Rightarrow> 'o server_context \<Rightarrow> 'o server_context" where
  "take_task cfg now t ts st = process_single_task cfg now t (upd_queue (\<lambda>q. q\<lparr>queue_tasks := ts\<rparr>) st)"

definition launching :: "server_task \<Rightarrow> bool" where
  "launching t \<longleftrightarrow> t_type t \<in> {TASK_COMPLETION, TASK_INFILL, TASK_EMBEDDING, TASK_RERANK}"

lemma launch_simps [simp]:
  "queue (snd (launch_slot_with_task cfg i t st)) = queue st"
  "length (slots (snd (launch_slot_with_task cfg i t st))) = length (slots st)"
  by (simp_all add: launch_slot_with_task_def Let_def)

lemma release_queue: "queue (release now i st) = queue st \<or> queue (release now i st) = pop_deferred_task (queue st)"
  by (simp add: release_def)

text \<open>What a task does to the queue: nothing, or it is deferred, or (cancel) it frees a deferred task.\<close>

lemma process_single_queue:
  "queue (process_single_task cfg now t st) \<in>
     {queue st} \<union> (if t_type t = TASK_CANCEL then {pop_deferred_task (queue st)} else {defer_task t (queue st)})"
  using release_queue [of now _ st]
  by (cases "t_type t")
    (auto simp: process_launch_def process_cancel_def process_metrics_def with_slot_def slot_save_def slot_restore_def
      slot_erase_def Let_def split: option.split prod.split)

definition n_cancel :: "server_queue \<Rightarrow> nat" where
  "n_cancel q = count_if (\<lambda>t. t_type t = TASK_CANCEL) (queue_tasks q @ queue_tasks_deferred q)"

lemma count_if_append [simp]: "count_if P (xs @ ys) = count_if P xs + count_if P ys"
  by (simp add: count_if_def)

lemma take_task_decreases:
  assumes "queue_tasks (queue st) = t # ts"
  shows "n_cancel (queue (take_task cfg now t ts st)) < n_cancel (queue st)
    \<or> n_cancel (queue (take_task cfg now t ts st)) = n_cancel (queue st)
      \<and> length (queue_tasks (queue (take_task cfg now t ts st))) < length (queue_tasks (queue st))"
  using assms process_single_queue [of cfg now t "upd_queue (\<lambda>q. q\<lparr>queue_tasks := ts\<rparr>) st"]
  unfolding take_task_def
  by (auto simp: n_cancel_def defer_task_def pop_deferred_task_def simp del: process_single_task.simps
      split: if_splits list.split)

text \<open>
  The inner loop, when no other thread posts meanwhile. It ends because a task leaves the queue for
  good, and only a cancel brings one back.
\<close>

function process_queue :: "server_params \<Rightarrow> int \<Rightarrow> 'o server_context \<Rightarrow> 'o server_context" where
  "process_queue cfg now st =
     (if \<not> q_running (queue st) then st
      else case queue_tasks (queue st) of
        [] \<Rightarrow> st
      | t # ts \<Rightarrow> process_queue cfg now (take_task cfg now t ts st))"
  by pat_completeness auto
termination
proof (relation "measures [\<lambda>(cfg, now, st). n_cancel (queue st), \<lambda>(cfg, now, st). length (queue_tasks (queue st))]", goal_cases)
  case (2 cfg now st t ts)
  then show ?case using take_task_decreases [of st t ts cfg now] by auto
qed simp

declare process_queue.simps [simp del]

section \<open>Choosing a slot\<close>

lemma lru_idle:
  assumes "snd (fold (lru_step sls) ks (t, r)) = Some k"
  shows "r = Some k \<or> (k \<in> set ks \<and> \<not> is_processing (sls ! k))"
  using assms by (induction ks arbitrary: t r) (auto simp: lru_step_def split: if_splits)

lemma lru_none:
  assumes "snd (fold (lru_step sls) ks (t, r)) = None"
  shows "r = None \<and> (\<forall>k \<in> set ks. t_last_used (sls ! k) < t \<longrightarrow> is_processing (sls ! k))"
  using assms
proof (induction ks arbitrary: t r)
  case (Cons a ks)
  obtain t1 r1 where step: "lru_step sls a (t, r) = (t1, r1)" by fastforce
  have IH: "r1 = None" "\<forall>k \<in> set ks. t_last_used (sls ! k) < t1 \<longrightarrow> is_processing (sls ! k)"
    using Cons.IH [of t1 r1] Cons.prems step by simp_all
  then have "r = None" "t1 = t" "t_last_used (sls ! a) < t \<longrightarrow> is_processing (sls ! a)"
    using step by (auto simp: lru_step_def split: if_splits)
  then show ?case using IH(2) by simp
qed simp

lemma similar_idle:
  assumes "snd (fold (similar_step sim p sls) ks (l, r)) = Some k"
  shows "r = Some k \<or> (k \<in> set ks \<and> \<not> is_processing (sls ! k))"
  using assms
proof (induction ks arbitrary: l r)
  case (Cons a ks)
  obtain l1 r1 where step: "similar_step sim p sls a (l, r) = (l1, r1)" by fastforce
  then have "r1 = r \<or> r1 = Some a \<and> \<not> is_processing (sls ! a)"
    by (simp add: similar_step_def Let_def split: if_splits)
  moreover have "r1 = Some k \<or> (k \<in> set ks \<and> \<not> is_processing (sls ! k))"
    using Cons.IH [of l1 r1] Cons.prems step by simp
  ultimately show ?case by auto
qed simp

lemma get_available_slot_Some:
  assumes "get_available_slot cfg now t sls = Some k"
  shows "k < length sls" "\<not> is_processing (sls ! k)"
proof -
  have "\<exists>sim. snd (fold (similar_step sim (t_prompt t) sls) [0..<length sls] (0, None)) = Some k
      \<or> snd (fold (lru_step sls) [0..<length sls] (now, None)) = Some k"
    using assms by (auto simp: get_available_slot_def Let_def split: option.splits if_splits)
  then show "k < length sls" "\<not> is_processing (sls ! k)" using lru_idle similar_idle by fastforce+
qed

text \<open>With a clock that has moved on, no slot is found only when all are busy.\<close>

lemma get_available_slot_None:
  assumes "get_available_slot cfg now t sls = None" "\<forall>sl \<in> set sls. t_last_used sl < now"
  shows "\<forall>sl \<in> set sls. is_processing sl"
proof -
  have "snd (fold (lru_step sls) [0..<length sls] (now, None)) = None"
    using assms(1) by (auto simp: get_available_slot_def Let_def split: if_splits)
  then show ?thesis using lru_none assms(2) by (fastforce simp: in_set_conv_nth)
qed

lemma get_slot_by_id_Some:
  assumes "get_slot_by_id i sls = Some k"
  shows "k < length sls"
  using find_mem [OF assms [unfolded get_slot_by_id_def]] by simp

lemma get_slot_by_id_None: "get_slot_by_id i sls = None \<longleftrightarrow> i \<notin> s_id ` set sls"
  unfolding get_slot_by_id_def find_None_iff set_conv_nth by auto

lemma launch_succeeds:
  assumes "i < length (slots st)" "validate_tokens (vocab_size cfg) (t_prompt t)" "\<forall>p. sampler_ok cfg p"
  shows "is_processing (slots (snd (launch_slot_with_task cfg i t st)) ! i)"
    and "map s_id (slots (snd (launch_slot_with_task cfg i t st))) = map s_id (slots st)"
  using assms
  by (simp_all add: launch_slot_with_task_def Let_def slot_reset_def is_processing_def map_update list_update_same_conv)

section \<open>The machine\<close>

text \<open>
  A task that can be launched whenever a slot is free: a valid prompt and, if a slot is requested,
  one that exists. Metrics and adapters never wait.
\<close>

definition good_task :: "server_params \<Rightarrow> int list \<Rightarrow> server_task \<Rightarrow> bool" where
  "good_task cfg ids t \<longleftrightarrow> id_target t = -1
     \<and> (launching t \<and> validate_tokens (vocab_size cfg) (t_prompt t) \<and> (id_selected_slot t = -1 \<or> id_selected_slot t \<in> set ids)
        \<or> t_type t \<in> {TASK_METRICS, TASK_SET_LORA})"

text \<open>
  The steps: an HTTP thread posts a task or cancels tasks; the main loop takes a task; it updates the
  slots when the queue is empty. The clock has moved on since a slot was last released.
\<close>

inductive server_step :: "server_params \<Rightarrow> 'o model_env \<Rightarrow> 'o server_context \<Rightarrow> 'o server_context \<Rightarrow> bool"
  for cfg env where
  step_post: "good_task cfg (map s_id (slots st)) t \<Longrightarrow> server_step cfg env st (upd_queue (enqueue t front) st)"
| step_cancel: "\<forall>i \<in> set ids. 0 \<le> i \<Longrightarrow> cancel_tasks ids (queue st, results st) = (q, w)
    \<Longrightarrow> server_step cfg env st (st\<lparr>queue := q, results := w\<rparr>)"
| step_take: "queue_tasks (queue st) = t # ts \<Longrightarrow> \<forall>sl \<in> set (slots st). t_last_used sl < now
    \<Longrightarrow> server_step cfg env st (take_task cfg now t ts st)"
| step_update: "queue_tasks (queue st) = [] \<Longrightarrow> update_slots cfg env now st = Some (Inr st') \<Longrightarrow> server_step cfg env st st'"

inductive server_reach :: "server_params \<Rightarrow> 'o model_env \<Rightarrow> 'o server_context \<Rightarrow> bool"
  for cfg env where
  reach_init: "0 < n \<Longrightarrow> slots st = init_slots n nctx npredict \<Longrightarrow> queue_tasks (queue st) = [] \<Longrightarrow> queue_tasks_deferred (queue st) = []
    \<Longrightarrow> server_reach cfg env st"
| reach_step: "server_reach cfg env st \<Longrightarrow> server_step cfg env st st' \<Longrightarrow> server_reach cfg env st'"

text \<open>
  The invariant, on the state of the scheduler: when a task is deferred, a slot is processing or a task
  that will be launched is in the queue.
\<close>

definition queued_ok :: "server_params \<Rightarrow> int list \<Rightarrow> server_task \<Rightarrow> bool" where
  "queued_ok cfg ids t \<longleftrightarrow> good_task cfg ids t \<or> t_type t = TASK_CANCEL \<or> t_type t = TASK_NEXT_RESPONSE \<and> id_target t = -1"

definition sched_ok :: "server_params \<Rightarrow> int list \<Rightarrow> sched \<Rightarrow> bool" where
  "sched_ok cfg ids = (\<lambda>(ps, q).
     (\<forall>t \<in> set (queue_tasks q). queued_ok cfg ids t)
     \<and> (\<forall>t \<in> set (queue_tasks_deferred q). launching t \<and> good_task cfg ids t)
     \<and> (queue_tasks_deferred q \<noteq> [] \<longrightarrow> True \<in> set ps \<or> (\<exists>t \<in> set (queue_tasks q). launching t)))"

definition server_inv :: "server_params \<Rightarrow> 'o server_context \<Rightarrow> bool" where
  "server_inv cfg st \<longleftrightarrow> slots st \<noteq> [] \<and> sched_ok cfg (map s_id (slots st)) (sched_of st)"

lemma sched_ok_release:
  assumes "sched_ok cfg ids s"
  shows "sched_ok cfg ids (sched_release k s)"
proof (cases s)
  case (Pair ps q)
  show ?thesis
  proof (cases "queue_tasks_deferred q")
    case Nil
    then show ?thesis using assms Pair by (simp add: sched_ok_def sched_release_def pop_deferred_task_def)
  next
    case (Cons t ts)
    then show ?thesis
      using assms Pair by (simp add: sched_ok_def sched_release_def pop_deferred_task_def queued_ok_def)
  qed
qed

lemma sched_ok_releases: "releases s t \<Longrightarrow> sched_ok cfg ids s \<Longrightarrow> sched_ok cfg ids t"
  by (induction rule: releases.induct) (auto intro: sched_ok_release)

lemma server_inv_only_releases: "only_releases st st' \<Longrightarrow> server_inv cfg st \<Longrightarrow> server_inv cfg st'"
  using only_releases_length [of st st'] sched_ok_releases [of "sched_of st" "sched_of st'" cfg "map s_id (slots st)"]
  unfolding server_inv_def only_releases_def by (metis length_0_conv)

section \<open>The invariant\<close>

lemma server_inv_queue:
  assumes "server_inv cfg st" "slots st' = slots st" "sched_ok cfg (map s_id (slots st)) (map is_processing (slots st), queue st')"
  shows "server_inv cfg st'"
  using assms by (simp add: server_inv_def sched_of_def)

lemma server_inv_post:
  assumes "server_inv cfg st" "good_task cfg (map s_id (slots st)) t"
  shows "server_inv cfg (upd_queue (enqueue t front) st)"
proof (rule server_inv_queue [OF assms(1)])
  have "t_type t \<noteq> TASK_CANCEL" using assms(2) by (auto simp: good_task_def launching_def)
  then show "sched_ok cfg (map s_id (slots st)) (map is_processing (slots st), queue (upd_queue (enqueue t front) st))"
    using assms by (auto simp: server_inv_def sched_of_def sched_ok_def enqueue_def queued_ok_def Let_def)
qed simp

text \<open>A cancel task removes earlier cancels only: no other task has a target.\<close>

lemma sched_ok_enqueue_cancel:
  assumes "sched_ok cfg ids (ps, q)" "t_type t = TASK_CANCEL" "0 \<le> id_target t"
  shows "sched_ok cfg ids (ps, enqueue t True q)"
proof -
  have "id_target u \<noteq> id_target t" if "good_task cfg ids u" for u
    using that assms(3) by (auto simp: good_task_def)
  moreover have "good_task cfg ids u" if "u \<in> set (queue_tasks q)" "launching u" for u
    using that assms(1) by (auto simp: sched_ok_def queued_ok_def launching_def)
  ultimately show ?thesis
    using assms(1,2) by (fastforce simp: sched_ok_def enqueue_def cleanup_pending_task_def queued_ok_def Let_def)
qed

lemma sched_ok_cancel_tasks:
  assumes "sched_ok cfg ids (ps, q)" "\<forall>i \<in> set is. 0 \<le> i" "cancel_tasks is (q, w) = (q', w')"
  shows "sched_ok cfg ids (ps, q')"
proof -
  have "sched_ok cfg ids (ps, post_multi (map (\<lambda>i. (server_task_new TASK_CANCEL)\<lparr>id_target := i\<rparr>) is) True q)"
    using assms(1,2)
  proof (induction "is" arbitrary: q)
    case (Cons i "is")
    let ?t = "(server_task_new TASK_CANCEL)\<lparr>id_target := i, t_id := q_id q\<rparr>"
    have "sched_ok cfg ids (ps, enqueue ?t True (q\<lparr>q_id := q_id q + 1\<rparr>))"
      using Cons.prems by (intro sched_ok_enqueue_cancel) (simp_all add: sched_ok_def server_task_new_def)
    then show ?case using Cons.IH Cons.prems(2) by (simp add: server_task_new_def)
  qed simp
  then show ?thesis using assms(3) by (simp add: cancel_tasks_def)
qed

text \<open>A task that can be launched is launched, or it waits for a slot that is processing.\<close>

lemma process_launch_cases:
  assumes "good_task cfg (map s_id (slots st)) t" "launching t" "slots st \<noteq> []"
    "\<forall>sl \<in> set (slots st). t_last_used sl < now" "\<forall>p. sampler_ok cfg p"
  obtains (deferred) "process_launch cfg now t st = upd_queue (defer_task t) st" "True \<in> set (map is_processing (slots st))"
  | (launched) i where "process_launch cfg now t st = snd (launch_slot_with_task cfg i t st)" "i < length (slots st)"
      "is_processing (slots (snd (launch_slot_with_task cfg i t st)) ! i)"
      "map s_id (slots (snd (launch_slot_with_task cfg i t st))) = map s_id (slots st)"
proof -
  let ?sel = "if id_selected_slot t \<noteq> -1 then get_slot_by_id (id_selected_slot t) (slots st)
    else get_available_slot cfg now t (slots st)"
  have valid: "validate_tokens (vocab_size cfg) (t_prompt t)" "id_selected_slot t = -1 \<or> id_selected_slot t \<in> s_id ` set (slots st)"
    using assms(1,2) by (auto simp: good_task_def launching_def)
  show thesis
  proof (cases ?sel)
    case None
    then have "\<forall>sl \<in> set (slots st). is_processing sl"
      using valid(2) get_available_slot_None assms(4) by (fastforce simp: get_slot_by_id_None split: if_splits)
    then have "True \<in> set (map is_processing (slots st))" using assms(3) by (cases "slots st") auto
    then show thesis using deferred None by (simp add: process_launch_def split: if_splits)
  next
    case (Some i)
    then have i: "i < length (slots st)"
      using get_slot_by_id_Some get_available_slot_Some(1) by (metis (no_types, lifting))
    show thesis
    proof (cases "is_processing (slots st ! i)")
      case True
      then have "True \<in> set (map is_processing (slots st))" using i nth_mem by fastforce
      then show thesis using deferred Some True by (simp add: process_launch_def split: if_splits)
    next
      case False
      then show thesis
        using launched [OF _ i launch_succeeds [OF i valid(1) assms(5)]] Some
        by (simp add: process_launch_def split: if_splits)
    qed
  qed
qed

lemma processing_mem: "i < length sls \<Longrightarrow> is_processing (sls ! i) \<Longrightarrow> True \<in> set (map is_processing sls)"
  using nth_mem by fastforce

lemma server_inv_process_cancel:
  assumes "server_inv cfg st"
  shows "server_inv cfg (process_cancel now t st)"
proof (cases "List.find (\<lambda>k. id_task (slots st ! k) = id_target t) [0..<length (slots st)]")
  case (Some i)
  then have "i < length (slots st)" using find_mem [OF Some] by simp
  then show ?thesis
    using Some server_inv_only_releases [OF only_releases_release assms] by (simp add: process_cancel_def)
qed (simp add: process_cancel_def assms)

lemma process_launching: "launching t \<Longrightarrow> process_single_task cfg now t st = process_launch cfg now t st"
  by (auto simp: launching_def)

lemma server_inv_take:
  assumes "server_inv cfg st" "queue_tasks (queue st) = t # ts" "\<forall>p. sampler_ok cfg p"
    "\<forall>sl \<in> set (slots st). t_last_used sl < now"
  shows "server_inv cfg (take_task cfg now t ts st)"
proof -
  let ?st = "upd_queue (\<lambda>q. q\<lparr>queue_tasks := ts\<rparr>) st" and ?ids = "map s_id (slots st)"
  have ok: "sched_ok cfg ?ids (map is_processing (slots st), queue st)" "slots st \<noteq> []"
    using assms(1) by (simp_all add: server_inv_def sched_of_def)
  have q: "queued_ok cfg ?ids t" "\<forall>u \<in> set ts. queued_ok cfg ?ids u"
    "\<forall>u \<in> set (queue_tasks_deferred (queue st)). launching u \<and> good_task cfg ?ids u"
    using ok assms(2) by (simp_all add: sched_ok_def)
  show ?thesis
  proof (cases "launching t")
    case True
    then have good: "good_task cfg (map s_id (slots ?st)) t" using q(1) by (auto simp: queued_ok_def launching_def)
    have take: "take_task cfg now t ts st = process_launch cfg now t ?st"
      unfolding take_task_def by (rule process_launching [OF True])
    from good True show ?thesis
    proof (rule process_launch_cases)
      show "slots ?st \<noteq> []" "\<forall>sl \<in> set (slots ?st). t_last_used sl < now" "\<forall>p. sampler_ok cfg p"
        using ok(2) assms(3,4) by simp_all
    next
      assume d: "process_launch cfg now t ?st = upd_queue (defer_task t) ?st" "True \<in> set (map is_processing (slots ?st))"
      show ?thesis
        unfolding take d(1) using q d(2) good True
        by (intro server_inv_queue [OF assms(1)]) (auto simp: sched_ok_def defer_task_def)
    next
      fix i assume l: "process_launch cfg now t ?st = snd (launch_slot_with_task cfg i t ?st)" "i < length (slots ?st)"
        "is_processing (slots (snd (launch_slot_with_task cfg i t ?st)) ! i)"
        "map s_id (slots (snd (launch_slot_with_task cfg i t ?st))) = map s_id (slots ?st)"
      have "True \<in> set (map is_processing (slots (snd (launch_slot_with_task cfg i t ?st))))"
        by (rule processing_mem [OF _ l(3)]) (use l(2) in simp)
      then show ?thesis
        unfolding take l(1) server_inv_def l(4) using q l(2) by (auto simp: sched_ok_def sched_of_def)
    qed
  next
    case False
    have inv: "server_inv cfg ?st"
      using q ok(1) False assms(2) by (intro server_inv_queue [OF assms(1)]) (auto simp: sched_ok_def)
    show ?thesis
    proof (cases "t_type t = TASK_CANCEL")
      case True
      then show ?thesis using server_inv_process_cancel [OF inv] by (simp add: take_task_def)
    next
      case other: False
      then have "t_type t \<in> {TASK_METRICS, TASK_SET_LORA, TASK_NEXT_RESPONSE}"
        using q(1) False by (auto simp: queued_ok_def good_task_def)
      then show ?thesis
        using inv by (auto simp: take_task_def process_metrics_def server_inv_def sched_of_def Let_def)
    qed
  qed
qed

lemma server_inv_update:
  assumes "server_inv cfg st" "update_slots cfg env now st = Some (Inr st')"
  shows "server_inv cfg st'"
proof (cases "all_idle st")
  case True
  then show ?thesis using update_slots_releases [OF assms(2)] assms(1) by (simp add: server_inv_def sched_of_def)
next
  case False
  then obtain q where q: "post ((server_task_new TASK_NEXT_RESPONSE)\<lparr>t_id := q_id (queue st)\<rparr>) False
      ((queue st)\<lparr>q_id := q_id (queue st) + 1\<rparr>) = Inr q" "only_releases (st\<lparr>queue := q\<rparr>) st'"
    using update_slots_releases [OF assms(2)] by auto
  have "server_inv cfg (st\<lparr>queue := q\<rparr>)"
    using q(1) assms(1)
    by (auto simp: server_inv_def sched_of_def sched_ok_def post_def enqueue_def queued_ok_def server_task_new_def Let_def split: if_splits)
  then show ?thesis by (rule server_inv_only_releases [OF q(2)])
qed

lemma server_reach_inv:
  assumes "server_reach cfg env st" "\<forall>p. sampler_ok cfg p"
  shows "server_inv cfg st"
  using assms(1)
proof induction
  case (reach_init n st nctx npredict)
  then show ?case by (simp add: server_inv_def sched_of_def sched_ok_def init_slots_def)
next
  case (reach_step st st')
  from reach_step.hyps(2) reach_step.IH show ?case
  proof cases
    case (step_cancel "is" q w)
    then show ?thesis
      using reach_step.IH sched_ok_cancel_tasks [OF _ step_cancel(2,3)] by (simp add: server_inv_def sched_of_def)
  qed (simp_all add: server_inv_post server_inv_take server_inv_update assms(2))
qed

lemma releases_queued: "releases s t \<Longrightarrow> set (queue_tasks (snd s)) \<subseteq> set (queue_tasks (snd t))"
  by (induction rule: releases.induct)
    (auto simp: sched_release_def pop_deferred_task_def split: prod.splits list.splits)

lemma update_slots_wakes:
  assumes "update_slots cfg env now st = Some (Inr st')" "\<not> all_idle st"
  shows "queue_tasks (queue st') \<noteq> []"
proof -
  obtain q where q: "post ((server_task_new TASK_NEXT_RESPONSE)\<lparr>t_id := q_id (queue st)\<rparr>) False
      ((queue st)\<lparr>q_id := q_id (queue st) + 1\<rparr>) = Inr q" "only_releases (st\<lparr>queue := q\<rparr>) st'"
    using update_slots_releases [OF assms(1)] assms(2) by auto
  have "queue_tasks q \<noteq> []"
    using q(1) by (auto simp: post_def enqueue_def server_task_new_def Let_def split: if_splits)
  then show ?thesis
    using releases_queued [of "sched_of (st\<lparr>queue := q\<rparr>)" "sched_of st'"] q(2)
    by (auto simp: only_releases_def sched_of_def)
qed

section \<open>Properties\<close>

text \<open>
  C10. No task is forgotten. Let HTTP threads post and cancel requests at any time, and let every
  request have a valid prompt, a slot that exists and a sampler that can be built. Whenever the main
  loop goes to sleep (\<open>update_slots\<close> has returned and the queue is empty), no slot is processing and
  no task waits for a slot.
\<close>

theorem no_stall:
  assumes "server_reach cfg env st" "\<forall>p. sampler_ok cfg p"
    and "queue_tasks (queue st) = []" "update_slots cfg env now st = Some (Inr st')" "queue_tasks (queue st') = []"
  shows "all_idle st' \<and> queue_tasks_deferred (queue st') = []"
proof -
  have idle: "all_idle st" using update_slots_wakes [OF assms(4)] assms(5) by blast
  then have same: "slots st' = slots st" "queue st' = queue st" using update_slots_releases [OF assms(4)] by simp_all
  have "server_inv cfg st" using server_reach_inv assms(1,2) by blast
  then show ?thesis
    using idle assms(3) by (auto simp: server_inv_def sched_ok_def sched_of_def all_idle_def list_all_iff same)
qed

declare decode_views.simps [code]

text \<open>A model that answers every prompt with the end-of-generation token 2.\<close>

definition wit_model :: "nat model_env" where
  "wit_model = \<lparr>dec = (\<lambda>rows c. Some (Inr (0, c))), sample = (\<lambda>_ _ _. 2), piece = (\<lambda>_ _. ''''), tok_env = wit_env\<rparr>"

definition wit_task :: "int \<Rightarrow> server_task" where
  "wit_task i = (server_task_new TASK_COMPLETION)\<lparr>t_id := i, t_prompt := [5, 6]\<rparr>"

definition wit_init :: "nat server_context" where
  "wit_init = wit_server (wit_kv\<lparr>used := 0, cells := replicate 4 empty_cell\<rparr>) (init_slots 1 8 (-1))"

text \<open>Steps of the machine as functions, for concrete runs.\<close>

definition wit_take :: "int \<Rightarrow> nat server_context \<Rightarrow> nat server_context" where
  "wit_take now st = take_task wit_cfg now (hd (queue_tasks (queue st))) (tl (queue_tasks (queue st))) st"

definition wit_update :: "int \<Rightarrow> nat server_context \<Rightarrow> nat server_context" where
  "wit_update now st = (case update_slots wit_cfg wit_model now st of Some (Inr st') \<Rightarrow> st' | _ \<Rightarrow> st)"

definition wit_run :: "nat \<Rightarrow> nat server_context" where
  "wit_run n = fold (\<lambda>f. f) (take n
     [upd_queue (enqueue (wit_task 1) False), upd_queue (enqueue (wit_task 2) False),
      wit_take 1, wit_take 2, wit_update 3, wit_take 4, wit_take 5, wit_update 6, wit_take 7]) wit_init"

definition wit_can_take :: "int \<Rightarrow> nat server_context \<Rightarrow> bool" where
  "wit_can_take now st \<longleftrightarrow> queue_tasks (queue st) \<noteq> [] \<and> list_all (\<lambda>sl. t_last_used sl < now) (slots st)"

definition wit_can_update :: "int \<Rightarrow> nat server_context \<Rightarrow> bool" where
  "wit_can_update now st \<longleftrightarrow> queue_tasks (queue st) = []
     \<and> (case update_slots wit_cfg wit_model now st of Some (Inr _) \<Rightarrow> True | _ \<Rightarrow> False)"

lemma wit_reach_take: "server_reach wit_cfg wit_model st \<Longrightarrow> wit_can_take now st \<Longrightarrow> server_reach wit_cfg wit_model (wit_take now st)"
  unfolding wit_can_take_def wit_take_def list_all_iff by (rule reach_step, assumption, rule step_take) auto

lemma wit_update_eq:
  "wit_can_update now st \<Longrightarrow> queue_tasks (queue st) = [] \<and> update_slots wit_cfg wit_model now st = Some (Inr (wit_update now st))"
  by (auto simp: wit_can_update_def wit_update_def split: option.splits sum.splits)

lemma wit_reach_update: "server_reach wit_cfg wit_model st \<Longrightarrow> wit_can_update now st \<Longrightarrow> server_reach wit_cfg wit_model (wit_update now st)"
  using wit_update_eq by (blast intro: reach_step step_update)

lemma wit_reach: "server_reach wit_cfg wit_model (wit_run 9)"
proof -
  have n: "wit_run 0 = wit_init" "wit_run 1 = upd_queue (enqueue (wit_task 1) False) (wit_run 0)"
    "wit_run 2 = upd_queue (enqueue (wit_task 2) False) (wit_run 1)" "wit_run 3 = wit_take 1 (wit_run 2)"
    "wit_run 4 = wit_take 2 (wit_run 3)" "wit_run 5 = wit_update 3 (wit_run 4)" "wit_run 6 = wit_take 4 (wit_run 5)"
    "wit_run 7 = wit_take 5 (wit_run 6)" "wit_run 8 = wit_update 6 (wit_run 7)" "wit_run 9 = wit_take 7 (wit_run 8)"
    by (simp_all add: wit_run_def numeral_eq_Suc)
  have good: "good_task wit_cfg ids (wit_task i)" for ids i
    by (simp add: good_task_def wit_task_def server_task_new_def launching_def wit_cfg_def validate_tokens_def)
  have can: "wit_can_take 1 (wit_run 2)" "wit_can_take 2 (wit_run 3)" "wit_can_update 3 (wit_run 4)" "wit_can_take 4 (wit_run 5)"
    "wit_can_take 5 (wit_run 6)" "wit_can_update 6 (wit_run 7)" "wit_can_take 7 (wit_run 8)"
    by code_simp+
  have "server_reach wit_cfg wit_model (wit_run 0)"
    unfolding n by (rule reach_init [of 1 _ 8 "-1"]) (simp_all add: wit_init_def wit_server_def)
  then have "server_reach wit_cfg wit_model (wit_run 1)" unfolding n by (rule reach_step [OF _ step_post [OF good]])
  then have "server_reach wit_cfg wit_model (wit_run 2)" unfolding n by (rule reach_step [OF _ step_post [OF good]])
  then show ?thesis using can wit_reach_take wit_reach_update unfolding n by blast
qed

theorem no_stall_witness:
  "length (queue_tasks_deferred (queue (wit_run 4))) = 1 \<and> all_idle (wit_update 8 (wit_run 9))
     \<and> queue_tasks_deferred (queue (wit_update 8 (wit_run 9))) = []"
proof -
  have can: "wit_can_update 8 (wit_run 9)" by code_simp
  have "all_idle (wit_update 8 (wit_run 9)) \<and> queue_tasks_deferred (queue (wit_update 8 (wit_run 9))) = []"
    using wit_update_eq [OF can] by (intro no_stall [OF wit_reach]) (simp add: wit_cfg_def, blast, blast, code_simp)
  moreover have "length (queue_tasks_deferred (queue (wit_run 4))) = 1" by code_simp
  ultimately show ?thesis by blast
qed

text \<open>
  What goes wrong otherwise. One slot runs task 1, the task \<open>t\<close> and then task 3 wait; task 1 is
  cancelled. Releasing the slot wakes \<open>t\<close> only.
\<close>

definition stuck_run :: "server_task \<Rightarrow> nat server_context" where
  "stuck_run t =
     (let st1 = process_queue wit_cfg 1 (fold (\<lambda>t. upd_queue (enqueue t False)) [wit_task 1, t, wit_task 3] wit_init);
          (q, w) = cancel_tasks [1] (queue st1, results st1)
      in process_queue wit_cfg 3 (wit_take 2 (st1\<lparr>queue := q, results := w\<rparr>)))"

definition sleeps_with :: "int list \<Rightarrow> nat server_context \<Rightarrow> bool" where
  "sleeps_with ids st \<longleftrightarrow> all_idle st \<and> queue_tasks (queue st) = [] \<and> map t_id (queue_tasks_deferred (queue st)) = ids
     \<and> (case update_slots wit_cfg wit_model 4 st of
          Some (Inr st') \<Rightarrow> queue_tasks (queue st') = [] \<and> map t_id (queue_tasks_deferred (queue st')) = ids
        | _ \<Rightarrow> False)"

text \<open>
  A task that frees no slot swallows the wake-up of the tasks behind it. When \<open>t\<close> asks for a
  slot that does not exist, when its prompt has an invalid token, or when it saves a slot, task 3
  stays deferred while the slot is idle, the queue is empty and the main loop sleeps.
\<close>

theorem deferred_stuck:
  "sleeps_with [3, 2] (stuck_run ((wit_task 2)\<lparr>id_selected_slot := 7\<rparr>))
   \<and> sleeps_with [3] (stuck_run ((wit_task 2)\<lparr>t_prompt := [1000]\<rparr>))
   \<and> sleeps_with [3] (stuck_run ((wit_task 2)\<lparr>t_type := TASK_SLOT_SAVE\<rparr>))"
proof (intro conjI)
  show "sleeps_with [3, 2] (stuck_run ((wit_task 2)\<lparr>id_selected_slot := 7\<rparr>))" by code_simp
  show "sleeps_with [3] (stuck_run ((wit_task 2)\<lparr>t_prompt := [1000]\<rparr>))" by code_simp
  show "sleeps_with [3] (stuck_run ((wit_task 2)\<lparr>t_type := TASK_SLOT_SAVE\<rparr>))" by code_simp
qed

text \<open>The requests among queued tasks: no cancel task is one.\<close>

definition requests :: "server_task list \<Rightarrow> server_task list" where
  "requests ts = filter (\<lambda>t. id_target t = -1) ts"

lemma post_cancels_requests:
  assumes "\<forall>i \<in> set is. 0 \<le> i"
  defines "cancels \<equiv> map (\<lambda>i. (server_task_new TASK_CANCEL)\<lparr>id_target := i\<rparr>)"
  shows "requests (queue_tasks (post_multi (cancels is) True q)) = requests (queue_tasks q)
    \<and> requests (queue_tasks_deferred (post_multi (cancels is) True q)) = requests (queue_tasks_deferred q)"
  using assms(1)
proof (induction "is" arbitrary: q)
  case (Cons i "is")
  have "requests (filter (\<lambda>t. id_target t \<noteq> i) ts) = requests ts" for ts
    using Cons.prems by (auto simp: requests_def intro!: filter_cong)
  moreover have "requests (t # ts) = requests ts" if "id_target t = i" for t ts
    using that Cons.prems by (auto simp: requests_def)
  ultimately show ?case
    using Cons by (simp add: cancels_def server_task_new_def enqueue_def cleanup_pending_task_def Let_def)
qed (simp add: cancels_def)

text \<open>
  C18. Cancelling does not remove a request that has not started. \<open>cleanup_pending_task\<close> compares the
  target of the queued tasks, which only cancel tasks have: every request in the queue or deferred
  is still there afterwards, also the cancelled ones, while their results are no longer awaited.
\<close>

theorem cancel_keeps_pending:
  assumes "\<forall>i \<in> set is. 0 \<le> i" "cancel_tasks is (q, w) = (q', w')"
  shows "requests (queue_tasks q') = requests (queue_tasks q)
    \<and> requests (queue_tasks_deferred q') = requests (queue_tasks_deferred q)
    \<and> waiting_task_ids w' = waiting_task_ids w - set is"
proof -
  have "waiting_task_ids (fold remove_waiting_task_id is w) = waiting_task_ids w - set is"
    by (induction "is" arbitrary: w) (auto simp: remove_waiting_task_id_def)
  then show ?thesis using assms post_cancels_requests by (auto simp: cancel_tasks_def)
qed

theorem cancel_keeps_pending_witness:
  "map t_id (requests (queue_tasks (fst (cancel_tasks [2] (queue (wit_run 2), results (wit_run 2)))))) = [1, 2]"
proof -
  obtain q' w' where run: "cancel_tasks [2] (queue (wit_run 2), results (wit_run 2)) = (q', w')" by fastforce
  have "map t_id (requests (queue_tasks (queue (wit_run 2)))) = [1, 2]" by code_simp
  then show ?thesis unfolding run fst_conv using cancel_keeps_pending [OF _ run] by simp
qed


text \<open>
  Two ways in which a slot comes to remember tokens that the cache does not hold. One model stores every row
  of a batch in the next cell, the other fails and leaves the context as it was.
\<close>

definition storing_model :: "nat model_env" where
  "storing_model = wit_model\<lparr>dec := (\<lambda>rows c.
     let kv = memory c; new = map (\<lambda>(t, p, q, l). wit_cell p {q}) rows
     in Some (Inr (0, c\<lparr>memory := kv\<lparr>used := used kv + length new,
          cells := take (used kv) (cells kv) @ new @ drop (used kv + length new) (cells kv)\<rparr>\<rparr>)))\<rparr>"

definition failing_model :: "nat model_env" where
  "failing_model = wit_model\<lparr>dec := (\<lambda>rows c. Some (Inr (-3, c)))\<rparr>"

text \<open>What the slot remembers, the positions in the cache, and the next batch.\<close>

definition slot_and_cache :: "nat server_context \<Rightarrow> int list \<times> int list" where
  "slot_and_cache st = (cache_tokens (slots st ! 0), map pos (filter (\<lambda>c. \<not> is_empty c) (cells (memory (ctx st)))))"

definition next_batch :: "nat server_context \<Rightarrow> batch_row list" where
  "next_batch st = (case build_batch wit_cfg 9 st of Inr st' \<Rightarrow> batch st' | _ \<Rightarrow> [])"

definition wit_iteration :: "nat model_env \<Rightarrow> int \<Rightarrow> nat server_context \<Rightarrow> nat server_context" where
  "wit_iteration env now st = (case update_slots wit_cfg env now st of Some (Inr st') \<Rightarrow> st' | _ \<Rightarrow> wit_init)"

text \<open>
  A batch that cannot be decoded empties no slot: the slot is released with the tokens it should have
  decoded, and the next request with the same prompt decodes its last token only, on an empty cache.
\<close>

theorem decode_failure_stale:
  "let st = wit_iteration failing_model 3 (wit_run 4); following = wit_take 5 (wit_take 4 st)
   in all_idle st \<and> slot_and_cache st = ([5, 6], []) \<and> next_batch following = [(6, 1, 0, True)]"
  by code_simp

text \<open>
  When a request is posted before the server looks at its slots for the first time, the cache is still to be
  cleaned; it is, the first time all slots are idle, and the slot keeps its tokens.
\<close>

theorem first_idle_clears:
  "let served = wit_iteration storing_model 2 (wit_take 1 (upd_queue (enqueue (wit_task 1) False) wit_init));
       asleep = wit_iteration storing_model 4 (wit_take 3 served);
       following = wit_take 5 (upd_queue (enqueue (wit_task 2) False) asleep)
   in slot_and_cache served = ([5, 6], [0, 1]) \<and> slot_and_cache asleep = ([5, 6], []) \<and> next_batch following = [(6, 1, 0, True)]"
  by code_simp

end
