(* ===== verification/ServerSync.thy ===== *)
theory ServerSync
  imports ServerDecode ServerMachine
begin

text \<open>
  The server and its cache stay in step (\<open>tools/server/server.cpp\<close> on top of \<open>llama_context::decode\<close>): the positions
  in the cells of a sequence and in the rows of the batch are together those of the tokens its slot
  remembers. When the cache has room for the contexts of all slots and the compute graph succeeds,
  \<open>update_slots\<close> always returns and no request fails for lack of cells.
\<close>

section \<open>The owners of the cells\<close>

text \<open>Every cell in use belongs to one slot.\<close>

definition owned :: "kv_cache \<Rightarrow> nat \<Rightarrow> bool" where
  "owned kv n \<longleftrightarrow> (\<forall>x \<in># kv_content kv. \<exists>q < n. snd x = {int q})"

lemma owned_cells: "owned kv n \<longleftrightarrow> (\<forall>c \<in> set (cells kv). is_empty c \<or> (\<exists>q < n. seq_id c = {int q}))"
  by (auto simp: owned_def kv_content_def)

lemma owned_private:
  assumes "owned kv n"
  shows "private_seq kv q"
  unfolding private_seq_def
proof (intro allI impI)
  fix i p p' r assume "(i, p) \<in> occ kv q" "(i, p') \<in> occ kv r"
  then have i: "i < length (cells kv)" "q \<in> seq_id (cells kv ! i)" "r \<in> seq_id (cells kv ! i)" by (auto simp: mem_occ)
  then obtain q' where "seq_id (cells kv ! i) = {int q'}" using assms nth_mem [OF i(1)] by (auto simp: owned_cells is_empty_def)
  then show "r = q" using i by simp
qed

lemma owned_occ:
  assumes "\<And>i p r. (i, p) \<in> occ kv r \<Longrightarrow> \<exists>q < n. r = int q"
    and "\<And>i p p' r r'. (i, p) \<in> occ kv r \<Longrightarrow> (i, p') \<in> occ kv r' \<Longrightarrow> r = r'"
  shows "owned kv n"
  unfolding owned_cells
proof
  fix c assume "c \<in> set (cells kv)"
  then obtain i where i: "i < length (cells kv)" "cells kv ! i = c" by (auto simp: in_set_conv_nth)
  have mem: "(i, pos c) \<in> occ kv r" if "r \<in> seq_id c" for r using i that by (simp add: mem_occ)
  show "is_empty c \<or> (\<exists>q < n. seq_id c = {int q})"
  proof (cases "seq_id c = {}")
    case False
    then obtain r where r: "r \<in> seq_id c" by blast
    then have "seq_id c = {r}" using assms(2) mem by blast
    then show ?thesis using assms(1) [OF mem [OF r]] by auto
  qed (simp add: is_empty_def)
qed

lemma owned_changes:
  assumes "owned kv n" "changes_only (int k) kv kv'" "k < n"
  shows "owned kv' n"
proof (rule owned_occ)
  have old: "\<exists>q < n. r = int q" if "(i, p) \<in> occ kv r" for i p r
    using that assms(1) nth_mem [of i "cells kv"] by (fastforce simp: mem_occ owned_cells is_empty_def)
  have other: "occ kv' r = occ kv r" if "r \<noteq> int k" for r using assms(2) that by (simp add: changes_only_def)
  show "\<exists>q < n. r = int q" if "(i, p) \<in> occ kv' r" for i p r
    using that old other assms(3) by (cases "r = int k") auto
  have priv: "r = int k" if "(i, p) \<in> occ kv' (int k)" "(i, p') \<in> occ kv' r" for i p p' r
    using assms(2) that by (auto simp: changes_only_def private_seq_def)
  show "r = r'" if "(i, p) \<in> occ kv' r" "(i, p') \<in> occ kv' r'" for i p p' r r'
  proof (cases "r = int k \<or> r' = int k")
    case False
    then show ?thesis using that other owned_private [OF assms(1), of r] unfolding private_seq_def by metis
  qed (use that priv in metis)
qed

lemma owned_size:
  assumes "owned kv n"
  shows "size (kv_content kv) = (\<Sum>q < n. size (seq_positions kv (int q)))"
proof -
  have "size M = (\<Sum>q < n. size {#x \<in># M. int q \<in> snd x#})" if "\<forall>x \<in># M. \<exists>q < n. snd x = {int q}"
    for M :: "(int \<times> int set) multiset"
    using that
  proof (induction M)
    case (add x M)
    obtain q where q: "q < n" "snd x = {int q}" using add.prems by auto
    have "(\<Sum>r < n. size {#y \<in># add_mset x M. int r \<in> snd y#}) = (\<Sum>r < n. (if r = q then 1 else 0) + size {#y \<in># M. int r \<in> snd y#})"
      using q by (intro sum.cong) auto
    also have "\<dots> = 1 + (\<Sum>r < n. size {#y \<in># M. int r \<in> snd y#})" using q(1) by (simp add: sum.distrib)
    finally show ?case using add by simp
  qed simp
  from this [of "kv_content kv"] show ?thesis using assms by (simp add: owned_def seq_positions_def)
qed

text \<open>The positions of a sequence of \<open>n\<close> tokens.\<close>

definition positions :: "nat \<Rightarrow> int multiset" where
  "positions n = mset (map int [0..<n])"

lemma size_positions [simp]: "size (positions n) = n"
  by (simp add: positions_def)

lemma count_positions: "count (positions n) p = (if 0 \<le> p \<and> p < int n then 1 else 0)"
  unfolding positions_def by (induction n) auto

lemma positions_append: "positions (m + k) = positions m + mset (map (\<lambda>j. int (m + j)) [0..<k])"
  by (induction k) (simp_all add: positions_def)

lemma count_seq_positions: "count (seq_positions kv q) p = card (cells_at kv q p)"
proof -
  have "count (seq_positions kv q) p = (\<Sum>x | x \<in> occ kv q \<and> snd x = p. 1)"
    by (simp add: seq_positions_occ count_image_mset finite_occ vimage_def Int_def conj_commute)
  also have "{x. x \<in> occ kv q \<and> snd x = p} = (\<lambda>i. (i, p)) ` cells_at kv q p" by (auto simp: cells_at_def)
  also have "(\<Sum>x \<in> (\<lambda>i. (i, p)) ` cells_at kv q p. 1) = card (cells_at kv q p)"
    by (simp add: card_image inj_on_def)
  finally show ?thesis .
qed

lemma finite_cells_at: "finite (cells_at kv q p)"
  by (rule finite_subset [of _ "{..<length (cells kv)}"]) (auto simp: cells_at_def mem_occ)

lemma filled_iff:
  "seq_positions kv q = positions n \<longleftrightarrow>
     (\<forall>p. if 0 \<le> p \<and> p < int n then \<exists>i. cells_at kv q p = {i} else cells_at kv q p = {})"
proof -
  have "card (cells_at kv q p) = (if b then 1 else 0) \<longleftrightarrow> (if b then \<exists>i. cells_at kv q p = {i} else cells_at kv q p = {})" for p b
    using finite_cells_at [of kv q p] by (auto simp: card_1_singleton_iff)
  then show ?thesis by (simp only: multiset_eq_iff count_seq_positions count_positions)
qed

lemma filled_holds:
  assumes "seq_positions kv q = positions n" "length toks \<le> n"
  shows "\<exists>val. cached val kv q toks n"
proof -
  have at: "if 0 \<le> p \<and> p < int n then \<exists>i. cells_at kv q p = {i} else cells_at kv q p = {}" for p
    using assms(1) unfolding filled_iff by (rule spec)
  have "holds_at (\<lambda>i. toks ! nat (pos (cells kv ! i))) kv q p (toks ! nat p)" if p: "0 \<le> p \<and> p < int (length toks)" for p
  proof -
    obtain i where i: "cells_at kv q p = {i}" using at [of p] assms(2) p by (auto split: if_splits)
    then have "i \<in> cells_at kv q p" by simp
    then have "pos (cells kv ! i) = p" by (simp add: cells_at_def mem_occ)
    then show ?thesis using i by (simp add: holds_at_def)
  qed
  moreover have "cells_at kv q p = {}" if "p < 0 \<or> int n \<le> p" for p
    using at [of p] that by (auto split: if_splits)
  ultimately show ?thesis using assms(2) by (auto simp: cached_def)
qed

lemma cached_holds: "cached val kv q toks (length toks) \<Longrightarrow> holds_tokens val kv q toks"
  by (auto simp: cached_def holds_tokens_def)

lemma holds_filled: "holds_tokens val kv q toks \<Longrightarrow> seq_positions kv q = positions (length toks)"
  unfolding filled_iff by (auto simp: holds_tokens_def holds_at_def split: if_splits)

section \<open>Decoding when there is room\<close>

lemma owned_placed:
  assumes "owned kv n" "placed b js kv kv'" "\<forall>j \<in> set js. \<exists>q < n. row_seqs b j = {int q}"
  shows "owned kv' n"
proof -
  obtain f where f: "inj_on f (set js)" "\<And>j r p. j \<in> set js \<Longrightarrow> (f j, p) \<notin> occ kv r"
    "\<And>r. occ kv' r = occ kv r \<union> {(f j, the (b_pos b) ! j) | j. j \<in> set js \<and> r \<in> row_seqs b j}"
    using assms(2) by (auto simp: placed_def)
  show ?thesis
  proof (rule owned_occ)
    have old: "\<exists>q < n. r = int q" if "(i, p) \<in> occ kv r" for i p r
      using that assms(1) nth_mem [of i "cells kv"] by (fastforce simp: mem_occ owned_cells is_empty_def)
    show "\<exists>q < n. r = int q" if "(i, p) \<in> occ kv' r" for i p r
      using that old assms(3) unfolding f(3) by fastforce
    fix i p p' r r' assume i: "(i, p) \<in> occ kv' r" "(i, p') \<in> occ kv' r'"
    consider (new) j where "j \<in> set js" "i = f j" | (old) "i \<notin> f ` set js" by auto
    then show "r = r'"
    proof cases
      case new
      then have "r \<in> row_seqs b j" "r' \<in> row_seqs b j" using i f(2) inj_onD [OF f(1)] unfolding f(3) by blast+
      then show ?thesis using assms(3) new(1) by auto
    next
      case old
      then have "(i, p) \<in> occ kv r" "(i, p') \<in> occ kv r'" using i unfolding f(3) by auto
      then show ?thesis using owned_private [OF assms(1), of r] unfolding private_seq_def by metis
    qed
  qed
qed

text \<open>The rows of a batch for \<open>n\<close> slots.\<close>

definition rows_in :: "decode_params \<Rightarrow> nat \<Rightarrow> batch_row list \<Rightarrow> bool" where
  "rows_in pr n rows \<longleftrightarrow> rows_ok pr rows \<and> list_all (\<lambda>(t, p, q, l). 0 \<le> q \<and> q < int n) rows"

lemma rows_in_part: "rows_in pr n rows \<Longrightarrow> set xs \<subseteq> set rows \<Longrightarrow> rows_in pr n xs"
  by (auto simp: rows_in_def rows_ok_def list_all_iff)

lemma row_positions_Cons: "row_positions q ((t, p, s, l) # rows) = (if s = q then {#p#} else {#}) + row_positions q rows"
  by (simp add: row_positions_def)

lemma size_rows: "rows_in pr n rows \<Longrightarrow> (\<Sum>q < n. size (row_positions (int q) rows)) = length rows"
proof (induction rows)
  case (Cons row rows)
  obtain t p s l where row: "row = (t, p, s, l)" by (metis prod_cases4)
  obtain q where q: "q < n" "s = int q"
    using Cons.prems row by (auto simp: rows_in_def intro: that [of "nat s"])
  have "(\<Sum>r < n. size (row_positions (int r) (row # rows))) = (\<Sum>r < n. (if r = q then 1 else 0) + size (row_positions (int r) rows))"
    using row q by (intro sum.cong) (auto simp: row_positions_Cons)
  then show ?case using Cons q(1) rows_in_part [OF Cons.prems, of rows] by (auto simp: sum.distrib)
qed (simp add: row_positions_def)

lemma decode_view_fits:
  assumes "can_decode pr c" "owned (memory c) n" "graph_ok compute" "rows \<noteq> []" "rows_in pr n rows" "length rows \<le> n_batch pr"
    and "causal_attn pr \<or> length rows \<le> n_ubatch pr"
  shows "\<exists>ret c'. decode_view compute compute_row True pr rows c = Some (Inr (ret, c')) \<and> can_decode pr c'
    \<and> ret \<in> {0, 1} \<and> owned (memory c') n \<and> kv_size (memory c') = kv_size (memory c)
    \<and> (ret = 1 \<and> length rows = 1 \<longrightarrow> size (kv_content (memory c)) = kv_size (memory c))
    \<and> (\<forall>q. seq_positions (memory c') q = seq_positions (memory c) q + (if ret = 0 then row_positions q rows else {#}))"
proof -
  have "rows_ok pr rows" using assms(5) by (simp add: rows_in_def)
  from decode_view_total [OF assms(1,4) this assms(6,7), of compute compute_row True] obtain ret c' s1 where d:
    "decode_view compute compute_row True pr rows c = Some (Inr (ret, c'))" "can_decode pr c'"
    "kv_size (memory c') = kv_size (memory c)" "ret \<in> {0, 1}"
    "ret = 1 \<and> length rows = 1 \<longrightarrow> size (kv_content (memory c)) = kv_size (memory c)"
    "kv_content s1 = kv_content (memory c)" "ret \<noteq> 0 \<longrightarrow> kv_content (memory c') = kv_content (memory c)"
    "ret = 0 \<longrightarrow> placed (view_batch rows) [0..<length rows] s1 (memory c')"
    "\<forall>q. seq_positions (memory c') q = seq_positions (memory c) q + (if ret = 0 then row_positions q rows else {#})"
    using assms(3) by auto
  have "row_seqs (view_batch rows) j = {fst (snd (snd (rows ! j)))}" if "j < length rows" for j
    using that by (auto simp: view_batch_def row_seqs_def case_prod_unfold)
  moreover have "\<exists>q < n. fst (snd (snd (rows ! j))) = int q" if "j < length rows" for j
    using assms(5) that by (cases "rows ! j") (auto simp: rows_in_def list_all_length intro!: exI [of _ "nat (fst (snd (snd (rows ! j))))"])
  ultimately have seqs: "\<forall>j \<in> set [0..<length rows]. \<exists>q < n. row_seqs (view_batch rows) j = {int q}" by simp
  have own1: "owned s1 n" using assms(2) d(6) by (simp add: owned_def)
  have "owned (memory c') n"
  proof (cases "ret = 0")
    case True
    then show ?thesis using owned_placed [OF own1 _ seqs] d(8) by simp
  qed (use d(7) assms(2) in \<open>simp add: owned_def\<close>)
  then show ?thesis using d(1-5,9) by blast
qed

section \<open>Slots in step with the cache\<close>

text \<open>
  What holds of slot \<open>k\<close> in each of its states; \<open>nv\<close> is the size of the vocabulary. Slots run completions with the
  default \<open>n_discard\<close> (for other values see \<open>context_shift_discard\<close>).
\<close>

definition request_ok :: "server_slot \<Rightarrow> bool" where
  "request_ok sl \<longleftrightarrow> \<not> is_non_causal sl \<and> n_discard (s_params sl) = 0"

definition keep_ok :: "server_slot \<Rightarrow> bool" where
  "keep_ok sl \<longleftrightarrow> 0 \<le> n_keep (s_params sl) \<and> n_keep (s_params sl) \<le> s_n_ctx sl - 4"

definition slot_ok :: "int \<Rightarrow> nat \<Rightarrow> server_slot \<Rightarrow> bool" where
  "slot_ok nv k sl \<longleftrightarrow> s_id sl = int k \<and> 4 \<le> s_n_ctx sl \<and> s_n_ctx sl < int32_max \<and>
     (case s_state sl of
        SLOT_STATE_IDLE \<Rightarrow> True
      | SLOT_STATE_STARTED \<Rightarrow> request_ok sl \<and> n_past sl = 0 \<and> validate_tokens nv (prompt_tokens sl)
      | SLOT_STATE_PROCESSING_PROMPT \<Rightarrow> request_ok sl \<and> keep_ok sl \<and> validate_tokens nv (prompt_tokens sl)
          \<and> n_past sl = int (length (cache_tokens sl)) \<and> cache_tokens sl = take (length (cache_tokens sl)) (prompt_tokens sl)
          \<and> length (cache_tokens sl) < length (prompt_tokens sl)
          \<and> n_prompt_tokens sl = int (length (prompt_tokens sl)) \<and> n_prompt_tokens sl < s_n_ctx sl
      | SLOT_STATE_DONE_PROMPT \<Rightarrow> request_ok sl \<and> keep_ok sl \<and> n_past sl = int (length (cache_tokens sl))
      | SLOT_STATE_GENERATING \<Rightarrow> request_ok sl \<and> keep_ok sl \<and> n_past sl = int (length (cache_tokens sl))
          \<and> 0 \<le> sampled sl \<and> sampled sl < nv)"

text \<open>
  A slot is in step when the positions of its sequence, in the cache and in the rows not decoded
  yet, are those of the tokens it remembers; a slot that does not process may have forgotten some.
\<close>

definition in_step :: "kv_cache \<Rightarrow> batch_row list \<Rightarrow> server_slot \<Rightarrow> bool" where
  "in_step kv rows sl \<longleftrightarrow>
     (\<exists>n. seq_positions kv (s_id sl) + row_positions (s_id sl) rows = positions n \<and> length (cache_tokens sl) \<le> n
        \<and> int n < s_n_ctx sl \<and> (s_state sl \<notin> {SLOT_STATE_IDLE, SLOT_STATE_STARTED} \<longrightarrow> n = length (cache_tokens sl)))"

definition server_sync :: "decode_params \<Rightarrow> batch_row list \<Rightarrow> 'o server_context \<Rightarrow> bool" where
  "server_sync pr rows st \<longleftrightarrow> can_decode pr (ctx st) \<and> owned (memory (ctx st)) (length (slots st))
     \<and> sum_list (map s_n_ctx (slots st)) \<le> int (kv_size (memory (ctx st)))
     \<and> (\<forall>k < length (slots st). slot_ok (int (n_vocab pr)) k (slots st ! k) \<and> in_step (memory (ctx st)) rows (slots st ! k))"

text \<open>The rows of the batch are tokens their slots remember at these positions.\<close>

definition rows_match :: "decode_params \<Rightarrow> 'o server_context \<Rightarrow> bool" where
  "rows_match pr st \<longleftrightarrow> (\<forall>(t, p, q) \<in> set (batch_tokens (batch st)).
     0 \<le> q \<and> q < int (length (slots st)) \<and> 0 \<le> p \<and> p < int (length (cache_tokens (slots st ! nat q)))
     \<and> t = cache_tokens (slots st ! nat q) ! nat p \<and> 0 \<le> t \<and> t < int (n_vocab pr))"

lemma rows_match_in: "rows_match pr st \<Longrightarrow> rows_in pr (length (slots st)) (batch st)"
  by (force simp: rows_match_def rows_in_def rows_ok_def list_all_iff batch_tokens_def)

lemma row_positions_tokens: "row_positions q b = mset (map (\<lambda>(t, p, s). p) (filter (\<lambda>(t, p, s). s = q) (batch_tokens b)))"
  by (induction b) (auto simp: row_positions_def batch_tokens_def)

lemma settled_frame: "settled kv \<Longrightarrow> kv_frame kv kv' \<Longrightarrow> kv_inv kv' \<Longrightarrow> settled kv'"
  by (simp add: settled_def kv_frame_def)

lemma sum_list_same: "k < length xs \<Longrightarrow> f y = f (xs ! k) \<Longrightarrow> sum_list (map f (xs[k := y])) = sum_list (map f xs)"
proof -
  assume "k < length xs" "f y = f (xs ! k)"
  then have "map f (xs[k := y]) = map f xs" by (intro nth_equalityI) (simp_all add: nth_list_update)
  then show ?thesis by simp
qed

text \<open>A step of the server that changes one slot and its sequence.\<close>

lemma server_sync_set:
  assumes "server_sync pr rows st" "k < length (slots st)"
    and "slots st' = (slots st)[k := sl]" "ctx st' = (ctx st)\<lparr>memory := kv\<rparr>"
    and "changes_only (int k) (memory (ctx st)) kv" "slot_ok (int (n_vocab pr)) k sl" "in_step kv rows' sl"
    and "s_n_ctx sl = s_n_ctx (slots st ! k)" "\<And>q. q \<noteq> int k \<Longrightarrow> row_positions q rows' = row_positions q rows"
  shows "server_sync pr rows' st'"
proof -
  let ?kv0 = "memory (ctx st)" and ?n = "length (slots st)"
  have s: "can_decode pr (ctx st)" "owned ?kv0 ?n" "sum_list (map s_n_ctx (slots st)) \<le> int (kv_size ?kv0)"
    and sl: "\<And>j. j < ?n \<Longrightarrow> slot_ok (int (n_vocab pr)) j (slots st ! j) \<and> in_step ?kv0 rows (slots st ! j)"
    using assms(1) by (simp_all add: server_sync_def)
  have c: "kv_inv kv" "kv_frame ?kv0 kv" "\<And>r. r \<noteq> int k \<Longrightarrow> occ kv r = occ ?kv0 r" using assms(5) by (simp_all add: changes_only_def)
  have "can_decode pr (ctx st')"
    using s(1) c(1,2) settled_frame [of ?kv0 kv] by (simp add: can_decode_def assms(4) kv_frame_def)
  moreover have "owned (memory (ctx st')) (length (slots st'))"
    using owned_changes [OF s(2) assms(5,2)] by (simp add: assms(3,4))
  moreover have "sum_list (map s_n_ctx (slots st')) \<le> int (kv_size (memory (ctx st')))"
    using s(3) c(2) sum_list_same [OF assms(2,8)] by (simp add: assms(3,4) kv_frame_def)
  moreover have "slot_ok (int (n_vocab pr)) j (slots st' ! j) \<and> in_step (memory (ctx st')) rows' (slots st' ! j)"
    if "j < length (slots st')" for j
  proof (cases "j = k")
    case False
    then have "int j \<noteq> int k" "s_id (slots st ! j) = int j" using sl [of j] that by (simp_all add: assms(3) slot_ok_def)
    then show ?thesis
      using sl [of j] that False c(3) assms(9) by (auto simp: assms(3,4) in_step_def seq_positions_occ)
  qed (use assms in simp)
  ultimately show ?thesis by (simp add: server_sync_def)
qed

lemma changes_only_same: "server_sync pr rows st \<Longrightarrow> changes_only q (memory (ctx st)) (memory (ctx st))"
  using owned_private by (intro changes_only_refl) (auto simp: server_sync_def can_decode_def settled_def)

text \<open>A step that leaves the cache alone.\<close>

lemma server_sync_slot:
  assumes "server_sync pr rows st" "k < length (slots st)" "slots st' = (slots st)[k := sl]" "ctx st' = ctx st"
    and "slot_ok (int (n_vocab pr)) k sl" "s_id sl = s_id (slots st ! k)" "s_n_ctx sl = s_n_ctx (slots st ! k)"
    and "length (cache_tokens sl) \<le> length (cache_tokens (slots st ! k))"
    and "s_state sl \<notin> {SLOT_STATE_IDLE, SLOT_STATE_STARTED} \<Longrightarrow>
      s_state (slots st ! k) \<notin> {SLOT_STATE_IDLE, SLOT_STATE_STARTED} \<and> length (cache_tokens sl) = length (cache_tokens (slots st ! k))"
  shows "server_sync pr rows st'"
proof (rule server_sync_set [OF assms(1-3) _ changes_only_same [OF assms(1)] assms(5)])
  have "in_step (memory (ctx st)) rows (slots st ! k)" using assms(1,2) by (simp add: server_sync_def)
  then show "in_step (memory (ctx st)) rows sl" using assms(6-9) unfolding in_step_def by fastforce
qed (use assms in simp_all)

lemma server_sync_same: "server_sync pr rows st \<Longrightarrow> slots st' = slots st \<Longrightarrow> ctx st' = ctx st \<Longrightarrow> server_sync pr rows st'"
  by (simp add: server_sync_def)

lemma slot_ok_idle: "slot_ok nv k sl \<Longrightarrow> slot_ok nv k (sl\<lparr>t_last_used := now, s_state := SLOT_STATE_IDLE\<rparr>)"
  by (simp add: slot_ok_def)

lemma release_sync:
  assumes "server_sync pr rows st" "k < length (slots st)"
  shows "server_sync pr rows (release now k st)"
proof (cases "is_processing (slots st ! k)")
  case True
  have "slot_ok (int (n_vocab pr)) k (slots st ! k)" using assms by (simp add: server_sync_def)
  then show ?thesis
    using True slot_ok_idle
    by (intro server_sync_slot [OF assms, where sl = "(slots st ! k)\<lparr>t_last_used := now, s_state := SLOT_STATE_IDLE\<rparr>"])
      (simp_all add: release_def)
qed (use assms in \<open>simp add: release_def\<close>)

section \<open>Building the batch\<close>

definition cfg_ok :: "decode_params \<Rightarrow> server_params \<Rightarrow> bool" where
  "cfg_ok pr cfg \<longleftrightarrow> 0 < sp_n_batch cfg \<and> nat (sp_n_batch cfg) \<le> n_batch pr \<and> (causal_attn pr \<or> nat (sp_n_batch cfg) \<le> n_ubatch pr)
     \<and> add_bos_token cfg \<in> {0, 1} \<and> vocab_size cfg = int (n_vocab pr)"

text \<open>What no part of \<open>update_slots\<close> changes after it has posted its task.\<close>

definition keeps :: "'o server_context \<Rightarrow> 'o server_context \<Rightarrow> bool" where
  "keeps st st' \<longleftrightarrow> length (slots st') = length (slots st) \<and> clean_kv_cache st' = clean_kv_cache st
     \<and> q_id (queue st') = q_id (queue st)"

lemma keeps_refl [simp]: "keeps st st"
  by (simp add: keeps_def)

lemma keeps_trans: "keeps st st' \<Longrightarrow> keeps st' st'' \<Longrightarrow> keeps st st''"
  by (simp add: keeps_def)

lemma keeps_simps [simp]:
  "keeps st (upd_slot k f st') \<longleftrightarrow> keeps st st'" "keeps st (upd_kv g st') \<longleftrightarrow> keeps st st'"
  "keeps st (send_result r st') \<longleftrightarrow> keeps st st'" "keeps st (send_error i msg ty st') \<longleftrightarrow> keeps st st'"
  "keeps st (st'\<lparr>batch := b\<rparr>) \<longleftrightarrow> keeps st st'" "keeps st (st'\<lparr>ctx := c\<rparr>) \<longleftrightarrow> keeps st st'"
  "keeps st (set_parts k sl kv b st') \<longleftrightarrow> keeps st st'"
  by (simp_all add: keeps_def upd_slot_def upd_kv_def send_result_def send_error_def set_parts_def)

lemma keeps_pop [simp]: "keeps st (upd_queue pop_deferred_task st') \<longleftrightarrow> keeps st st'"
  by (auto simp: keeps_def upd_queue_def pop_deferred_task_def split: list.split)

lemma keeps_release [simp]: "keeps st (release now k st') \<longleftrightarrow> keeps st st'"
  by (simp add: release_def)

lemma release_slots: "j \<noteq> k \<Longrightarrow> slots (release now k st) ! j = slots st ! j"
  "k < length (slots st) \<Longrightarrow> s_state (slots (release now k st) ! k) = SLOT_STATE_IDLE"
  by (simp_all add: release_def is_processing_def)

text \<open>A slot that generates has room for its next token.\<close>

definition room :: "server_slot \<Rightarrow> bool" where
  "room sl \<longleftrightarrow> (s_state sl = SLOT_STATE_GENERATING \<longrightarrow> n_past sl + 1 < s_n_ctx sl)"

lemma row_positions_no_rows: "in_step kv [] sl \<longleftrightarrow> (\<exists>n. seq_positions kv (s_id sl) = positions n \<and> length (cache_tokens sl) \<le> n
        \<and> int n < s_n_ctx sl \<and> (s_state sl \<notin> {SLOT_STATE_IDLE, SLOT_STATE_STARTED} \<longrightarrow> n = length (cache_tokens sl)))"
  by (simp add: in_step_def)

lemma context_shift_sync:
  assumes sync: "server_sync pr [] st" and k: "k < length (slots st)" and cfg: "cfg_ok pr cfg"
  shows "\<exists>st'. context_shift cfg now k st = Inr st' \<and> server_sync pr [] st' \<and> keeps st st' \<and> room (slots st' ! k)
    \<and> s_state (slots st' ! k) \<in> {SLOT_STATE_IDLE, s_state (slots st ! k)} \<and> (\<forall>j. j \<noteq> k \<longrightarrow> slots st' ! j = slots st ! j)"
proof -
  let ?sl = "slots st ! k" and ?kv = "memory (ctx st)"
  have ok: "slot_ok (int (n_vocab pr)) k ?sl" "in_step ?kv [] ?sl" using sync k by (simp_all add: server_sync_def)
  consider (none) "\<not> (is_processing ?sl \<and> n_past ?sl + 1 \<ge> s_n_ctx ?sl)"
    | (error) "is_processing ?sl" "n_past ?sl + 1 \<ge> s_n_ctx ?sl" "\<not> ctx_shift cfg"
    | (shift) "is_processing ?sl" "n_past ?sl + 1 \<ge> s_n_ctx ?sl" "ctx_shift cfg" by blast
  then show ?thesis
  proof cases
    case none
    then show ?thesis using sync by (intro exI [of _ st]) (auto simp: context_shift_def Let_def room_def is_processing_def)
  next
    case error
    let ?st' = "send_error (id_task ?sl) ''context shift is disabled'' ERROR_TYPE_SERVER (release now k st)"
    have "server_sync pr [] ?st'" by (rule server_sync_same [OF release_sync [OF sync k, of now]]) simp_all
    then show ?thesis
      using error k by (intro exI [of _ ?st']) (simp add: context_shift_def Let_def room_def release_slots)
  next
    case shift
    then have state: "s_state ?sl \<in> {SLOT_STATE_DONE_PROMPT, SLOT_STATE_GENERATING}"
      using ok(1) by (auto simp: slot_ok_def is_processing_def split: slot_state.splits)
    then have sl: "s_id ?sl = int k" "4 \<le> s_n_ctx ?sl" "n_discard (s_params ?sl) = 0" "keep_ok ?sl"
      "n_past ?sl = int (length (cache_tokens ?sl))"
      using ok(1) by (auto simp: slot_ok_def request_ok_def)
    have pos: "seq_positions ?kv (int k) = positions (length (cache_tokens ?sl))" "int (length (cache_tokens ?sl)) < s_n_ctx ?sl"
      using ok(2) state sl(1) by (auto simp: row_positions_no_rows)
    obtain val where h: "holds_tokens val ?kv (s_id ?sl) (cache_tokens ?sl)"
      using filled_holds [OF pos(1)] cached_holds sl(1) by fastforce
    have kv: "kv_inv ?kv" "private_seq ?kv (s_id ?sl)" "0 \<le> s_id ?sl"
      using sync owned_private sl(1) by (auto simp: server_sync_def can_decode_def settled_def)
    have bos: "add_bos_token cfg \<in> {0, 1}" using cfg by (simp add: cfg_ok_def)
    have disc: "0 \<le> n_discard (s_params ?sl)" "n_discard (s_params ?sl) \<le> n_past ?sl - n_keep (s_params ?sl) - add_bos_token cfg"
      using sl shift(2) bos by (auto simp: keep_ok_def)
    have keep: "0 \<le> n_keep (s_params ?sl)" "n_keep (s_params ?sl) \<le> s_n_ctx ?sl - 4" using sl(4) by (simp_all add: keep_ok_def)
    from context_shift_result [OF k shift(1,2,3) kv h sl(5) keep bos disc, of now]
    obtain m d kv' where r: "context_shift cfg now k st = Inr (set_parts k (?sl\<lparr>cache_tokens := take m (cache_tokens ?sl) @ drop (m + d) (cache_tokens ?sl),
          n_past := n_past ?sl - int d, truncated := True\<rparr>) kv' (batch st) st)"
      "0 < d" "m + d \<le> length (cache_tokens ?sl)" "holds_tokens val kv' (s_id ?sl) (take m (cache_tokens ?sl) @ drop (m + d) (cache_tokens ?sl))"
      "changes_only (s_id ?sl) ?kv kv'" by blast
    let ?sl' = "?sl\<lparr>cache_tokens := take m (cache_tokens ?sl) @ drop (m + d) (cache_tokens ?sl), n_past := n_past ?sl - int d, truncated := True\<rparr>"
    let ?st' = "set_parts k ?sl' kv' (batch st) st"
    have len: "int (length (cache_tokens ?sl')) = n_past ?sl - int d" using r(3) sl(5) by simp
    have "server_sync pr [] ?st'"
    proof (rule server_sync_set [OF sync k])
      show "slot_ok (int (n_vocab pr)) k ?sl'"
        using ok(1) state len by (auto simp: slot_ok_def request_ok_def keep_ok_def is_non_causal_def)
      show "in_step kv' [] ?sl'"
        unfolding row_positions_no_rows using holds_filled [OF r(4)] len pos(2) sl(5)
        by (intro exI [of _ "length (cache_tokens ?sl')"] conjI) simp_all
    qed (use r(5) sl(1) in \<open>simp_all add: set_parts_def upd_kv_def\<close>)
    moreover have "room ?sl'" using len pos(2) r(2) sl(5) by (simp add: room_def)
    ultimately show ?thesis using r(1) k by (intro exI [of _ ?st']) simp
  qed
qed

lemma for_slots_inv:
  assumes "P 0 s" "\<And>k s. k < n \<Longrightarrow> P k s \<Longrightarrow> \<exists>s'. body k s = Inr s' \<and> P (Suc k) s'"
  shows "\<exists>s'. for_slots body [0..<n] s = Inr s' \<and> P n s'"
proof -
  have app: "for_slots body (xs @ ys) s = bind_res (for_slots body xs s) (for_slots body ys)" for xs ys s
    by (induction xs arbitrary: s) (auto split: sum.split simp: bind_res_def)
  have "\<exists>s'. for_slots body [0..<m] s = Inr s' \<and> P m s'" if "m \<le> n" for m
    using that
  proof (induction m)
    case (Suc m)
    then obtain s1 where "for_slots body [0..<m] s = Inr s1" "P m s1" by auto
    then show ?case using assms(2) [of m s1] Suc.prems by (auto simp: app)
  qed (use assms(1) in simp)
  then show ?thesis by simp
qed

lemma batch_tokens_row [simp]: "batch_tokens [(t, p, q, l)] = [(t, p, q)]"
  by (simp add: batch_tokens_def)

text \<open>Rows are added for slot \<open>k\<close>, whose remembered tokens may change as long as it has no rows yet.\<close>

lemma rows_match_add:
  assumes "rows_match pr st" "batch_tokens (batch st') = batch_tokens (batch st) @ rows" "length (slots st') = length (slots st)"
    and "\<And>j. j \<noteq> k \<Longrightarrow> slots st' ! j = slots st ! j" "row_positions (int k) (batch st) = {#}" "k < length (slots st)"
    and "\<And>t p q. (t, p, q) \<in> set rows \<Longrightarrow> q = int k \<and> 0 \<le> p \<and> p < int (length (cache_tokens (slots st' ! k)))
      \<and> t = cache_tokens (slots st' ! k) ! nat p \<and> 0 \<le> t \<and> t < int (n_vocab pr)"
  shows "rows_match pr st'"
proof -
  have "q \<noteq> int k" if "(t, p, q) \<in> set (batch_tokens (batch st))" for t p q
    using assms(5) that by (auto simp: row_positions_tokens filter_empty_conv)
  then have "slots st' ! nat q = slots st ! nat q" if "(t, p, q) \<in> set (batch_tokens (batch st))" "0 \<le> q" for t p q
    using assms(4) [of "nat q"] that by (metis int_nat_eq)
  then show ?thesis
    using assms(1,3,6,7) unfolding rows_match_def assms(2) by fastforce
qed

lemma row_positions_add:
  assumes "batch_tokens b' = batch_tokens b @ rows" "\<And>t p s. (t, p, s) \<in> set rows \<Longrightarrow> s = q"
  shows "row_positions r b' = row_positions r b + (if r = q then mset (map (\<lambda>(t, p, s). p) rows) else {#})"
proof -
  have "filter (\<lambda>(t, p, s). s = r) rows = (if r = q then rows else [])"
    using assms(2) by (auto simp: filter_id_conv filter_empty_conv)
  then show ?thesis by (simp add: row_positions_tokens assms(1))
qed

lemma add_sampled_sync:
  assumes sync: "server_sync pr (batch st) st" and m: "rows_match pr st" and k: "k < length (slots st)"
    and room: "room (slots st ! k)" "row_positions (int k) (batch st) = {#}" "length (batch st) < batch_cap cfg st"
  shows "\<exists>sb' st'. add_sampled cfg k (sb, st) = Inr (sb', st') \<and> server_sync pr (batch st') st' \<and> rows_match pr st' \<and> keeps st st'
    \<and> length (batch st') \<le> Suc (length (batch st)) \<and> (\<forall>j. j \<noteq> k \<longrightarrow> slots st' ! j = slots st ! j)
    \<and> s_state (slots st' ! k) = s_state (slots st ! k) \<and> (\<forall>q. q \<noteq> int k \<longrightarrow> row_positions q (batch st') = row_positions q (batch st))
    \<and> (s_state (slots st ! k) \<noteq> SLOT_STATE_GENERATING \<longrightarrow> row_positions (int k) (batch st') = {#})"
proof -
  let ?sl = "slots st ! k" and ?kv = "memory (ctx st)"
  have ok: "slot_ok (int (n_vocab pr)) k ?sl" "in_step ?kv (batch st) ?sl" using sync k by (simp_all add: server_sync_def)
  show ?thesis
  proof (cases "s_state ?sl = SLOT_STATE_GENERATING \<and> \<not> (sb \<noteq> None \<and> \<not> can_batch_with (slots st ! the sb) ?sl)")
    case False
    then show ?thesis using sync m room(2) by (intro exI [of _ sb] exI [of _ st]) (auto simp: add_sampled_def Let_def)
  next
    case True
    then have sl: "s_id ?sl = int k" "n_past ?sl = int (length (cache_tokens ?sl))" "0 \<le> sampled ?sl" "sampled ?sl < int (n_vocab pr)"
      using ok(1) by (auto simp: slot_ok_def)
    let ?row = "(sampled ?sl, n_past ?sl, s_id ?sl, True)" and ?sb = "if sb = None then Some k else sb"
    let ?sl' = "?sl\<lparr>i_batch := int (length (batch st)), n_past := n_past ?sl + 1, cache_tokens := cache_tokens ?sl @ [sampled ?sl]\<rparr>"
    let ?st' = "(upd_slot k (\<lambda>_. ?sl') st)\<lparr>batch := batch st @ [?row]\<rparr>"
    have tok: "batch_tokens (batch ?st') = batch_tokens (batch st) @ [(sampled ?sl, n_past ?sl, int k)]" using sl(1) by simp
    have rows: "row_positions q (batch ?st') = row_positions q (batch st) + (if q = int k then {#n_past ?sl#} else {#})" for q
      using row_positions_add [OF tok, of "int k" q] by auto
    have run: "add_sampled cfg k (sb, st) = Inr (?sb, ?st')"
      using True sl(3) room(3) by (auto simp: add_sampled_def common_batch_add_def upd_slot_def Let_def)
    have "seq_positions ?kv (int k) + row_positions (int k) (batch ?st') = positions (Suc (length (cache_tokens ?sl)))"
      using ok(2) True sl(1,2) room(2) rows [of "int k"] positions_append [of "length (cache_tokens ?sl)" 1] by (auto simp: in_step_def)
    then have step: "in_step ?kv (batch ?st') ?sl'"
      using True room(1) sl(1,2) by (auto simp: in_step_def room_def)
    have ok': "slot_ok (int (n_vocab pr)) k ?sl'"
      using ok(1) True by (auto simp: slot_ok_def request_ok_def keep_ok_def is_non_causal_def)
    have "server_sync pr (batch ?st') ?st'"
      by (rule server_sync_set [OF sync k _ _ changes_only_same [OF sync] ok' step]) (use rows in simp_all)
    moreover have "rows_match pr ?st'"
      by (rule rows_match_add [OF m tok _ _ room(2) k]) (use k sl in \<open>auto simp: nth_append\<close>)
    ultimately show ?thesis
      using True run rows k by (intro exI [of _ ?sb] exI [of _ ?st']) simp
  qed
qed

text \<open>The prompt of slot \<open>k\<close> is started or continued.\<close>

lemma prompt_outcome_sync:
  fixes st :: "'o server_context"
  assumes sync: "server_sync pr (batch st) st" and m: "rows_match pr st" and k: "k < length (slots st)"
    and none: "row_positions (int k) (batch st) = {#}" and cfg: "cfg_ok pr cfg"
    and req: "request_ok (slots st ! k)" "validate_tokens (int (n_vocab pr)) (prompt_tokens (slots st ! k))"
    and out: "prompt_outcome val cfg k st sl' kv' b' m0 n"
  defines "st' \<equiv> set_parts k sl' kv' b' st"
  shows "server_sync pr (batch st') st' \<and> rows_match pr st' \<and> length (batch st) \<le> length (batch st')
    \<and> (s_state sl' = SLOT_STATE_DONE_PROMPT \<longrightarrow> 0 \<le> i_batch sl' \<and> i_batch sl' < int (length (batch st')))
    \<and> s_state sl' \<in> {SLOT_STATE_DONE_PROMPT, SLOT_STATE_PROCESSING_PROMPT}
    \<and> (\<forall>q. q \<noteq> int k \<longrightarrow> row_positions q (batch st') = row_positions q (batch st))"
proof -
  let ?sl = "slots st ! k" and ?kv = "memory (ctx st)" and ?pt = "prompt_tokens sl'"
  let ?rows = "map (\<lambda>j. (?pt ! (m0 + j), int (m0 + j), int k)) [0..<n]"
  have ok: "slot_ok (int (n_vocab pr)) k ?sl" using sync k by (simp add: server_sync_def)
  then have id: "s_id ?sl = int k" by (simp add: slot_ok_def)
  have o: "m0 + n \<le> length ?pt" "cache_tokens sl' = take (m0 + n) ?pt" "n_past sl' = int (m0 + n)"
    "holds_tokens val kv' (int k) (take m0 ?pt)" "changes_only (int k) ?kv kv'" "batch_tokens b' = batch_tokens (batch st) @ ?rows"
    "same_request ?sl sl'" "0 \<le> n_keep (s_params sl')" "n_keep (s_params sl') \<le> s_n_ctx ?sl - 4"
    "n_prompt_tokens sl' = int (length ?pt)" "set ?pt \<subseteq> set (prompt_tokens ?sl)" "int (length ?pt) < s_n_ctx ?sl"
    and fin: "m0 + n = length ?pt \<and> s_state sl' = SLOT_STATE_DONE_PROMPT \<and> i_batch sl' = int (length b') - 1 \<and> 0 < n
         \<or> m0 + n < length ?pt \<and> s_state sl' = SLOT_STATE_PROCESSING_PROMPT"
    using out id by (auto simp: prompt_outcome_def Let_def)
  have tok: "batch_tokens (batch st') = batch_tokens (batch st) @ ?rows" using o(6) by (simp add: st'_def)
  have len: "length b' = length (batch st) + n"
    using arg_cong [OF o(6), of length] by (simp add: batch_tokens_def)
  have lc: "length (cache_tokens sl') = m0 + n" using o(1,2) by simp
  have valid: "\<forall>t \<in> set ?pt. 0 \<le> t \<and> t < int (n_vocab pr)" using req(2) o(11) by (auto simp: validate_tokens_def list_all_iff)
  have rows: "row_positions q (batch st') = row_positions q (batch st) + (if q = int k then mset (map (\<lambda>j. int (m0 + j)) [0..<n]) else {#})" for q
  proof -
    have "\<And>t p s. (t, p, s) \<in> set ?rows \<Longrightarrow> s = int k" by auto
    from row_positions_add [OF tok this, where r = q] show ?thesis by (simp add: o_def)
  qed
  have "seq_positions kv' (int k) = positions m0" using holds_filled [OF o(4)] o(1) by simp
  then have "seq_positions kv' (int k) + row_positions (int k) (batch st') = positions (m0 + n)"
    using rows [of "int k"] none positions_append [of m0 n] by simp
  then have step: "in_step kv' (batch st') sl'"
    using o(1,7,12) id lc unfolding in_step_def by (intro exI [of _ "m0 + n"]) (simp add: same_request_def)
  have ok': "slot_ok (int (n_vocab pr)) k sl'"
    using ok o(2,3,7-10,12) fin lc valid req(1)
    by (auto simp: slot_ok_def same_request_def request_ok_def keep_ok_def is_non_causal_def validate_tokens_def list_all_iff)
  have "server_sync pr (batch st') st'"
    by (rule server_sync_set [OF sync k _ _ o(5) ok' step]) (use o(7) rows in \<open>simp_all add: st'_def set_parts_def upd_kv_def same_request_def\<close>)
  moreover have "rows_match pr st'"
  proof (rule rows_match_add [OF m tok _ _ none k])
    fix t p q assume "(t, p, q) \<in> set ?rows"
    then obtain j where "j < n" "t = ?pt ! (m0 + j)" "p = int (m0 + j)" "q = int k" by auto
    then show "q = int k \<and> 0 \<le> p \<and> p < int (length (cache_tokens (slots st' ! k))) \<and> t = cache_tokens (slots st' ! k) ! nat p
        \<and> 0 \<le> t \<and> t < int (n_vocab pr)"
      using k o(1,2) valid by (simp add: st'_def nat_int_add)
  qed (simp_all add: st'_def)
  ultimately show ?thesis using fin len rows by (auto simp: st'_def)
qed

text \<open>Which slots have to have no rows before their prompt is looked at.\<close>

definition in_prompt :: "server_slot \<Rightarrow> bool" where
  "in_prompt sl \<longleftrightarrow> s_state sl \<in> {SLOT_STATE_STARTED, SLOT_STATE_PROCESSING_PROMPT}"

definition done_rows :: "nat \<Rightarrow> 'o server_context \<Rightarrow> bool" where
  "done_rows i st \<longleftrightarrow> (\<forall>sl \<in> set (slots st). s_state sl = SLOT_STATE_DONE_PROMPT \<longrightarrow>
     int i \<le> i_batch sl \<and> i_batch sl < int (length (batch st)))"

text \<open>A slot that becomes idle.\<close>

lemma idle_sync:
  assumes sync: "server_sync pr rows st" and k: "k < length (slots st)"
    and st': "slots st' = (slots st)[k := sl]" "ctx st' = ctx st" "batch st' = batch st"
    and sl: "s_state sl = SLOT_STATE_IDLE" "s_id sl = s_id (slots st ! k)" "s_n_ctx sl = s_n_ctx (slots st ! k)"
      "cache_tokens sl = cache_tokens (slots st ! k)"
  shows "server_sync pr rows st' \<and> (rows_match pr st \<longrightarrow> rows_match pr st') \<and> (done_rows i st \<longrightarrow> done_rows i st')"
proof -
  have "slot_ok (int (n_vocab pr)) k (slots st ! k)" using sync k by (simp add: server_sync_def)
  then have "slot_ok (int (n_vocab pr)) k sl" using sl by (simp add: slot_ok_def)
  then have "server_sync pr rows st'" using sl by (intro server_sync_slot [OF sync k st'(1,2)]) simp_all
  moreover have "cache_tokens (slots st' ! j) = cache_tokens (slots st ! j)" for j
    using sl(4) k by (cases "j = k") (simp_all add: st'(1))
  then have "rows_match pr st \<longrightarrow> rows_match pr st'" unfolding rows_match_def st'(3) by (simp add: st'(1))
  moreover have "done_rows i st \<longrightarrow> done_rows i st'"
    using sl(1) by (auto simp: done_rows_def st'(1,3) dest!: set_update_subset_insert [THEN subsetD])
  ultimately show ?thesis by blast
qed

lemma process_prompt_sync:
  fixes st :: "'o server_context"
  assumes sync: "server_sync pr (batch st) st" and m: "rows_match pr st" and k: "k < length (slots st)"
    and none: "in_prompt (slots st ! k) \<longrightarrow> row_positions (int k) (batch st) = {#}" and cfg: "cfg_ok pr cfg" and d: "done_rows 0 st"
  shows "\<exists>go st'. process_prompt cfg now k st = Inr (go, st') \<and> server_sync pr (batch st') st' \<and> rows_match pr st' \<and> keeps st st'
    \<and> done_rows 0 st' \<and> (\<forall>j. j \<noteq> k \<longrightarrow> slots st' ! j = slots st ! j)
    \<and> (\<forall>q. q \<noteq> int k \<longrightarrow> row_positions q (batch st') = row_positions q (batch st))"
proof -
  let ?sl = "slots st ! k" and ?kv = "memory (ctx st)"
  have ok: "slot_ok (int (n_vocab pr)) k ?sl" "in_step ?kv (batch st) ?sl" using sync k by (simp_all add: server_sync_def)
  have kv: "kv_inv ?kv" "private_seq ?kv (s_id ?sl)"
    using sync owned_private by (auto simp: server_sync_def can_decode_def settled_def)
  have outcome: ?thesis
    if run: "process_prompt cfg now k st = Inr (True, set_parts k sl' kv' b' st)" "prompt_outcome val cfg k st sl' kv' b' m0 n"
      and req: "request_ok ?sl" "validate_tokens (int (n_vocab pr)) (prompt_tokens ?sl)" "in_prompt ?sl" for sl' kv' b' val m0 n
  proof -
    note o = prompt_outcome_sync [OF sync m k none [rule_format, OF req(3)] cfg req(1,2) run(2)]
    have "done_rows 0 (set_parts k sl' kv' b' st)"
      using o d unfolding done_rows_def by (fastforce dest!: set_update_subset_insert [THEN subsetD])
    then show ?thesis using o run(1) k by (intro exI [of _ True] exI [of _ "set_parts k sl' kv' b' st"]) simp
  qed
  have idle: ?thesis
    if run: "process_prompt cfg now k st = Inr (False, st')" "slots st' = (slots st)[k := sl]" "ctx st' = ctx st" "batch st' = batch st" "keeps st st'"
      and sl: "s_state sl = SLOT_STATE_IDLE" "s_id sl = s_id ?sl" "s_n_ctx sl = s_n_ctx ?sl" "cache_tokens sl = cache_tokens ?sl" for st' sl
    using idle_sync [OF sync k run(2-4) sl] m d run by (intro exI [of _ False] exI [of _ st']) simp
  show ?thesis
  proof (cases "s_state ?sl")
    case SLOT_STATE_STARTED
    then have st: "request_ok ?sl" "n_past ?sl = 0" "validate_tokens (int (n_vocab pr)) (prompt_tokens ?sl)" "4 \<le> s_n_ctx ?sl"
      "s_n_ctx ?sl < int32_max" "in_prompt ?sl" "s_id ?sl = int k"
      using ok(1) by (simp_all add: slot_ok_def in_prompt_def)
    let ?st0 = "upd_slot k (\<lambda>sl. sl\<lparr>t_start_generation := 0, n_past := 0, n_prompt_tokens := int (length (prompt_tokens sl)),
                 s_state := SLOT_STATE_PROCESSING_PROMPT\<rparr>) st"
    let ?sl0 = "?sl\<lparr>t_start_generation := 0, n_past := 0, n_prompt_tokens := int (length (prompt_tokens ?sl)), s_state := SLOT_STATE_PROCESSING_PROMPT\<rparr>"
    have causal: "\<not> is_non_causal ?sl" "\<not> is_non_causal ?sl0" using st(1) by (simp_all add: request_ok_def is_non_causal_def)
    consider (empty) "prompt_tokens ?sl = []" | (refused) msg ty where "prompt_tokens ?sl \<noteq> []" "refuse_prompt cfg ?sl0 = Some (msg, ty)"
      | (start) "prompt_tokens ?sl \<noteq> []" "refuse_prompt cfg ?sl0 = None" by (cases "refuse_prompt cfg ?sl0") auto
    then show ?thesis
    proof cases
      case empty
      then show ?thesis
        using k SLOT_STATE_STARTED
        by (intro idle [where st' = "send_final_response k (release now k ?st0)"
              and sl = "?sl0\<lparr>t_last_used := now, s_state := SLOT_STATE_IDLE, generated_text := '''', generated_tokens := []\<rparr>"])
          (auto simp: process_prompt_def start_prompt_def send_final_response_def release_def is_processing_def Let_def)
    next
      case refused
      then show ?thesis
        using k SLOT_STATE_STARTED
        by (intro idle [where st' = "release_error now k msg ty ?st0" and sl = "?sl0\<lparr>t_last_used := now, s_state := SLOT_STATE_IDLE\<rparr>"])
          (auto simp: process_prompt_def start_prompt_def release_error_def release_def is_processing_def Let_def)
    next
      case start
      obtain n where n: "seq_positions ?kv (int k) = positions n" "length (cache_tokens ?sl) \<le> n" "int n < s_n_ctx ?sl"
        using ok(2) none st(6,7) by (auto simp: in_step_def)
      obtain val where "cached val ?kv (s_id ?sl) (cache_tokens ?sl) n" using filled_holds [OF n(1,2)] st(7) by auto
      then have "ready_to_start val n cfg k st"
        using start k st kv causal n(3) SLOT_STATE_STARTED
        by (auto simp: ready_to_start_def Let_def validate_tokens_def list_all_iff refuse_prompt_def is_non_causal_def split: if_splits)
      from prompt_started [OF this, of now] show ?thesis using outcome st(1,3,6) by blast
    qed
  next
    case SLOT_STATE_PROCESSING_PROMPT
    then have st: "request_ok ?sl" "keep_ok ?sl" "validate_tokens (int (n_vocab pr)) (prompt_tokens ?sl)" "s_id ?sl = int k"
      "n_past ?sl = int (length (cache_tokens ?sl))" "cache_tokens ?sl = take (length (cache_tokens ?sl)) (prompt_tokens ?sl)"
      "length (cache_tokens ?sl) < length (prompt_tokens ?sl)" "n_prompt_tokens ?sl = int (length (prompt_tokens ?sl))"
      "int (length (prompt_tokens ?sl)) < s_n_ctx ?sl" "s_n_ctx ?sl < int32_max" "in_prompt ?sl"
      using ok(1) by (auto simp: slot_ok_def in_prompt_def)
    have pos: "seq_positions ?kv (int k) = positions (length (cache_tokens ?sl))"
      using ok(2) none st(4,11) SLOT_STATE_PROCESSING_PROMPT by (auto simp: in_step_def)
    obtain val where val: "cached val ?kv (s_id ?sl) (cache_tokens ?sl) (length (cache_tokens ?sl))"
      using filled_holds [OF pos] st(4) by fastforce
    have "prompt_tokens ?sl ! nat p = cache_tokens ?sl ! nat p" if "0 \<le> p" "p < int (length (cache_tokens ?sl))" for p
      using st(6) that by (metis nat_less_iff nth_take)
    then have held: "prompt_held val ?kv (s_id ?sl) (length (cache_tokens ?sl)) (prompt_tokens ?sl) (cache_tokens ?sl) (length (cache_tokens ?sl))"
      using val st(6,7) by (auto simp: prompt_held_def cached_def)
    have hyp: "\<not> is_non_causal ?sl" "0 \<le> s_id ?sl" "int (length (cache_tokens ?sl)) < int32_max" "\<forall>t \<in> set (prompt_tokens ?sl). t \<noteq> -1"
      "0 \<le> n_keep (s_params ?sl)" "n_keep (s_params ?sl) \<le> s_n_ctx ?sl - 4"
      using st by (auto simp: request_ok_def keep_ok_def validate_tokens_def list_all_iff)
    from prompt_continued [OF k refl hyp(1) kv hyp(2,3) held st(5) order_refl st(7,8) hyp(4) SLOT_STATE_PROCESSING_PROMPT hyp(5,6) st(9), of cfg]
    show ?thesis using outcome st(1,3,11) SLOT_STATE_PROCESSING_PROMPT by (auto simp: process_prompt_def)
  qed (use sync m d in \<open>auto simp: process_prompt_def\<close>)
qed

text \<open>The loop over the prompts.\<close>

lemma add_prompts_sync:
  fixes st :: "'o server_context"
  assumes "server_sync pr (batch st) st" "rows_match pr st" "done_rows 0 st" "cfg_ok pr cfg" "distinct ks" "set ks \<subseteq> {..<length (slots st)}"
    and "\<forall>k \<in> set ks. in_prompt (slots st ! k) \<longrightarrow> row_positions (int k) (batch st) = {#}"
  shows "\<exists>sb' st'. add_prompts cfg now ks (sb, st) = Inr (sb', st') \<and> server_sync pr (batch st') st' \<and> rows_match pr st'
    \<and> done_rows 0 st' \<and> keeps st st'"
  using assms
proof (induction ks arbitrary: sb st)
  case (Cons k ks)
  let ?skip = "is_processing (slots st ! k) \<and> sb \<noteq> None \<and> \<not> can_batch_with (slots st ! the sb) (slots st ! k)"
  let ?sb = "if is_processing (slots st ! k) \<and> sb = None then Some k else sb"
  obtain go st1 where p: "process_prompt cfg now k st = Inr (go, st1)" "server_sync pr (batch st1) st1" "rows_match pr st1" "keeps st st1"
    "done_rows 0 st1" "\<And>j. j \<noteq> k \<Longrightarrow> slots st1 ! j = slots st ! j" "\<And>q. q \<noteq> int k \<Longrightarrow> row_positions q (batch st1) = row_positions q (batch st)"
    using process_prompt_sync [of pr st k cfg now] Cons.prems by auto
  have rest: "\<forall>j \<in> set ks. in_prompt (slots st1 ! j) \<longrightarrow> row_positions (int j) (batch st1) = {#}"
  proof
    fix j assume "j \<in> set ks"
    then have "j \<noteq> k" "int j \<noteq> int k" using Cons.prems(5) by auto
    then show "in_prompt (slots st1 ! j) \<longrightarrow> row_positions (int j) (batch st1) = {#}"
      using p(6,7) Cons.prems(7) \<open>j \<in> set ks\<close> by simp
  qed
  have "set ks \<subseteq> {..<length (slots st1)}" using p(4) Cons.prems(6) by (simp add: keeps_def)
  then obtain sb' st' where IH: "add_prompts cfg now ks (?sb, st1) = Inr (sb', st')" "server_sync pr (batch st') st'" "rows_match pr st'"
    "done_rows 0 st'" "keeps st1 st'"
    using Cons.IH [OF p(2,3,5) Cons.prems(4) _ _ rest, of ?sb] Cons.prems(5) by auto
  show ?case
  proof (cases ?skip)
    case True
    then show ?thesis using Cons.IH [of st sb] Cons.prems by simp
  next
    case False
    then show ?thesis
      using p IH keeps_trans by (auto simp: Let_def)
  qed
qed simp

text \<open>The invariants of the three loops of \<open>build_batch\<close>.\<close>

definition no_done :: "'o server_context \<Rightarrow> bool" where
  "no_done st \<longleftrightarrow> (\<forall>sl \<in> set (slots st). s_state sl \<noteq> SLOT_STATE_DONE_PROMPT)"

lemma no_done_nth: "no_done st \<longleftrightarrow> (\<forall>k < length (slots st). s_state (slots st ! k) \<noteq> SLOT_STATE_DONE_PROMPT)"
  by (simp add: no_done_def all_set_conv_all_nth)

lemma shifts_sync:
  assumes "server_sync pr [] st" "no_done st" "cfg_ok pr cfg"
  shows "\<exists>st'. for_slots (context_shift cfg now) [0..<length (slots st)] st = Inr st' \<and> server_sync pr [] st' \<and> no_done st' \<and> keeps st st'
    \<and> (\<forall>k < length (slots st). room (slots st' ! k))"
proof -
  let ?P = "\<lambda>k s. server_sync pr [] s \<and> no_done s \<and> keeps st s \<and> (\<forall>j < k. room (slots s ! j))"
  have "\<exists>s'. context_shift cfg now k s = Inr s' \<and> ?P (Suc k) s'" if kn: "k < length (slots st)" and P: "?P k s" for k s
  proof -
    have k: "k < length (slots s)" using kn P by (simp add: keeps_def)
    obtain s' where s': "context_shift cfg now k s = Inr s'" "server_sync pr [] s'" "keeps s s'" "room (slots s' ! k)"
      "s_state (slots s' ! k) \<in> {SLOT_STATE_IDLE, s_state (slots s ! k)}" "\<And>j. j \<noteq> k \<Longrightarrow> slots s' ! j = slots s ! j"
      using context_shift_sync [OF _ k assms(3), of now] P by auto
    have "s_state (slots s' ! j) \<noteq> SLOT_STATE_DONE_PROMPT" if "j < length (slots s)" for j
      using s'(5,6) P that k by (cases "j = k") (auto simp: no_done_nth)
    then have "no_done s'" using s'(3) by (simp add: no_done_nth keeps_def)
    then show ?thesis using s' P keeps_trans [of st s s'] by (auto simp: less_Suc_eq)
  qed
  from for_slots_inv [of ?P st "length (slots st)" "context_shift cfg now", OF _ this] show ?thesis using assms(1,2) by auto
qed

lemma sampled_sync:
  fixes st :: "'o server_context"
  assumes "server_sync pr [] st" "batch st = []" "no_done st" "\<forall>k < length (slots st). room (slots st ! k)"
  shows "\<exists>sb' st'. for_slots (add_sampled cfg) [0..<length (slots st)] (None, st) = Inr (sb', st') \<and> server_sync pr (batch st') st'
    \<and> rows_match pr st' \<and> no_done st' \<and> keeps st st'
    \<and> (\<forall>k < length (slots st). in_prompt (slots st' ! k) \<longrightarrow> row_positions (int k) (batch st') = {#})"
proof -
  let ?n = "length (slots st)"
  let ?P = "\<lambda>k (sb, s). server_sync pr (batch s) s \<and> rows_match pr s \<and> no_done s \<and> keeps st s \<and> length (batch s) \<le> k
    \<and> (\<forall>j < ?n. k \<le> j \<longrightarrow> room (slots s ! j) \<and> row_positions (int j) (batch s) = {#})
    \<and> (\<forall>j < ?n. in_prompt (slots s ! j) \<longrightarrow> row_positions (int j) (batch s) = {#})"
  have "\<exists>s'. add_sampled cfg k s = Inr s' \<and> ?P (Suc k) s'" if kn: "k < ?n" and P: "?P k s" for k s
  proof -
    obtain sb s0 where s: "s = (sb, s0)" by fastforce
    have k: "k < length (slots s0)" using kn P by (simp add: s keeps_def)
    have p: "server_sync pr (batch s0) s0" "rows_match pr s0" "room (slots s0 ! k)" "row_positions (int k) (batch s0) = {#}"
      "length (batch s0) < batch_cap cfg s0" using P kn k by (auto simp: s batch_cap_def)
    from add_sampled_sync [OF p(1,2) k p(3-5), of sb] obtain sb' s' where r: "add_sampled cfg k (sb, s0) = Inr (sb', s')"
      "server_sync pr (batch s') s'" "rows_match pr s'" "keeps s0 s'" "length (batch s') \<le> Suc (length (batch s0))"
      "\<And>j. j \<noteq> k \<Longrightarrow> slots s' ! j = slots s0 ! j" "s_state (slots s' ! k) = s_state (slots s0 ! k)"
      "\<And>q. q \<noteq> int k \<Longrightarrow> row_positions q (batch s') = row_positions q (batch s0)"
      "s_state (slots s0 ! k) \<noteq> SLOT_STATE_GENERATING \<longrightarrow> row_positions (int k) (batch s') = {#}" by blast
    have "s_state (slots s' ! j) = s_state (slots s0 ! j)" for j using r(6,7) by (cases "j = k") simp_all
    then have "no_done s'" using P r(4) by (simp add: s no_done_nth keeps_def)
    moreover have "in_prompt (slots s' ! j) \<longrightarrow> row_positions (int j) (batch s') = {#}" if "j < ?n" for j
      using P r(6-9) that by (cases "j = k") (auto simp: s in_prompt_def)
    ultimately show ?thesis
      using r P keeps_trans [of st s0 s'] by (auto simp: s)
  qed
  moreover have "?P 0 (None, st)" using assms by (simp add: rows_match_def batch_tokens_def row_positions_def)
  ultimately show ?thesis using for_slots_inv [of ?P "(None, st)" ?n "add_sampled cfg"] by auto
qed

lemma no_done_rows: "no_done st \<Longrightarrow> done_rows i st"
  by (auto simp: no_done_def done_rows_def)

lemma post_next:
  assumes "0 \<le> q_id (queue st)"
  shows "\<exists>q. post_next_response st = Inr (st\<lparr>queue := q\<rparr>) \<and> q_id q = q_id (queue st) + 1"
  using assms by (auto simp: post_next_response_def get_new_id_def post_def Let_def enqueue_def server_task_new_def)

lemma build_batch_sync:
  fixes st :: "'o server_context"
  assumes "server_sync pr [] st" "no_done st" "cfg_ok pr cfg" "0 \<le> q_id (queue st)"
  shows "\<exists>st'. build_batch cfg now st = Inr st' \<and> server_sync pr (batch st') st' \<and> rows_match pr st' \<and> done_rows 0 st'
    \<and> length (slots st') = length (slots st) \<and> clean_kv_cache st' = clean_kv_cache st \<and> 0 \<le> q_id (queue st')"
proof -
  let ?ks = "[0..<length (slots st)]"
  obtain q where q: "post_next_response st = Inr (st\<lparr>queue := q\<rparr>)" "q_id q = q_id (queue st) + 1"
    using post_next [OF assms(4)] by blast
  let ?st1 = "st\<lparr>queue := q\<rparr>"
  have 1: "server_sync pr [] ?st1" "no_done ?st1" using assms(1,2) by (simp_all add: server_sync_def no_done_def)
  obtain st2 where 2: "for_slots (context_shift cfg now) ?ks ?st1 = Inr st2" "server_sync pr [] st2" "no_done st2" "keeps ?st1 st2"
    "\<forall>k < length (slots st2). room (slots st2 ! k)"
    using shifts_sync [OF 1 assms(3), of now] by (auto simp: keeps_def)
  let ?st2 = "st2\<lparr>batch := []\<rparr>"
  have b: "server_sync pr [] ?st2" "batch ?st2 = []" "no_done ?st2" "\<forall>k < length (slots ?st2). room (slots ?st2 ! k)"
    using 2 by (simp_all add: server_sync_def no_done_def)
  have n: "length (slots ?st2) = length (slots st)" using 2(4) by (simp add: keeps_def)
  from sampled_sync [OF b, of cfg] obtain sb st3 where 3: "for_slots (add_sampled cfg) ?ks (None, ?st2) = Inr (sb, st3)"
    "server_sync pr (batch st3) st3" "rows_match pr st3" "no_done st3" "keeps ?st2 st3"
    "\<forall>k < length (slots st). in_prompt (slots st3 ! k) \<longrightarrow> row_positions (int k) (batch st3) = {#}"
    unfolding n by blast
  have n3: "length (slots st3) = length (slots st)" using 3(5) n by (simp add: keeps_def)
  have k: "keeps ?st1 st3" using 2(4) 3(5) by (simp add: keeps_def)
  obtain sb' st4 where 4: "add_prompts cfg now ?ks (sb, st3) = Inr (sb', st4)" "server_sync pr (batch st4) st4" "rows_match pr st4"
    "done_rows 0 st4" "keeps st3 st4"
    using add_prompts_sync [OF 3(2,3) no_done_rows [OF 3(4)] assms(3), of ?ks now sb] 3(6) n3 by (auto simp: atLeast0LessThan)
  show ?thesis
  proof (cases "cont_batching cfg \<or> batch st3 = []")
    case True
    then show ?thesis
      using q 2(1) 3(1) 4 keeps_trans [OF k 4(5)] assms(4) by (intro exI [of _ st4]) (simp add: build_batch_def keeps_def)
  next
    case False
    then show ?thesis
      using q 2(1) 3 k no_done_rows [OF 3(4)] assms(4) by (intro exI [of _ st3]) (simp add: build_batch_def keeps_def)
  qed
qed

section \<open>Decoding the batch\<close>

text \<open>A slot that samples its next token; it goes on or is released.\<close>

lemma sample_slot_result:
  assumes "k < length (slots st)"
  shows "\<exists>sl. slots (sample_slot env now i k st) = (slots st)[k := sl] \<and> ctx (sample_slot env now i k st) = ctx st
    \<and> batch (sample_slot env now i k st) = batch st \<and> keeps st (sample_slot env now i k st)
    \<and> s_id sl = s_id (slots st ! k) \<and> s_n_ctx sl = s_n_ctx (slots st ! k) \<and> cache_tokens sl = cache_tokens (slots st ! k)
    \<and> (s_state sl = SLOT_STATE_IDLE
       \<or> request_part sl = request_part ((slots st ! k)\<lparr>sampled := sample env (slots st ! k) (ctx st) (i_batch (slots st ! k) - int i)\<rparr>))"
proof -
  let ?sl = "slots st ! k" and ?tok = "sample env (slots st ! k) (ctx st) (i_batch (slots st ! k) - int i)"
  let ?sl1 = "?sl\<lparr>i_batch := -1, n_decoded := n_decoded ?sl + 1, t_start_generation := (if n_decoded ?sl + 1 = 1 then now else t_start_generation ?sl)\<rparr>"
  obtain sl2 out where t: "process_token (tok_env env) ?tok (piece env ?sl1 ?tok) ?sl1 = (sl2, out)" by fastforce
  have sl2: "request_part sl2 = request_part (?sl\<lparr>sampled := ?tok\<rparr>)"
    using process_token_part [of "tok_env env" ?tok "piece env ?sl1 ?tok" ?sl1] t by (simp add: request_part_def)
  let ?st1 = "upd_slot k (\<lambda>_. sl2) st"
  let ?st2 = "case out of None \<Rightarrow> ?st1
     | Some msg \<Rightarrow> send_result \<lparr>r_id = id_task sl2, r_index = s_index sl2, r_body = Result_cmpl_partial msg ?tok\<rparr> ?st1"
  have st2: "slots ?st2 = (slots st)[k := sl2]" "ctx ?st2 = ctx st" "batch ?st2 = batch st" "keeps st ?st2"
    by (simp_all split: option.split)
  have run: "sample_slot env now i k st = (if has_next_token sl2 then ?st2 else send_final_response k (release now k ?st2))"
    using t by (simp add: sample_slot_def Let_def)
  have p: "s_id sl2 = s_id ?sl" "s_n_ctx sl2 = s_n_ctx ?sl" "cache_tokens sl2 = cache_tokens ?sl"
    using sl2 by (simp_all add: request_part_def)
  show ?thesis
  proof (cases "has_next_token sl2")
    case True
    then show ?thesis using run st2 sl2 p by (intro exI [of _ sl2]) simp
  next
    case False
    let ?st' = "send_final_response k (release now k ?st2)"
    let ?idle = "if is_processing sl2 then sl2\<lparr>t_last_used := now, s_state := SLOT_STATE_IDLE\<rparr> else sl2"
    have "slots ?st' = (slots st)[k := ?idle\<lparr>generated_text := '''', generated_tokens := []\<rparr>]" "ctx ?st' = ctx st" "batch ?st' = batch st"
      using st2 assms by (simp_all add: send_final_response_def release_def Let_def)
    moreover have "keeps st ?st'" using st2(4) by (simp add: send_final_response_def Let_def)
    ultimately show ?thesis
      using False run p by (intro exI [of _ "?idle\<lparr>generated_text := '''', generated_tokens := []\<rparr>"]) (simp add: is_processing_def)
  qed
qed

definition samples_ok :: "decode_params \<Rightarrow> 'o model_env \<Rightarrow> bool" where
  "samples_ok pr env \<longleftrightarrow> (\<forall>sl c i. 0 \<le> sample env sl c i \<and> sample env sl c i < int (n_vocab pr))"

lemma after_view_sync:
  assumes sync: "server_sync pr rows st" and k: "k < length (slots st)" and smp: "samples_ok pr env"
  shows "server_sync pr rows (after_view env now i n k st) \<and> keeps st (after_view env now i n k st)
    \<and> (\<forall>j. j \<noteq> k \<longrightarrow> slots (after_view env now i n k st) ! j = slots st ! j)
    \<and> (s_state (slots (after_view env now i n k st) ! k) = SLOT_STATE_DONE_PROMPT \<longrightarrow>
         slots (after_view env now i n k st) ! k = slots st ! k \<and> \<not> (int i \<le> i_batch (slots st ! k) \<and> i_batch (slots st ! k) < int (i + n)))"
proof -
  let ?sl = "slots st ! k" and ?st' = "after_view env now i n k st"
  have ok: "slot_ok (int (n_vocab pr)) k ?sl" using sync k by (simp add: server_sync_def)
  have sampled: ?thesis
    if eq: "?st' = sample_slot env now i k stg" "slots stg = (slots st)[k := slg]" "ctx stg = ctx st" "keeps st stg"
      and slg: "s_state slg = SLOT_STATE_GENERATING" "slot_ok (int (n_vocab pr)) k (slg\<lparr>sampled := 0\<rparr>)" "cache_tokens slg = cache_tokens ?sl"
        "s_n_ctx slg = s_n_ctx ?sl" "s_state ?sl \<notin> {SLOT_STATE_IDLE, SLOT_STATE_STARTED}" for stg slg
  proof -
    have k0: "k < length (slots stg)" "slots stg ! k = slg" using eq(2) k by simp_all
    let ?tok = "sample env slg (ctx stg) (i_batch slg - int i)"
    obtain sl where s: "slots ?st' = (slots st)[k := sl]" "ctx ?st' = ctx st" "keeps stg ?st'" "s_id sl = s_id slg" "s_n_ctx sl = s_n_ctx slg"
      "cache_tokens sl = cache_tokens slg" "s_state sl = SLOT_STATE_IDLE \<or> request_part sl = request_part (slg\<lparr>sampled := ?tok\<rparr>)"
      using sample_slot_result [OF k0(1), of env now i] eq k0(2) by auto
    have id: "s_id sl = s_id ?sl" using s(4) slg(2) ok by (simp add: slot_ok_def)
    have tok: "0 \<le> ?tok" "?tok < int (n_vocab pr)" using smp by (simp_all add: samples_ok_def)
    have st: "s_state sl \<in> {SLOT_STATE_IDLE, SLOT_STATE_GENERATING}" using s(7) slg(1) by (auto simp: request_part_def)
    have "slot_ok (int (n_vocab pr)) k sl"
    proof (cases "s_state sl = SLOT_STATE_IDLE")
      case True
      then show ?thesis using s(4,5) slg(2) by (simp add: slot_ok_def)
    next
      case False
      then have "request_part sl = request_part (slg\<lparr>sampled := ?tok\<rparr>)" using s(7) by blast
      then show ?thesis
        using slg(1,2) tok by (simp add: slot_ok_def request_part_def request_ok_def keep_ok_def is_non_causal_def)
    qed
    then have "server_sync pr rows ?st'"
      by (rule server_sync_slot [OF sync k s(1,2)]) (use s(5,6) slg(3-5) id in simp_all)
    then show ?thesis using s(1,3) keeps_trans [OF eq(4)] st k by auto
  qed
  have nv: "0 < n_vocab pr" using smp unfolding samples_ok_def by (metis of_nat_0_less_iff order.strict_trans1)
  consider (out) "\<not> (int i \<le> i_batch ?sl \<and> i_batch ?sl < int (i + n))"
    | (finished) "int i \<le> i_batch ?sl" "i_batch ?sl < int (i + n)" "s_state ?sl = SLOT_STATE_DONE_PROMPT"
    | (gen) "int i \<le> i_batch ?sl" "i_batch ?sl < int (i + n)" "s_state ?sl = SLOT_STATE_GENERATING"
    | (other) "s_state ?sl \<notin> {SLOT_STATE_DONE_PROMPT, SLOT_STATE_GENERATING}" by auto
  then show ?thesis
  proof cases
    case finished
    then have "request_ok ?sl" using ok by (simp add: slot_ok_def)
    then have "task_type ?sl \<noteq> TASK_EMBEDDING" "task_type ?sl \<noteq> TASK_RERANK" by (auto simp: request_ok_def is_non_causal_def)
    then have "?st' = sample_slot env now i k (upd_slot k (\<lambda>sl. sl\<lparr>s_state := SLOT_STATE_GENERATING\<rparr>) st)"
      using finished by (simp add: after_view_def Let_def)
    moreover have "slot_ok (int (n_vocab pr)) k (?sl\<lparr>s_state := SLOT_STATE_GENERATING, sampled := 0\<rparr>)"
      using ok finished(3) nv by (auto simp: slot_ok_def request_ok_def keep_ok_def is_non_causal_def)
    ultimately show ?thesis using finished(3) by (intro sampled [where stg = "upd_slot k (\<lambda>sl. sl\<lparr>s_state := SLOT_STATE_GENERATING\<rparr>) st" and slg = "(slots st ! k)\<lparr>s_state := SLOT_STATE_GENERATING\<rparr>"]) simp_all
  next
    case gen
    then have "?st' = sample_slot env now i k st" by (simp add: after_view_def Let_def)
    moreover have "slot_ok (int (n_vocab pr)) k (?sl\<lparr>sampled := 0\<rparr>)"
      using ok gen(3) nv by (auto simp: slot_ok_def request_ok_def keep_ok_def is_non_causal_def)
    ultimately show ?thesis using gen(3) by (intro sampled [where stg = st and slg = "slots st ! k"]) simp_all
  qed (use sync in \<open>auto simp: after_view_def Let_def\<close>)
qed

lemma after_views_sync:
  assumes "server_sync pr rows st" "samples_ok pr env" "m \<le> length (slots st)"
  shows "server_sync pr rows (fold (after_view env now i n) [0..<m] st) \<and> keeps st (fold (after_view env now i n) [0..<m] st)
    \<and> (\<forall>k < length (slots st). s_state (slots (fold (after_view env now i n) [0..<m] st) ! k) = SLOT_STATE_DONE_PROMPT \<longrightarrow>
         slots (fold (after_view env now i n) [0..<m] st) ! k = slots st ! k
         \<and> (k < m \<longrightarrow> \<not> (int i \<le> i_batch (slots st ! k) \<and> i_batch (slots st ! k) < int (i + n))))"
  using assms(3)
proof (induction m)
  case (Suc m)
  let ?st = "fold (after_view env now i n) [0..<m] st"
  have IH: "server_sync pr rows ?st" "keeps st ?st"
    "\<forall>k < length (slots st). s_state (slots ?st ! k) = SLOT_STATE_DONE_PROMPT \<longrightarrow> slots ?st ! k = slots st ! k
       \<and> (k < m \<longrightarrow> \<not> (int i \<le> i_batch (slots st ! k) \<and> i_batch (slots st ! k) < int (i + n)))"
    using Suc.IH Suc_leD [OF Suc.prems] by blast+
  have m: "m < length (slots ?st)" using Suc.prems IH(2) by (simp add: keeps_def)
  note v = after_view_sync [OF IH(1) m assms(2), of now i n]
  have eq: "fold (after_view env now i n) [0..<Suc m] st = after_view env now i n m ?st" by simp
  have "s_state (slots (after_view env now i n m ?st) ! k) = SLOT_STATE_DONE_PROMPT \<longrightarrow>
      slots (after_view env now i n m ?st) ! k = slots st ! k
      \<and> (k < Suc m \<longrightarrow> \<not> (int i \<le> i_batch (slots st ! k) \<and> i_batch (slots st ! k) < int (i + n)))" if "k < length (slots st)" for k
    using v IH(3) that by (cases "k = m") (auto simp: less_Suc_eq)
  then show ?case unfolding eq using v keeps_trans [OF IH(2)] by blast
qed (use assms in simp)

text \<open>As long as a row is left, there is an empty cell.\<close>

lemma cells_left:
  assumes sync: "server_sync pr rows st" and rows: "rows_in pr (length (slots st)) rows" "rows \<noteq> []"
  shows "size (kv_content (memory (ctx st))) < kv_size (memory (ctx st))"
proof -
  let ?kv = "memory (ctx st)" and ?n = "length (slots st)"
  have s: "owned ?kv ?n" "sum_list (map s_n_ctx (slots st)) \<le> int (kv_size ?kv)" using sync by (simp_all add: server_sync_def)
  have "int (size (seq_positions ?kv (int q)) + size (row_positions (int q) rows)) \<le> s_n_ctx (slots st ! q)" if q: "q < ?n" for q
  proof -
    have sl: "slot_ok (int (n_vocab pr)) q (slots st ! q)" "in_step ?kv rows (slots st ! q)" using sync q by (simp_all add: server_sync_def)
    then obtain n where n: "seq_positions ?kv (int q) + row_positions (int q) rows = positions n" "int n < s_n_ctx (slots st ! q)"
      by (auto simp: in_step_def slot_ok_def)
    have "size (seq_positions ?kv (int q)) + size (row_positions (int q) rows) = n"
      using arg_cong [OF n(1), of size] by (simp only: size_union size_positions)
    then show ?thesis using n(2) by simp
  qed
  then have "(\<Sum>q < ?n. int (size (seq_positions ?kv (int q)) + size (row_positions (int q) rows))) \<le> (\<Sum>q < ?n. s_n_ctx (slots st ! q))"
    by (intro sum_mono) simp
  also have "\<dots> = sum_list (map s_n_ctx (slots st))" by (simp add: sum_list_sum_nth atLeast0LessThan)
  finally have "int (\<Sum>q < ?n. size (seq_positions ?kv (int q))) + int (\<Sum>q < ?n. size (row_positions (int q) rows)) \<le> int (kv_size ?kv)"
    using s(2) by (simp add: sum.distrib)
  then have "int (size (kv_content ?kv)) + int (length rows) \<le> int (kv_size ?kv)"
    by (simp only: owned_size [OF s(1)] size_rows [OF rows(1)])
  then show ?thesis using rows(2) by (cases rows) simp_all
qed

text \<open>
  From the view at \<open>i\<close> on: every view is decoded, if need be row by row, and the slots stay in step.
\<close>

lemma decode_views_sync:
  fixes st :: "'o server_context"
  assumes "dec env = decode_view compute compute_row True pr" "graph_ok compute" "samples_ok pr env"
    and "m \<le> n_batch pr" "causal_attn pr \<or> m \<le> n_ubatch pr"
  shows "0 < nb \<Longrightarrow> nb \<le> m \<Longrightarrow> i \<le> length (batch st) \<Longrightarrow> server_sync pr (drop i (batch st)) st \<Longrightarrow> rows_in pr (length (slots st)) (batch st)
    \<Longrightarrow> done_rows i st
    \<Longrightarrow> \<exists>st'. decode_views env now nb i st = Some (Inr st') \<and> server_sync pr [] st' \<and> no_done st' \<and> keeps st st'"
proof (induction "(length (batch st) - i) * Suc m + nb" arbitrary: nb i st rule: less_induct)
  case less
  note prems = less.prems
  show ?case
  proof (cases "i < length (batch st)")
    case False
    then have "no_done st" using prems(6) by (fastforce simp: no_done_def done_rows_def)
    then show ?thesis using False prems(4) by (intro exI [of _ st]) (subst decode_views.simps, simp)
  next
    case True
    let ?n = "min nb (length (batch st) - i)"
    let ?rows = "take ?n (drop i (batch st))"
    have rows: "?rows \<noteq> []" "rows_in pr (length (slots st)) ?rows" "length ?rows \<le> n_batch pr" "causal_attn pr \<or> length ?rows \<le> n_ubatch pr"
      using True prems(1,2) assms(4,5) rows_in_part [OF prems(5), of ?rows] by (auto dest!: in_set_takeD in_set_dropD)
    have left: "size (kv_content (memory (ctx st))) < kv_size (memory (ctx st))"
      using cells_left [OF prems(4) rows_in_part [OF prems(5)]] True set_drop_subset [of i "batch st"] by simp
    have st: "can_decode pr (ctx st)" "owned (memory (ctx st)) (length (slots st))" using prems(4) by (simp_all add: server_sync_def)
    obtain ret c where d: "dec env ?rows (ctx st) = Some (Inr (ret, c))" "can_decode pr c" "ret \<in> {0, 1}"
      "owned (memory c) (length (slots st))" "kv_size (memory c) = kv_size (memory (ctx st))" "\<not> (ret = 1 \<and> length ?rows = 1)"
      "\<And>q. seq_positions (memory c) q = seq_positions (memory (ctx st)) q + (if ret = 0 then row_positions q ?rows else {#})"
      using decode_view_fits [OF st assms(2) rows, of compute_row] left unfolding assms(1) by (metis less_irrefl)
    let ?st1 = "st\<lparr>ctx := c\<rparr>"
    show ?thesis
    proof (cases "ret = 0")
      case False
      then have ret: "ret = 1" "nb \<noteq> 1" using d(3,6) True by auto
      have nb: "0 < nb div 2" "nb div 2 < nb" using ret(2) prems(1) by auto
      have sync1: "server_sync pr (drop i (batch ?st1)) ?st1"
        using prems(4) d(2,4,5,7) ret(1) by (simp add: server_sync_def in_step_def)
      have "decode_views env now nb i st = decode_views env now (nb div 2) i ?st1"
        using True d(1) ret by (simp add: decode_views.simps [of env now nb i st] Let_def)
      moreover have "\<exists>st'. decode_views env now (nb div 2) i ?st1 = Some (Inr st') \<and> server_sync pr [] st' \<and> no_done st' \<and> keeps ?st1 st'"
        by (rule less.hyps) (use nb prems sync1 in \<open>simp_all add: done_rows_def\<close>)
      ultimately show ?thesis by (simp add: keeps_def)
    next
      case ret: True
      let ?st2 = "fold (after_view env now i ?n) [0..<length (slots ?st1)] ?st1"
      have fr: "batch ?st2 = batch st" using after_views_frame [of env now i ?n _ ?st1] by simp
      have step: "decode_views env now nb i st = decode_views env now nb (i + nb) ?st2"
        using True d(1) ret by (simp add: decode_views.simps [of env now nb i st] Let_def)
      have "drop i (batch st) = ?rows @ drop (i + nb) (batch st)"
        using append_take_drop_id [of ?n "drop i (batch st)"] True by (cases "nb \<le> length (batch st) - i") (simp_all add: add.commute min_def)
      then have "row_positions q (drop i (batch st)) = row_positions q ?rows + row_positions q (drop (i + nb) (batch st))" for q
        by (metis row_positions_append)
      then have sync1: "server_sync pr (drop (i + nb) (batch st)) ?st1"
        using prems(4) d(2,4,5,7) ret by (simp add: server_sync_def in_step_def add.assoc)
      note v = after_views_sync [OF sync1 assms(3) order_refl, of now i ?n]
      have len2: "length (slots ?st2) = length (slots st)" using v by (simp add: keeps_def)
      have done2: "int (i + nb) \<le> i_batch (slots ?st2 ! k) \<and> i_batch (slots ?st2 ! k) < int (length (batch st))"
        if k: "k < length (slots st)" "s_state (slots ?st2 ! k) = SLOT_STATE_DONE_PROMPT" for k
      proof -
        have "slots ?st2 ! k = slots st ! k" "\<not> (int i \<le> i_batch (slots st ! k) \<and> i_batch (slots st ! k) < int (i + ?n))"
          using v k by auto
        moreover have "int i \<le> i_batch (slots st ! k) \<and> i_batch (slots st ! k) < int (length (batch st))"
          using prems(6) k calculation(1) by (simp add: done_rows_def)
        ultimately show ?thesis by (auto simp: min_def split: if_splits)
      qed
      then have done': "done_rows (i + nb) ?st2" using len2 fr by (auto simp: done_rows_def in_set_conv_nth)
      show ?thesis
      proof (cases "i + nb \<le> length (batch st)")
        case False
        then have "no_done ?st2" using done2 len2 by (fastforce simp: no_done_nth)
        moreover have "decode_views env now nb (i + nb) ?st2 = Some (Inr ?st2)"
          using False fr by (simp add: decode_views.simps [of env now nb "i + nb"])
        ultimately show ?thesis using step v False by (intro exI [of _ ?st2]) (simp add: keeps_def)
      next
        case le: True
        have "length (batch st) - (i + nb) < length (batch st) - i" using le prems(1) by linarith
        then have "(length (batch ?st2) - (i + nb)) * Suc m + nb < (length (batch st) - i) * Suc m + nb"
          unfolding fr by (simp only: add_less_cancel_right mult_less_cancel2) simp
        then have "\<exists>st'. decode_views env now nb (i + nb) ?st2 = Some (Inr st') \<and> server_sync pr [] st' \<and> no_done st' \<and> keeps ?st2 st'"
          by (rule less.hyps) (use prems le v done' fr len2 in simp_all)
        then show ?thesis using step v by (auto simp: keeps_def)
      qed
    qed
  qed
qed

section \<open>update_slots\<close>

text \<open>
  The server and the compute graph behave: the batches of the server fit the context, decoding is the
  model of \<open>llama_context::decode\<close>, the graph and the allocation of outputs succeed, and the tokens
  sampled are in the vocabulary.
\<close>

definition env_ok ::
  "(llama_ubatch \<Rightarrow> kv_cache \<Rightarrow> compute_status) \<Rightarrow> (llama_ubatch \<Rightarrow> kv_cache \<Rightarrow> nat \<Rightarrow> 'o) \<Rightarrow> decode_params \<Rightarrow> server_params \<Rightarrow> 'o model_env \<Rightarrow> bool" where
  "env_ok compute compute_row pr cfg env \<longleftrightarrow> cfg_ok pr cfg \<and> dec env = decode_view compute compute_row True pr
     \<and> graph_ok compute \<and> samples_ok pr env"

text \<open>The state of the server between two calls of \<open>update_slots\<close>.\<close>

definition at_rest :: "decode_params \<Rightarrow> 'o server_context \<Rightarrow> bool" where
  "at_rest pr st \<longleftrightarrow> server_sync pr [] st \<and> no_done st \<and> 0 \<le> q_id (queue st) \<and> \<not> clean_kv_cache st"

lemma update_slots_at_rest:
  assumes "env_ok compute compute_row pr cfg env" "at_rest pr st"
  shows "\<exists>st'. update_slots cfg env now st = Some (Inr st') \<and> at_rest pr st'"
proof (cases "all_idle st")
  case True
  then show ?thesis using assms(2) by (simp add: update_slots_def at_rest_def)
next
  case False
  have e: "cfg_ok pr cfg" "dec env = decode_view compute compute_row True pr" "graph_ok compute" "samples_ok pr env"
    and s: "server_sync pr [] st" "no_done st" "0 \<le> q_id (queue st)" "\<not> clean_kv_cache st"
    using assms by (simp_all add: env_ok_def at_rest_def)
  obtain st1 where b: "build_batch cfg now st = Inr st1" "server_sync pr (batch st1) st1" "rows_match pr st1" "done_rows 0 st1"
    "clean_kv_cache st1 = clean_kv_cache st" "0 \<le> q_id (queue st1)"
    using build_batch_sync [OF s(1,2) e(1) s(3), of now] by blast
  show ?thesis
  proof (cases "batch st1 = []")
    case True
    then have "no_done st1" using b(4) by (fastforce simp: no_done_def done_rows_def)
    then show ?thesis using False True b s(4) by (simp add: update_slots_def at_rest_def)
  next
    case ne: False
    let ?nb = "nat (sp_n_batch cfg)"
    have nb: "0 < ?nb" "?nb \<le> n_batch pr" "causal_attn pr \<or> ?nb \<le> n_ubatch pr" using e(1) by (simp_all add: cfg_ok_def)
    have "\<exists>st'. decode_views env now ?nb 0 st1 = Some (Inr st') \<and> server_sync pr [] st' \<and> no_done st' \<and> keeps st1 st'"
      by (rule decode_views_sync [OF e(2-4) nb(2,3)]) (use nb b(2,4) rows_match_in [OF b(3)] in simp_all)
    then show ?thesis using False ne b s(4) by (auto simp: update_slots_def at_rest_def keeps_def)
  qed
qed

section \<open>Tasks\<close>

text \<open>All tasks but embeddings, reranking and the files of slots; completions with the default \<open>n_discard\<close>.\<close>

definition plain_task :: "server_task \<Rightarrow> bool" where
  "plain_task t \<longleftrightarrow> t_type t \<notin> {TASK_EMBEDDING, TASK_RERANK, TASK_SLOT_RESTORE} \<and> n_discard (t_params t) = 0"

lemma at_rest_frame:
  "at_rest pr st \<Longrightarrow> slots st' = slots st \<Longrightarrow> ctx st' = ctx st \<Longrightarrow> clean_kv_cache st' = clean_kv_cache st \<Longrightarrow> 0 \<le> q_id (queue st')
    \<Longrightarrow> at_rest pr st'"
  using server_sync_same by (auto simp: at_rest_def no_done_def)

lemma at_rest_slot:
  assumes rest: "at_rest pr st" and k: "k < length (slots st)"
    and st': "slots st' = (slots st)[k := sl]" "clean_kv_cache st' = clean_kv_cache st" "0 \<le> q_id (queue st')"
    and sync: "server_sync pr [] st'" "s_state sl \<noteq> SLOT_STATE_DONE_PROMPT"
  shows "at_rest pr st'"
  using rest sync st' by (auto simp: at_rest_def no_done_def dest!: set_update_subset_insert [THEN subsetD])

text \<open>The slot after an attempt to launch a task on it.\<close>

definition launched :: "server_slot \<Rightarrow> server_task \<Rightarrow> server_slot \<Rightarrow> bool" where
  "launched sl t sl' \<longleftrightarrow> s_id sl' = s_id sl \<and> s_n_ctx sl' = s_n_ctx sl \<and> length (cache_tokens sl') \<le> length (cache_tokens sl)
     \<and> n_past sl' = 0 \<and> task_type sl' = t_type t \<and> n_discard (s_params sl') = n_discard (t_params t) \<and> prompt_tokens sl' = t_prompt t"

lemma launch_result:
  assumes "\<not> is_processing (slots st ! k)"
  shows "\<exists>sl. slots (snd (launch_slot_with_task cfg k t st)) = (slots st)[k := sl] \<and> launched (slots st ! k) t sl
    \<and> (s_state sl = SLOT_STATE_IDLE \<or> s_state sl = SLOT_STATE_STARTED \<and> validate_tokens (vocab_size cfg) (t_prompt t))
    \<and> ctx (snd (launch_slot_with_task cfg k t st)) = ctx st \<and> queue (snd (launch_slot_with_task cfg k t st)) = queue st
    \<and> clean_kv_cache (snd (launch_slot_with_task cfg k t st)) = clean_kv_cache st"
proof -
  let ?sl0 = "(slot_reset (slots st ! k))\<lparr>id_task := t_id t, s_index := t_index t, task_type := t_type t, s_params := t_params t,
      prompt_tokens := t_prompt t\<rparr>"
  let ?sl1 = "if are_lora_equal (p_lora (s_params ?sl0)) (s_lora ?sl0) then ?sl0
      else ?sl0\<lparr>cache_tokens := [], s_lora := p_lora (s_params ?sl0)\<rparr>"
  define sl1 where "sl1 = ?sl1"
  define sl2 where "sl2 = (if 0 < s_n_predict sl1 \<and> s_n_predict sl1 < p_n_predict (s_params sl1)
      then sl1\<lparr>s_params := (s_params sl1)\<lparr>p_n_predict := s_n_predict sl1\<rparr>\<rparr> else sl1)"
  define sl3 where "sl3 = (if ignore_eos (s_params sl2) \<and> has_eos_token cfg
      then sl2\<lparr>s_params := (s_params sl2)\<lparr>banned_tokens := banned_tokens (s_params sl2) @ [eos_token cfg]\<rparr>\<rparr> else sl2)"
  have 1: "launched (slots st ! k) t sl1 \<and> s_state sl1 = SLOT_STATE_IDLE"
    using assms by (simp add: sl1_def launched_def slot_reset_def is_processing_def)
  then have 2: "launched (slots st ! k) t sl2 \<and> s_state sl2 = SLOT_STATE_IDLE" by (simp add: sl2_def launched_def)
  then have 3: "launched (slots st ! k) t sl3 \<and> s_state sl3 = SLOT_STATE_IDLE" by (simp add: sl3_def launched_def)
  have prompt: "prompt_tokens sl1 = t_prompt t" using 1 by (simp add: launched_def)
  have run: "snd (launch_slot_with_task cfg k t st) =
      (if \<not> validate_tokens (vocab_size cfg) (prompt_tokens sl1)
       then send_error (t_id t) ''Prompt contains invalid tokens'' ERROR_TYPE_INVALID_REQUEST (upd_slot k (\<lambda>_. sl1) st)
       else if \<not> sampler_ok cfg (s_params sl3)
       then send_error (t_id t) ''Failed to parse grammar'' ERROR_TYPE_INVALID_REQUEST (upd_slot k (\<lambda>_. sl3) st)
       else upd_slot k (\<lambda>_. sl3\<lparr>s_state := SLOT_STATE_STARTED\<rparr>) st)"
    unfolding launch_slot_with_task_def Let_def sl1_def [symmetric] sl2_def [symmetric] sl3_def [symmetric] by simp
  have fr: "ctx (upd_slot k f st) = ctx st \<and> queue (upd_slot k f st) = queue st \<and> clean_kv_cache (upd_slot k f st) = clean_kv_cache st"
    "ctx (send_error i m ty (upd_slot k f st)) = ctx st \<and> queue (send_error i m ty (upd_slot k f st)) = queue st
      \<and> clean_kv_cache (send_error i m ty (upd_slot k f st)) = clean_kv_cache st" for f i m ty
    by (simp_all add: upd_slot_def send_error_def send_result_def)
  let ?sl = "if \<not> validate_tokens (vocab_size cfg) (prompt_tokens sl1) then sl1
      else if \<not> sampler_ok cfg (s_params sl3) then sl3 else sl3\<lparr>s_state := SLOT_STATE_STARTED\<rparr>"
  show ?thesis
    using 1 3 prompt fr unfolding run by (intro exI [of _ ?sl]) (simp add: launched_def)
qed

lemma launch_at_rest:
  assumes rest: "at_rest pr st" and k: "k < length (slots st)" "\<not> is_processing (slots st ! k)"
    and t: "plain_task t" "t_type t \<in> {TASK_COMPLETION, TASK_INFILL}" and cfg: "cfg_ok pr cfg"
  shows "at_rest pr (snd (launch_slot_with_task cfg k t st))"
proof -
  let ?st' = "snd (launch_slot_with_task cfg k t st)" and ?sl = "slots st ! k"
  have sync: "server_sync pr [] st" using rest by (simp add: at_rest_def)
  then have ok: "slot_ok (int (n_vocab pr)) k ?sl" using k(1) by (simp add: server_sync_def)
  obtain sl where sl: "slots ?st' = (slots st)[k := sl]" "launched ?sl t sl"
    "s_state sl = SLOT_STATE_IDLE \<or> s_state sl = SLOT_STATE_STARTED \<and> validate_tokens (vocab_size cfg) (t_prompt t)"
    and fr: "ctx ?st' = ctx st" "queue ?st' = queue st" "clean_kv_cache ?st' = clean_kv_cache st"
    using launch_result [OF k(2), of cfg t] by blast
  have ok': "slot_ok (int (n_vocab pr)) k sl"
    using ok sl(2,3) t cfg by (auto simp: slot_ok_def launched_def request_ok_def is_non_causal_def plain_task_def cfg_ok_def)
  have "server_sync pr [] ?st'"
    by (rule server_sync_slot [OF sync k(1) sl(1) fr(1) ok']) (use sl(2,3) in \<open>auto simp: launched_def\<close>)
  then show ?thesis using rest sl(3) fr by (intro at_rest_slot [OF rest k(1) sl(1)]) (auto simp: at_rest_def)
qed

lemma erase_at_rest:
  assumes rest: "at_rest pr st" and k: "k < length (slots st)" "\<not> is_processing (slots st ! k)"
  shows "at_rest pr (slot_erase t k st)"
proof -
  let ?sl = "slots st ! k" and ?kv = "memory (ctx st)"
  let ?kv' = "snd (seq_rm (s_id ?sl) (-1) (-1) ?kv)"
  have sync: "server_sync pr [] st" using rest by (simp add: at_rest_def)
  then have ok: "slot_ok (int (n_vocab pr)) k ?sl" "in_step ?kv [] ?sl" using k(1) by (simp_all add: server_sync_def)
  then have id: "s_id ?sl = int k" "s_n_ctx ?sl < int32_max" "4 \<le> s_n_ctx ?sl" by (simp_all add: slot_ok_def)
  have kv: "kv_inv ?kv" "private_seq ?kv (int k)" "0 \<le> int k" "0 \<le> s_id ?sl"
    using sync owned_private id(1) by (auto simp: server_sync_def can_decode_def settled_def)
  obtain n where n: "seq_positions ?kv (int k) = positions n" "int n < s_n_ctx ?sl" using ok(2) id(1) by (auto simp: row_positions_no_rows)
  have "cells_at ?kv' (int k) p = {}" for p
  proof -
    have "cells_at ?kv (int k) p = {}" if "p < 0 \<or> int n \<le> p"
      using n(1) [unfolded filled_iff, rule_format, of p] that by (auto split: if_splits)
    then show ?thesis
      using cells_at_seq_rm [OF kv(1,4), of "-1" "-1" p] n(2) id(1,2) by (auto simp: in_range_def norm_p0_def norm_p1_def)
  qed
  then have pos: "seq_positions ?kv' (int k) = positions 0" unfolding filled_iff by simp
  let ?sl' = "?sl\<lparr>cache_tokens := []\<rparr>"
  have e: "slots (slot_erase t k st) = (slots st)[k := ?sl']" "ctx (slot_erase t k st) = (ctx st)\<lparr>memory := ?kv'\<rparr>"
    by (simp_all add: slot_erase_def Let_def upd_kv_def)
  have ok': "slot_ok (int (n_vocab pr)) k ?sl'" using ok(1) k(2) by (simp add: slot_ok_def is_processing_def)
  have step: "in_step ?kv' [] ?sl'"
    using pos id(1,3) k(2) unfolding row_positions_no_rows by (intro exI [of _ 0]) (simp add: is_processing_def)
  have "changes_only (int k) ?kv ?kv'" using changes_only_seq_rm [OF kv(1-3)] id(1) by simp
  then have "server_sync pr [] (slot_erase t k st)" using server_sync_set [OF sync k(1) e _ ok' step] by simp
  moreover have "clean_kv_cache (slot_erase t k st) = clean_kv_cache st" "queue (slot_erase t k st) = queue st"
    by (simp_all add: slot_erase_def Let_def upd_slot_def upd_kv_def send_result_def)
  ultimately show ?thesis
    using rest k(2) by (intro at_rest_slot [OF rest k(1) e(1)]) (auto simp: at_rest_def is_processing_def)
qed

lemma release_at_rest:
  assumes "at_rest pr st" "k < length (slots st)"
  shows "at_rest pr (release now k st)"
proof -
  have "server_sync pr [] (release now k st)" using release_sync assms by (auto simp: at_rest_def)
  moreover have "keeps st (release now k st)" by simp
  moreover have "no_done (release now k st)"
    unfolding no_done_nth
  proof (intro allI impI)
    fix j assume "j < length (slots (release now k st))"
    then show "s_state (slots (release now k st) ! j) \<noteq> SLOT_STATE_DONE_PROMPT"
      using assms by (cases "j = k") (simp_all add: release_slots release_frame at_rest_def no_done_nth)
  qed
  ultimately show ?thesis using assms(1) by (simp add: at_rest_def keeps_def)
qed

text \<open>A task is processed, or deferred.\<close>

lemma task_at_rest:
  assumes rest: "at_rest pr st" and t: "plain_task t" and cfg: "cfg_ok pr cfg"
  shows "at_rest pr (process_single_task cfg now t st)"
proof -
  have dfr: "at_rest pr (upd_queue (defer_task t) st)"
    by (rule at_rest_frame [OF rest]) (use rest in \<open>simp_all add: at_rest_def upd_queue_def defer_task_def\<close>)
  have same: "at_rest pr st'" if "slots st' = slots st" "ctx st' = ctx st" "clean_kv_cache st' = clean_kv_cache st" "queue st' = queue st" for st'
    by (rule at_rest_frame [OF rest that(1-3)]) (use rest that(4) in \<open>simp add: at_rest_def\<close>)
  have send: "clean_kv_cache (send_result r st) = clean_kv_cache st" "clean_kv_cache (send_error i m ty st) = clean_kv_cache st" for r i m ty
    by (simp_all add: send_result_def send_error_def)
  have launch: "at_rest pr (process_launch cfg now t st)" if "t_type t \<in> {TASK_COMPLETION, TASK_INFILL}"
  proof -
    have "at_rest pr (snd (launch_slot_with_task cfg k t st))" if "k < length (slots st)" "\<not> is_processing (slots st ! k)" for k
      using launch_at_rest [OF rest that t _ cfg] \<open>t_type t \<in> {TASK_COMPLETION, TASK_INFILL}\<close> .
    then show ?thesis
      using dfr get_slot_by_id_Some get_available_slot_Some unfolding process_launch_def
      by (auto split: option.split)
  qed
  have slot: "at_rest pr (with_slot t act st)" if "\<And>k. k < length (slots st) \<Longrightarrow> \<not> is_processing (slots st ! k) \<Longrightarrow> at_rest pr (act k st)" for act
    using dfr that get_slot_by_id_Some same send unfolding with_slot_def by (auto split: option.split)
  have "at_rest pr (process_cancel now t st)"
  proof (cases "List.find (\<lambda>k. id_task (slots st ! k) = id_target t) [0..<length (slots st)]")
    case (Some k)
    then show ?thesis using find_mem [OF Some] release_at_rest [OF rest] by (simp add: process_cancel_def)
  qed (use rest in \<open>simp add: process_cancel_def\<close>)
  moreover have "at_rest pr (process_metrics t st)" by (rule same) (simp_all add: process_metrics_def Let_def send)
  moreover have "at_rest pr (with_slot t (slot_save cfg t) st)" by (rule slot, rule same) (simp_all add: slot_save_def Let_def send)
  moreover have "at_rest pr (with_slot t (slot_erase t) st)" by (rule slot, rule erase_at_rest [OF rest])
  moreover have "at_rest pr (send_result r (st\<lparr>lora_adapters := l\<rparr>))" for r l by (rule same) (simp_all add: send_result_def)
  ultimately show ?thesis using t rest launch by (cases "t_type t") (simp_all add: plain_task_def)
qed

section \<open>The server as a whole\<close>

text \<open>
  The server starts with idle slots, whose contexts fit the cache together, and its first look at the slots, before any
  request, clears the cache. Then HTTP threads post and cancel tasks, the main loop takes a task or
  updates the slots, in any order.
\<close>

inductive sync_reach :: "decode_params \<Rightarrow> server_params \<Rightarrow> 'o model_env \<Rightarrow> 'o server_context \<Rightarrow> bool"
  for pr cfg env where
  sync_init: "0 < n \<Longrightarrow> 4 \<le> c_div nctx (int n) \<Longrightarrow> nctx < int32_max \<Longrightarrow> nctx \<le> int (kv_size (memory (ctx st0)))
    \<Longrightarrow> slots st0 = init_slots n nctx npredict \<Longrightarrow> can_decode pr (ctx st0) \<Longrightarrow> clean_kv_cache st0 \<Longrightarrow> 0 \<le> q_id (queue st0)
    \<Longrightarrow> update_slots cfg env now st0 = Some (Inr st) \<Longrightarrow> sync_reach pr cfg env st"
| sync_post: "sync_reach pr cfg env st \<Longrightarrow> sync_reach pr cfg env (upd_queue (enqueue t front) st)"
| sync_cancel: "sync_reach pr cfg env st \<Longrightarrow> cancel_tasks ids (queue st, results st) = (q, w)
    \<Longrightarrow> sync_reach pr cfg env (st\<lparr>queue := q, results := w\<rparr>)"
| sync_take: "sync_reach pr cfg env st \<Longrightarrow> queue_tasks (queue st) = t # ts \<Longrightarrow> plain_task t
    \<Longrightarrow> sync_reach pr cfg env (take_task cfg now t ts st)"
| sync_update: "sync_reach pr cfg env st \<Longrightarrow> update_slots cfg env now st = Some (Inr st') \<Longrightarrow> sync_reach pr cfg env st'"

lemma init_at_rest:
  assumes n: "0 < n" "4 \<le> c_div nctx (int n)" "nctx < int32_max" "nctx \<le> int (kv_size (memory (ctx st0)))"
    and st0: "slots st0 = init_slots n nctx npredict" "can_decode pr (ctx st0)" "clean_kv_cache st0" "0 \<le> q_id (queue st0)"
    and up: "update_slots cfg env now st0 = Some (Inr st)"
  shows "at_rest pr st"
proof -
  let ?c = "c_div nctx (int n)"
  have sl: "k < n \<Longrightarrow> slots st0 ! k = slot_reset (server_slot_new (int k) ?c npredict)" "length (slots st0) = n" for k
    by (simp_all add: st0(1) init_slots_def)
  have idle: "all_idle st0"
    using sl by (auto simp: all_idle_def list_all_length slot_reset_def server_slot_new_def is_processing_def)
  have st: "st = kv_cache_clear st0" using up idle st0(3) by (simp add: update_slots_def)
  then have fr: "slots st = slots st0" "ctx st = (ctx st0)\<lparr>memory := clear (memory (ctx st0))\<rparr>" "\<not> clean_kv_cache st" "queue st = queue st0"
    by (simp_all add: kv_cache_clear_def upd_kv_def)
  have nc: "0 \<le> nctx"
  proof (rule ccontr)
    assume "\<not> 0 \<le> nctx"
    then have "?c \<le> 0" using n(1) by (auto simp: c_div_def mult_le_0_iff pos_imp_zdiv_nonneg_iff)
    then show False using n(2) by simp
  qed
  then have c: "?c = nctx div int n" using c_div_pos n(1) by simp
  have le: "int n * ?c \<le> nctx" unfolding c using n(1) by (simp add: mult.commute minus_mod_eq_mult_div [symmetric] nc)
  moreover have "1 * ?c \<le> int n * ?c" by (rule mult_right_mono) (use n in simp_all)
  then have "?c \<le> nctx" using le by linarith
  moreover have "map s_n_ctx (slots st0) = replicate n ?c"
    by (intro nth_equalityI) (simp_all add: sl slot_reset_def server_slot_new_def)
  ultimately have sum: "sum_list (map s_n_ctx (slots st0)) \<le> int (kv_size (memory (ctx st0)))" "?c < int32_max"
    using n(3,4) by (simp_all add: sum_list_replicate)
  have set: "settled (clear (memory (ctx st0)))"
    using st0(2) kv_inv_clear by (auto simp: can_decode_def settled_def clear_def clear_cell_def is_empty_def)
  then have "can_decode pr (ctx st)" using st0(2) by (simp add: can_decode_def fr(2) clear_def)
  moreover have cont: "kv_content (memory (ctx st)) = {#}"
    by (auto simp: kv_content_def fr(2) clear_def clear_cell_def is_empty_def filter_mset_eq_conv multiset.map_comp)
  moreover have "slot_ok (int (n_vocab pr)) k (slots st ! k) \<and> in_step (memory (ctx st)) [] (slots st ! k)" if "k < length (slots st)" for k
  proof -
    have k: "slots st ! k = slot_reset (server_slot_new (int k) ?c npredict)" using that sl by (simp add: fr(1))
    have "seq_positions (memory (ctx st)) q = positions 0" for q using cont by (simp add: seq_positions_def positions_def)
    then show ?thesis
      using n(2) sum(2) unfolding k row_positions_no_rows
      by (auto simp: slot_ok_def slot_reset_def server_slot_new_def intro!: exI [of _ 0])
  qed
  ultimately have "server_sync pr [] st"
    using sum(1) by (simp add: server_sync_def owned_def fr(1)) (simp add: fr(2) clear_def)
  moreover have "no_done st" using sl by (simp add: no_done_nth fr(1) slot_reset_def server_slot_new_def)
  ultimately show ?thesis using fr st0(4) by (simp add: at_rest_def)
qed

lemma post_multi_id: "0 \<le> q_id q \<Longrightarrow> 0 \<le> q_id (post_multi ts front q)"
  by (induction ts front q rule: post_multi.induct) (auto simp: enqueue_def cleanup_pending_task_def Let_def)

lemma sync_reach_at_rest:
  assumes "sync_reach pr cfg env st" "env_ok compute compute_row pr cfg env"
  shows "at_rest pr st"
  using assms(1)
proof (induction rule: sync_reach.induct)
  case (sync_init n nctx st0 npredict now st)
  then show ?case by (rule init_at_rest)
next
  case (sync_post st t front)
  show ?case
    by (rule at_rest_frame [OF sync_post.IH])
      (use sync_post.IH in \<open>simp_all add: at_rest_def upd_queue_def enqueue_def cleanup_pending_task_def Let_def\<close>)
next
  case (sync_cancel st ids q w)
  then show ?case
    using post_multi_id by (intro at_rest_frame [OF sync_cancel.IH]) (auto simp: at_rest_def cancel_tasks_def)
next
  case (sync_take st t ts now)
  have "at_rest pr (upd_queue (\<lambda>q. q\<lparr>queue_tasks := ts\<rparr>) st)"
    by (rule at_rest_frame [OF sync_take.IH]) (use sync_take.IH in \<open>simp_all add: at_rest_def upd_queue_def\<close>)
  then show ?case using task_at_rest [OF _ sync_take.hyps(3)] assms(2) unfolding take_task_def env_ok_def by blast
next
  case (sync_update st now st')
  then show ?case using update_slots_at_rest [OF assms(2) sync_update.IH, of now] by auto
qed

section \<open>Properties\<close>

text \<open>
  C12. The server does not lose track of its cache, and does not fail, as long as it is used as follows. Take a server whose slots have together no more
  context than the cache has cells, a compute graph that succeeds and samples that are tokens, and let
  it look at its idle slots before the first request, and then let tasks be posted, cancelled and processed in any
  order (completions with the default \<open>n_discard\<close>, the saving and erasing of slots, metrics, adapters, but
  no embedding, rerank or restored slot). Without these conditions it does, see \<open>first_idle_clears\<close>,
  \<open>decode_failure_stale\<close> and \<open>context_shift_discard\<close>. In every state the cells of a slot are, once each, the
  positions of the tokens it remembers (an idle or just launched slot may have forgotten some), there are fewer
  than its context, and \<open>update_slots\<close> returns: no assertion, no exception, no endless retry.
\<close>

theorem server_in_sync:
  assumes "sync_reach pr cfg env st" "env_ok compute compute_row pr cfg env"
  shows "(\<exists>st'. update_slots cfg env now st = Some (Inr st'))
    \<and> (\<forall>k < length (slots st). \<exists>n. seq_positions (memory (ctx st)) (int k) = positions n
         \<and> length (cache_tokens (slots st ! k)) \<le> n \<and> int n < s_n_ctx (slots st ! k)
         \<and> (s_state (slots st ! k) \<notin> {SLOT_STATE_IDLE, SLOT_STATE_STARTED} \<longrightarrow>
              n = length (cache_tokens (slots st ! k)) \<and> n_past (slots st ! k) = int n))"
proof (intro conjI allI impI)
  note rest = sync_reach_at_rest [OF assms]
  show "\<exists>st'. update_slots cfg env now st = Some (Inr st')" using update_slots_at_rest [OF assms(2) rest] by blast
  fix k assume "k < length (slots st)"
  then have "slot_ok (int (n_vocab pr)) k (slots st ! k)" "in_step (memory (ctx st)) [] (slots st ! k)"
    using rest by (simp_all add: at_rest_def server_sync_def)
  then show "\<exists>n. seq_positions (memory (ctx st)) (int k) = positions n
         \<and> length (cache_tokens (slots st ! k)) \<le> n \<and> int n < s_n_ctx (slots st ! k)
         \<and> (s_state (slots st ! k) \<notin> {SLOT_STATE_IDLE, SLOT_STATE_STARTED} \<longrightarrow>
              n = length (cache_tokens (slots st ! k)) \<and> n_past (slots st ! k) = int n)"
    by (auto simp: row_positions_no_rows slot_ok_def split: slot_state.splits)
qed

text \<open>
  C31. The batch of an iteration is the one the slots believe in. In every state reachable under the conditions of C12 \<open>build_batch\<close>
  succeeds, every row of the batch is the token its slot remembers at this position, and the positions of a
  slot in the cache and in the batch are together those of the tokens it remembers, each once: no token is
  decoded twice and none is skipped.
\<close>

theorem batch_in_sync:
  assumes "sync_reach pr cfg env st" "env_ok compute compute_row pr cfg env"
  shows "\<exists>st'. build_batch cfg now st = Inr st' \<and> length (slots st') = length (slots st)
    \<and> (\<forall>(t, p, q) \<in> set (batch_tokens (batch st')). 0 \<le> q \<and> q < int (length (slots st'))
         \<and> 0 \<le> p \<and> p < int (length (cache_tokens (slots st' ! nat q))) \<and> t = cache_tokens (slots st' ! nat q) ! nat p)
    \<and> (\<forall>k < length (slots st'). \<exists>n. seq_positions (memory (ctx st')) (int k) + row_positions (int k) (batch st') = positions n
         \<and> length (cache_tokens (slots st' ! k)) \<le> n \<and> int n < s_n_ctx (slots st' ! k)
         \<and> (s_state (slots st' ! k) \<notin> {SLOT_STATE_IDLE, SLOT_STATE_STARTED} \<longrightarrow> n = length (cache_tokens (slots st' ! k))))"
proof -
  have "at_rest pr st" by (rule sync_reach_at_rest [OF assms])
  then obtain st' where b: "build_batch cfg now st = Inr st'" "server_sync pr (batch st') st'" "rows_match pr st'"
    "length (slots st') = length (slots st)"
    using build_batch_sync [of pr st cfg now] assms(2) by (auto simp: at_rest_def env_ok_def)
  have "\<exists>n. seq_positions (memory (ctx st')) (int k) + row_positions (int k) (batch st') = positions n
         \<and> length (cache_tokens (slots st' ! k)) \<le> n \<and> int n < s_n_ctx (slots st' ! k)
         \<and> (s_state (slots st' ! k) \<notin> {SLOT_STATE_IDLE, SLOT_STATE_STARTED} \<longrightarrow> n = length (cache_tokens (slots st' ! k)))"
    if "k < length (slots st')" for k
  proof -
    have "slot_ok (int (n_vocab pr)) k (slots st' ! k)" "in_step (memory (ctx st')) (batch st') (slots st' ! k)"
      using b(2) that by (simp_all add: server_sync_def)
    then show ?thesis by (simp add: in_step_def slot_ok_def)
  qed
  then show ?thesis using b(1,3,4) by (fastforce simp: rows_match_def)
qed

text \<open>A server of one slot that has just launched a request.\<close>

definition wit_loaded :: "nat server_context" where
  "wit_loaded = wit_server wit_kv (init_slots 1 4 (-1))"

definition wit_launched :: "nat server_context" where
  "wit_launched = take_task wit_cfg 1 (wit_task 1) [] (upd_queue (enqueue (wit_task 1) False) (kv_cache_clear wit_loaded))"

lemma wit_env_ok: "env_ok (\<lambda>_ _. Status_success) (\<lambda>_ _ k. k) wit_params wit_cfg wit_decode_env"
  by (simp add: env_ok_def cfg_ok_def graph_ok_def samples_ok_def wit_params_def wit_cfg_def wit_decode_env_def)

lemma wit_sync_reach: "sync_reach wit_params wit_cfg wit_decode_env wit_launched"
proof -
  have kv: "memory (ctx wit_loaded) = wit_kv" "output_ids (ctx wit_loaded) = []" "slots wit_loaded = init_slots 1 4 (-1)"
    "clean_kv_cache wit_loaded" "q_id (queue wit_loaded) = 1" by (simp_all add: wit_loaded_def wit_server_def)
  have "settled wit_kv" by (rule settled_no_ranges [OF wit_kv_ok(1)]) (simp add: wit_kv_def)
  moreover have "can_shift wit_kv" "kv_size wit_kv = 4" by (simp_all add: wit_kv_def)
  ultimately have ok: "can_decode wit_params (ctx wit_loaded)" by (simp add: can_decode_def kv n_layer_ok_def wit_params_def)
  have "all_idle wit_loaded"
    by (simp add: all_idle_def kv init_slots_def slot_reset_def server_slot_new_def is_processing_def)
  then have up: "update_slots wit_cfg wit_decode_env 0 wit_loaded = Some (Inr (kv_cache_clear wit_loaded))"
    by (simp add: update_slots_def kv)
  have "sync_reach wit_params wit_cfg wit_decode_env (kv_cache_clear wit_loaded)"
    by (rule sync_init [of 1 4 wit_loaded "-1", OF _ _ _ _ kv(3) ok kv(4) _ up])
      (use \<open>kv_size wit_kv = 4\<close> kv in \<open>simp_all add: c_div_def int32_max_def\<close>)
  then have r: "sync_reach wit_params wit_cfg wit_decode_env (upd_queue (enqueue (wit_task 1) False) (kv_cache_clear wit_loaded))"
    by (rule sync_post)
  have "queue_tasks (queue (upd_queue (enqueue (wit_task 1) False) (kv_cache_clear wit_loaded))) = [wit_task 1]"
    by (simp add: kv_cache_clear_def wit_loaded_def wit_server_def enqueue_def wit_task_def server_task_new_def)
  moreover have "plain_task (wit_task 1)" by (simp add: plain_task_def wit_task_def server_task_new_def default_params_def)
  ultimately show ?thesis unfolding wit_launched_def by (rule sync_take [OF r])
qed

theorem server_in_sync_witness:
  "length (slots wit_launched) = 1 \<and> s_state (slots wit_launched ! 0) = SLOT_STATE_STARTED
     \<and> (\<exists>st'. update_slots wit_cfg wit_decode_env 2 wit_launched = Some (Inr st'))"
proof -
  have "length (slots wit_launched) = 1 \<and> s_state (slots wit_launched ! 0) = SLOT_STATE_STARTED" by code_simp
  then show ?thesis using server_in_sync [OF wit_sync_reach wit_env_ok, of 2] by blast
qed

theorem batch_in_sync_witness:
  "\<exists>st'. build_batch wit_cfg 2 wit_launched = Inr st' \<and> length (slots st') = length (slots wit_launched)"
  using batch_in_sync [OF wit_sync_reach wit_env_ok, of 2] by blast

end
