(* ===== verification/Rag.thy ===== *)
theory Rag
  imports Prelude "HOL-Library.Word" "HOL-Library.Sublist"
begin

text \<open>
  Retrieval-augmented generation: cutting a document into pieces for the embedding model and the
  embeddings into overlapping windows for the database (\<open>handle_chunking\<close> and \<open>get_brutal_chunking\<close> of
  \<open>tools/server/server.cpp\<close>), choosing the retrieved documents and building the augmented prompt (the
  handler of \<open>/v1/chat/completions-rag\<close>), and the hexadecimal encoding of keys and contents
  (\<open>tools/rag_core/postgres_client.cpp\<close>).

  The components of an embedding are rational numbers: a \<open>float\<close> is one, and the rounding of their sums
  is not modelled. The text of tokens, the insertion into the database, the comparison and decryption
  of keys are parameters (tokenizer, libpq, OpenSSL).
\<close>

section \<open>Pieces for the embedding model\<close>

text \<open>\<open>ideal_stream_size\<close>, \<open>internal_rag_chunk_size\<close> and the two sizes derived from it.\<close>

definition stream_size :: nat where "stream_size = 2048"
definition rag_chunk_size :: nat where "rag_chunk_size = 300"
definition rag_overlap :: nat where "rag_overlap = rag_chunk_size div 3"
definition rag_step :: nat where "rag_step = rag_chunk_size - rag_overlap"

text \<open>The loop that cuts pieces of one step off the end, in the order it pushes them.\<close>

function cut_steps :: "int list \<Rightarrow> nat \<Rightarrow> int list list \<times> nat" where
  "cut_steps toks last_pos =
     (if last_pos > stream_size then
        let (cs, p) = cut_steps toks (last_pos - rag_step)
        in (take rag_step (drop (last_pos - rag_step) toks) # cs, p)
      else ([], last_pos))"
  by pat_completeness auto
termination
  by (relation "measure snd") (auto simp: stream_size_def rag_step_def rag_overlap_def rag_chunk_size_def)

declare cut_steps.simps [simp del]

definition split_prompt :: "int list \<Rightarrow> int list list" where
  "split_prompt toks =
     (if length toks \<le> stream_size then [toks]
      else
        let n = length toks;
            last_size = (n - rag_chunk_size) mod rag_overlap;
            first = (if last_size \<noteq> 0 then [drop (n - last_size) toks] else []);
            (cs, p) = cut_steps toks (n - last_size);
            final = (if p \<noteq> 0 then [take p toks] else [])
        in rev (first @ cs @ final))"

definition embedding_chunks :: "int list list \<Rightarrow> int list list" where
  "embedding_chunks prompts = concat (map split_prompt prompts)"

section \<open>Windows for the database\<close>

type_synonym embedding = "rat list"

text \<open>The average of the vectors, component by component; the size is the one of the first vector.\<close>

definition chunk_vector :: "embedding list \<Rightarrow> embedding" where
  "chunk_vector vs =
     (let n = length (hd vs);
          sum = fold (\<lambda>v acc. map (\<lambda>d. acc ! d + v ! d) [0..<n]) vs (replicate n 0)
      in map (\<lambda>x. x / of_nat (length vs)) sum)"

text \<open>
  The variables of the handler that the callback of \<open>receive_streamed_results\<close> captures. \<open>inserted\<close> lists the
  entries given to the database: the vector and the text.
\<close>

record 'c chunking =
  all_prompt :: "int list"
  all_embedding :: "embedding list"
  position :: int
  is_last_block :: bool
  inserted :: "(embedding \<times> 'c) list"
  responses :: "(int \<times> nat) list"
  failed :: bool

definition chunking_start :: "int list list \<Rightarrow> 'c chunking" where
  "chunking_start prompts = \<lparr>all_prompt = hd prompts, all_embedding = [], position = 0, is_last_block = False,
     inserted = [], responses = [], failed = False\<rparr>"

text \<open>One window of \<open>sz\<close> tokens: insertion and response; \<open>None\<close> when the insertion throws.\<close>

definition insert_window ::
  "(int list \<Rightarrow> 'c) \<Rightarrow> (embedding \<times> 'c \<Rightarrow> bool) \<Rightarrow> nat \<Rightarrow> 'c chunking \<Rightarrow> 'c chunking option" where
  "insert_window detok db_ok sz st =
     (let e = (chunk_vector (take sz (all_embedding st)), detok (take sz (all_prompt st))) in
      if db_ok e then Some (st\<lparr>inserted := inserted st @ [e], responses := responses st @ [(position st, sz)]\<rparr>)
      else None)"

text \<open>
  The loop of the callback. \<open>single\<close> is \<open>task_n + 1 == embedding_chunks.size()\<close>: the handler never changes
  \<open>task_n\<close>, which is 0, so this is whether there is only one piece.
\<close>

function window_loop ::
  "(int list \<Rightarrow> 'c) \<Rightarrow> (embedding \<times> 'c \<Rightarrow> bool) \<Rightarrow> bool \<Rightarrow> 'c chunking \<Rightarrow> 'c chunking" where
  "window_loop detok db_ok single st =
     (if length (all_embedding st) \<ge> rag_chunk_size then
        case insert_window detok db_ok rag_chunk_size st of
          None \<Rightarrow> st\<lparr>failed := True\<rparr>
        | Some st1 \<Rightarrow>
            if is_last_block st then st1
            else window_loop detok db_ok single
                   (st1\<lparr>position := position st1 + int rag_step, all_embedding := drop rag_step (all_embedding st),
                        all_prompt := drop rag_step (all_prompt st)\<rparr>)
      else if single then
        (case insert_window detok db_ok (length (all_embedding st)) (st\<lparr>is_last_block := True\<rparr>) of
           None \<Rightarrow> st\<lparr>is_last_block := True, failed := True\<rparr>
         | Some st1 \<Rightarrow> st1)
      else st)"
  by pat_completeness auto
termination
  by (relation "measure (\<lambda>(_, _, _, st). length (all_embedding st))")
    (auto simp: rag_step_def rag_overlap_def rag_chunk_size_def)

declare window_loop.simps [simp del]

text \<open>The callback for the vectors of one result; \<open>all_embedding[0]\<close> is read before the loop.\<close>

definition on_embeddings ::
  "(int list \<Rightarrow> 'c) \<Rightarrow> (embedding \<times> 'c \<Rightarrow> bool) \<Rightarrow> bool \<Rightarrow> embedding list \<Rightarrow> 'c chunking \<Rightarrow> 'c chunking res" where
  "on_embeddings detok db_ok single vs st =
     (if failed st then Inr st
      else
        let st1 = st\<lparr>all_embedding := all_embedding st @ vs\<rparr> in
        if length (all_embedding st1) > length (all_prompt st1) then Inr st1
        else if all_embedding st1 = [] then Inl Out_of_range
        else Inr (window_loop detok db_ok single st1))"

text \<open>
  What one iteration of \<open>receive_streamed_results\<close> sees: whether the connection is closed, and no result yet,
  an error, or the vectors of a result. \<open>remaining\<close> counts the results still to receive; the outcome says
  how the loop ended, or that it still waits at the end of the list.
\<close>

datatype poll = Poll_none | Poll_error | Poll_result "embedding list"

datatype stream_end = Stream_done | Stream_closed | Stream_error | Stream_waiting

fun receive_streamed ::
  "(embedding list \<Rightarrow> 's \<Rightarrow> 's res) \<Rightarrow> ('s \<Rightarrow> 's) \<Rightarrow> nat \<Rightarrow> (bool \<times> poll) list \<Rightarrow> 's
     \<Rightarrow> (stream_end \<times> 's) res" where
  "receive_streamed handler on_error 0 polls s = Inr (Stream_done, s)"
| "receive_streamed handler on_error (Suc n) [] s = Inr (Stream_waiting, s)"
| "receive_streamed handler on_error (Suc n) ((gone, r) # polls) s =
     (if gone then Inr (Stream_closed, s)
      else case r of
        Poll_none \<Rightarrow> receive_streamed handler on_error (Suc n) polls s
      | Poll_error \<Rightarrow> Inr (Stream_error, on_error s)
      | Poll_result vs \<Rightarrow> bind_res (handler vs s) (receive_streamed handler on_error n polls))"

text \<open>The handler: all prompts are cut and sent, the results come back in the order of the polls.\<close>

definition handle_chunking ::
  "(int list \<Rightarrow> 'c) \<Rightarrow> (embedding \<times> 'c \<Rightarrow> bool) \<Rightarrow> int list list \<Rightarrow> (bool \<times> poll) list
     \<Rightarrow> (stream_end \<times> 'c chunking) res" where
  "handle_chunking detok db_ok prompts polls =
     (let n = length (embedding_chunks prompts)
      in receive_streamed (on_embeddings detok db_ok (n = 1)) (\<lambda>st. st\<lparr>failed := True\<rparr>) n polls (chunking_start prompts))"

section \<open>Cutting loses nothing\<close>

lemma sizes [simp]: "stream_size = 2048" "rag_chunk_size = 300" "rag_overlap = 100" "rag_step = 200"
  by (simp_all add: stream_size_def rag_chunk_size_def rag_overlap_def rag_step_def)

lemma take_drop_take:
  assumes "n \<le> m" "m \<le> length xs"
  shows "take n xs @ take (m - n) (drop n xs) = take m xs"
  using assms by (metis le_add_diff_inverse take_add)

lemma cut_steps_correct:
  assumes "last_pos \<le> length toks" "0 < last_pos" "cut_steps toks last_pos = (cs, p)"
  shows "take p toks @ concat (rev cs) = take last_pos toks \<and> 0 < p \<and> p \<le> stream_size
    \<and> list_all (\<lambda>c. length c = rag_step) cs"
  using assms
proof (induction toks last_pos arbitrary: cs p rule: cut_steps.induct)
  case (1 toks last_pos)
  show ?case
  proof (cases "last_pos > stream_size")
    case True
    obtain cs1 where cs1: "cut_steps toks (last_pos - rag_step) = (cs1, p)"
      "cs = take rag_step (drop (last_pos - rag_step) toks) # cs1"
      using 1(4) True by (simp add: cut_steps.simps [of toks last_pos] split: prod.splits)
    have "take p toks @ concat (rev cs1) = take (last_pos - rag_step) toks \<and> 0 < p \<and> p \<le> stream_size
        \<and> list_all (\<lambda>c. length c = rag_step) cs1"
      using True 1(2) cs1(1) by (intro 1(1)) simp_all
    moreover have "take (last_pos - rag_step) toks @ take rag_step (drop (last_pos - rag_step) toks) = take last_pos toks"
      using take_drop_take [of "last_pos - rag_step" last_pos toks] True 1(2) by simp
    ultimately show ?thesis using 1(2) True unfolding cs1(2) by (simp flip: append_assoc)
  next
    case False
    then show ?thesis using 1(3,4) by (simp add: cut_steps.simps [of toks last_pos])
  qed
qed

lemma split_prompt_correct:
  "concat (split_prompt toks) = toks
   \<and> (toks \<noteq> [] \<longrightarrow> list_all (\<lambda>c. 0 < length c \<and> length c \<le> stream_size) (split_prompt toks))
   \<and> (length toks > stream_size \<longrightarrow> 1 < length (split_prompt toks))"
proof (cases "length toks \<le> stream_size")
  case True
  then show ?thesis by (simp add: split_prompt_def)
next
  case False
  let ?n = "length toks"
  let ?l = "(?n - rag_chunk_size) mod rag_overlap"
  have l: "?l < 100" "?l < ?n" using False by simp_all
  obtain cs p where cut: "cut_steps toks (?n - ?l) = (cs, p)" by fastforce
  have c: "take p toks @ concat (rev cs) = take (?n - ?l) toks" "0 < p" "p \<le> stream_size" "list_all (\<lambda>c. length c = rag_step) cs"
    using cut_steps_correct [OF _ _ cut] l by simp_all
  have split: "split_prompt toks = [take p toks] @ rev cs @ (if ?l \<noteq> 0 then [drop (?n - ?l) toks] else [])"
    using False c(2) cut by (simp add: split_prompt_def Let_def)
  have "concat (split_prompt toks) = take (?n - ?l) toks @ drop (?n - ?l) toks"
    unfolding split using c(1) by (simp flip: append_assoc)
  moreover have "list_all (\<lambda>c. 0 < length c \<and> length c \<le> stream_size) (split_prompt toks)"
    unfolding split using c(2-4) l False by (auto simp: list_all_iff)
  moreover have "1 < length (split_prompt toks)"
  proof (rule ccontr)
    assume "\<not> 1 < length (split_prompt toks)"
    then have "cs = []" "?l = 0" unfolding split by (auto split: if_splits)
    then have "take p toks = toks" using c(1) by simp
    then show False using c(3) False by (metis length_take min.cobounded2 order.trans)
  qed
  ultimately show ?thesis by simp
qed

section \<open>The windows\<close>

text \<open>The entry for window \<open>k\<close> of a text with the vectors \<open>vs\<close>, and the number of windows that are full.\<close>

definition rag_window :: "nat \<Rightarrow> 'x list \<Rightarrow> 'x list" where
  "rag_window k xs = take rag_chunk_size (drop (k * rag_step) xs)"

definition rag_entry :: "(int list \<Rightarrow> 'c) \<Rightarrow> embedding list \<Rightarrow> int list \<Rightarrow> nat \<Rightarrow> embedding \<times> 'c" where
  "rag_entry detok vs toks k = (chunk_vector (rag_window k vs), detok (rag_window k toks))"

definition n_full :: "nat \<Rightarrow> nat" where
  "n_full n = (n - rag_overlap) div rag_step"

lemma n_full_iff: "k < n_full n \<longleftrightarrow> k * 200 + 300 \<le> n"
proof -
  have "k < n_full n \<longleftrightarrow> Suc k \<le> (n - 100) div 200" unfolding n_full_def Suc_le_eq by simp
  also have "\<dots> \<longleftrightarrow> Suc k * 200 \<le> n - 100" by (rule less_eq_div_iff_mult_less_eq) simp
  finally show ?thesis by auto
qed

text \<open>The first \<open>f\<close> windows of the vectors \<open>vs\<close> are in the database.\<close>

definition windows_done :: "(int list \<Rightarrow> 'c) \<Rightarrow> embedding list \<Rightarrow> int list \<Rightarrow> nat \<Rightarrow> 'c chunking \<Rightarrow> bool" where
  "windows_done detok vs toks f st \<longleftrightarrow>
     all_embedding st = drop (f * rag_step) vs \<and> all_prompt st = drop (f * rag_step) toks \<and> position st = int (f * rag_step)
     \<and> inserted st = map (rag_entry detok vs toks) [0..<f]
     \<and> responses st = map (\<lambda>k. (int (k * rag_step), rag_chunk_size)) [0..<f]
     \<and> \<not> is_last_block st \<and> \<not> failed st"

lemma rag_entry_append:
  assumes "k < n_full (length vs)"
  shows "rag_entry detok (vs @ ws) toks k = rag_entry detok vs toks k"
  using assms by (simp add: rag_entry_def rag_window_def n_full_iff)

lemma window_loop_done:
  assumes "windows_done detok vs toks f st" "f \<le> n_full (length vs)" "\<forall>e. db_ok e"
  shows "\<exists>st'. windows_done detok vs toks (n_full (length vs)) st'
    \<and> window_loop detok db_ok single st = (if single then st'\<lparr>is_last_block := True,
         inserted := inserted st' @ [(chunk_vector (all_embedding st'), detok (take (length (all_embedding st')) (all_prompt st')))],
         responses := responses st' @ [(position st', length (all_embedding st'))]\<rparr> else st')"
  using assms(1,2)
proof (induction "n_full (length vs) - f" arbitrary: f st)
  case 0
  then have f: "f = n_full (length vs)" by simp
  then have "length vs < f * 200 + 300" using n_full_iff [of f "length vs"] by simp
  then have short: "\<not> rag_chunk_size \<le> length (all_embedding st)" using 0(2) by (auto simp: windows_done_def)
  then show ?case
    using 0(2) f assms(3)
    by (intro exI [of _ st]) (simp add: window_loop.simps [of _ _ _ st] insert_window_def Let_def windows_done_def)
next
  case (Suc n)
  then have lt: "f < n_full (length vs)" by simp
  then have full: "rag_chunk_size \<le> length (all_embedding st)"
    using Suc(3) by (auto simp: windows_done_def n_full_iff)
  let ?e = "(chunk_vector (take rag_chunk_size (all_embedding st)), detok (take rag_chunk_size (all_prompt st)))"
  let ?st1 = "st\<lparr>inserted := inserted st @ [?e], responses := responses st @ [(position st, rag_chunk_size)],
     position := position st + int rag_step, all_embedding := drop rag_step (all_embedding st), all_prompt := drop rag_step (all_prompt st)\<rparr>"
  have "window_loop detok db_ok single st = window_loop detok db_ok single ?st1"
    using full assms(3) Suc(3)
    by (simp add: window_loop.simps [of _ _ _ st] insert_window_def Let_def windows_done_def)
  moreover have "windows_done detok vs toks (Suc f) ?st1"
    using Suc(3) by (simp add: windows_done_def rag_entry_def rag_window_def add.commute)
  ultimately show ?case using Suc(1) [of "Suc f" ?st1] Suc(2) lt by simp
qed

lemma on_embeddings_done:
  assumes "windows_done detok vs toks (n_full (length vs)) st" "ws \<noteq> []" "length (vs @ ws) \<le> length toks" "\<forall>e. db_ok e"
  shows "\<exists>st'. on_embeddings detok db_ok False ws st = Inr st'
    \<and> windows_done detok (vs @ ws) toks (n_full (length (vs @ ws))) st'"
proof -
  let ?f = "n_full (length vs)"
  let ?st1 = "st\<lparr>all_embedding := all_embedding st @ ws\<rparr>"
  have le: "?f \<le> n_full (length (vs @ ws))" by (simp add: n_full_def div_le_mono)
  have fv: "?f * 200 \<le> length vs"
    using n_full_iff [of "?f - 1" "length vs"] by (cases "?f") auto
  have d: "windows_done detok (vs @ ws) toks ?f ?st1"
    using assms(1) fv by (simp add: windows_done_def rag_entry_append)
  have "length (all_embedding ?st1) \<le> length (all_prompt ?st1)" "all_embedding ?st1 \<noteq> []" "\<not> failed st"
    using assms(1,2,3) fv by (simp_all add: windows_done_def)
  then show ?thesis
    using window_loop_done [OF d le assms(4), of False] by (simp add: on_embeddings_def Let_def not_less)
qed

lemma receive_all_done:
  assumes "windows_done detok vs toks (n_full (length vs)) st" "list_all (\<lambda>ws. ws \<noteq> []) arr" "length (vs @ concat arr) \<le> length toks"
    "\<forall>e. db_ok e"
  shows "\<exists>st'. receive_streamed (on_embeddings detok db_ok False) on_error (length arr) (map (\<lambda>ws. (False, Poll_result ws)) arr) st
      = Inr (Stream_done, st')
    \<and> windows_done detok (vs @ concat arr) toks (n_full (length (vs @ concat arr))) st'"
  using assms(1-3)
proof (induction arr arbitrary: vs st)
  case (Cons ws arr)
  have ws: "ws \<noteq> []" "length (vs @ ws) \<le> length toks" using Cons.prems(2,3) by simp_all
  obtain st1 where st1: "on_embeddings detok db_ok False ws st = Inr st1"
    "windows_done detok (vs @ ws) toks (n_full (length (vs @ ws))) st1"
    using on_embeddings_done [OF Cons.prems(1) ws assms(4)] by blast
  show ?case using Cons.IH [OF st1(2)] Cons.prems(2,3) st1(1) by simp
qed simp

lemma windows_start: "windows_done detok [] toks (n_full (length ([] :: embedding list))) (chunking_start [toks])"
  by (simp add: windows_done_def chunking_start_def n_full_def)

section \<open>Properties of the chunking\<close>

text \<open>
  C36. A document is cut for the embedding model without loss: the pieces, in order, are its tokens, none
  is empty and none is longer than one pass of the model takes.
\<close>

theorem split_prompt_exact:
  assumes "[] \<notin> set prompts"
  shows "concat (embedding_chunks prompts) = concat prompts
    \<and> list_all (\<lambda>c. 0 < length c \<and> length c \<le> stream_size) (embedding_chunks prompts)"
  using assms
proof (induction prompts)
  case (Cons toks prompts)
  then show ?case using split_prompt_correct [of toks] by (auto simp: embedding_chunks_def)
qed (simp add: embedding_chunks_def)

theorem split_prompt_exact_witness:
  "concat (embedding_chunks [replicate 2350 7, [8, 9]]) = replicate 2350 7 @ [8, 9]"
  using split_prompt_exact [of "[replicate 2350 7, [8, 9 :: int]]"] by simp

text \<open>
  C23. A document of one piece is indexed completely: the entries are the windows of 300 tokens, 200 apart, up
  to the end, each with the average of the vectors of its own tokens, and every token is in one.
\<close>

theorem rag_single_covers:
  assumes "toks \<noteq> []" "length toks \<le> stream_size" "length vs = length toks" "\<forall>e. db_ok e"
  defines "n \<equiv> Suc (n_full (length toks))"
  shows "\<exists>st. handle_chunking detok db_ok [toks] [(False, Poll_result vs)] = Inr (Stream_done, st) \<and> \<not> failed st
    \<and> inserted st = map (rag_entry detok vs toks) [0..<n]
    \<and> responses st = map (\<lambda>k. (int (k * rag_step), min rag_chunk_size (length toks - k * rag_step))) [0..<n]
    \<and> (\<forall>i < length toks. \<exists>k < n. k * rag_step \<le> i \<and> i < k * rag_step + rag_chunk_size)"
proof -
  let ?f = "n_full (length toks)"
  let ?st0 = "chunking_start [toks]\<lparr>all_embedding := vs\<rparr>"
  have start: "windows_done detok vs toks 0 ?st0" by (simp add: windows_done_def chunking_start_def)
  obtain st where st: "windows_done detok vs toks ?f st" "window_loop detok db_ok True ?st0 = st\<lparr>is_last_block := True,
      inserted := inserted st @ [(chunk_vector (all_embedding st), detok (take (length (all_embedding st)) (all_prompt st)))],
      responses := responses st @ [(position st, length (all_embedding st))]\<rparr>" (is "_ = ?st'")
    using window_loop_done [OF start _ assms(4), of True] assms(3) by auto
  have "vs \<noteq> []" using assms(1,3) by auto
  then have "handle_chunking detok db_ok [toks] [(False, Poll_result vs)] = Inr (Stream_done, ?st')"
    using assms(1-3) st(2)
    by (simp add: handle_chunking_def embedding_chunks_def split_prompt_def on_embeddings_def chunking_start_def Let_def)
  moreover have short: "length toks < ?f * 200 + 300" using n_full_iff [of ?f "length toks"] by simp
  have "inserted ?st' = map (rag_entry detok vs toks) [0..<n]"
    using st(1) short assms(3) by (simp add: windows_done_def n_def rag_entry_def rag_window_def)
  moreover have "min 300 (length toks - k * 200) = 300" if "k < ?f" for k
    using that n_full_iff [of k "length toks"] by simp
  then have "responses ?st' = map (\<lambda>k. (int (k * rag_step), min rag_chunk_size (length toks - k * rag_step))) [0..<n]"
    using st(1) short assms(3) by (auto simp: windows_done_def n_def)
  moreover have "\<exists>k < n. k * rag_step \<le> i \<and> i < k * rag_step + rag_chunk_size" if "i < length toks" for i
  proof (cases "i div 200 \<le> ?f")
    case True
    then show ?thesis using mod_div_mult_eq [of i 200] mod_less_divisor [of 200 i]
      by (intro exI [of _ "i div 200"]) (simp add: n_def)
  next
    case False
    then have "?f < i div 200" by simp
    then have "?f * 200 \<le> i" by simp
    then show ?thesis using short that by (intro exI [of _ ?f]) (simp add: n_def)
  qed
  moreover have "\<not> failed ?st'" using st(1) by (simp add: windows_done_def)
  ultimately show ?thesis by blast
qed

theorem rag_single_covers_witness:
  "\<exists>st. handle_chunking length (\<lambda>_. True) [replicate 350 7] [(False, Poll_result (replicate 350 [1]))] = Inr (Stream_done, st)
    \<and> map snd (inserted st) = [300, 150] \<and> responses st = [(0, 300), (200, 150)]"
proof -
  obtain st where st: "handle_chunking length (\<lambda>_. True) [replicate 350 7] [(False, Poll_result (replicate 350 [1]))] = Inr (Stream_done, st)"
    "inserted st = map (rag_entry length (replicate 350 [1]) (replicate 350 7)) [0..<Suc (n_full 350)]"
    "responses st = map (\<lambda>k. (int (k * rag_step), min rag_chunk_size (350 - k * rag_step))) [0..<Suc (n_full 350)]"
    using rag_single_covers [of "replicate 350 7" "replicate 350 [1]" "\<lambda>_. True" length] by auto
  moreover have "[0..<Suc (n_full 350)] = [0, 1]" by (simp add: n_full_def upt_rec)
  ultimately show ?thesis by (simp add: rag_entry_def rag_window_def)
qed

text \<open>
  C40. The end of a longer document is never indexed, because \<open>task_n\<close> is not counted up: whatever the
  order of the results, only the full windows are inserted, and the last \<open>(n - 100) mod 200\<close> tokens are in
  none. The vectors are taken in the order the results arrive, the text in the order of the document.
\<close>

theorem rag_tail_lost:
  assumes "length toks > stream_size" "length arr = length (split_prompt toks)" "list_all (\<lambda>vs. vs \<noteq> []) arr"
    and "length (concat arr) = length toks" "\<forall>e. db_ok e"
  defines "lost \<equiv> (length toks - rag_overlap) mod rag_step"
  shows "\<exists>st. handle_chunking detok db_ok [toks] (map (\<lambda>vs. (False, Poll_result vs)) arr) = Inr (Stream_done, st) \<and> \<not> failed st
    \<and> inserted st = map (rag_entry detok (concat arr) (take (length toks - lost) toks)) [0..<n_full (length toks)]"
proof -
  have "length (embedding_chunks [toks]) \<noteq> 1" "length (embedding_chunks [toks]) = length arr"
    using split_prompt_correct [of toks] assms(1,2) by (auto simp: embedding_chunks_def)
  then obtain st where st: "handle_chunking detok db_ok [toks] (map (\<lambda>vs. (False, Poll_result vs)) arr) = Inr (Stream_done, st)"
    "windows_done detok (concat arr) toks (n_full (length toks)) st"
    using receive_all_done [OF windows_start [of detok toks] assms(3) _ assms(5), of "\<lambda>st. st\<lparr>failed := True\<rparr>"] assms(4)
    by (auto simp: handle_chunking_def)
  have "rag_entry detok (concat arr) toks k = rag_entry detok (concat arr) (take (length toks - lost) toks) k"
    if "k < n_full (length toks)" for k
  proof -
    have "n_full (length toks) * 200 + 100 + lost = length toks"
      using assms(1) by (simp add: n_full_def lost_def) 
    then have "k * 200 + 300 \<le> length toks - lost" using that by linarith
    then have "rag_window k (take (length toks - lost) toks) = rag_window k toks"
      by (simp add: rag_window_def drop_take min_absorb1)
    then show ?thesis by (simp add: rag_entry_def)
  qed
  then show ?thesis using st by (auto simp: windows_done_def)
qed

theorem rag_tail_lost_witness:
  "\<exists>st arr. handle_chunking length (\<lambda>_. True) [replicate 2450 7] (map (\<lambda>vs. (False, Poll_result vs)) arr) = Inr (Stream_done, st)
    \<and> length (concat arr) = 2450
    \<and> inserted st = map (rag_entry length (concat arr) (replicate 2300 7)) [0..<11]"
proof -
  let ?toks = "replicate 2450 (7 :: int)"
  let ?arr = "map (\<lambda>c. map (\<lambda>t. [1 :: rat]) c) (split_prompt ?toks)"
  have c: "concat (split_prompt ?toks) = ?toks" "list_all (\<lambda>c. 0 < length c \<and> length c \<le> stream_size) (split_prompt ?toks)"
    using split_prompt_correct [of ?toks] by (metis Zero_not_Suc length_replicate list.size(3) numeral_eq_Suc)+
  have len: "length (concat ?arr) = 2450"
    using arg_cong [OF c(1), of length] by (simp add: length_concat o_def)
  obtain st where "handle_chunking length (\<lambda>_. True) [?toks] (map (\<lambda>vs. (False, Poll_result vs)) ?arr) = Inr (Stream_done, st)"
    "inserted st = map (rag_entry length (concat ?arr) (take (2450 - (2450 - rag_overlap) mod rag_step) ?toks)) [0..<n_full 2450]"
    using rag_tail_lost [of ?toks ?arr "\<lambda>_. True" length] c(2) len by (auto simp: list_all_iff)
  then show ?thesis using len by (intro exI [of _ st] exI [of _ ?arr]) (simp add: n_full_def)
qed

section \<open>Hexadecimal strings\<close>

definition hex_char :: "nat \<Rightarrow> char" where
  "hex_char n = ''0123456789abcdef'' ! n"

definition hex_val :: "char \<Rightarrow> nat option" where
  "hex_val c =
     (let n = (of_char c :: nat) in
      if 48 \<le> n \<and> n \<le> 57 then Some (n - 48)
      else if 65 \<le> n \<and> n \<le> 70 then Some (n - 55)
      else if 97 \<le> n \<and> n \<le> 102 then Some (n - 87) else None)"

definition is_space :: "char \<Rightarrow> bool" where
  "is_space c \<longleftrightarrow> (of_char c :: nat) = 32 \<or> 9 \<le> (of_char c :: nat) \<and> (of_char c :: nat) \<le> 13"

text \<open>
  \<open>std::stoul\<close> with base 16: leading space, a sign, the prefix \<open>0x\<close>, digits up to the first other character.
  A minus sign negates the unsigned result. (Two characters cannot overflow.)
\<close>

definition hex_prefix :: "string \<Rightarrow> string" where
  "hex_prefix s =
     (case s of z # x # d # ds \<Rightarrow> if z = CHR ''0'' \<and> (x = CHR ''x'' \<or> x = CHR ''X'') \<and> hex_val d \<noteq> None then d # ds else s
      | _ \<Rightarrow> s)"

definition stoul16 :: "string \<Rightarrow> 64 word res" where
  "stoul16 s =
     (let s1 = dropWhile is_space s;
          neg = (s1 \<noteq> [] \<and> hd s1 = CHR ''-'');
          s2 = (if s1 \<noteq> [] \<and> (hd s1 = CHR ''-'' \<or> hd s1 = CHR ''+'') then tl s1 else s1);
          ds = takeWhile (\<lambda>c. hex_val c \<noteq> None) (hex_prefix s2);
          v = fold (\<lambda>c n. 16 * n + the (hex_val c)) ds 0
      in if ds = [] then Inl (Throw ''stoul'') else Inr (if neg then - word_of_nat v else word_of_nat v))"

fun hex_pairs :: "string \<Rightarrow> 8 word list res" where
  "hex_pairs (a # b # cs) = bind_res (stoul16 [a, b]) (\<lambda>v. bind_res (hex_pairs cs) (\<lambda>bs. Inr (ucast v # bs)))"
| "hex_pairs _ = Inr []"

definition hex_to_bytes :: "string \<Rightarrow> 8 word list res" where
  "hex_to_bytes s = (if odd (length s) then Inl (Throw ''Hex string must have an even length.'') else hex_pairs s)"

definition bytes_to_hex :: "8 word list \<Rightarrow> string" where
  "bytes_to_hex bs = concat (map (\<lambda>b. [hex_char (unat b div 16), hex_char (unat b mod 16)]) bs)"

text \<open>\<open>hex_to_byte_array<N>\<close>: an array is padded with zeros.\<close>

definition hex_to_byte_array :: "nat \<Rightarrow> string \<Rightarrow> bool \<Rightarrow> 8 word list res" where
  "hex_to_byte_array n s allow =
     bind_res (hex_to_bytes s) (\<lambda>v.
       if \<not> allow \<and> length v \<noteq> n then Inl (Throw ''hex string has incorrect length'')
       else Inr (take n v @ replicate (n - length v) 0))"

lemma hex_char_val:
  assumes "n < 16"
  shows "hex_val (hex_char n) = Some n" "\<not> is_space (hex_char n)" "hex_char n \<noteq> CHR ''-''" "hex_char n \<noteq> CHR ''+''"
proof -
  have "list_all (\<lambda>n. hex_val (hex_char n) = Some n \<and> \<not> is_space (hex_char n) \<and> hex_char n \<noteq> CHR ''-'' \<and> hex_char n \<noteq> CHR ''+'')
      [0..<16]" by code_simp
  then show "hex_val (hex_char n) = Some n" "\<not> is_space (hex_char n)" "hex_char n \<noteq> CHR ''-''" "hex_char n \<noteq> CHR ''+''"
    using assms by (simp_all add: list_all_iff)
qed

lemma stoul16_digits:
  assumes "a < 16" "b < 16"
  shows "stoul16 [hex_char a, hex_char b] = Inr (word_of_nat (16 * a + b))"
  using assms by (simp add: stoul16_def hex_char_val hex_prefix_def Let_def)

text \<open>
  C17. Encoding and decoding of keys and contents are inverse: every byte string comes back, also as an
  array of its length, and an array of another length is refused.
\<close>

theorem hex_roundtrip:
  "hex_to_bytes (bytes_to_hex bs) = Inr bs
   \<and> hex_to_byte_array n (bytes_to_hex bs) False
     = (if n = length bs then Inr bs else Inl (Throw ''hex string has incorrect length''))"
proof -
  have byte: "ucast (word_of_nat (16 * (unat b div 16) + unat b mod 16) :: 64 word) = b" for b :: "8 word"
    by (simp add: unsigned_ucast_eq take_bit_word_eq_self flip: ucast_eq)
  have "hex_pairs (bytes_to_hex bs) = Inr bs"
  proof (induction bs)
    case (Cons b bs)
    have "unat b div 16 < 16" "unat b mod 16 < 16" using unsigned_less [of b, where ?'a = nat] by simp_all
    then show ?case
      using Cons.IH byte [of b] by (simp add: bytes_to_hex_def stoul16_digits del: mult_div_mod_eq)
  qed (simp add: bytes_to_hex_def)
  moreover have "even (length (bytes_to_hex bs))" by (induction bs) (simp_all add: bytes_to_hex_def)
  ultimately show ?thesis by (auto simp: hex_to_bytes_def hex_to_byte_array_def)
qed

text \<open>
  Strings that are not hexadecimal are accepted by \<open>hex_to_bytes\<close> when a number starts them: a sign, a space or
  a trailing character that is no digit.
\<close>

theorem hex_lenient:
  "hex_to_bytes ''-1'' = Inr [255] \<and> hex_to_bytes ''1g'' = Inr [1] \<and> hex_to_bytes '' 1'' = Inr [1]
   \<and> hex_to_bytes ''g1'' = Inl (Throw ''stoul'')"
  by code_simp

section \<open>Choosing the documents\<close>

text \<open>
  A retrieved entry. \<open>own_pk\<close> is the public key of the server, \<open>zero_pk\<close> the key of zeros that marks a content that
  is not encrypted; decrypting may fail with an empty text.
\<close>

record 'k retrieved =
  rt_recipient :: 'k
  rt_ephemeral :: 'k
  rt_content :: string

definition readable_documents :: "'k \<Rightarrow> 'k \<Rightarrow> ('k retrieved \<Rightarrow> string) \<Rightarrow> 'k retrieved list \<Rightarrow> string list" where
  "readable_documents own_pk zero_pk decrypt entries =
     filter (\<lambda>d. d \<noteq> '''')
       (map (\<lambda>e. if rt_ephemeral e = zero_pk then rt_content e else decrypt e)
         (filter (\<lambda>e. rt_recipient e = own_pk) entries))"

text \<open>\<open>documents.resize(n)\<close>: a negative \<open>int\<close> becomes a size that no vector has.\<close>

definition resize_documents :: "int \<Rightarrow> string list \<Rightarrow> string list res" where
  "resize_documents n docs =
     (if n < 0 then Inl (Throw ''length_error'')
      else Inr (take (nat n) docs @ replicate (nat n - length docs) ''''))"

text \<open>
  The ranking: sorted by descending score. (The sort of the library may order equal scores
  differently.)
\<close>

definition ranked_documents :: "(string list \<Rightarrow> rat list) \<Rightarrow> string list \<Rightarrow> string list" where
  "ranked_documents score docs = map snd (sort_key (\<lambda>x. - fst x) (zip (score docs) docs))"

text \<open>The loop that takes documents off the ranking; \<open>n_augmentations\<close> is not counted up.\<close>

fun take_ranked :: "int \<Rightarrow> int \<Rightarrow> string list \<Rightarrow> string list" where
  "take_ranked n_max n_aug [] = []"
| "take_ranked n_max n_aug (d # ds) = (if n_aug \<ge> n_max then [] else d # take_ranked n_max n_aug ds)"

definition select_documents ::
  "bool \<Rightarrow> int \<Rightarrow> int \<Rightarrow> (string list \<Rightarrow> rat list) \<Rightarrow> string list \<Rightarrow> string list res" where
  "select_documents use_reranking n_max n_retrieve score docs =
     (if use_reranking then Inr (take_ranked n_max 0 (if docs = [] then [] else ranked_documents score docs))
      else if n_max < n_retrieve then resize_documents n_max docs
      else Inr docs)"

lemma take_ranked_all: "take_ranked n_max n_aug ds = (if n_aug \<ge> n_max then [] else ds)"
  by (induction ds) auto

lemma mset_ranked_documents: "length (score docs) = length docs \<Longrightarrow> mset (ranked_documents score docs) = mset docs"
  unfolding ranked_documents_def mset_map by (simp flip: mset_map)

text \<open>
  The limit \<open>n_max_augmentations\<close> is not what the augmented prompt gets. With reranking every readable
  document is taken however small the limit is, because \<open>n_augmentations\<close> is not counted up; without
  reranking, missing documents are filled up with empty ones to the limit, and a negative limit
  throws.
\<close>

theorem select_documents_limit:
  assumes "0 < n_max" "length (score docs) = length docs"
  shows "(\<exists>ds. select_documents True n_max n_retrieve score docs = Inr ds \<and> mset ds = mset docs)
    \<and> select_documents False n_max n_retrieve score docs
      = Inr (if n_max < n_retrieve then take (nat n_max) docs @ replicate (nat n_max - length docs) '''' else docs)
    \<and> (m < 0 \<longrightarrow> m < n_retrieve \<longrightarrow> select_documents False m n_retrieve score docs = Inl (Throw ''length_error''))"
  using assms by (auto simp: select_documents_def take_ranked_all mset_ranked_documents resize_documents_def)

theorem select_documents_limit_witness:
  "\<exists>ds. select_documents True 1 7 (map (of_nat o length)) [''a'', ''bb'', ''ccc''] = Inr ds \<and> size (mset ds) = 3"
  using select_documents_limit [of 1 "map (of_nat o length)" "[''a'', ''bb'', ''ccc'']" 7] by fastforce

section \<open>The augmented prompt\<close>

definition user_delimiter :: string where
  "user_delimiter = ''<|im_start|>user''"

definition nl :: string where
  "nl = [CHR 0x0A]"

definition str_rfind :: "string \<Rightarrow> string \<Rightarrow> nat option" where
  "str_rfind word txt = List.find (\<lambda>i. take (length word) (drop i txt) = word) (rev [0..<length txt + 1])"

definition document_context :: "string list \<Rightarrow> string" where
  "document_context docs =
     (if docs = [] then ''''
      else ''Here is some relevant context to answer:'' @ nl @ concat (map (\<lambda>d. ''- '' @ d @ nl) docs))"

definition substr_from :: "nat \<Rightarrow> string \<Rightarrow> string res" where
  "substr_from p s = (if p \<le> length s then Inr (drop p s) else Inl Out_of_range)"

definition augment_prompt :: "string \<Rightarrow> string list \<Rightarrow> string res" where
  "augment_prompt prompt docs =
     (case str_rfind user_delimiter prompt of
        None \<Rightarrow> Inr (document_context docs @ prompt)
      | Some b \<Rightarrow>
          bind_res (substr_from (b + length user_delimiter + 1) prompt)
            (\<lambda>rest. Inr (take (length user_delimiter + 1) (drop b prompt) @ document_context docs @ nl @ rest)))"

lemma sublist_at: "take (length w) (drop i xs) = w \<Longrightarrow> sublist w xs"
  by (metis append_take_drop_id sublist_appendI)

lemma find_append_none: "List.find P xs = None \<Longrightarrow> List.find P (xs @ ys) = List.find P ys"
  by (induction xs) (auto split: if_splits)

lemma upt_split_at: "j < m \<Longrightarrow> [0..<m] = [0..<j] @ j # [Suc j..<m]"
  using upt_add_eq_append [of 0 j "m - j"] upt_conv_Cons [of j m] by simp

lemma str_rfind_last:
  assumes "\<not> sublist w (tl (w @ ys))" "w \<noteq> ''''"
  shows "str_rfind w (xs @ w @ ys) = Some (length xs)"
proof -
  let ?s = "xs @ w @ ys"
  let ?P = "\<lambda>i. take (length w) (drop i ?s) = w"
  have later: "\<not> ?P i" if "length xs < i" for i
  proof
    assume "?P i"
    moreover have "drop i ?s = drop (i - length xs - 1) (tl (w @ ys))"
      using that by (simp add: drop_Suc [symmetric] drop_tl) (metis Suc_diff_Suc drop_Suc)
    ultimately have "sublist w (tl (w @ ys))" using sublist_at by metis
    then show False using assms(1) by simp
  qed
  have split: "[0..<length ?s + 1] = [0..<length xs] @ length xs # [Suc (length xs)..<length ?s + 1]"
    by (rule upt_split_at) simp
  have "List.find ?P (rev [Suc (length xs)..<length ?s + 1]) = None"
    using later assms(2) by (auto simp: find_None_iff)
  then show ?thesis
    unfolding str_rfind_def split by (simp add: find_append_none)
qed

text \<open>
  C37. The augmented prompt consists of the last turn of the user with the retrieved texts in front of the
  question: everything before that turn is dropped, also the instructions of the system. A prompt
  without the delimiter gets the texts in front; one that ends with the delimiter makes the handler throw.
\<close>

theorem augment_prompt_last_turn:
  assumes "\<not> sublist user_delimiter (tl (user_delimiter @ rest))"
  shows "augment_prompt (before @ user_delimiter @ rest) docs
    = (case rest of [] \<Rightarrow> Inl Out_of_range
       | c # question \<Rightarrow> Inr (user_delimiter @ [c] @ document_context docs @ nl @ question))"
proof -
  have "str_rfind user_delimiter (before @ user_delimiter @ rest) = Some (length before)"
    using assms by (intro str_rfind_last) (simp_all add: user_delimiter_def)
  then show ?thesis by (cases rest) (simp_all add: augment_prompt_def substr_from_def)
qed

theorem augment_prompt_last_turn_witness:
  "augment_prompt (''<|im_start|>system Be brief.'' @ user_delimiter @ '' Why?'') [''Because.'']
   = Inr (user_delimiter @ '' Here is some relevant context to answer:'' @ nl @ ''- Because.'' @ nl @ nl @ ''Why?'')"
proof -
  have "\<not> sublist user_delimiter (tl (user_delimiter @ '' Why?''))" by code_simp
  from augment_prompt_last_turn [OF this, of "''<|im_start|>system Be brief.''" "[''Because.'']"]
  show ?thesis by (simp add: document_context_def)
qed

section \<open>get_brutal_chunking\<close>

text \<open>
  The chunking of a whole text at once, with size and overlap as \<open>int32_t\<close> arguments. An index outside the
  vectors is \<open>Out_of_range\<close>; the loop may not end.
\<close>

partial_function (option) brutal_loop ::
  "(int list \<Rightarrow> 'c) \<Rightarrow> embedding list \<Rightarrow> int list \<Rightarrow> int \<Rightarrow> int \<Rightarrow> int
     \<Rightarrow> (int \<times> int \<times> 'c \<times> embedding) list \<Rightarrow> (int \<times> int \<times> 'c \<times> embedding) list res option" where
  "brutal_loop detok vs toks sz ov i acc =
     (if i < int (length vs) then
        let n = min sz (int (length vs) - i) in
        if i < 0 \<or> int (length toks) < i + n then Some (Inl Out_of_range)
        else
          let c = (i, n, detok (take (nat n) (drop (nat i) toks)), chunk_vector (take (nat n) (drop (nat i) vs))) in
          if i + sz \<ge> int (length vs) then Some (Inr (acc @ [c]))
          else brutal_loop detok vs toks sz ov (i + (sz - ov)) (acc @ [c])
      else Some (Inr acc))"

definition get_brutal_chunking ::
  "(int list \<Rightarrow> 'c) \<Rightarrow> embedding list list \<Rightarrow> int list \<Rightarrow> int \<Rightarrow> int \<Rightarrow> (int \<times> int \<times> 'c \<times> embedding) list res option" where
  "get_brutal_chunking detok embeds toks sz ov =
     (if embeds = [] \<or> sz \<le> 0 then Some (Inr []) else brutal_loop detok (concat embeds) toks sz ov 0 [])"

text \<open>
  With an overlap as large as the chunks and a longer text the loop never ends.
\<close>

lemma brutal_loop_stuck:
  assumes "0 < sz" "sz < int (length vs)" "length vs \<le> length toks" "i = 0"
  shows "brutal_loop detok vs toks sz sz i acc = None"
proof (rule ccontr)
  assume "brutal_loop detok vs toks sz sz i acc \<noteq> None"
  then obtain y where "brutal_loop detok vs toks sz sz i acc = Some y" by blast
  then have "0 < sz \<longrightarrow> sz < int (length vs) \<longrightarrow> length vs \<le> length toks \<longrightarrow> i = 0 \<longrightarrow> sz = sz \<longrightarrow> False"
  proof (rule brutal_loop.raw_induct [where P = "\<lambda>detok vs toks sz ov i acc y.
      0 < sz \<longrightarrow> sz < int (length vs) \<longrightarrow> length vs \<le> length toks \<longrightarrow> i = 0 \<longrightarrow> ov = sz \<longrightarrow> False", rotated])
    fix f and detok :: "int list \<Rightarrow> 'a" and vs toks sz ov i acc y
    assume IH: "\<And>detok vs toks sz ov i acc y. f detok vs toks sz ov i acc = Some y \<Longrightarrow>
        0 < sz \<longrightarrow> sz < int (length vs) \<longrightarrow> length vs \<le> length toks \<longrightarrow> i = 0 \<longrightarrow> ov = sz \<longrightarrow> False"
      and eq: "(if i < int (length vs) then
        let n = min sz (int (length vs) - i) in
        if i < 0 \<or> int (length toks) < i + n then Some (Inl Out_of_range)
        else
          let c = (i, n, detok (take (nat n) (drop (nat i) toks)), chunk_vector (take (nat n) (drop (nat i) vs))) in
          if i + sz \<ge> int (length vs) then Some (Inr (acc @ [c]))
          else f detok vs toks sz ov (i + (sz - ov)) (acc @ [c])
      else Some (Inr acc)) = Some y"
    show "0 < sz \<longrightarrow> sz < int (length vs) \<longrightarrow> length vs \<le> length toks \<longrightarrow> i = 0 \<longrightarrow> ov = sz \<longrightarrow> False"
    proof (intro impI)
      assume a: "0 < sz" "sz < int (length vs)" "length vs \<le> length toks" "i = 0" "ov = sz"
      then have "\<exists>acc'. f detok vs toks sz sz 0 acc' = Some y"
        using eq by (intro exI) (auto simp: Let_def split: if_splits)
      then show False using IH a by blast
    qed
  qed
  then show False using assms by simp
qed

theorem brutal_chunking_diverges:
  assumes "0 < sz" "sz < int (length (concat embeds))" "length (concat embeds) \<le> length toks"
  shows "get_brutal_chunking detok embeds toks sz sz = None"
proof -
  have "embeds \<noteq> []" using assms(1,2) by auto
  then show ?thesis using brutal_loop_stuck [OF assms refl] assms(1) by (simp add: get_brutal_chunking_def)
qed

end
