(* ===== verification/Spec2Isabelle.thy ===== *)
theory Spec2Isabelle
  imports KvRecurrent KvState GrammarParser ServerSync Rag
begin

text \<open>
  A verification of the server and its inference core: how requests are scheduled on slots and their
  text is generated, how documents are indexed and prompts are augmented, how batches are cut and
  placed in the key-value cache, how the caches keep, move, save and restore the state of sequences,
  how a context decodes a batch, and how a grammar constrains what is sampled. All paths are below
  \<open>src/\<close> of the repository.

  \<^bold>\<open>The program.\<close> HTTP threads post tasks to the server (\<open>tools/server/server.cpp\<close>) and wait for their results. Its
  main loop launches every task on a slot, that is a sequence of the cache with a share of the context, or defers it;
  then it builds a batch from the next tokens of all slots, decodes it, samples, and streams
  the text. For retrieval, a document is cut into pieces, embedded and stored in overlapping windows,
  and the windows nearest to a question are put in front of it. The slots use the inference library: a client hands a \<open>llama_batch\<close> of tokens to \<open>llama_context::decode\<close> (\<open>src/llama-context.cpp\<close>). The
  batch is sorted into sequences and split into micro-batches (\<open>llama_sbatch\<close>, \<open>src/llama-batch.cpp\<close>). Every
  micro-batch gets a run of cells in the cache (\<open>llama_kv_cache_unified\<close> or \<open>llama_kv_cache_recurrent\<close>,
  \<open>src/llama-kv-cache.cpp\<close>), the compute graph is evaluated, and the rows of the outputs are collected; when
  a micro-batch cannot be placed, the cache is rolled back. Between batches, sequences are removed,
  copied, shifted and the cache is defragmented, or its state is written to and read from byte
  streams. When a token is sampled, a grammar (\<open>src/llama-grammar.cpp\<close>) masks the tokens that cannot continue
  the text, and the token chosen is fed back to it.

  \<^bold>\<open>The theories.\<close> Every theory opens with what it holds.

  \<^item> \<open>Prelude\<close>: 32-bit arithmetic, results with failures, loops over cells, counting and sorting.
  \<^item> \<open>Batch\<close>: \<open>llama_batch\<close>, \<open>llama_ubatch\<close>, \<open>llama_sbatch\<close> as records and its operations. \<open>BatchSplit\<close>: the three ways of splitting
    lose and repeat no token (C11).
  \<^item> \<open>KvUnified\<close>: the cells of the unified cache and all its operations on them, with their invariant \<open>kv_inv\<close>.
    \<open>KvContract\<close>: the interface \<open>llama_memory\<close> of the caches as a locale: what removing, copying and keeping
    sequences and the largest position mean for the set of occupied cells; it is interpreted for
    the unified cache there and for the recurrent cache in \<open>KvRecurrent\<close>. \<open>KvDefrag\<close>: the defragmentation plan.
    \<open>KvMachine\<close>: the cache as a state machine, reachable states and the properties C1 to C5 and C8.
  \<^item> \<open>Decode\<close>: \<open>llama_context::decode\<close> over the unified cache with the compute graph as a parameter, the mapping of
    outputs and the readers \<open>get_logits_ith\<close> and \<open>get_embeddings_ith\<close> (C9).
  \<^item> \<open>KvRecurrent\<close>: the cells and the table of tails of the recurrent cache, its operations, its state
    machine (C14 to C16).
  \<^item> \<open>StateIo\<close>: byte streams and the representation of integers and strings. \<open>KvState\<close>: writing and reading the
    state of the unified cache, cells and tensor rows, for all sequences or one (C19 to C21, C24).
  \<^item> \<open>Grammar\<close>: the pushdown engine over grammar elements: matching a character, expanding stacks, accepting code
    points, rejecting candidates; the language of a grammar and what the engine computes. \<open>GrammarLeft\<close>: the
    check for left recursion, the construction of a grammar (C26 to C29); the engine returns on all grammars without
    left recursion (\<open>no_left_recursion\<close>), which the check alone does not ensure (C29). \<open>GrammarUtf8\<close>: decoding UTF-8 in pieces,
    the grammar object, masking and accepting tokens, cloning (C30, C32 to C35). \<open>GrammarParser\<close>: the GBNF parser
    and the construction from text (C38, C39).
  \<^item> \<open>ServerTask\<close>: tasks, the queue of tasks and the queue of results; the latter implements the interface of mailboxes,
    a locale (C22). \<open>ServerText\<close>: a slot and the text it generates, with stop words and limits (C7). \<open>ServerSlots\<close>: the
    slots, the choice of one for a task and \<open>process_single_task\<close>. \<open>ServerPrompt\<close>: the parts of \<open>update_slots\<close> that shift
    a full context and start a prompt, with reuse of cached tokens: after them, the cache holds what the slot
    believes (C6, C25). \<open>ServerLoop\<close>: decoding the batch in views and the whole of \<open>update_slots\<close>, which refines releasing
    slots on the abstract state of the scheduler. \<open>ServerMachine\<close>: the server as a state machine: every task
    gets its turn (C10), and what is deferred for ever (\<open>deferred_stuck\<close>) or not cancelled (C18). \<open>ServerDecode\<close>: the loop over the views
    on top of the model of \<open>llama_context::decode\<close> ends, and every row of the batch gets into the cache once (C13). \<open>ServerSync\<close>:
    the server as a whole, with its cache: from its first look at idle slots on, for completions with the default
    \<open>n_discard\<close> and a graph that succeeds, it keeps what the slots remember and what the cells hold in step, does not
    fail (C12), and builds the batch the slots believe in (C31).
  \<^item> \<open>Rag\<close>: cutting documents, windows of embeddings, choice of documents, augmented prompts and the hexadecimal
    encoding of keys (C17, C23, C36, C37, C40).

  \<^bold>\<open>How code is represented.\<close> A struct is a record, an enumeration a datatype. Unsigned 32-bit counters are
  natural numbers with the wrap-around written out in \<open>u32_add\<close>, \<open>u32_sub\<close> and \<open>u32_mul\<close>; positions and sequence ids are
  integers; bytes of saved states are 8-bit words. A failed \<open>GGML_ASSERT\<close>, an exception and an access out of
  range are the failures \<open>Assert_fail\<close>, \<open>Throw\<close> and \<open>Out_of_range\<close> of the result type. A pointer into a rule of a grammar
  is the rule with an index; a pointer into a string is the rest of the string. An operation that
  changes an object takes it and returns the new one.

  \<^bold>\<open>Bounds.\<close> The search for a slot and the expansion of grammar stacks are loops that may not end; they are
  \<open>partial_function (option)\<close>, where \<open>None\<close> is not returning, and C2, C9 and C26 prove that they return (C29 proves of one
  grammar that it does not). Mutually recursive functions take a bound on their depth: one more than the
  number of rules for the check of left recursion (enough by C28), one more than the longest
  candidate for rejecting (enough by C27 and C34), one more than the length of the text for the parser
  (enough by C38). The inner loop of the server over its queue ends because only a cancel task brings a deferred
  task back. The loop over the views of a batch may not end when decoding does not; with the model of
  \<open>llama_context::decode\<close> it ends (C13), and \<open>update_slots\<close> as a whole returns (C12).

  \<^bold>\<open>Parameters.\<close> The compute graph (\<open>Decode\<close>), the pieces of tokens and which of them end the generation (the
  vocabulary), matching of regular expressions (\<open>accept_impl\<close>) are arguments of the definitions; only C12 and C31
  assume something of them, that the graph and its memory succeed. So are, for the server, decoding a view (C12, C13 and C31 take the model of \<open>Decode\<close>), sampling a token and its
  text (C12 and C31 assume that samples are tokens), building a sampler (C10 assumes that it succeeds), the similarity threshold and the files of saved slots; for retrieval, the text
  of tokens, the database (C23 and C40 assume that it accepts entries), decryption and the scores.

  \<^bold>\<open>What modelling showed.\<close> Besides the behaviour that is right, some properties state reachable misbehaviour:
  a second rollback of the unified cache wipes committed cells (\<open>restore_keeps_ranges\<close>), the recurrent cache mixes up
  states (\<open>rec_find_slot_mixes\<close>) and keeps stale tails (\<open>rec_rm_all_stale\<close>), a truncated state leaves cells behind
  (\<open>state_read_truncated\<close>), an empty sequence cannot be restored (\<open>state_seq_empty\<close>), pending shifts are not saved
  (\<open>state_write_ignores_shift\<close>), left recursion is missed (C29), partial characters are rejected at negated classes
  (\<open>partial_char_negated\<close>), the bytes C0 80 are let through (\<open>overlong_nul\<close>), a grammar without a start rule crashes
  (\<open>undefined_root\<close>). In the server, a task that cannot be launched or frees no slot leaves the tasks behind it deferred
  (\<open>deferred_stuck\<close>), a batch that fails leaves its tokens to the slot but not to the cache (\<open>decode_failure_stale\<close>), so
  does the first look at idle slots after an early request (\<open>first_idle_clears\<close>), cancelling keeps requests that have not started (C18), \<open>n_discard\<close> is not checked (\<open>context_shift_discard\<close>),
  text held back for a stop word is lost at the end of the generation (\<open>stream_loses_tail\<close>), a stop word is
  missed after an incomplete character (\<open>stop_word_missed\<close>). In retrieval, the end of a long document is never indexed (C40),
  reranking ignores the limit of documents (\<open>select_documents_limit\<close>), a chunking with too large an overlap does not end
  (\<open>brutal_chunking_diverges\<close>), keys that are not hexadecimal are accepted (\<open>hex_lenient\<close>).

  \<^bold>\<open>Not modelled.\<close> Tensor arithmetic and the building of compute graphs (\<open>ggml\<close>, \<open>llama-graph.cpp\<close>, \<open>llama-model.cpp\<close>), which
  compute floating-point values on external back ends; loading, quantizing and mapping of model files;
  the tokenizers of \<open>llama-vocab.cpp\<close>; the samplers other than the grammar; encoder models, the warm-up and
  performance counters of \<open>llama_context\<close>; reading and writing the state of the recurrent cache; printing of
  grammars; in the server, HTTP, JSON, images, speculative decoding, probabilities of tokens and metrics; SQL, encryption and
  certificates; command-line tools, examples and the libraries they vendor.
\<close>

end
